(* ===== verification/Prelude.thy ===== *)
theory Prelude
  imports Main "HOL-Library.Word"
begin

text \<open>
  Shared vocabulary of the development: the machine-integer types of the C++ sources, byte
  strings (\<^verbatim>\<open>std::string\<close> and \<^verbatim>\<open>char*\<close> buffers are lists of 8-bit words), the host-endian integer codec
  of \<^verbatim>\<open>src/utils/net_util.h\<close> (little endian on every supported deployment), and the generic
  lemmas on lists, indexed updates and words that the component theories share.
\<close>

unbundle bit_operations_syntax

type_synonym u8 = "8 word"
type_synonym u16 = "16 word"
type_synonym u32 = "32 word"
type_synonym u64 = "64 word"
type_synonym bytes = "u8 list"

named_theorems codec_simps \<open>sizes and round trips of the fixed-width codecs\<close>
named_theorems table_simps \<open>reading a table after one entry was modified\<close>

abbreviation ascii :: "string \<Rightarrow> bytes" where
  "ascii s \<equiv> map of_char s"

definition UINT32_MAX :: nat where
  "UINT32_MAX = 4294967295"

definition UINT64_MAX :: nat where
  "UINT64_MAX = 18446744073709551615"

subsection \<open>Little-endian words\<close>

definition le_bytes :: "nat \<Rightarrow> 'a::len word \<Rightarrow> bytes" where
  "le_bytes n v = map (\<lambda>i. ucast (drop_bit (8 * i) v)) [0..<n]"

fun le_word :: "bytes \<Rightarrow> 'a::len word" where
  "le_word [] = 0"
| "le_word (b # bs) = ucast b OR push_bit 8 (le_word bs)"

definition PutU64 :: "u64 \<Rightarrow> bytes" where
  "PutU64 v = le_bytes 8 v"

definition PutU32 :: "u32 \<Rightarrow> bytes" where
  "PutU32 v = le_bytes 4 v"

definition GetU64 :: "bytes \<Rightarrow> nat \<Rightarrow> u64" where
  "GetU64 p off = le_word (take 8 (drop off p))"

definition GetU32 :: "bytes \<Rightarrow> nat \<Rightarrow> u32" where
  "GetU32 p off = le_word (take 4 (drop off p))"

lemma bit_le_word:
  "bit (le_word bs :: 'a::len word) i \<longleftrightarrow>
     i < LENGTH('a) \<and> i div 8 < length bs \<and> bit (bs ! (i div 8)) (i mod 8)"
proof (induction bs arbitrary: i)
  case (Cons b bs)
  show ?case
  proof (cases "i < 8")
    case True
    then show ?thesis by (auto simp: bit_simps)
  next
    case False
    then have "i div 8 = Suc ((i - 8) div 8)" "i mod 8 = (i - 8) mod 8"
      by (simp_all add: le_div_geq le_mod_geq)
    moreover from False have "\<not> bit b i" by (auto dest: bit_imp_le_length)
    ultimately show ?thesis using False by (auto simp: bit_simps Cons)
  qed
qed simp

lemma length_le_bytes [simp]: "length (le_bytes n v) = n"
  by (simp add: le_bytes_def)

lemma le_word_le_bytes:
  "LENGTH('a) \<le> 8 * n \<Longrightarrow> le_word (le_bytes n (v :: 'a::len word)) = v"
  by (rule bit_word_eqI) (auto simp: bit_le_word le_bytes_def bit_simps)

lemma le_bytes_le_word:
  assumes "8 * length bs \<le> LENGTH('a)" and "n = length bs"
  shows "le_bytes n (le_word bs :: 'a::len word) = bs"
proof (rule nth_equalityI)
  fix i assume i: "i < length (le_bytes n (le_word bs :: 'a word))"
  show "le_bytes n (le_word bs :: 'a word) ! i = bs ! i"
  proof (rule bit_word_eqI)
    fix k assume "k < LENGTH(8)"
    then show "bit (le_bytes n (le_word bs :: 'a word) ! i) k = bit (bs ! i) k"
      using i assms by (auto simp: le_bytes_def bit_simps bit_le_word)
  qed
qed (use assms in simp)

lemma length_PutU64 [simp, codec_simps]: "length (PutU64 v) = 8"
  by (simp add: PutU64_def)

lemma length_PutU32 [simp, codec_simps]: "length (PutU32 v) = 4"
  by (simp add: PutU32_def)

lemma PutU64_not_Nil [simp]: "PutU64 v \<noteq> []"
  using length_PutU64 [of v] by (metis list.size(3) zero_neq_numeral)

lemma PutU32_not_Nil [simp]: "PutU32 v \<noteq> []"
  using length_PutU32 [of v] by (metis list.size(3) zero_neq_numeral)

lemma le_word_PutU64 [simp]: "le_word (PutU64 v) = v"
  by (simp add: PutU64_def le_word_le_bytes)

lemma le_word_PutU32 [simp]: "le_word (PutU32 v) = v"
  by (simp add: PutU32_def le_word_le_bytes)

lemma GetU64_PutU64 [codec_simps]: "length pre = off \<Longrightarrow> GetU64 (pre @ PutU64 v @ rest) off = v"
  by (simp add: GetU64_def)

lemma GetU32_PutU32 [codec_simps]: "length pre = off \<Longrightarrow> GetU32 (pre @ PutU32 v @ rest) off = v"
  by (simp add: GetU32_def)

lemma PutU64_inject [simp]: "PutU64 a = PutU64 b \<longleftrightarrow> a = b"
  by (metis le_word_PutU64)

lemma PutU32_inject [simp]: "PutU32 a = PutU32 b \<longleftrightarrow> a = b"
  by (metis le_word_PutU32)

text \<open>Reading past a fixed-width field: the offset is reduced by the field's width.\<close>

lemma drop_PutU64 [codec_simps]: "8 \<le> n \<Longrightarrow> drop n (PutU64 v @ rest) = drop (n - 8) rest"
  by simp

lemma drop_PutU32 [codec_simps]: "4 \<le> n \<Longrightarrow> drop n (PutU32 v @ rest) = drop (n - 4) rest"
  by simp

lemma take_PutU64 [codec_simps]: "take 8 (PutU64 v @ rest) = PutU64 v"
  by simp

lemma take_PutU32 [codec_simps]: "take 4 (PutU32 v @ rest) = PutU32 v"
  by simp

lemma PutU64_take_drop:
  "off + 8 \<le> length p \<Longrightarrow> PutU64 (GetU64 p off) = take 8 (drop off p)"
  by (simp add: PutU64_def GetU64_def le_bytes_le_word)

lemma PutU32_take_drop:
  "off + 4 \<le> length p \<Longrightarrow> PutU32 (GetU32 p off) = take 4 (drop off p)"
  by (simp add: PutU32_def GetU32_def le_bytes_le_word)

subsection \<open>Tables modified in place\<close>

text \<open>
  \<open>upd_nth xs i f\<close> is \<^verbatim>\<open>f(xs[i])\<close> performed on the element in place; an index past the end
  changes nothing (the sources only index inside the table, which the invariants establish).
\<close>

definition upd_nth :: "'a list \<Rightarrow> nat \<Rightarrow> ('a \<Rightarrow> 'a) \<Rightarrow> 'a list" where
  "upd_nth xs i f = xs[i := f (xs ! i)]"

lemma length_upd_nth [simp, table_simps]: "length (upd_nth xs i f) = length xs"
  by (simp add: upd_nth_def)

lemma nth_upd_nth [table_simps]:
  "i < length xs \<Longrightarrow> upd_nth xs i f ! j = (if j = i then f (xs ! i) else xs ! j)"
  by (simp add: upd_nth_def nth_list_update)

lemma nth_upd_nth_other [simp]: "j \<noteq> i \<Longrightarrow> upd_nth xs i f ! j = xs ! j"
  by (simp add: upd_nth_def)

lemma nth_upd_nth_same [simp]: "i < length xs \<Longrightarrow> upd_nth xs i f ! i = f (xs ! i)"
  by (simp add: upd_nth_def)

lemma nth_list_upd: "xs[i := x] ! j = (if j = i \<and> i < length xs then x else xs ! j)"
  by (cases "i < length xs") (auto simp: nth_list_update list_update_beyond)

lemma nth_upd: "upd_nth xs i f ! j = (if j = i \<and> i < length xs then f (xs ! i) else xs ! j)"
  by (simp add: upd_nth_def nth_list_upd)

lemma upd_nth_field:
  assumes "\<And>x. sel (f x) = sel x"
  shows "sel (upd_nth xs i f ! j) = sel (xs ! j)"
  using assms by (cases "i < length xs") (auto simp: upd_nth_def nth_list_update list_update_beyond)

subsection \<open>Sums and counts over finite index sets\<close>

lemma card_Collect_less [simp]: "card {i. i < (n::nat)} = n"
  by simp

lemma sum_upd_insert:
  fixes f :: "'a \<Rightarrow> nat"
  assumes "finite A" "x \<notin> A" "\<And>y. y \<in> A \<Longrightarrow> g y = f y"
  shows "sum g (insert x A) = g x + sum f A"
  using assms by (simp cong: sum.cong)

lemma sum_upd_remove:
  fixes f :: "'a \<Rightarrow> nat"
  assumes "finite A" "x \<in> A" "\<And>y. y \<in> A \<Longrightarrow> y \<noteq> x \<Longrightarrow> g y = f y"
  shows "sum g (A - {x}) = sum f A - f x"
proof -
  have "sum g (A - {x}) = sum f (A - {x})" using assms by (intro sum.cong) auto
  also have "\<dots> = sum f A - f x" using assms by (simp add: sum_diff1_nat)
  finally show ?thesis .
qed

end
