(* ===== verification/Kv_Types.thy ===== *)
theory Kv_Types
  imports Prelude
begin

text \<open>
  The tenant-scoped block identity of \<^verbatim>\<open>src/common/kv_types.h\<close> and the status code of
  \<^verbatim>\<open>src/common/status.h\<close>. A file name is the 48-digit lower-case hexadecimal image of
  the three identity words; parsing it back is the inverse on exactly those names.
\<close>

record BlockKey =
  digest_hi :: u64
  digest_lo :: u64
  tenant_hash :: u64

datatype Status = kOk | kNotFound | kCacheFull | kQuotaExceeded | kIOError | kInvalid
  | kResourceExhausted | kNoCompatibleRail

fun status_byte :: "Status \<Rightarrow> u8" where
  "status_byte kOk = 0"
| "status_byte kNotFound = 1"
| "status_byte kCacheFull = 2"
| "status_byte kQuotaExceeded = 3"
| "status_byte kIOError = 4"
| "status_byte kInvalid = 5"
| "status_byte kResourceExhausted = 6"
| "status_byte kNoCompatibleRail = 7"

fun StatusName :: "Status \<Rightarrow> string" where
  "StatusName kOk = ''Ok''"
| "StatusName kNotFound = ''NotFound''"
| "StatusName kCacheFull = ''CacheFull''"
| "StatusName kQuotaExceeded = ''QuotaExceeded''"
| "StatusName kIOError = ''IOError''"
| "StatusName kInvalid = ''Invalid''"
| "StatusName kResourceExhausted = ''ResourceExhausted''"
| "StatusName kNoCompatibleRail = ''NoCompatibleRail''"

subsection \<open>File names\<close>

text \<open>\<^verbatim>\<open>snprintf("%016llx")\<close>: sixteen lower-case digits, most significant nibble first.\<close>

definition hex_digit :: "u64 \<Rightarrow> u8" where
  "hex_digit n = (if n < 10 then 48 + ucast n else 87 + ucast n)"

definition Hex64 :: "u64 \<Rightarrow> bytes" where
  "Hex64 value = map (\<lambda>i. hex_digit (drop_bit (4 * (15 - i)) value AND 15)) [0..<16]"

definition DigestHex :: "BlockKey \<Rightarrow> bytes" where
  "DigestHex k = Hex64 (digest_hi k) @ Hex64 (digest_lo k)"

definition Filename :: "BlockKey \<Rightarrow> bytes" where
  "Filename k = Hex64 (tenant_hash k) @ DigestHex k"

definition hex_nibble :: "u8 \<Rightarrow> u64 option" where
  "hex_nibble c =
     (if 48 \<le> c \<and> c \<le> 57 then Some (ucast (c - 48))
      else if 97 \<le> c \<and> c \<le> 102 then Some (ucast (c - 97 + 10))
      else None)"

fun parse_hex :: "u64 \<Rightarrow> bytes \<Rightarrow> u64 option" where
  "parse_hex parsed [] = Some parsed"
| "parse_hex parsed (c # cs) =
     (case hex_nibble c of None \<Rightarrow> None
      | Some nibble \<Rightarrow> parse_hex (push_bit 4 parsed OR nibble) cs)"

definition ParseFilename :: "bytes \<Rightarrow> BlockKey option" where
  "ParseFilename filename =
     (if length filename \<noteq> 48 then None
      else case parse_hex 0 (take 16 filename) of None \<Rightarrow> None
      | Some th \<Rightarrow> (case parse_hex 0 (take 16 (drop 16 filename)) of None \<Rightarrow> None
      | Some hi \<Rightarrow> (case parse_hex 0 (take 16 (drop 32 filename)) of None \<Rightarrow> None
      | Some lo \<Rightarrow> Some \<lparr>digest_hi = hi, digest_lo = lo, tenant_hash = th\<rparr>)))"

definition StoreKey :: "BlockKey \<Rightarrow> bytes" where
  "StoreKey k =
     (let filename = Filename k
      in ascii ''blocks/'' @ take 2 filename @ ascii ''/'' @ take 4 filename @ ascii ''/'' @ filename)"


subsection \<open>The hexadecimal codec\<close>

text \<open>The digits of the low \<open>n\<close> nibbles, by recursion on the least significant one.\<close>

fun hexn :: "nat \<Rightarrow> u64 \<Rightarrow> bytes" where
  "hexn 0 v = []"
| "hexn (Suc n) v = hexn n (drop_bit 4 v) @ [hex_digit (v AND 15)]"

lemma hexn_eq: "hexn n v = map (\<lambda>i. hex_digit (drop_bit (4 * (n - 1 - i)) v AND 15)) [0..<n]"
proof (induction n arbitrary: v)
  case (Suc n)
  have "4 + 4 * (n - Suc i) = 4 * (n - i)" if "i < n" for i
    using that by (simp add: algebra_simps)
  then show ?case by (auto simp: Suc drop_bit_drop_bit ac_simps)
qed simp

lemma Hex64_hexn: "Hex64 v = hexn 16 v"
  by (simp only: hexn_eq Hex64_def) simp

lemma length_hexn [simp]: "length (hexn n v) = n"
  by (induction n arbitrary: v) auto

lemma length_Hex64 [simp]: "length (Hex64 v) = 16"
  by (simp add: Hex64_hexn)

lemma nibble_less: "(v AND 15 :: u64) < 16"
proof -
  have "v AND 15 \<le> (15 :: u64)" by (rule word_and_le1)
  then show ?thesis by unat_arith
qed

lemma word_in_enum: "unat (w :: 'a::len word) \<in> set ns \<Longrightarrow> w \<in> set (map of_nat ns)"
  by (auto intro!: image_eqI [of _ _ "unat w"])

lemma hex_nibble_digit: "n < 16 \<Longrightarrow> hex_nibble (hex_digit n) = Some n"
proof -
  assume "n < 16"
  then have "unat n \<in> set [0..<16]" by (simp add: word_less_nat_alt)
  from word_in_enum [OF this] show ?thesis
    by (auto simp: upt_rec hex_digit_def hex_nibble_def)
qed

lemma hex_digit_nibble: "hex_nibble c = Some n \<Longrightarrow> hex_digit n = c \<and> take_bit 4 n = n"
proof -
  assume a: "hex_nibble c = Some n"
  then have "unat c \<in> {48..<58} \<union> {97..<103}"
    by (auto simp: hex_nibble_def word_le_nat_alt simp del: One_nat_def split: if_splits)
  then have "unat c \<in> set ([48..<58] @ [97..<103])" by (simp only: set_append set_upt)
  from word_in_enum [OF this] show ?thesis using a
    by (auto simp: upt_rec hex_digit_def hex_nibble_def)
qed

lemma parse_hex_append:
  "parse_hex a (xs @ ys) = (case parse_hex a xs of None \<Rightarrow> None | Some b \<Rightarrow> parse_hex b ys)"
  by (induction xs arbitrary: a) (auto split: option.splits)

lemma nibble_split: "push_bit 4 (take_bit n (drop_bit 4 v)) OR (v AND 15) = take_bit (n + 4) (v :: u64)"
proof (rule bit_word_eqI)
  fix i assume "i < LENGTH(64)"
  have "v AND 15 = take_bit 4 v" by (simp add: take_bit_eq_mask mask_eq_exp_minus_1)
  then show "bit (push_bit 4 (take_bit n (drop_bit 4 v)) OR (v AND 15)) i = bit (take_bit (n + 4) v) i"
    using \<open>i < LENGTH(64)\<close> by (auto simp: bit_simps)
qed

lemma parse_hex_hexn: "parse_hex 0 (hexn n v) = Some (take_bit (4 * n) v)"
proof (induction n arbitrary: v)
  case (Suc n)
  then show ?case
    by (simp add: parse_hex_append hex_nibble_digit nibble_less nibble_split add.commute)
qed simp

lemma parse_hex_Hex64: "parse_hex 0 (Hex64 v) = Some v"
  by (simp add: Hex64_hexn parse_hex_hexn take_bit_word_eq_self)

lemma and_15: "x AND 15 = take_bit 4 (x :: u64)"
  by (simp add: take_bit_eq_mask mask_eq_exp_minus_1)

lemma nibble_join:
  assumes "take_bit 4 n = n" and "take_bit 60 v = (v :: u64)"
  shows "drop_bit 4 (push_bit 4 v OR n) = v" and "(push_bit 4 v OR n) AND 15 = n"
proof -
  have "drop_bit 4 (push_bit 4 (take_bit 60 v) OR take_bit 4 n) = take_bit 60 v"
    by (rule bit_word_eqI) (auto simp: bit_simps)
  then show "drop_bit 4 (push_bit 4 v OR n) = v" using assms by simp
  have "take_bit 4 (push_bit 4 v OR take_bit 4 n) = take_bit 4 n"
    by (rule bit_word_eqI) (auto simp: bit_simps)
  then show "(push_bit 4 v OR n) AND 15 = n" using assms by (simp add: and_15)
qed

lemma hexn_parse_hex:
  "parse_hex 0 cs = Some v \<Longrightarrow> length cs \<le> 16 \<Longrightarrow>
     hexn (length cs) v = cs \<and> take_bit (4 * length cs) v = v"
proof (induction cs arbitrary: v rule: rev_induct)
  case (snoc c cs)
  then obtain w n where w: "parse_hex 0 cs = Some w" and n: "hex_nibble c = Some n"
    and v: "v = push_bit 4 w OR n"
    by (auto simp: parse_hex_append split: option.splits)
  from snoc w have IH: "hexn (length cs) w = cs" "take_bit (4 * length cs) w = w" by auto
  have "take_bit 60 (take_bit (4 * length cs) w) = take_bit (4 * length cs) w"
    using snoc.prems(2) by (simp add: take_bit_take_bit min_def)
  then have w60: "take_bit 60 w = w" by (simp only: IH(2))
  have lt: "take_bit 4 n = n" "hex_digit n = c" using hex_digit_nibble [OF n] by auto
  note j = nibble_join [OF lt(1) w60, folded v]
  have "take_bit (4 * length cs + 4) v = push_bit 4 (take_bit (4 * length cs) (drop_bit 4 v)) OR (v AND 15)"
    by (simp only: nibble_split)
  also have "\<dots> = v" by (simp only: j IH(2)) (simp only: v)
  finally show ?case using IH(1) lt(2) by (simp add: j add.commute)
qed simp

lemma Hex64_parse_hex: "parse_hex 0 cs = Some v \<Longrightarrow> length cs = 16 \<Longrightarrow> Hex64 v = cs"
  using hexn_parse_hex [of cs v] by (simp add: Hex64_hexn)

lemma ParseFilename_Filename: "ParseFilename (Filename k) = Some k"
  by (simp add: ParseFilename_def Filename_def DigestHex_def parse_hex_Hex64)

lemma Filename_ParseFilename: "ParseFilename f = Some k \<Longrightarrow> Filename k = f"
proof -
  assume a: "ParseFilename f = Some k"
  then have len: "length f = 48" by (auto simp: ParseFilename_def split: if_splits)
  with a have "Hex64 (tenant_hash k) = take 16 f" "Hex64 (digest_hi k) = take 16 (drop 16 f)"
    "Hex64 (digest_lo k) = take 16 (drop 32 f)"
    by (auto simp: ParseFilename_def intro: Hex64_parse_hex split: if_splits option.splits)
  moreover have "f = take 16 f @ take 16 (drop 16 f) @ take 16 (drop 32 f)"
  proof -
    have "f = take (16 + (16 + 16)) f" using len by simp
    then show ?thesis by (simp only: take_add drop_drop) simp
  qed
  ultimately show ?thesis by (simp add: Filename_def DigestHex_def)
qed

end
