(* ===== verification/Flat_Key_Index.thy ===== *)
theory Flat_Key_Index
  imports Kv_Types
begin

text \<open>
  \<^verbatim>\<open>SlabAllocator::FlatKeyIndex\<close> of \<^verbatim>\<open>src/cache/slab_allocator.cc\<close>: the open-addressing hash table
  with tombstones that maps a resident's key to its slot-metadata index. The table is a
  list of entries whose length is zero or a power of two; the probe loops run over at most
  one lap. The abstraction is the finite map \<^verbatim>\<open>key -> value\<close> read by \<open>Find\<close>.
\<close>

datatype entry_state = Empty | Occupied | Tombstone

record index_entry =
  fe_key :: BlockKey
  fe_value :: nat
  fe_state :: entry_state

record flat_index =
  entries :: "index_entry list"
  fi_size :: nat
  fi_tombstones :: nat
  fi_table_allocations :: nat
  fi_rehashes :: nat

definition kNoSlot :: nat where
  "kNoSlot = UINT32_MAX"

definition empty_entry :: index_entry where
  "empty_entry = \<lparr>fe_key = \<lparr>digest_hi = 0, digest_lo = 0, tenant_hash = 0\<rparr>,
     fe_value = kNoSlot, fe_state = Empty\<rparr>"

definition empty_index :: flat_index where
  "empty_index = \<lparr>entries = [], fi_size = 0, fi_tombstones = 0, fi_table_allocations = 0, fi_rehashes = 0\<rparr>"

definition hash_mix :: "u64 \<Rightarrow> u64" where
  "hash_mix value0 =
     (let value1 = value0 XOR drop_bit 30 value0;
          value2 = value1 * 0xbf58476d1ce4e5b9;
          value3 = value2 XOR drop_bit 27 value2;
          value4 = value3 * 0x94d049bb133111eb
      in value4 XOR drop_bit 31 value4)"

definition Hash :: "BlockKey \<Rightarrow> u64" where
  "Hash key =
     (let h0 = hash_mix (digest_hi key + 0x9e3779b97f4a7c15);
          h1 = h0 XOR hash_mix (digest_lo key + 0x3c6ef372fe94f82a);
          h2 = h1 XOR hash_mix (tenant_hash key + 0xdaa66d2c7ddef743)
      in hash_mix h2)"

text \<open>\<^verbatim>\<open>static_cast<size_t>(Hash(key)) & mask\<close> and \<^verbatim>\<open>(bucket + 1) & mask\<close> for a table of \<open>cap\<close> entries.\<close>

definition hash_bucket :: "nat \<Rightarrow> BlockKey \<Rightarrow> nat" where
  "hash_bucket cap key = unat (Hash key) AND (cap - 1)"

definition next_bucket :: "nat \<Rightarrow> nat \<Rightarrow> nat" where
  "next_bucket cap bucket = (bucket + 1) AND (cap - 1)"

definition BucketForTest :: "flat_index \<Rightarrow> BlockKey \<Rightarrow> nat" where
  "BucketForTest t key = (if entries t = [] then 0 else hash_bucket (length (entries t)) key)"

text \<open>The probe loop of \<open>Find\<close>: at most \<open>n\<close> more entries; the position of the entry holding the key.\<close>

fun find_loop :: "index_entry list \<Rightarrow> BlockKey \<Rightarrow> nat \<Rightarrow> nat \<Rightarrow> nat option" where
  "find_loop es key bucket 0 = None"
| "find_loop es key bucket (Suc n) =
     (let entry = es ! bucket in
      if fe_state entry = Empty then None
      else if fe_state entry = Occupied \<and> fe_key entry = key then Some bucket
      else find_loop es key (next_bucket (length es) bucket) n)"

definition FindBucket :: "flat_index \<Rightarrow> BlockKey \<Rightarrow> nat option" where
  "FindBucket t key =
     (if entries t = [] then None
      else find_loop (entries t) key (hash_bucket (length (entries t)) key) (length (entries t)))"

definition Find :: "flat_index \<Rightarrow> BlockKey \<Rightarrow> nat option" where
  "Find t key = map_option (\<lambda>b. fe_value (entries t ! b)) (FindBucket t key)"

text \<open>
  \<open>Rehash\<close>: grow the capacity by doubling from 16, then copy every occupied entry to the
  first bucket of its probe sequence that is not occupied. The inner \<^verbatim>\<open>while\<close> is bounded by one
  lap; \<open>free_loop_finds\<close> below shows that one lap always meets a free bucket.
\<close>

function grow_capacity :: "nat \<Rightarrow> nat \<Rightarrow> nat" where
  "grow_capacity capacity requested =
     (if 0 < capacity \<and> capacity < requested then grow_capacity (capacity * 2) requested else capacity)"
  by pat_completeness auto
termination
  by (relation "measure (\<lambda>(c, r). r - c)") auto

fun free_loop :: "index_entry list \<Rightarrow> nat \<Rightarrow> nat \<Rightarrow> nat" where
  "free_loop es bucket 0 = bucket"
| "free_loop es bucket (Suc n) =
     (if fe_state (es ! bucket) = Occupied then free_loop es (next_bucket (length es) bucket) n
      else bucket)"

definition rehash_one :: "index_entry list \<Rightarrow> index_entry \<Rightarrow> index_entry list" where
  "rehash_one replacement old =
     (if fe_state old \<noteq> Occupied then replacement
      else replacement[free_loop replacement (hash_bucket (length replacement) (fe_key old))
             (length replacement) := old])"

definition Rehash :: "flat_index \<Rightarrow> nat \<Rightarrow> flat_index" where
  "Rehash t requested_capacity =
     (let capacity = grow_capacity 16 requested_capacity
      in t\<lparr>entries := foldl rehash_one (replicate capacity empty_entry) (entries t),
           fi_tombstones := 0,
           fi_table_allocations := fi_table_allocations t + 1,
           fi_rehashes := fi_rehashes t + 1\<rparr>)"

function reserve_capacity :: "nat \<Rightarrow> nat \<Rightarrow> nat" where
  "reserve_capacity expected_size capacity =
     (if 0 < capacity \<and> expected_size > (capacity * 7) div 10
      then reserve_capacity expected_size (capacity * 2) else capacity)"
  by pat_completeness auto
termination
proof (relation "measure (\<lambda>(e, c). 2 * e - c)")
  fix expected_size capacity :: nat
  assume "0 < capacity \<and> expected_size > (capacity * 7) div 10"
  then show "((expected_size, capacity * 2), expected_size, capacity) \<in> measure (\<lambda>(e, c). 2 * e - c)"
    by auto
qed simp

definition Reserve :: "flat_index \<Rightarrow> nat \<Rightarrow> flat_index" where
  "Reserve t expected_size =
     (let capacity = reserve_capacity expected_size
            (if entries t = [] then 16 else length (entries t))
      in if entries t = [] \<or> capacity \<noteq> length (entries t) \<or>
            (fi_tombstones t \<noteq> 0 \<and>
             (expected_size + fi_tombstones t > (capacity * 7) div 10 \<or>
              fi_tombstones t > capacity div 4))
         then Rehash t capacity else t)"

text \<open>The probe loop of \<open>Insert\<close>: the bucket to fill, remembering the first tombstone passed.\<close>

fun insert_loop :: "index_entry list \<Rightarrow> nat \<Rightarrow> nat \<Rightarrow> nat \<Rightarrow> nat option" where
  "insert_loop es bucket tombstone 0 = None"
| "insert_loop es bucket tombstone (Suc n) =
     (if fe_state (es ! bucket) = Empty
      then Some (if tombstone = length es then bucket else tombstone)
      else insert_loop es (next_bucket (length es) bucket)
             (if fe_state (es ! bucket) = Tombstone \<and> tombstone = length es then bucket else tombstone) n)"

definition Insert :: "flat_index \<Rightarrow> BlockKey \<Rightarrow> nat \<Rightarrow> bool \<times> flat_index" where
  "Insert t key value0 =
     (case FindBucket t key of
        Some b \<Rightarrow> (False, t\<lparr>entries := upd_nth (entries t) b (fe_value_update (\<lambda>_. value0))\<rparr>)
      | None \<Rightarrow>
          (let t1 = Reserve t (fi_size t + 1);
               es = entries t1
           in case insert_loop es (hash_bucket (length es) key) (length es) (length es) of
                None \<Rightarrow> (False, t1)
              | Some target \<Rightarrow>
                  (True, t1\<lparr>entries := es[target := \<lparr>fe_key = key, fe_value = value0, fe_state = Occupied\<rparr>],
                     fi_tombstones := (if fe_state (es ! target) = Tombstone then fi_tombstones t1 - 1
                                       else fi_tombstones t1),
                     fi_size := fi_size t1 + 1\<rparr>)))"

definition Erase :: "flat_index \<Rightarrow> BlockKey \<Rightarrow> bool \<times> flat_index" where
  "Erase t key =
     (case FindBucket t key of
        None \<Rightarrow> (False, t)
      | Some b \<Rightarrow>
          (True, t\<lparr>entries := upd_nth (entries t) b (\<lambda>e. e\<lparr>fe_state := Tombstone, fe_value := kNoSlot\<rparr>),
                   fi_size := fi_size t - 1,
                   fi_tombstones := fi_tombstones t + 1\<rparr>))"


declare grow_capacity.simps [simp del] reserve_capacity.simps [simp del]

subsection \<open>Probe sequences\<close>

text \<open>The \<open>j\<close>-th bucket of the probe sequence that starts at \<open>b\<close> in a table of \<open>cap\<close> entries.\<close>

definition probe :: "nat \<Rightarrow> nat \<Rightarrow> nat \<Rightarrow> nat" where
  "probe cap b j = (b + j) mod cap"

definition pow2 :: "nat \<Rightarrow> bool" where
  "pow2 n \<longleftrightarrow> (\<exists>m. n = 2 ^ m)"

lemma pow2_pos: "pow2 n \<Longrightarrow> 0 < n"
  by (auto simp: pow2_def)

lemma and_pow2_minus_1: "pow2 cap \<Longrightarrow> b AND (cap - Suc 0) = b mod (cap :: nat)"
  by (auto simp: pow2_def take_bit_eq_mask mask_eq_exp_minus_1 simp flip: take_bit_eq_mod)

lemma next_bucket_mod: "pow2 cap \<Longrightarrow> next_bucket cap b = Suc b mod cap"
  by (simp add: next_bucket_def and_pow2_minus_1)

lemma hash_bucket_less: "pow2 cap \<Longrightarrow> hash_bucket cap k < cap"
  by (simp add: hash_bucket_def and_pow2_minus_1 pow2_pos)

lemma probe_0: "b < cap \<Longrightarrow> probe cap b 0 = b"
  by (simp add: probe_def)

lemma probe_next: "pow2 cap \<Longrightarrow> probe cap (next_bucket cap b) j = probe cap b (Suc j)"
  by (simp add: probe_def next_bucket_mod mod_simps)

lemma next_bucket_less: "pow2 cap \<Longrightarrow> next_bucket cap b < cap"
  by (simp add: next_bucket_mod pow2_pos)

lemma probe_less: "pow2 cap \<Longrightarrow> probe cap b j < cap"
  by (simp add: probe_def pow2_pos)

text \<open>A whole lap visits every bucket.\<close>

lemma probe_covers:
  assumes "pow2 cap" "b < cap" "c < cap"
  shows "\<exists>j<cap. probe cap b j = c"
proof (cases "b \<le> c")
  case True
  then show ?thesis using assms by (intro exI [of _ "c - b"]) (auto simp: probe_def)
next
  case False
  then show ?thesis using assms by (intro exI [of _ "cap + c - b"]) (auto simp: probe_def)
qed

text \<open>The three loops stop at the first bucket of the sequence with a given property.\<close>

lemma find_loop_Some:
  assumes "pow2 (length es)" "b < length es"
  shows "find_loop es key b n = Some c \<longleftrightarrow>
    (\<exists>j<n. c = probe (length es) b j \<and> fe_state (es ! c) = Occupied \<and> fe_key (es ! c) = key \<and>
       (\<forall>i<j. fe_state (es ! probe (length es) b i) \<noteq> Empty \<and>
          \<not> (fe_state (es ! probe (length es) b i) = Occupied \<and> fe_key (es ! probe (length es) b i) = key)))"
  using assms(2)
proof (induction n arbitrary: b)
  case (Suc n)
  note IH = Suc.IH [OF next_bucket_less [OF assms(1)], unfolded probe_next [OF assms(1)]]
  show ?case
    using Suc.prems
    by (auto simp: Let_def IH Ex_less_Suc2 All_less_Suc2 probe_0)
qed simp

lemma insert_loop_Some:
  assumes "pow2 (length es)" "b < length es" "j < n"
    and "fe_state (es ! probe (length es) b j) = Empty"
    and "\<And>i. i < j \<Longrightarrow> fe_state (es ! probe (length es) b i) \<noteq> Empty"
    and "tomb = length es \<or> (tomb < length es \<and> fe_state (es ! tomb) = Tombstone)"
  shows "\<exists>c. insert_loop es b tomb n = Some c \<and> c < length es \<and> fe_state (es ! c) \<noteq> Occupied \<and>
    (if tomb = length es then \<exists>i\<le>j. c = probe (length es) b i else c = tomb)"
  using assms(2-)
proof (induction n arbitrary: b j tomb)
  case (Suc n)
  show ?case
  proof (cases j)
    case 0
    with Suc.prems show ?thesis by (auto simp: probe_0)
  next
    case (Suc j')
    let ?b = "next_bucket (length es) b"
    let ?tomb = "if fe_state (es ! b) = Tombstone \<and> tomb = length es then b else tomb"
    have b: "fe_state (es ! b) \<noteq> Empty"
      using Suc.prems(4) [of 0] Suc Suc.prems(1) by (simp add: probe_0)
    have "\<exists>c. insert_loop es ?b ?tomb n = Some c \<and> c < length es \<and> fe_state (es ! c) \<noteq> Occupied \<and>
        (if ?tomb = length es then \<exists>i\<le>j'. c = probe (length es) ?b i else c = ?tomb)"
    proof (rule Suc.IH)
      show "fe_state (es ! probe (length es) ?b i) \<noteq> Empty" if "i < j'" for i
        using Suc.prems(4) [of "Suc i"] Suc that by (simp add: probe_next assms(1))
    qed (use Suc Suc.prems in \<open>auto simp: probe_next assms(1) next_bucket_less\<close>)
    then obtain c where c: "insert_loop es ?b ?tomb n = Some c" "c < length es"
      "fe_state (es ! c) \<noteq> Occupied"
      "if ?tomb = length es then \<exists>i\<le>j'. c = probe (length es) ?b i else c = ?tomb" by blast
    show ?thesis
    proof (intro exI conjI)
      show "insert_loop es b tomb (Suc n) = Some c" using b c(1) by simp
      show "if tomb = length es then \<exists>i\<le>j. c = probe (length es) b i else c = tomb"
      proof (cases "tomb = length es")
        case True
        show ?thesis
        proof (cases "fe_state (es ! b) = Tombstone")
          case tb: True
          with c(4) True Suc.prems(1) have "c = probe (length es) b 0" by (auto simp: probe_0)
          with True show ?thesis by auto
        next
          case False
          with c(4) True obtain i where "i \<le> j'" "c = probe (length es) b (Suc i)"
            by (auto simp: probe_next assms(1))
          with True Suc show ?thesis by (auto intro!: exI [of _ "Suc i"])
        qed
      qed (use c(4) in auto)
    qed (use c in auto)
  qed
qed simp

lemma free_loop_finds:
  assumes "pow2 (length es)" "b < length es" "j < n"
    and "fe_state (es ! probe (length es) b j) \<noteq> Occupied"
  shows "\<exists>i\<le>j. free_loop es b n = probe (length es) b i \<and>
    fe_state (es ! probe (length es) b i) \<noteq> Occupied \<and>
    (\<forall>i'<i. fe_state (es ! probe (length es) b i') = Occupied)"
  using assms(2-)
proof (induction n arbitrary: b j)
  case (Suc n)
  show ?case
  proof (cases "fe_state (es ! b) = Occupied")
    case False
    with Suc.prems show ?thesis by (auto simp: probe_0 intro!: exI [of _ 0])
  next
    case True
    with Suc.prems obtain j' where j: "j = Suc j'" by (cases j) (auto simp: probe_0)
    have "\<exists>i\<le>j'. free_loop es (next_bucket (length es) b) n = probe (length es) (next_bucket (length es) b) i \<and>
        fe_state (es ! probe (length es) (next_bucket (length es) b) i) \<noteq> Occupied \<and>
        (\<forall>i'<i. fe_state (es ! probe (length es) (next_bucket (length es) b) i') = Occupied)"
      by (rule Suc.IH) (use j Suc.prems in \<open>auto simp: probe_next assms(1) next_bucket_less\<close>)
    then obtain i where "i \<le> j'" "free_loop es (next_bucket (length es) b) n = probe (length es) b (Suc i)"
      "fe_state (es ! probe (length es) b (Suc i)) \<noteq> Occupied"
      "\<forall>i'<i. fe_state (es ! probe (length es) b (Suc i')) = Occupied"
      by (auto simp: probe_next assms(1))
    with True j Suc.prems show ?thesis
      by (intro exI [of _ "Suc i"]) (auto simp: All_less_Suc2 probe_0)
  qed
qed simp


subsection \<open>Well-formed tables\<close>

definition in_state :: "entry_state \<Rightarrow> index_entry list \<Rightarrow> nat set" where
  "in_state st es = {b. b < length es \<and> fe_state (es ! b) = st}"

abbreviation occupied :: "index_entry list \<Rightarrow> nat set" where
  "occupied \<equiv> in_state Occupied"

definition home :: "index_entry list \<Rightarrow> BlockKey \<Rightarrow> nat \<Rightarrow> nat" where
  "home es k j = probe (length es) (hash_bucket (length es) k) j"

text \<open>Every occupied entry is met by the probe sequence of its key before any empty entry.\<close>

definition reachable_entry :: "index_entry list \<Rightarrow> BlockKey \<Rightarrow> nat \<Rightarrow> bool" where
  "reachable_entry es k b \<longleftrightarrow>
     (\<exists>j<length es. b = home es k j \<and> (\<forall>i<j. fe_state (es ! home es k i) \<noteq> Empty))"

definition table_ok :: "index_entry list \<Rightarrow> bool" where
  "table_ok es \<longleftrightarrow> pow2 (length es) \<and>
     (\<forall>b\<in>occupied es. reachable_entry es (fe_key (es ! b)) b) \<and>
     inj_on (\<lambda>b. fe_key (es ! b)) (occupied es)"

definition table_map :: "index_entry list \<Rightarrow> BlockKey \<rightharpoonup> nat" where
  "table_map es k =
     (if es = [] then None
      else map_option (\<lambda>b. fe_value (es ! b)) (find_loop es k (hash_bucket (length es) k) (length es)))"

lemma table_ok_pow2 [simp]: "table_ok es \<Longrightarrow> pow2 (length es)"
  by (simp add: table_ok_def)

lemma pow2_Nil [simp]: "\<not> pow2 0"
  by (simp add: pow2_def)

lemma finite_in_state [simp]: "finite (in_state st es)"
  by (simp add: in_state_def)

lemma home_less: "pow2 (length es) \<Longrightarrow> home es k j < length es"
  by (simp add: home_def probe_less)

lemma find_loop_iff:
  assumes ok: "table_ok es"
  shows "find_loop es k (hash_bucket (length es) k) (length es) = Some c \<longleftrightarrow>
    c \<in> occupied es \<and> fe_key (es ! c) = k" (is "?F = Some c \<longleftrightarrow> ?R")
proof
  have p: "pow2 (length es)" using ok by simp
  note F = find_loop_Some [OF p hash_bucket_less [OF p, of k], of k _ c, folded home_def]
  show "?F = Some c \<Longrightarrow> ?R"
    using home_less [OF p] by (auto simp: F in_state_def)
  assume R: ?R
  with ok have "reachable_entry es k c" by (auto simp: table_ok_def)
  then obtain j where j: "j < length es" "c = home es k j" "\<forall>i<j. fe_state (es ! home es k i) \<noteq> Empty"
    by (auto simp: reachable_entry_def)
  define j0 where "j0 = (LEAST i. home es k i = c)"
  have j0: "home es k j0 = c" "j0 \<le> j"
    using j(2) by (auto simp: j0_def intro: LeastI Least_le)
  have "\<not> (fe_state (es ! home es k i) = Occupied \<and> fe_key (es ! home es k i) = k)" if "i < j0" for i
  proof
    assume "fe_state (es ! home es k i) = Occupied \<and> fe_key (es ! home es k i) = k"
    then have "home es k i = c"
      using R ok home_less [OF p] by (auto simp: table_ok_def in_state_def inj_on_def)
    with that show False by (auto simp: j0_def dest: not_less_Least)
  qed
  with j j0 R show "?F = Some c"
    by (intro F [THEN iffD2] exI [of _ j0]) (auto simp: in_state_def)
qed

lemma table_map_Some:
  assumes "table_ok es"
  shows "table_map es k = Some v \<longleftrightarrow> (\<exists>c\<in>occupied es. fe_key (es ! c) = k \<and> fe_value (es ! c) = v)"
proof -
  from assms have "es \<noteq> []" by (auto simp: table_ok_def)
  with assms show ?thesis by (auto simp: table_map_def find_loop_iff)
qed

lemma table_map_None:
  assumes "table_ok es"
  shows "table_map es k = None \<longleftrightarrow> (\<forall>c\<in>occupied es. fe_key (es ! c) \<noteq> k)"
  using table_map_Some [OF assms, of k] by (metis not_None_eq)

lemma in_state_upd:
  "c < length es \<Longrightarrow> in_state st (es[c := e]) =
     (if fe_state e = st then insert c (in_state st es) else in_state st es - {c})"
  by (auto simp: in_state_def nth_list_update)

text \<open>No update of one entry that leaves it non-empty disturbs the reachability of the others.\<close>

lemma reachable_entry_upd:
  assumes "reachable_entry es k b" "fe_state e \<noteq> Empty"
  shows "reachable_entry (es[c := e]) k b"
proof -
  have "fe_state (es[c := e] ! i) \<noteq> Empty" if "fe_state (es ! i) \<noteq> Empty" for i
    using that assms(2) by (cases "c < length es") (auto simp: nth_list_update list_update_beyond)
  with assms(1) show ?thesis by (fastforce simp: reachable_entry_def home_def)
qed

lemma table_ok_place:
  assumes ok: "table_ok es" and new: "\<forall>b\<in>occupied es. fe_key (es ! b) \<noteq> fe_key e"
    and e: "fe_state e = Occupied" and c: "reachable_entry es (fe_key e) c"
  shows "table_ok (es[c := e])"
proof -
  have p: "pow2 (length es)" using ok by simp
  have c': "c < length es" using c home_less [OF p] by (auto simp: reachable_entry_def)
  have reach: "reachable_entry (es[c := e]) (fe_key (es[c := e] ! b)) b" if "b \<in> occupied (es[c := e])" for b
    using that ok c e c'
    by (cases "b = c") (auto simp: in_state_upd table_ok_def intro: reachable_entry_upd)
  have inj: "inj_on (\<lambda>b. fe_key (es[c := e] ! b)) (occupied (es[c := e]))"
    using ok new e c' by (auto simp: in_state_upd table_ok_def inj_on_def nth_list_update)
  show ?thesis using p reach inj by (simp add: table_ok_def)
qed

lemma table_map_place:
  assumes "table_ok es" "\<forall>b\<in>occupied es. fe_key (es ! b) \<noteq> fe_key e" "fe_state e = Occupied"
    "reachable_entry es (fe_key e) c" "fe_state (es ! c) \<noteq> Occupied"
  shows "table_map (es[c := e]) = (table_map es)(fe_key e \<mapsto> fe_value e)"
proof
  fix k
  have ok': "table_ok (es[c := e])" using assms by (simp add: table_ok_place)
  have c: "c < length es" "c \<notin> occupied es"
    using assms home_less [of es] by (auto simp: reachable_entry_def in_state_def)
  have "table_map (es[c := e]) k = Some v \<longleftrightarrow> ((table_map es)(fe_key e \<mapsto> fe_value e)) k = Some v" for v
    using assms(1-3) c
    by (auto simp: table_map_Some ok' in_state_upd fun_upd_def nth_list_update)
  then show "table_map (es[c := e]) k = ((table_map es)(fe_key e \<mapsto> fe_value e)) k"
    by (metis option.exhaust)
qed


lemma occupied_Cons:
  "occupied (e # es) = (if fe_state e = Occupied then {0} else {}) \<union> Suc ` occupied es"
proof (rule set_eqI)
  show "x \<in> occupied (e # es) \<longleftrightarrow>
    x \<in> (if fe_state e = Occupied then {0} else {}) \<union> Suc ` occupied es" for x
    by (cases x) (auto simp: in_state_def)
qed

lemma card_in_state: "card (in_state st es) = length (filter (\<lambda>e. fe_state e = st) es)"
  by (simp add: in_state_def length_filter_conv_card)

lemma distinct_occupied_keys:
  "inj_on (\<lambda>b. fe_key (es ! b)) (occupied es) \<Longrightarrow>
     distinct (map fe_key (filter (\<lambda>e. fe_state e = Occupied) es))"
proof (induction es)
  case (Cons e es)
  have sub: "inj_on (\<lambda>b. fe_key ((e # es) ! b)) (Suc ` occupied es)"
    using Cons.prems by (rule inj_on_subset) (simp add: occupied_Cons)
  have "inj_on (\<lambda>b. fe_key (es ! b)) (occupied es)"
    using comp_inj_on [OF inj_on_subset [OF inj_Suc subset_UNIV] sub] by (simp add: comp_def)
  moreover have "fe_key e \<noteq> fe_key x" if "fe_state e = Occupied" "x \<in> set es" "fe_state x = Occupied" for x
  proof -
    from that(2,3) obtain b where b: "b \<in> occupied es" "x = es ! b"
      by (auto simp: in_state_def in_set_conv_nth)
    then have "0 \<in> occupied (e # es)" "Suc b \<in> occupied (e # es)"
      using that(1) by (simp_all add: occupied_Cons)
    then show ?thesis
      using inj_onD [OF Cons.prems, of 0 "Suc b"] b(2) by auto
  qed
  ultimately show ?case using Cons.IH by auto
qed simp

lemma bex_occupied: "(\<exists>c\<in>occupied es. P (es ! c)) \<longleftrightarrow> (\<exists>e\<in>set es. fe_state e = Occupied \<and> P e)"
  unfolding in_state_def by (metis (mono_tags, lifting) in_set_conv_nth mem_Collect_eq)

subsection \<open>Rehashing\<close>

lemma free_bucket_exists:
  assumes "card (in_state st es) < length es"
  shows "\<exists>b<length es. fe_state (es ! b) \<noteq> st"
proof (rule ccontr)
  assume "\<not> ?thesis"
  then have "in_state st es = {..<length es}" by (auto simp: in_state_def)
  with assms show False by simp
qed

lemma rehash_one_placed:
  assumes ok: "table_ok r" and room: "card (occupied r) < length r"
    and e: "fe_state e = Occupied" and new: "\<forall>b\<in>occupied r. fe_key (r ! b) \<noteq> fe_key e"
  shows "\<exists>c. rehash_one r e = r[c := e] \<and> reachable_entry r (fe_key e) c \<and>
    c < length r \<and> fe_state (r ! c) \<noteq> Occupied"
proof -
  have p: "pow2 (length r)" using ok by simp
  let ?h = "hash_bucket (length r) (fe_key e)"
  obtain b where "b < length r" "fe_state (r ! b) \<noteq> Occupied"
    using free_bucket_exists [OF room] by blast
  then obtain j where j: "j < length r" "fe_state (r ! probe (length r) ?h j) \<noteq> Occupied"
    using probe_covers [OF p hash_bucket_less [OF p], of b "fe_key e"] by blast
  obtain i where i: "i \<le> j" "free_loop r ?h (length r) = home r (fe_key e) i"
    "fe_state (r ! home r (fe_key e) i) \<noteq> Occupied"
    "\<forall>i'<i. fe_state (r ! home r (fe_key e) i') = Occupied"
    using free_loop_finds [OF p hash_bucket_less [OF p] j] by (auto simp: home_def)
  have "reachable_entry r (fe_key e) (home r (fe_key e) i)"
    using i j(1) by (auto simp: reachable_entry_def intro!: exI [of _ i])
  with i e show ?thesis
    by (intro exI [of _ "home r (fe_key e) i"]) (simp add: rehash_one_def home_less p)
qed

lemma rehash_fold:
  assumes "table_ok r"
    and "card (occupied r) + length (filter (\<lambda>e. fe_state e = Occupied) es) \<le> length r"
    and "distinct (map fe_key (filter (\<lambda>e. fe_state e = Occupied) es))"
    and "\<forall>b\<in>occupied r. \<forall>e\<in>set es. fe_state e = Occupied \<longrightarrow> fe_key (r ! b) \<noteq> fe_key e"
    and "in_state Tombstone r = {}"
  shows "let r' = foldl rehash_one r es in table_ok r' \<and> length r' = length r \<and>
    card (occupied r') = card (occupied r) + length (filter (\<lambda>e. fe_state e = Occupied) es) \<and>
    in_state Tombstone r' = {} \<and>
    (\<forall>k v. table_map r' k = Some v \<longleftrightarrow> table_map r k = Some v \<or>
       (\<exists>e\<in>set es. fe_state e = Occupied \<and> fe_key e = k \<and> fe_value e = v))"
  using assms
proof (induction es arbitrary: r)
  case Nil
  then show ?case by simp
next
  case (Cons e es)
  show ?case
  proof (cases "fe_state e = Occupied")
    case False
    then have "foldl rehash_one r (e # es) = foldl rehash_one r es" by (simp add: rehash_one_def)
    then show ?thesis using Cons.IH [OF Cons.prems(1)] Cons.prems(2-5) False
      unfolding Let_def by simp
  next
    case True
    have new: "\<forall>b\<in>occupied r. fe_key (r ! b) \<noteq> fe_key e" using Cons.prems(4) True by simp
    have room: "card (occupied r) < length r" using Cons.prems(2) True by simp
    obtain c where c: "rehash_one r e = r[c := e]" "reachable_entry r (fe_key e) c" "c < length r"
      "fe_state (r ! c) \<noteq> Occupied"
      using rehash_one_placed [OF Cons.prems(1) room True new] by blast
    let ?r = "r[c := e]"
    have ok: "table_ok ?r" using Cons.prems(1) new True c(2) by (rule table_ok_place)
    have map: "table_map ?r = (table_map r)(fe_key e \<mapsto> fe_value e)"
      using Cons.prems(1) new True c(2,4) by (rule table_map_place)
    have notin: "c \<notin> occupied r" using c(4) by (simp add: in_state_def)
    have occ: "occupied ?r = insert c (occupied r)"
      using c(3) True by (simp add: in_state_upd)
    then have card: "card (occupied ?r) = Suc (card (occupied r))" using notin by simp
    have tomb: "in_state Tombstone ?r = {}"
      using c(3) True Cons.prems(5) by (simp add: in_state_upd)
    have IH: "let r' = foldl rehash_one ?r es in table_ok r' \<and> length r' = length ?r \<and>
      card (occupied r') = card (occupied ?r) + length (filter (\<lambda>e. fe_state e = Occupied) es) \<and>
      in_state Tombstone r' = {} \<and>
      (\<forall>k v. table_map r' k = Some v \<longleftrightarrow> table_map ?r k = Some v \<or>
         (\<exists>e\<in>set es. fe_state e = Occupied \<and> fe_key e = k \<and> fe_value e = v))"
    proof (rule Cons.IH [OF ok])
      show "\<forall>b\<in>occupied ?r. \<forall>e\<in>set es. fe_state e = Occupied \<longrightarrow> fe_key (?r ! b) \<noteq> fe_key e"
        using Cons.prems(3,4) True c(3) unfolding occ by (auto simp: nth_list_update)
    qed (use Cons.prems(2,3) True card tomb in simp_all)
    have "table_map ?r k = Some v \<longleftrightarrow> table_map r k = Some v \<or> (fe_key e = k \<and> fe_value e = v)" for k v
    proof -
      have "table_map r (fe_key e) = None" using new table_map_None [OF Cons.prems(1)] by simp
      then show ?thesis by (cases "k = fe_key e") (simp_all add: map)
    qed
    with IH show ?thesis unfolding Let_def foldl_Cons c(1) by (simp add: card True disj_assoc)
  qed
qed


subsection \<open>The index invariant and its operations\<close>

definition index_inv :: "flat_index \<Rightarrow> bool" where
  "index_inv t \<longleftrightarrow>
     (if entries t = [] then fi_size t = 0 \<and> fi_tombstones t = 0
      else table_ok (entries t) \<and> 16 \<le> length (entries t) \<and>
        fi_size t = card (occupied (entries t)) \<and>
        fi_tombstones t = card (in_state Tombstone (entries t)) \<and>
        fi_size t + fi_tombstones t \<le> (length (entries t) * 7) div 10)"

lemma index_inv_empty: "index_inv empty_index"
  by (simp add: index_inv_def empty_index_def)

lemma Find_eq_table_map: "Find t = table_map (entries t)"
  by (rule ext) (simp add: Find_def FindBucket_def table_map_def)

lemma Find_empty: "Find empty_index = Map.empty"
  by (rule ext) (simp add: Find_eq_table_map table_map_def empty_index_def)

lemma pow2_double: "pow2 n \<Longrightarrow> pow2 (n * 2)"
  by (auto simp: pow2_def intro: exI [of _ "Suc _"])

lemma grow_capacity_bounds:
  "pow2 c \<Longrightarrow> pow2 (grow_capacity c r) \<and> r \<le> grow_capacity c r \<and> c \<le> grow_capacity c r"
proof (induction c r rule: grow_capacity.induct)
  case (1 c r)
  then show ?case
    by (subst (1 2 3) grow_capacity.simps) (auto simp: pow2_double pow2_pos)
qed

lemma reserve_capacity_bounds:
  "pow2 c \<Longrightarrow> pow2 (reserve_capacity e c) \<and> e \<le> (reserve_capacity e c * 7) div 10 \<and> c \<le> reserve_capacity e c"
proof (induction e c rule: reserve_capacity.induct)
  case (1 e c)
  then show ?case
    by (subst (1 2 3) reserve_capacity.simps) (auto simp: pow2_double pow2_pos not_less)
qed

lemma in_state_replicate: "in_state st (replicate n empty_entry) = (if st = Empty then {..<n} else {})"
  by (auto simp: in_state_def empty_entry_def)

lemma table_ok_replicate: "pow2 n \<Longrightarrow> table_ok (replicate n empty_entry)"
  by (simp add: table_ok_def in_state_replicate)

lemma pow2_16: "pow2 16"
  unfolding pow2_def by (rule exI [of _ 4]) simp

lemma Rehash_correct:
  assumes inv: "index_inv t" and cap: "length (entries t) \<le> requested"
  shows "index_inv (Rehash t requested) \<and> Find (Rehash t requested) = Find t \<and>
    fi_size (Rehash t requested) = fi_size t \<and> fi_tombstones (Rehash t requested) = 0 \<and>
    entries (Rehash t requested) \<noteq> [] \<and> requested \<le> length (entries (Rehash t requested))"
proof -
  define cap where "cap = grow_capacity 16 requested"
  have cap: "pow2 cap" "16 \<le> cap" "requested \<le> cap"
    using grow_capacity_bounds [OF pow2_16, of requested] by (auto simp: cap_def)
  let ?es = "entries t" and ?r = "replicate cap empty_entry"
  let ?occ = "filter (\<lambda>e. fe_state e = Occupied) ?es"
  have es: "?es = [] \<or> table_ok ?es" using inv by (auto simp: index_inv_def split: if_splits)
  have size: "fi_size t = length ?occ" "fi_size t \<le> (length ?es * 7) div 10"
    using inv by (auto simp: index_inv_def card_in_state split: if_splits)
  have tm: "table_map ?es k = Some v \<longleftrightarrow> (\<exists>e\<in>set ?es. fe_state e = Occupied \<and> fe_key e = k \<and> fe_value e = v)" for k v
    using es bex_occupied [of ?es "\<lambda>e. fe_key e = k \<and> fe_value e = v"]
    by (elim disjE) (simp add: table_map_def, simp add: table_map_Some)
  have le: "length ?es \<le> cap" using assms(2) cap(3) by simp
  define r' where "r' = foldl rehash_one ?r ?es"
  have new0: "table_map ?r k \<noteq> Some v" for k v
    by (simp add: table_map_Some table_ok_replicate cap in_state_replicate)
  have fold: "table_ok r' \<and> length r' = cap \<and> card (occupied r') = length ?occ \<and>
      in_state Tombstone r' = {} \<and>
      (\<forall>k v. table_map r' k = Some v \<longleftrightarrow>
         (\<exists>e\<in>set ?es. fe_state e = Occupied \<and> fe_key e = k \<and> fe_value e = v))"
    using rehash_fold [of ?r ?es, folded r'_def] cap es le distinct_occupied_keys [of ?es]
      length_filter_le [of "\<lambda>e. fe_state e = Occupied" ?es]
    by (auto simp: table_ok_replicate in_state_replicate Let_def new0 table_ok_def)
  have "table_map r' = table_map ?es"
  proof (rule ext)
    show "table_map r' k = table_map ?es k" for k
      using fold tm [of k] by (metis option.exhaust)
  qed
  moreover have "entries (Rehash t requested) = r'" "fi_size (Rehash t requested) = fi_size t"
    "fi_tombstones (Rehash t requested) = 0"
    by (simp_all add: Rehash_def r'_def cap_def)
  moreover have "fi_size t \<le> (cap * 7) div 10"
    using size(2) le by (meson div_le_mono mult_le_mono1 order_trans)
  ultimately show ?thesis using fold cap size(1)
    by (auto simp: index_inv_def Find_eq_table_map)
qed

lemma Reserve_correct:
  assumes inv: "index_inv t"
  shows "index_inv (Reserve t n) \<and> Find (Reserve t n) = Find t \<and> fi_size (Reserve t n) = fi_size t \<and>
    entries (Reserve t n) \<noteq> [] \<and>
    n \<le> (length (entries (Reserve t n)) * 7) div 10 \<and>
    (fi_tombstones (Reserve t n) = 0 \<or>
     n + fi_tombstones (Reserve t n) \<le> (length (entries (Reserve t n)) * 7) div 10)"
proof -
  define c where "c = (if entries t = [] then 16 else length (entries t))"
  define cap where "cap = reserve_capacity n c"
  have c: "pow2 c" "length (entries t) \<le> c"
    using inv by (auto simp: c_def index_inv_def pow2_16)
  have cap: "n \<le> (cap * 7) div 10" "length (entries t) \<le> cap"
    using reserve_capacity_bounds [OF c(1), of n] c(2) by (auto simp: cap_def)
  have R: "Reserve t n = (if entries t = [] \<or> cap \<noteq> length (entries t) \<or>
            (fi_tombstones t \<noteq> 0 \<and> (n + fi_tombstones t > (cap * 7) div 10 \<or> fi_tombstones t > cap div 4))
         then Rehash t cap else t)"
    by (auto simp: Reserve_def Let_def cap_def c_def)
  note reh = Rehash_correct [OF inv cap(2)]
  have "n \<le> (length (entries (Rehash t cap)) * 7) div 10"
    using cap(1) reh by (meson div_le_mono mult_le_mono1 order_trans)
  with reh inv cap show ?thesis unfolding R by (auto simp: not_less)
qed


text \<open>An index that has been reserved for one more entry takes a new key into a bucket of the
  key's probe sequence, so the scan of \<open>Insert\<close> never ends without inserting.\<close>

lemma insert_loop_target:
  assumes ok: "table_ok es" and load: "card (occupied es) + card (in_state Tombstone es) < length es"
  shows "\<exists>c. insert_loop es (hash_bucket (length es) k) (length es) (length es) = Some c \<and>
    reachable_entry es k c \<and> fe_state (es ! c) \<noteq> Occupied \<and> c < length es"
proof -
  have p: "pow2 (length es)" using ok by simp
  have "\<exists>b<length es. fe_state (es ! b) = Empty"
  proof (rule ccontr)
    assume "\<not> ?thesis"
    then have "{..<length es} \<subseteq> occupied es \<union> in_state Tombstone es"
      by (auto simp: in_state_def) (metis entry_state.exhaust)
    then have "card {..<length es} \<le> card (occupied es \<union> in_state Tombstone es)"
      by (intro card_mono) auto
    also have "\<dots> \<le> card (occupied es) + card (in_state Tombstone es)" by (rule card_Un_le)
    finally show False using load by simp
  qed
  then obtain j1 where j1: "j1 < length es" "fe_state (es ! home es k j1) = Empty"
    using probe_covers [OF p hash_bucket_less [OF p]] unfolding home_def by metis
  define j where "j = (LEAST i. fe_state (es ! home es k i) = Empty)"
  have j: "fe_state (es ! home es k j) = Empty" "j \<le> j1"
    using j1(2) by (auto simp: j_def intro: LeastI Least_le)
  have before: "fe_state (es ! home es k i) \<noteq> Empty" if "i < j" for i
    using that not_less_Least unfolding j_def by blast
  obtain c i where "insert_loop es (hash_bucket (length es) k) (length es) (length es) = Some c"
    "c < length es" "fe_state (es ! c) \<noteq> Occupied" "i \<le> j" "c = home es k i"
    using insert_loop_Some [OF p hash_bucket_less [OF p, of k], of j "length es" "length es"]
      j j1(1) before unfolding home_def by auto
  moreover from this have "reachable_entry es k c"
    using j(2) j1(1) before by (auto simp: reachable_entry_def intro!: exI [of _ i])
  ultimately show ?thesis by blast
qed

lemma Insert_new:
  assumes inv: "index_inv t" and new: "Find t k = None"
  shows "fst (Insert t k v) \<and> index_inv (snd (Insert t k v)) \<and>
    Find (snd (Insert t k v)) = (Find t)(k \<mapsto> v) \<and> fi_size (snd (Insert t k v)) = fi_size t + 1"
proof -
  define t1 where "t1 = Reserve t (fi_size t + 1)"
  let ?es = "entries t1" and ?e = "\<lparr>fe_key = k, fe_value = v, fe_state = Occupied\<rparr>"
  note R = Reserve_correct [OF inv, of "fi_size t + 1", folded t1_def]
  have t1: "index_inv t1" "Find t1 = Find t" "fi_size t1 = fi_size t" "?es \<noteq> []"
    and load: "fi_size t1 + 1 + fi_tombstones t1 \<le> (length ?es * 7) div 10"
    using R by auto
  have ok: "table_ok ?es" "16 \<le> length ?es" "fi_size t1 = card (occupied ?es)"
    "fi_tombstones t1 = card (in_state Tombstone ?es)"
    using t1 by (auto simp: index_inv_def)
  have "card (occupied ?es) + card (in_state Tombstone ?es) < length ?es"
    using load ok(2-4) by linarith
  from insert_loop_target [OF ok(1) this, of k] obtain c where
    c: "insert_loop ?es (hash_bucket (length ?es) k) (length ?es) (length ?es) = Some c"
    "reachable_entry ?es k c" "fe_state (?es ! c) \<noteq> Occupied" "c < length ?es" by blast
  have fresh: "\<forall>b\<in>occupied ?es. fe_key (?es ! b) \<noteq> k"
    using new t1(2) table_map_None [OF ok(1), of k] by (simp add: Find_eq_table_map)
  have nb: "FindBucket t k = None" using new by (simp add: Find_def)
  have I: "Insert t k v = (True, t1\<lparr>entries := ?es[c := ?e],
      fi_tombstones := (if fe_state (?es ! c) = Tombstone then fi_tombstones t1 - 1 else fi_tombstones t1),
      fi_size := fi_size t1 + 1\<rparr>)"
    unfolding Insert_def nb option.case Let_def t1_def [symmetric] c(1) by simp
  have "table_ok (?es[c := ?e])"
    using ok(1) fresh c(2) by (intro table_ok_place) auto
  moreover have "table_map (?es[c := ?e]) = (table_map ?es)(k \<mapsto> v)"
    using table_map_place [OF ok(1), of ?e c] fresh c(2,3) by simp
  moreover have "c \<notin> occupied ?es" using c(3) by (simp add: in_state_def)
  moreover have "card (in_state Tombstone (?es[c := ?e])) =
      (if fe_state (?es ! c) = Tombstone then fi_tombstones t1 - 1 else fi_tombstones t1)"
    using c(4) ok(4) by (simp add: in_state_upd) (auto simp: in_state_def)
  ultimately show ?thesis
    using load ok t1 c(4) by (auto simp: I index_inv_def in_state_upd Find_eq_table_map)
qed


lemma FindBucket_Some:
  assumes "index_inv t" "FindBucket t k = Some b"
  shows "entries t \<noteq> []" "table_ok (entries t)" "b \<in> occupied (entries t)" "fe_key (entries t ! b) = k"
    and "\<And>c. c \<in> occupied (entries t) \<Longrightarrow> fe_key (entries t ! c) = k \<longleftrightarrow> c = b"
proof -
  show ne: "entries t \<noteq> []" using assms(2) by (auto simp: FindBucket_def)
  with assms(1) show ok: "table_ok (entries t)" by (simp add: index_inv_def)
  show b: "b \<in> occupied (entries t)" "fe_key (entries t ! b) = k"
    using assms(2) ne find_loop_iff [OF ok, of k b] by (auto simp: FindBucket_def)
  show "fe_key (entries t ! c) = k \<longleftrightarrow> c = b" if "c \<in> occupied (entries t)" for c
    using that b ok by (auto simp: table_ok_def inj_on_def)
qed

lemma table_ok_change:
  assumes ok: "table_ok es" and b: "b \<in> occupied es"
    and e: "fe_state e \<noteq> Empty" "fe_key e = fe_key (es ! b)"
  shows "table_ok (es[b := e])"
proof -
  have bl: "b < length es" using b by (simp add: in_state_def)
  have sub: "occupied (es[b := e]) \<subseteq> occupied es"
    using b bl by (auto simp: in_state_upd split: if_splits)
  have key: "fe_key (es[b := e] ! c) = fe_key (es ! c)" for c
    using e(2) bl by (cases "c = b") simp_all
  have "reachable_entry (es[b := e]) (fe_key (es ! c)) c" if "c \<in> occupied (es[b := e])" for c
    using that sub ok e(1) by (intro reachable_entry_upd) (auto simp: table_ok_def)
  with ok sub show ?thesis by (auto simp: table_ok_def key intro: inj_on_subset)
qed

lemma Insert_existing:
  assumes inv: "index_inv t" and old: "Find t k = Some w"
  shows "\<not> fst (Insert t k v) \<and> index_inv (snd (Insert t k v)) \<and>
    Find (snd (Insert t k v)) = (Find t)(k \<mapsto> v) \<and> fi_size (snd (Insert t k v)) = fi_size t"
proof -
  obtain b where b: "FindBucket t k = Some b" using old by (auto simp: Find_def)
  note B = FindBucket_Some [OF inv b]
  let ?e = "(entries t ! b)\<lparr>fe_value := v\<rparr>"
  have bl: "b < length (entries t)" "fe_state (entries t ! b) = Occupied" using B(3) by (auto simp: in_state_def)
  have I: "Insert t k v = (False, t\<lparr>entries := (entries t)[b := ?e]\<rparr>)"
    by (simp add: Insert_def b upd_nth_def)
  have ok: "table_ok ((entries t)[b := ?e])" using B bl by (intro table_ok_change) auto
  have st: "in_state st ((entries t)[b := ?e]) = in_state st (entries t)" for st
    using bl by (auto simp: in_state_def nth_list_update)
  have "table_map ((entries t)[b := ?e]) k' = Some x \<longleftrightarrow> ((table_map (entries t))(k \<mapsto> v)) k' = Some x" for k' x
    using B(3,5) bl(1) by (cases "k' = k") (auto simp: table_map_Some ok B(2) st nth_list_update)
  then have "table_map ((entries t)[b := ?e]) = (table_map (entries t))(k \<mapsto> v)"
    by (intro ext) (metis option.exhaust)
  then show ?thesis using inv B(1) ok by (simp add: I index_inv_def st Find_eq_table_map)
qed

lemma Erase_correct:
  assumes inv: "index_inv t"
  shows "fst (Erase t k) = (Find t k \<noteq> None) \<and> index_inv (snd (Erase t k)) \<and>
    Find (snd (Erase t k)) = (Find t)(k := None) \<and>
    fi_size (snd (Erase t k)) = fi_size t - (if Find t k = None then 0 else 1)"
proof (cases "FindBucket t k")
  case None
  then have "Find t k = None" by (simp add: Find_def)
  with None inv show ?thesis by (auto simp: Erase_def)
next
  case (Some b)
  note B = FindBucket_Some [OF inv Some]
  let ?e = "(entries t ! b)\<lparr>fe_state := Tombstone, fe_value := kNoSlot\<rparr>"
  have bl: "b < length (entries t)" using B(3) by (simp add: in_state_def)
  have E: "Erase t k = (True, t\<lparr>entries := (entries t)[b := ?e], fi_size := fi_size t - 1,
      fi_tombstones := fi_tombstones t + 1\<rparr>)"
    by (simp add: Erase_def Some upd_nth_def)
  have ok: "table_ok ((entries t)[b := ?e])" using B by (intro table_ok_change) auto
  have occ: "occupied ((entries t)[b := ?e]) = occupied (entries t) - {b}"
    and tomb: "in_state Tombstone ((entries t)[b := ?e]) = insert b (in_state Tombstone (entries t))"
      "b \<notin> in_state Tombstone (entries t)"
    using bl B(3) by (auto simp: in_state_upd) (auto simp: in_state_def)
  have pos: "0 < card (occupied (entries t))" using B(3) by (auto simp: card_gt_0_iff)
  have "table_map ((entries t)[b := ?e]) k' = Some x \<longleftrightarrow> ((table_map (entries t))(k := None)) k' = Some x" for k' x
    using B(3,4,5) bl by (cases "k' = k") (auto simp: table_map_Some ok B(2) occ nth_list_update)
  then have "table_map ((entries t)[b := ?e]) = (table_map (entries t))(k := None)"
    by (intro ext) (metis option.exhaust)
  moreover have "Find t k \<noteq> None" using Some by (simp add: Find_def)
  ultimately show ?thesis using inv B(1,3) ok pos tomb
    by (auto simp: E index_inv_def occ Find_eq_table_map)
qed


lemma fi_size_card_dom:
  assumes inv: "index_inv t"
  shows "fi_size t = card (dom (Find t))"
proof (cases "entries t = []")
  case True
  then have "Find t = Map.empty" by (auto simp: Find_def FindBucket_def)
  with True inv show ?thesis by (simp add: index_inv_def)
next
  case False
  then have ok: "table_ok (entries t)" and size: "fi_size t = card (occupied (entries t))"
    using inv by (auto simp: index_inv_def)
  have "dom (Find t) = (\<lambda>b. fe_key (entries t ! b)) ` occupied (entries t)"
    by (auto simp: Find_eq_table_map dom_def table_map_Some ok)
  with ok size show ?thesis by (simp add: table_ok_def card_image)
qed

subsection \<open>The interface the allocator relies on\<close>

datatype ('k, 'v) index_op = Op_Insert 'k 'v | Op_Erase 'k | Op_Reserve nat

fun map_op :: "('k, 'v) index_op \<Rightarrow> ('k \<rightharpoonup> 'v) \<Rightarrow> ('k \<rightharpoonup> 'v)" where
  "map_op (Op_Insert k v) m = m(k \<mapsto> v)"
| "map_op (Op_Erase k) m = m(k := None)"
| "map_op (Op_Reserve n) m = m"

locale key_index =
  fixes inv :: "'t \<Rightarrow> bool" and find :: "'t \<Rightarrow> 'k \<rightharpoonup> 'v" and size_of :: "'t \<Rightarrow> nat"
    and insert_key :: "'t \<Rightarrow> 'k \<Rightarrow> 'v \<Rightarrow> bool \<times> 't"
    and erase_key :: "'t \<Rightarrow> 'k \<Rightarrow> bool \<times> 't"
    and reserve :: "'t \<Rightarrow> nat \<Rightarrow> 't" and empty_table :: 't
  assumes inv_empty: "inv empty_table" and find_empty: "find empty_table = Map.empty"
    and inv_insert: "inv t \<Longrightarrow> inv (snd (insert_key t k v))"
    and find_insert: "inv t \<Longrightarrow> find (snd (insert_key t k v)) = (find t)(k \<mapsto> v)"
    and insert_fresh: "inv t \<Longrightarrow> fst (insert_key t k v) \<longleftrightarrow> find t k = None"
    and inv_erase: "inv t \<Longrightarrow> inv (snd (erase_key t k))"
    and find_erase: "inv t \<Longrightarrow> find (snd (erase_key t k)) = (find t)(k := None)"
    and erase_found: "inv t \<Longrightarrow> fst (erase_key t k) \<longleftrightarrow> find t k \<noteq> None"
    and inv_reserve: "inv t \<Longrightarrow> inv (reserve t n)"
    and find_reserve: "inv t \<Longrightarrow> find (reserve t n) = find t"
    and size_of: "inv t \<Longrightarrow> size_of t = card (dom (find t))"
begin

fun apply_op :: "('k, 'v) index_op \<Rightarrow> 't \<Rightarrow> 't" where
  "apply_op (Op_Insert k v) t = snd (insert_key t k v)"
| "apply_op (Op_Erase k) t = snd (erase_key t k)"
| "apply_op (Op_Reserve n) t = reserve t n"

lemma apply_op_correct: "inv t \<Longrightarrow> inv (apply_op opn t) \<and> find (apply_op opn t) = map_op opn (find t)"
  by (cases opn)
    (simp_all add: inv_insert find_insert inv_erase find_erase inv_reserve find_reserve)

lemma run_correct:
  "inv t \<Longrightarrow> inv (fold apply_op ops t) \<and> find (fold apply_op ops t) = fold map_op ops (find t)"
  by (induction ops arbitrary: t) (simp_all add: apply_op_correct)

lemma run_from_empty:
  "inv (fold apply_op ops empty_table) \<and> find (fold apply_op ops empty_table) = fold map_op ops Map.empty \<and>
   size_of (fold apply_op ops empty_table) = card (dom (fold map_op ops Map.empty))"
  using run_correct [OF inv_empty, of ops] size_of by (simp add: find_empty)

end

lemma Insert_correct:
  assumes "index_inv t"
  shows "index_inv (snd (Insert t k v))" "Find (snd (Insert t k v)) = (Find t)(k \<mapsto> v)"
    "fst (Insert t k v) \<longleftrightarrow> Find t k = None"
  using Insert_new [OF assms, of k v] Insert_existing [OF assms, of k _ v]
  by (cases "Find t k"; simp)+

interpretation fki: key_index index_inv Find fi_size Insert Erase Reserve empty_index
  by unfold_locales
    (simp_all add: index_inv_empty Find_empty Insert_correct Erase_correct Reserve_correct fi_size_card_dom)

text \<open>One operation of the index on the flat table, as the allocator issues them.\<close>

fun flat_op :: "(BlockKey, nat) index_op \<Rightarrow> flat_index \<Rightarrow> flat_index" where
  "flat_op (Op_Insert k v) t = snd (Insert t k v)"
| "flat_op (Op_Erase k) t = snd (Erase t k)"
| "flat_op (Op_Reserve n) t = Reserve t n"

lemma flat_op_eq: "flat_op = fki.apply_op"
proof (intro ext)
  show "flat_op opn t = fki.apply_op opn t" for opn t by (cases opn) simp_all
qed

text \<open>
  C1: The open-addressing key index implements a finite map. After any sequence of insertions,
  erasures and reservations (rehashes, tombstone reuse and purges included) a lookup of any key
  returns what a finite map driven by the same operations returns, and the size counter is the
  number of keys of that map.
\<close>

theorem FlatKeyIndex_refines_map:
  "Find (fold flat_op ops empty_index) k = fold map_op ops Map.empty k \<and>
   fi_size (fold flat_op ops empty_index) = card (dom (fold map_op ops Map.empty))"
  using fki.run_from_empty [of ops] by (simp add: flat_op_eq)

text \<open>
  C2: The load of the index stays bounded, so no probe loop can run around a full table: after any
  sequence of operations the table is either unallocated or a power-of-two table of at least 16
  entries whose occupied entries and tombstones together fill at most seven tenths of it.
\<close>

theorem FlatKeyIndex_load_bound:
  "let t = fold flat_op ops empty_index; cap = length (entries t)
   in entries t = [] \<or> (16 \<le> cap \<and> (\<exists>m. cap = 2 ^ m) \<and> fi_size t + fi_tombstones t \<le> cap * 7 div 10)"
proof -
  have "index_inv (fold flat_op ops empty_index)"
    using fki.run_from_empty [of ops] by (simp add: flat_op_eq)
  then show ?thesis
    by (auto simp: Let_def index_inv_def table_ok_def pow2_def split: if_splits)
qed

end
