(* ===== verification/Intrusive_List.thy ===== *)
theory Intrusive_List
  imports Flat_Key_Index
begin

text \<open>
  Doubly linked lists threaded through a table by integer links, as the slab allocator keeps
  them in its slot-metadata table (\<^verbatim>\<open>src/cache/slab_allocator.cc\<close>): the CLOCK ring of a class, the
  global sweep ring and the resident list of an extent. The three list operations of the source
  are written once, over the pair of link fields they work on; the locale at the end carries
  their correctness for any pair of fields that obey the get/set laws.
\<close>

subsection \<open>The link operations of the source\<close>

text \<open>\<^verbatim>\<open>if (prev != kNoSlot) slots_[prev].next = next; if (next != kNoSlot) slots_[next].prev = prev\<close>\<close>

definition unlink_links ::
  "('m \<Rightarrow> nat) \<Rightarrow> ('m \<Rightarrow> nat) \<Rightarrow> (nat \<Rightarrow> 'm \<Rightarrow> 'm) \<Rightarrow> (nat \<Rightarrow> 'm \<Rightarrow> 'm) \<Rightarrow> 'm list \<Rightarrow> nat \<Rightarrow> 'm list" where
  "unlink_links get_next get_prev set_next set_prev slots i =
     (let p = get_prev (slots ! i); n = get_next (slots ! i);
          slots1 = (if p \<noteq> kNoSlot then upd_nth slots p (set_next n) else slots)
      in if n \<noteq> kNoSlot then upd_nth slots1 n (set_prev p) else slots1)"

text \<open>The new list head: \<^verbatim>\<open>else head = next\<close>.\<close>

definition unlink_head :: "('m \<Rightarrow> nat) \<Rightarrow> ('m \<Rightarrow> nat) \<Rightarrow> 'm list \<Rightarrow> nat \<Rightarrow> nat \<Rightarrow> nat" where
  "unlink_head get_next get_prev slots i head =
     (if get_prev (slots ! i) \<noteq> kNoSlot then head else get_next (slots ! i))"

text \<open>
  \<^verbatim>\<open>meta.next = hand; meta.prev = slots_[hand].prev; if (meta.prev != kNoSlot)
  slots_[meta.prev].next = index; slots_[hand].prev = index\<close>
\<close>

definition link_before_links ::
  "('m \<Rightarrow> nat) \<Rightarrow> (nat \<Rightarrow> 'm \<Rightarrow> 'm) \<Rightarrow> (nat \<Rightarrow> 'm \<Rightarrow> 'm) \<Rightarrow> 'm list \<Rightarrow> nat \<Rightarrow> nat \<Rightarrow> 'm list" where
  "link_before_links get_prev set_next set_prev slots hand i =
     (let slots1 = upd_nth slots i (set_next hand);
          p = get_prev (slots1 ! hand);
          slots2 = upd_nth slots1 i (set_prev p);
          slots3 = (if p \<noteq> kNoSlot then upd_nth slots2 p (set_next i) else slots2)
      in upd_nth slots3 hand (set_prev i))"

definition link_before_head :: "('m \<Rightarrow> nat) \<Rightarrow> 'm list \<Rightarrow> nat \<Rightarrow> nat \<Rightarrow> nat \<Rightarrow> nat" where
  "link_before_head get_prev slots hand i head =
     (if get_prev (slots ! hand) \<noteq> kNoSlot then head else i)"

text \<open>\<^verbatim>\<open>meta.next = head; if (head != kNoSlot) slots_[head].prev = index; head = index\<close>\<close>

definition push_front_links ::
  "(nat \<Rightarrow> 'm \<Rightarrow> 'm) \<Rightarrow> (nat \<Rightarrow> 'm \<Rightarrow> 'm) \<Rightarrow> 'm list \<Rightarrow> nat \<Rightarrow> nat \<Rightarrow> 'm list" where
  "push_front_links set_next set_prev slots head i =
     (let slots1 = upd_nth slots i (set_next head)
      in if head \<noteq> kNoSlot then upd_nth slots1 head (set_prev i) else slots1)"

lemma length_links [simp]:
  "length (unlink_links gn gp sn sp slots i) = length slots"
  "length (link_before_links gp sn sp slots h i) = length slots"
  "length (push_front_links sn sp slots h i) = length slots"
  by (simp_all add: unlink_links_def link_before_links_def push_front_links_def Let_def)

text \<open>Fields that neither setter writes are left alone on every entry.\<close>

lemma unlink_links_field:
  assumes "\<And>n m. f (sn n m) = f m" "\<And>n m. f (sp n m) = f m"
  shows "f (unlink_links gn gp sn sp slots i ! j) = f (slots ! j)"
  by (simp add: unlink_links_def Let_def upd_nth_field [where sel = f] assms)

lemma link_before_links_field:
  assumes "\<And>n m. f (sn n m) = f m" "\<And>n m. f (sp n m) = f m"
  shows "f (link_before_links gp sn sp slots h i ! j) = f (slots ! j)"
  by (simp add: link_before_links_def Let_def upd_nth_field [where sel = f] assms)

lemma push_front_links_field:
  assumes "\<And>n m. f (sn n m) = f m" "\<And>n m. f (sp n m) = f m"
  shows "f (push_front_links sn sp slots h i ! j) = f (slots ! j)"
  by (simp add: push_front_links_def Let_def upd_nth_field [where sel = f] assms)

subsection \<open>Linked segments\<close>

definition hd_or :: "'a \<Rightarrow> 'a list \<Rightarrow> 'a" where
  "hd_or q xs = (case xs of [] \<Rightarrow> q | x # _ \<Rightarrow> x)"

definition last_or :: "'a \<Rightarrow> 'a list \<Rightarrow> 'a" where
  "last_or p xs = (if xs = [] then p else last xs)"

fun dll :: "(nat \<Rightarrow> nat) \<Rightarrow> (nat \<Rightarrow> nat) \<Rightarrow> nat \<Rightarrow> nat list \<Rightarrow> nat \<Rightarrow> bool" where
  "dll nx pv p [] q \<longleftrightarrow> True"
| "dll nx pv p (x # xs) q \<longleftrightarrow> pv x = p \<and> nx x = hd_or q xs \<and> dll nx pv x xs q"

lemma hd_or_simps [simp]: "hd_or q [] = q" "hd_or q (x # xs) = x" "hd_or q (xs @ ys) = hd_or (hd_or q ys) xs"
  by (auto simp: hd_or_def split: list.splits)

lemma last_or_simps [simp]: "last_or p [] = p" "last_or p (x # xs) = last_or x xs"
  "last_or p (xs @ ys) = last_or (last_or p xs) ys"
  by (auto simp: last_or_def)

lemma hd_or_in: "hd_or q xs = q \<or> hd_or q xs \<in> set xs"
  by (cases xs) auto

lemma last_or_in: "last_or p xs = p \<or> last_or p xs \<in> set xs"
  by (auto simp: last_or_def)

lemma dll_append:
  "dll nx pv p (xs @ ys) q \<longleftrightarrow> dll nx pv p xs (hd_or q ys) \<and> dll nx pv (last_or p xs) ys q"
  by (induction xs arbitrary: p) auto

lemma dll_cong:
  assumes "\<And>x. x \<in> set xs \<Longrightarrow> nx' x = nx x \<and> pv' x = pv x"
  shows "dll nx' pv' p xs q \<longleftrightarrow> dll nx pv p xs q"
  using assms by (induction xs arbitrary: p) auto

text \<open>Changing what follows the last or precedes the first element of a segment.\<close>

lemma dll_set_last:
  assumes "dll nx pv p (xs @ [y]) q" "distinct (xs @ [y])"
  shows "dll (nx(y := q')) pv p (xs @ [y]) q'"
proof -
  have "dll (nx(y := q')) pv p xs y \<longleftrightarrow> dll nx pv p xs y"
    using assms(2) by (intro dll_cong) auto
  with assms(1) show ?thesis by (simp add: dll_append)
qed

lemma dll_set_first:
  assumes "dll nx pv p (x # xs) q" "distinct (x # xs)"
  shows "dll nx (pv(x := p')) p' (x # xs) q"
proof -
  have "dll nx (pv(x := p')) x xs q \<longleftrightarrow> dll nx pv x xs q"
    using assms(2) by (intro dll_cong) auto
  with assms(1) show ?thesis by simp
qed

subsection \<open>Lists and rings in a table\<close>

definition linked :: "('m \<Rightarrow> nat) \<Rightarrow> ('m \<Rightarrow> nat) \<Rightarrow> 'm list \<Rightarrow> nat \<Rightarrow> nat list \<Rightarrow> bool" where
  "linked gn gp slots head xs \<longleftrightarrow>
     distinct xs \<and> set xs \<subseteq> {..<length slots} - {kNoSlot} \<and> head = hd_or kNoSlot xs \<and>
     dll (\<lambda>j. gn (slots ! j)) (\<lambda>j. gp (slots ! j)) kNoSlot xs kNoSlot"

text \<open>A ring is a list whose members are given and that carries a sweep hand.\<close>

definition hand_ok :: "nat \<Rightarrow> nat list \<Rightarrow> bool" where
  "hand_ok hand xs \<longleftrightarrow> (if xs = [] then hand = kNoSlot else hand \<in> set xs)"

definition ring :: "('m \<Rightarrow> nat) \<Rightarrow> ('m \<Rightarrow> nat) \<Rightarrow> 'm list \<Rightarrow> nat \<Rightarrow> nat \<Rightarrow> nat set \<Rightarrow> bool" where
  "ring gn gp slots head hand S \<longleftrightarrow> (\<exists>xs. linked gn gp slots head xs \<and> set xs = S \<and> hand_ok hand xs)"

text \<open>The position after an entry in sweep order: \<^verbatim>\<open>next != kNoSlot ? next : head\<close>.\<close>

definition cyc_next :: "nat \<Rightarrow> nat \<Rightarrow> nat" where
  "cyc_next next head = (if next \<noteq> kNoSlot then next else head)"

lemma linked_cong:
  assumes "length slots' = length slots"
    and "\<And>x. x \<in> set xs \<Longrightarrow> gn (slots' ! x) = gn (slots ! x) \<and> gp (slots' ! x) = gp (slots ! x)"
  shows "linked gn gp slots' head xs \<longleftrightarrow> linked gn gp slots head xs"
  using assms(1) dll_cong [of xs "\<lambda>j. gn (slots' ! j)" "\<lambda>j. gn (slots ! j)" "\<lambda>j. gp (slots' ! j)"
      "\<lambda>j. gp (slots ! j)" kNoSlot kNoSlot] assms(2)
  by (simp add: linked_def)

lemma linked_grow:
  assumes "linked gn gp slots head xs"
  shows "linked gn gp (slots @ ys) head xs"
proof -
  have "dll (\<lambda>j. gn ((slots @ ys) ! j)) (\<lambda>j. gp ((slots @ ys) ! j)) kNoSlot xs kNoSlot \<longleftrightarrow>
      dll (\<lambda>j. gn (slots ! j)) (\<lambda>j. gp (slots ! j)) kNoSlot xs kNoSlot"
    using assms by (intro dll_cong) (auto simp: linked_def nth_append)
  with assms show ?thesis by (auto simp: linked_def)
qed

lemma linked_parts:
  assumes "linked gn gp slots head (as @ i # bs)"
  shows "gp (slots ! i) = last_or kNoSlot as" "gn (slots ! i) = hd_or kNoSlot bs"
    "head = hd_or i as"
    "dll (\<lambda>j. gn (slots ! j)) (\<lambda>j. gp (slots ! j)) kNoSlot as i"
    "dll (\<lambda>j. gn (slots ! j)) (\<lambda>j. gp (slots ! j)) i bs kNoSlot"
  using assms by (simp_all add: linked_def dll_append)

lemma linked_Nil [simp]: "linked gn gp slots head [] \<longleftrightarrow> head = kNoSlot"
  by (simp add: linked_def)

lemma linked_head: "linked gn gp slots head xs \<Longrightarrow> head = kNoSlot \<longleftrightarrow> xs = []"
  by (cases xs) (auto simp: linked_def)

lemma last_or_none: "kNoSlot \<notin> set as \<Longrightarrow> last_or kNoSlot as = kNoSlot \<longleftrightarrow> as = []"
  by (auto simp: last_or_def dest: last_in_set)

lemma hd_or_none: "kNoSlot \<notin> set bs \<Longrightarrow> hd_or kNoSlot bs = kNoSlot \<longleftrightarrow> bs = []"
  by (cases bs) auto

locale intrusive_list =
  fixes get_next get_prev :: "'m \<Rightarrow> nat" and set_next set_prev :: "nat \<Rightarrow> 'm \<Rightarrow> 'm"
  assumes get_set [simp]:
    "get_next (set_next n m) = n" "get_prev (set_prev n m) = n"
    "get_next (set_prev n m) = get_next m" "get_prev (set_next n m) = get_prev m"
begin

abbreviation lst :: "'m list \<Rightarrow> nat \<Rightarrow> nat list \<Rightarrow> bool" where
  "lst \<equiv> linked get_next get_prev"

lemma get_upd:
  "get_prev (upd_nth slots a (set_next n) ! j) = get_prev (slots ! j)"
  "get_next (upd_nth slots a (set_prev n) ! j) = get_next (slots ! j)"
  by (simp_all add: upd_nth_field [where sel = get_prev] upd_nth_field [where sel = get_next])

lemma unlink_nexts:
  assumes "a < length slots" "a \<noteq> kNoSlot" "get_prev (slots ! i) = a"
  shows "(\<lambda>j. get_next (unlink_links get_next get_prev set_next set_prev slots i ! j)) =
    (\<lambda>j. get_next (slots ! j))(a := get_next (slots ! i))"
  using assms by (auto simp: unlink_links_def Let_def get_upd nth_upd_nth fun_eq_iff)

lemma unlink_prevs:
  assumes "b < length slots" "b \<noteq> kNoSlot" "get_next (slots ! i) = b"
  shows "(\<lambda>j. get_prev (unlink_links get_next get_prev set_next set_prev slots i ! j)) =
    (\<lambda>j. get_prev (slots ! j))(b := get_prev (slots ! i))"
  using assms by (auto simp: unlink_links_def Let_def get_upd nth_upd_nth fun_eq_iff)

lemma unlink_ends:
  "get_prev (slots ! i) = kNoSlot \<Longrightarrow>
     get_next (unlink_links get_next get_prev set_next set_prev slots i ! j) = get_next (slots ! j)"
  "get_next (slots ! i) = kNoSlot \<Longrightarrow>
     get_prev (unlink_links get_next get_prev set_next set_prev slots i ! j) = get_prev (slots ! j)"
  by (simp_all add: unlink_links_def Let_def get_upd)

lemma unlink_left:
  assumes l: "lst slots head (as @ i # bs)"
  defines "slots' \<equiv> unlink_links get_next get_prev set_next set_prev slots i"
  shows "dll (\<lambda>j. get_next (slots' ! j)) (\<lambda>j. get_prev (slots' ! j)) kNoSlot as (hd_or kNoSlot bs)"
proof (cases as rule: rev_cases)
  case (snoc as' a)
  note P = linked_parts [OF l]
  have a: "a < length slots" "a \<noteq> kNoSlot" "distinct as" "set as \<inter> set bs = {}"
    using l snoc by (auto simp: linked_def)
  have nx: "(\<lambda>j. get_next (slots' ! j)) = (\<lambda>j. get_next (slots ! j))(a := hd_or kNoSlot bs)"
    unfolding slots'_def using P(1,2) snoc a by (subst unlink_nexts) auto
  have "get_prev (slots' ! x) = get_prev (slots ! x)" if "x \<in> set as" for x
  proof (cases bs)
    case Nil
    then show ?thesis using P(2) by (simp add: slots'_def unlink_ends)
  next
    case (Cons b bs')
    then have "b < length slots" "b \<noteq> kNoSlot" using l by (auto simp: linked_def)
    then have "(\<lambda>j. get_prev (slots' ! j)) = (\<lambda>j. get_prev (slots ! j))(b := get_prev (slots ! i))"
      unfolding slots'_def using P(2) Cons by (intro unlink_prevs) auto
    then show ?thesis using that a(4) Cons by (auto simp: fun_eq_iff)
  qed
  then have "dll (\<lambda>j. get_next (slots' ! j)) (\<lambda>j. get_prev (slots' ! j)) kNoSlot as (hd_or kNoSlot bs) \<longleftrightarrow>
      dll ((\<lambda>j. get_next (slots ! j))(a := hd_or kNoSlot bs)) (\<lambda>j. get_prev (slots ! j)) kNoSlot as (hd_or kNoSlot bs)"
    unfolding nx by (intro dll_cong) auto
  moreover have "\<dots>" unfolding snoc
    by (rule dll_set_last) (use P(4) a(3) snoc in auto)
  ultimately show ?thesis by blast
qed simp

lemma unlink_right:
  assumes l: "lst slots head (as @ i # bs)"
  defines "slots' \<equiv> unlink_links get_next get_prev set_next set_prev slots i"
  shows "dll (\<lambda>j. get_next (slots' ! j)) (\<lambda>j. get_prev (slots' ! j)) (last_or kNoSlot as) bs kNoSlot"
proof (cases bs)
  case (Cons b bs')
  note P = linked_parts [OF l]
  have b: "b < length slots" "b \<noteq> kNoSlot" "distinct bs" "set as \<inter> set bs = {}" "kNoSlot \<notin> set as"
    using l Cons by (auto simp: linked_def)
  have pv: "(\<lambda>j. get_prev (slots' ! j)) = (\<lambda>j. get_prev (slots ! j))(b := last_or kNoSlot as)"
    unfolding slots'_def using P(1,2) Cons b by (subst unlink_prevs) auto
  have "get_next (slots' ! x) = get_next (slots ! x)" if "x \<in> set bs" for x
  proof (cases as rule: rev_cases)
    case Nil
    then show ?thesis using P(1) by (simp add: slots'_def unlink_ends)
  next
    case (snoc as' a)
    then have "a < length slots" "a \<noteq> kNoSlot" using l by (auto simp: linked_def)
    then have "(\<lambda>j. get_next (slots' ! j)) = (\<lambda>j. get_next (slots ! j))(a := get_next (slots ! i))"
      unfolding slots'_def using P(1) snoc by (intro unlink_nexts) auto
    then show ?thesis using that b(4) snoc by (auto simp: fun_eq_iff)
  qed
  then have "dll (\<lambda>j. get_next (slots' ! j)) (\<lambda>j. get_prev (slots' ! j)) (last_or kNoSlot as) bs kNoSlot \<longleftrightarrow>
      dll (\<lambda>j. get_next (slots ! j)) ((\<lambda>j. get_prev (slots ! j))(b := last_or kNoSlot as)) (last_or kNoSlot as) bs kNoSlot"
    unfolding pv by (intro dll_cong) auto
  moreover have "\<dots>" unfolding Cons
    by (rule dll_set_first) (use P(5) b(3) Cons in auto)
  ultimately show ?thesis by blast
qed simp

lemma unlink:
  assumes l: "lst slots head (as @ i # bs)"
  shows "lst (unlink_links get_next get_prev set_next set_prev slots i)
    (unlink_head get_next get_prev slots i head) (as @ bs)"
proof -
  have no: "kNoSlot \<notin> set as" using l by (auto simp: linked_def)
  have "unlink_head get_next get_prev slots i head = hd_or kNoSlot (as @ bs)"
    using linked_parts [OF l] last_or_none [OF no]
    by (cases as) (simp_all add: unlink_head_def del: last_or_simps(2))
  with l unlink_left [OF l] unlink_right [OF l] show ?thesis
    by (auto simp: linked_def dll_append)
qed

lemma link_before_nexts:
  assumes "h < length slots" "i < length slots" "i \<noteq> h" "get_prev (slots ! h) \<noteq> i"
    "get_prev (slots ! h) \<noteq> kNoSlot \<Longrightarrow> get_prev (slots ! h) < length slots"
  shows "get_next (link_before_links get_prev set_next set_prev slots h i ! j) =
     (if j = i then h
      else if j = get_prev (slots ! h) \<and> j \<noteq> kNoSlot then i else get_next (slots ! j))"
  using assms by (auto simp: link_before_links_def Let_def get_upd nth_upd_nth)

lemma link_before_prevs:
  assumes "h < length slots" "i < length slots" "i \<noteq> h"
  shows "get_prev (link_before_links get_prev set_next set_prev slots h i ! j) =
     (if j = h then i else if j = i then get_prev (slots ! h) else get_prev (slots ! j))"
  using assms by (auto simp: link_before_links_def Let_def get_upd nth_upd_nth)

lemma link_before:
  assumes l: "lst slots head (as @ h # bs)" and i: "i < length slots" "i \<noteq> kNoSlot" "i \<notin> set (as @ h # bs)"
  shows "lst (link_before_links get_prev set_next set_prev slots h i)
    (link_before_head get_prev slots h i head) (as @ i # h # bs)"
proof -
  let ?s = "link_before_links get_prev set_next set_prev slots h i"
  let ?nx = "\<lambda>j. get_next (?s ! j)" and ?pv = "\<lambda>j. get_prev (?s ! j)"
  note P = linked_parts [OF l]
  have h: "h < length slots" "i \<noteq> h" "kNoSlot \<notin> set as" "distinct (as @ h # bs)"
    "kNoSlot \<notin> set (as @ h # bs)" "set (as @ h # bs) \<subseteq> {..<length slots}"
    using l i by (auto simp: linked_def)
  have p: "last_or kNoSlot as \<noteq> i" "last_or kNoSlot as \<noteq> kNoSlot \<Longrightarrow> last_or kNoSlot as < length slots"
    using last_or_in [of kNoSlot as] i l by (auto simp: linked_def)
  note nexts = link_before_nexts [OF h(1) i(1) h(2), unfolded P(1), OF p]
  note prevs = link_before_prevs [OF h(1) i(1) h(2), unfolded P(1)]
  have right: "dll ?nx ?pv h bs kNoSlot"
  proof -
    have "last_or kNoSlot as \<notin> set bs"
      using last_or_in [of kNoSlot as] h by auto
    then have "dll ?nx ?pv h bs kNoSlot \<longleftrightarrow> dll (\<lambda>j. get_next (slots ! j)) (\<lambda>j. get_prev (slots ! j)) h bs kNoSlot"
      using i h by (intro dll_cong) (auto simp: nexts prevs)
    with P(5) show ?thesis by simp
  qed
  have left: "dll ?nx ?pv kNoSlot as i"
  proof (cases as rule: rev_cases)
    case (snoc as' a)
    have "dll ?nx ?pv kNoSlot as i \<longleftrightarrow>
        dll ((\<lambda>j. get_next (slots ! j))(a := i)) (\<lambda>j. get_prev (slots ! j)) kNoSlot as i"
      using i h snoc by (intro dll_cong) (auto simp: nexts prevs)
    moreover have "\<dots>" unfolding snoc by (rule dll_set_last) (use P(4) h snoc in auto)
    ultimately show ?thesis by blast
  qed simp
  have "get_next (?s ! h) = get_next (slots ! h)"
    using h last_or_in [of kNoSlot as] by (auto simp: nexts)
  then have "dll ?nx ?pv kNoSlot (as @ i # h # bs) kNoSlot"
    using left right P(2) h(2) by (simp add: dll_append nexts prevs)
  moreover have "link_before_head get_prev slots h i head = hd_or kNoSlot (as @ i # h # bs)"
    using P(1,3) last_or_none [OF h(3)]
    by (cases as) (simp_all add: link_before_head_def del: last_or_simps(2))
  ultimately show ?thesis using h i by (auto simp: linked_def)
qed

lemma push_front:
  assumes l: "lst slots head xs" and i: "i < length slots" "i \<noteq> kNoSlot" "i \<notin> set xs"
    and fresh: "get_prev (slots ! i) = kNoSlot"
  shows "lst (push_front_links set_next set_prev slots head i) i (i # xs)"
proof -
  let ?s = "push_front_links set_next set_prev slots head i"
  let ?nx = "\<lambda>j. get_next (?s ! j)" and ?pv = "\<lambda>j. get_prev (?s ! j)"
  have hd: "head = hd_or kNoSlot xs" and d: "distinct xs" "set xs \<subseteq> {..<length slots} - {kNoSlot}"
    and dl: "dll (\<lambda>j. get_next (slots ! j)) (\<lambda>j. get_prev (slots ! j)) kNoSlot xs kNoSlot"
    using l by (auto simp: linked_def)
  have dll': "dll ?nx ?pv i xs kNoSlot"
  proof (cases xs)
    case (Cons x ys)
    have "dll ?nx ?pv i xs kNoSlot \<longleftrightarrow>
        dll (\<lambda>j. get_next (slots ! j)) ((\<lambda>j. get_prev (slots ! j))(x := i)) i xs kNoSlot"
      using i hd d Cons
      by (intro dll_cong) (auto simp: push_front_links_def Let_def get_upd nth_upd_nth)
    moreover have "\<dots>" unfolding Cons by (rule dll_set_first) (use dl d Cons in auto)
    ultimately show ?thesis by blast
  qed simp
  have "get_prev (?s ! i) = kNoSlot" "get_next (?s ! i) = head"
  proof -
    have "head \<noteq> i" "head \<noteq> kNoSlot \<Longrightarrow> head < length slots"
      using hd_or_in [of kNoSlot xs] i d(2) by (auto simp: hd)
    then show "get_prev (?s ! i) = kNoSlot" "get_next (?s ! i) = head"
      using fresh i by (auto simp: push_front_links_def Let_def get_upd nth_upd_nth)
  qed
  with dll' d i hd show ?thesis by (auto simp: linked_def)
qed

text \<open>Entries outside the list are not written at all.\<close>

lemma upd_nth_outside: "x \<noteq> a \<Longrightarrow> upd_nth slots a f ! x = slots ! x"
  by simp

lemma unlink_outside:
  assumes l: "lst slots head xs" and i: "i \<in> set xs" and x: "x \<notin> set xs" "x \<noteq> kNoSlot"
  shows "unlink_links get_next get_prev set_next set_prev slots i ! x = slots ! x"
proof -
  obtain as bs where ab: "xs = as @ i # bs" using i by (metis split_list)
  note P = linked_parts [OF l [unfolded ab]]
  have "get_prev (slots ! i) \<noteq> x" "get_next (slots ! i) \<noteq> x"
    using P(1,2) last_or_in [of kNoSlot as] hd_or_in [of kNoSlot bs] x ab by auto
  then show ?thesis by (simp add: unlink_links_def Let_def)
qed

lemma link_before_outside:
  assumes l: "lst slots head xs" and h: "h \<in> set xs" and x: "x \<notin> set xs" "x \<noteq> i" "x \<noteq> kNoSlot"
  shows "link_before_links get_prev set_next set_prev slots h i ! x = slots ! x"
proof -
  obtain as bs where ab: "xs = as @ h # bs" using h by (metis split_list)
  note P = linked_parts [OF l [unfolded ab]]
  have "get_prev (upd_nth slots i (set_next h) ! h) \<noteq> x" "h \<noteq> x"
    using P(1) last_or_in [of kNoSlot as] x h ab by (auto simp: get_upd)
  then show ?thesis using x(2) by (simp add: link_before_links_def Let_def)
qed

lemma push_front_outside:
  assumes l: "lst slots head xs" and x: "x \<notin> set xs" "x \<noteq> i" "x \<noteq> kNoSlot"
  shows "push_front_links set_next set_prev slots head i ! x = slots ! x"
proof -
  have "head \<noteq> x" using l x hd_or_in [of kNoSlot xs] by (auto simp: linked_def)
  then show ?thesis using x(2) by (simp add: push_front_links_def Let_def)
qed

lemma ring_unlink:
  assumes r: "ring get_next get_prev slots head hand S" and i: "i \<in> S"
  defines "head' \<equiv> unlink_head get_next get_prev slots i head"
  shows "ring get_next get_prev (unlink_links get_next get_prev set_next set_prev slots i) head'
    (if hand = i then cyc_next (get_next (slots ! i)) head' else hand) (S - {i})"
proof -
  obtain xs where xs: "lst slots head xs" "set xs = S" "hand_ok hand xs"
    using r by (auto simp: ring_def)
  obtain as bs where ab: "xs = as @ i # bs" using i xs(2) by (metis split_list)
  have d: "distinct xs" "kNoSlot \<notin> set xs" using xs(1) by (auto simp: linked_def)
  have l': "lst (unlink_links get_next get_prev set_next set_prev slots i) head' (as @ bs)"
    using unlink xs(1) ab by (simp add: head'_def)
  have n: "get_next (slots ! i) = hd_or kNoSlot bs" using linked_parts(2) xs(1) ab by simp
  have hd': "head' = hd_or kNoSlot (as @ bs)" using l' by (simp add: linked_def)
  have "hand_ok (if hand = i then cyc_next (get_next (slots ! i)) head' else hand) (as @ bs)"
    using xs(3) d n hd' ab
    by (cases as; cases bs) (auto simp: hand_ok_def cyc_next_def split: if_splits)
  moreover have "set (as @ bs) = S - {i}" using d(1) ab xs(2) by auto
  ultimately show ?thesis using l' unfolding ring_def by blast
qed

lemma ring_link:
  assumes r: "ring get_next get_prev slots head hand S" and h: "hand \<noteq> kNoSlot"
    and i: "i < length slots" "i \<noteq> kNoSlot" "i \<notin> S"
  shows "ring get_next get_prev (link_before_links get_prev set_next set_prev slots hand i)
    (link_before_head get_prev slots hand i head) hand (insert i S)"
proof -
  obtain xs where xs: "lst slots head xs" "set xs = S" "hand_ok hand xs"
    using r by (auto simp: ring_def)
  with h have "hand \<in> set xs" by (auto simp: hand_ok_def split: if_splits)
  then obtain as bs where ab: "xs = as @ hand # bs" by (metis split_list)
  have "lst (link_before_links get_prev set_next set_prev slots hand i)
      (link_before_head get_prev slots hand i head) (as @ i # hand # bs)"
    by (rule link_before) (use xs ab i in auto)
  moreover have "set (as @ i # hand # bs) = insert i S" using ab xs(2) by auto
  moreover have "hand_ok hand (as @ i # hand # bs)" by (simp add: hand_ok_def)
  ultimately show ?thesis unfolding ring_def by blast
qed

lemma ring_first:
  assumes r: "ring get_next get_prev slots head kNoSlot S"
    and i: "i < length slots" "i \<noteq> kNoSlot" "get_next (slots ! i) = kNoSlot" "get_prev (slots ! i) = kNoSlot"
  shows "ring get_next get_prev slots i i (insert i S)"
proof -
  obtain xs where xs: "lst slots head xs" "set xs = S" "hand_ok kNoSlot xs"
    using r by (auto simp: ring_def)
  then have "xs = []" by (auto simp: hand_ok_def linked_def split: if_splits)
  with xs i show ?thesis
    by (auto simp: ring_def linked_def hand_ok_def intro!: exI [of _ "[i]"])
qed

lemma ring_unlink_outside:
  assumes "ring get_next get_prev slots head hand S" "i \<in> S" "x \<notin> S" "x \<noteq> kNoSlot"
  shows "unlink_links get_next get_prev set_next set_prev slots i ! x = slots ! x"
  using assms unlink_outside by (auto simp: ring_def)

lemma ring_link_outside:
  assumes "ring get_next get_prev slots head hand S" "hand \<noteq> kNoSlot" "x \<notin> S" "x \<noteq> i" "x \<noteq> kNoSlot"
  shows "link_before_links get_prev set_next set_prev slots hand i ! x = slots ! x"
proof -
  obtain xs where xs: "lst slots head xs" "set xs = S" "hand_ok hand xs"
    using assms(1) by (auto simp: ring_def)
  with assms(2) have "hand \<in> set xs" by (auto simp: hand_ok_def split: if_splits)
  with xs assms show ?thesis by (intro link_before_outside) auto
qed

end

lemma ring_empty_iff: "ring gn gp slots head hand S \<Longrightarrow> hand = kNoSlot \<longleftrightarrow> S = {}"
  by (auto simp: ring_def hand_ok_def linked_def split: if_splits)

lemma ring_hand_in: "ring gn gp slots head hand S \<Longrightarrow> S \<noteq> {} \<Longrightarrow> hand \<in> S"
  by (auto simp: ring_def hand_ok_def split: if_splits)

lemma ring_finite: "ring gn gp slots head hand S \<Longrightarrow> finite S"
  by (auto simp: ring_def)

lemma ring_cong:
  assumes "length slots' = length slots"
    and "\<And>x. x \<in> S \<Longrightarrow> gn (slots' ! x) = gn (slots ! x) \<and> gp (slots' ! x) = gp (slots ! x)"
  shows "ring gn gp slots' head hand S \<longleftrightarrow> ring gn gp slots head hand S"
  unfolding ring_def using linked_cong [of slots' slots _ gn gp head] assms by metis

lemma ring_step:
  assumes r: "ring gn gp slots head hand S" and ne: "S \<noteq> {}"
  shows "ring gn gp slots head (cyc_next (gn (slots ! hand)) head) S"
proof -
  obtain xs where xs: "linked gn gp slots head xs" "set xs = S" "hand_ok hand xs"
    using r by (auto simp: ring_def)
  then have "hand \<in> set xs" using ne by (auto simp: hand_ok_def split: if_splits)
  then obtain as bs where ab: "xs = as @ hand # bs" by (metis split_list)
  have n: "gn (slots ! hand) = hd_or kNoSlot bs" "head = hd_or hand as"
    using linked_parts(2,3) xs(1) ab by simp_all
  have "cyc_next (gn (slots ! hand)) head \<in> set xs"
    using n ab xs(1) by (cases as; cases bs) (auto simp: cyc_next_def linked_def)
  with xs show ?thesis unfolding ring_def hand_ok_def by (intro exI [of _ xs]) auto
qed

end
