(* ===== verification/Slab_State.thy ===== *)
theory Slab_State
  imports Intrusive_List "HOL-Library.Log_Nat"
begin

text \<open>
  The data of \<^verbatim>\<open>SlabAllocator\<close> (\<^verbatim>\<open>src/cache/slab_allocator.h\<close>) and its constructor: placements, the
  dense slot-metadata table, size classes, extents, retention state, and the canonical lattice
  of slot sizes that the constructor lays down once.

  Sizes, indices and counters are natural numbers. Casts to 32 bits are written out where the
  source has them on a computed value. The 64-bit statistics and sequence counters are not
  wrapped; the accounting invariant of \<open>Slab_Inv\<close> shows that no decrement of the code is ever
  taken below zero. \<^verbatim>\<open>kUnbound\<close> (-1) of an extent's class is \<open>None\<close>. The persistence
  callbacks of \<open>Options\<close> belong to the caller: they are functions on an arbitrary world \<open>'w\<close> that
  the allocator state carries along.
\<close>

subsection \<open>Data\<close>

record SlotRef =
  ref_cls :: nat
  ref_extent :: nat
  ref_slot :: nat
  ref_slot_size :: nat
  ref_offset :: nat

definition SlotRef_valid :: "SlotRef \<Rightarrow> bool" where
  "SlotRef_valid r \<longleftrightarrow> ref_slot_size r \<noteq> 0"

definition SlotHandle_valid :: "nat \<Rightarrow> bool" where
  "SlotHandle_valid index \<longleftrightarrow> index \<noteq> UINT32_MAX"

datatype RemoveResult = kRemoved | kDeferred | kRemoveNotFound

datatype ExtentBindResult = kBound | kUnavailable | kPersistenceError

record 'w Options =
  o_extent_bytes :: nat
  o_num_extents :: nat
  o_align :: nat
  o_max_waste :: rat
  on_extent_bind :: "(nat \<Rightarrow> 'w \<Rightarrow> bool \<times> 'w) option"
  on_extent_evict :: "(nat \<Rightarrow> nat \<Rightarrow> nat \<Rightarrow> 'w \<Rightarrow> bool \<times> 'w) option"
  on_slot_evict :: "(SlotRef \<Rightarrow> 'w \<Rightarrow> bool \<times> 'w) option"

definition kStripeWays :: nat where
  "kStripeWays = 8"

definition kReadHeatUnit :: nat where
  "kReadHeatUnit = 1024"

definition kReadDecayOps :: nat where
  "kReadDecayOps = 64"

definition kWheelTickS :: nat where
  "kWheelTickS = 10"

record SlotMeta =
  m_key :: BlockKey
  m_ref :: SlotRef
  m_useful_bytes :: nat
  m_global_prev :: nat
  m_global_next :: nat
  m_free_next :: nat
  m_read_touches :: nat
  m_access_seq :: nat
  m_refs :: nat
  m_class_prev :: nat
  m_class_next :: nat
  m_extent_prev :: nat
  m_extent_next :: nat
  m_retain_until :: nat
  m_retain_ttl_s :: nat
  m_retain_persisted_until :: nat
  m_referenced :: bool
  m_remove_pending :: bool
  m_live :: bool

definition empty_meta :: SlotMeta where
  "empty_meta = \<lparr>m_key = \<lparr>digest_hi = 0, digest_lo = 0, tenant_hash = 0\<rparr>,
     m_ref = \<lparr>ref_cls = 0, ref_extent = 0, ref_slot = 0, ref_slot_size = 0, ref_offset = 0\<rparr>,
     m_useful_bytes = 0, m_global_prev = kNoSlot, m_global_next = kNoSlot, m_free_next = kNoSlot,
     m_read_touches = 0, m_access_seq = 0, m_refs = 0, m_class_prev = kNoSlot, m_class_next = kNoSlot,
     m_extent_prev = kNoSlot, m_extent_next = kNoSlot, m_retain_until = 0, m_retain_ttl_s = 0,
     m_retain_persisted_until = 0, m_referenced = False, m_remove_pending = False, m_live = False\<rparr>"

record Class =
  c_slot_size :: nat
  c_slots_per_extent :: nat
  c_free_by_ext :: "nat \<rightharpoonup> nat list"
  c_ext_rr :: "nat list"
  c_rr_next :: nat
  c_free_count :: nat
  c_resident_count :: nat
  c_bound_extents :: nat
  c_puts :: nat
  c_useful_bytes :: nat
  c_read_touches :: nat
  c_read_heat :: nat
  c_heat_seq :: nat
  c_ring_head :: nat
  c_hand :: nat
  c_protected_slots :: nat

definition new_class :: "nat \<Rightarrow> nat \<Rightarrow> Class" where
  "new_class slot_size spe = \<lparr>c_slot_size = slot_size, c_slots_per_extent = spe,
     c_free_by_ext = Map.empty, c_ext_rr = [], c_rr_next = 0, c_free_count = 0, c_resident_count = 0,
     c_bound_extents = 0, c_puts = 0, c_useful_bytes = 0, c_read_touches = 0, c_read_heat = 0,
     c_heat_seq = 0, c_ring_head = kNoSlot, c_hand = kNoSlot, c_protected_slots = 0\<rparr>"

record ExtentMeta =
  e_cls :: "nat option"
  e_free_slots :: nat
  e_total_slots :: nat
  e_pinned :: nat
  e_youngest_seq :: nat
  e_access_seq_sum :: nat
  e_useful_bytes :: nat
  e_read_heat :: nat
  e_heat_seq :: nat
  e_resident_head :: nat
  e_resident_count :: nat
  e_protected_slots :: nat

definition empty_extent :: ExtentMeta where
  "empty_extent = \<lparr>e_cls = None, e_free_slots = 0, e_total_slots = 0, e_pinned = 0, e_youngest_seq = 0,
     e_access_seq_sum = 0, e_useful_bytes = 0, e_read_heat = 0, e_heat_seq = 0,
     e_resident_head = kNoSlot, e_resident_count = 0, e_protected_slots = 0\<rparr>"

datatype RetainMode = kSet | kRefresh

datatype RetainCode = kMiss | kHitUnprotected | kProtectedNew | kRefreshed | kUpgraded | kUnchanged | kDenied

fun retain_code_index :: "RetainCode \<Rightarrow> nat" where
  "retain_code_index kMiss = 0"
| "retain_code_index kHitUnprotected = 1"
| "retain_code_index kProtectedNew = 2"
| "retain_code_index kRefreshed = 3"
| "retain_code_index kUpgraded = 4"
| "retain_code_index kUnchanged = 5"
| "retain_code_index kDenied = 6"

record RetainOptions =
  ro_enabled :: bool
  ro_budget_bytes :: nat
  ro_class_pct :: nat
  ro_max_ttl_s :: nat
  ro_persist_min_delta_s :: nat

definition default_retain :: RetainOptions where
  "default_retain = \<lparr>ro_enabled = False, ro_budget_bytes = 0, ro_class_pct = 80,
     ro_max_ttl_s = 3600, ro_persist_min_delta_s = 60\<rparr>"

record WheelEntry =
  we_key :: BlockKey
  we_until :: nat

record 'w SlabAllocator =
  a_opt :: "'w Options"
  a_classes :: "Class list"
  a_extents :: "ExtentMeta list"
  a_slots :: "SlotMeta list"
  a_free_slot_meta_head :: nat
  a_global_ring_head :: nat
  a_global_hand :: nat
  a_index :: flat_index
  a_unbound :: nat
  a_used_bytes :: nat
  a_evictions :: nat
  a_steals :: nat
  a_cold_steals :: nat
  a_watermark_evictions :: nat
  a_watermark_scan_steps :: nat
  a_extent_returns :: nat
  a_put_seq :: nat
  a_activity_seq :: nat
  a_cold_window :: nat
  a_cold_steal_enabled :: bool
  a_retain :: RetainOptions
  a_protected_bytes :: nat
  a_protected_slots :: nat
  a_retain_expired :: nat
  a_retain_evict_skipped :: nat
  a_retain_results :: "nat list"
  a_wheel :: "WheelEntry list list"
  a_wheel_entries :: nat
  a_wheel_tick :: nat
  a_retain_now_s :: nat
  a_world :: 'w

text \<open>Modifying one entry of a table in place.\<close>

abbreviation upd_slot :: "nat \<Rightarrow> (SlotMeta \<Rightarrow> SlotMeta) \<Rightarrow> 'w SlabAllocator \<Rightarrow> 'w SlabAllocator" where
  "upd_slot i f s \<equiv> s\<lparr>a_slots := upd_nth (a_slots s) i f\<rparr>"

abbreviation upd_class :: "nat \<Rightarrow> (Class \<Rightarrow> Class) \<Rightarrow> 'w SlabAllocator \<Rightarrow> 'w SlabAllocator" where
  "upd_class c f s \<equiv> s\<lparr>a_classes := upd_nth (a_classes s) c f\<rparr>"

abbreviation upd_extent :: "nat \<Rightarrow> (ExtentMeta \<Rightarrow> ExtentMeta) \<Rightarrow> 'w SlabAllocator \<Rightarrow> 'w SlabAllocator" where
  "upd_extent e f s \<equiv> s\<lparr>a_extents := upd_nth (a_extents s) e f\<rparr>"

subsection \<open>Double-precision arithmetic of the slot lattice\<close>

text \<open>
  The lattice is computed in \<^verbatim>\<open>double\<close>. A finite double is modelled by its rational value and an
  operation by the exact result rounded to nearest, ties to even, with a 53-bit significand. The
  operands (at most 33-bit integers and quotients by at least \<open>10^-6\<close>) stay far from
  overflow and subnormal numbers, so the exponent range is left unbounded. \<^verbatim>\<open>max_waste\<close> is taken
  to be a finite number.
\<close>

definition dbl_exp :: "rat \<Rightarrow> int" where
  "dbl_exp x =
     (let (n, d) = quotient_of x;
          k = int (floorlog 2 (nat n)) - int (floorlog 2 (nat d)) - 53
      in if x \<ge> 2 powi (k + 53) then k + 1 else k)"

definition round_half_even :: "rat \<Rightarrow> int" where
  "round_half_even y =
     (let f = \<lfloor>y\<rfloor>; r = y - of_int f
      in if r < 1 / 2 then f else if r > 1 / 2 then f + 1 else if even f then f else f + 1)"

definition dbl :: "rat \<Rightarrow> rat" where
  "dbl x = (if x \<le> 0 then x else let e = dbl_exp x in of_int (round_half_even (x / 2 powi e)) * 2 powi e)"

subsection \<open>The canonical slot sizes\<close>

definition AlignUp :: "nat \<Rightarrow> nat \<Rightarrow> nat" where
  "AlignUp x a =
     (if a \<le> 1 then x
      else if x > UINT64_MAX - (a - 1) then 0
      else ((x + (a - 1)) div a) * a)"

definition max_aligned :: "'w Options \<Rightarrow> nat" where
  "max_aligned opt =
     min ((o_extent_bytes opt div o_align opt) * o_align opt) ((UINT32_MAX div o_align opt) * o_align opt)"

definition slot_candidate :: "'w Options \<Rightarrow> nat \<Rightarrow> nat" where
  "slot_candidate opt current =
     (let waste = min (o_max_waste opt) (dbl 0.999999);
          minimum = current + o_align opt;
          candidate =
            (if waste > 0
             then (let raw = dbl (dbl (of_nat minimum) / dbl (1 - waste));
                       bounded = nat \<lfloor>raw\<rfloor>;
                       aligned = (bounded div o_align opt) * o_align opt
                   in if aligned < minimum then minimum else aligned)
             else minimum)
      in if candidate > max_aligned opt then max_aligned opt else candidate)"

text \<open>The \<^verbatim>\<open>while (current < aligned_len)\<close> loop of \<^verbatim>\<open>CanonicalSlotSize\<close>.\<close>

function canonical_loop :: "'w Options \<Rightarrow> nat \<Rightarrow> nat \<Rightarrow> nat" where
  "canonical_loop opt aligned_len current =
     (if current < aligned_len
      then (let candidate = slot_candidate opt current
            in if candidate \<le> current then aligned_len mod 2 ^ 32
               else canonical_loop opt aligned_len candidate)
      else current mod 2 ^ 32)"
  by pat_completeness auto
termination
  by (relation "measure (\<lambda>(opt, len, current). len - current)") auto

definition CanonicalSlotSize :: "'w Options \<Rightarrow> nat \<Rightarrow> nat" where
  "CanonicalSlotSize opt aligned_len = canonical_loop opt aligned_len (o_align opt)"

definition class_of_size :: "'w Options \<Rightarrow> nat \<Rightarrow> Class" where
  "class_of_size opt slot_size = new_class (slot_size mod 2 ^ 32) ((o_extent_bytes opt div slot_size) mod 2 ^ 32)"

function build_classes :: "'w Options \<Rightarrow> nat \<Rightarrow> Class list" where
  "build_classes opt slot_size =
     (if slot_size \<le> max_aligned opt
      then class_of_size opt slot_size #
        (if slot_size = max_aligned opt then []
         else (let next = CanonicalSlotSize opt (slot_size + o_align opt)
               in if next \<le> slot_size then [] else build_classes opt next))
      else [])"
  by pat_completeness auto
termination
  by (relation "measure (\<lambda>(opt, size). Suc (max_aligned opt) - size)") auto

declare canonical_loop.simps [simp del] build_classes.simps [simp del]

definition normalize_options :: "'w Options \<Rightarrow> 'w Options" where
  "normalize_options opt0 =
     (let opt1 = (if o_align opt0 = 0 then opt0\<lparr>o_align := 1\<rparr> else opt0);
          opt2 = (if o_num_extents opt1 = 0 then opt1\<lparr>o_num_extents := 1\<rparr> else opt1)
      in if o_max_waste opt2 < 0 then opt2\<lparr>o_max_waste := 0\<rparr> else opt2)"

text \<open>
  The constructor. \<open>cold_env\<close> is the number parsed from \<^verbatim>\<open>DFKV_SLAB_COLD_STEAL_WINDOW\<close>, \<open>None\<close>
  when the variable is unset or has no leading digits.
\<close>

definition new_allocator :: "'w Options \<Rightarrow> nat option \<Rightarrow> 'w \<Rightarrow> 'w SlabAllocator" where
  "new_allocator opt0 cold_env w =
     (let opt = normalize_options opt0
      in \<lparr>a_opt = opt, a_classes = build_classes opt (o_align opt),
          a_extents = replicate (o_num_extents opt) empty_extent, a_slots = [],
          a_free_slot_meta_head = kNoSlot, a_global_ring_head = kNoSlot, a_global_hand = kNoSlot,
          a_index = empty_index, a_unbound = o_num_extents opt, a_used_bytes = 0, a_evictions = 0,
          a_steals = 0, a_cold_steals = 0, a_watermark_evictions = 0, a_watermark_scan_steps = 0,
          a_extent_returns = 0, a_put_seq = 0, a_activity_seq = 0,
          a_cold_window = (case cold_env of Some v \<Rightarrow> v | None \<Rightarrow> 0),
          a_cold_steal_enabled = (cold_env \<noteq> Some 0),
          a_retain = default_retain, a_protected_bytes = 0, a_protected_slots = 0,
          a_retain_expired = 0, a_retain_evict_skipped = 0, a_retain_results = replicate 7 0,
          a_wheel = [], a_wheel_entries = 0, a_wheel_tick = 0, a_retain_now_s = 0, a_world = w\<rparr>)"

fun find_class :: "Class list \<Rightarrow> nat \<Rightarrow> nat \<Rightarrow> nat" where
  "find_class [] slot_size i = i"
| "find_class (c # cs) slot_size i = (if c_slot_size c = slot_size then i else find_class cs slot_size (Suc i))"

definition ClassForExactSize :: "'w SlabAllocator \<Rightarrow> nat \<Rightarrow> nat" where
  "ClassForExactSize s slot_size = find_class (a_classes s) slot_size 0"

definition ClassForLen :: "'w SlabAllocator \<Rightarrow> nat \<Rightarrow> nat" where
  "ClassForLen s aligned_len = ClassForExactSize s (CanonicalSlotSize (a_opt s) aligned_len)"

definition Capacity :: "'w SlabAllocator \<Rightarrow> nat" where
  "Capacity s = o_num_extents (a_opt s) * o_extent_bytes (a_opt s)"

subsection \<open>Properties of the lattice\<close>

lemma find_class_props:
  "i \<le> find_class cs z i" "find_class cs z i \<le> i + length cs"
  "find_class cs z i < i + length cs \<Longrightarrow> c_slot_size (cs ! (find_class cs z i - i)) = z"
  "find_class cs z i = i + length cs \<Longrightarrow> z \<notin> c_slot_size ` set cs"
proof -
  show "i \<le> find_class cs z i" by (induction cs z i rule: find_class.induct) auto
  show "find_class cs z i \<le> i + length cs" by (induction cs z i rule: find_class.induct) auto
  have ge: "i \<le> find_class cs z i" for i cs z by (induction cs z i rule: find_class.induct) auto
  show "find_class cs z i < i + length cs \<Longrightarrow> c_slot_size (cs ! (find_class cs z i - i)) = z"
  proof (induction cs z i rule: find_class.induct)
    case (2 c cs z i)
    have gt: "i < find_class cs z (Suc i)" using ge [of "Suc i" cs z] by simp
    show ?case
    proof (cases "c_slot_size c = z")
      case False
      then show ?thesis using 2 gt by (simp add: nth_Cons')
    qed simp
  qed simp
  show "find_class cs z i = i + length cs \<Longrightarrow> z \<notin> c_slot_size ` set cs"
    by (induction cs z i rule: find_class.induct) (auto split: if_splits)
qed

text \<open>
  The chain of slot sizes: the loop of \<open>CanonicalSlotSize\<close> walks along it and the constructor
  lays it down. Nothing about the rounding of \<^verbatim>\<open>double\<close> is needed, because every candidate is
  clamped between the next aligned size and the largest one.
\<close>

lemma max_aligned_bounds:
  "max_aligned opt \<le> o_extent_bytes opt" "max_aligned opt < 2 ^ 32" "o_align opt dvd max_aligned opt"
proof -
  have "a div b * b \<le> a" for a b :: nat by simp
  then have "max_aligned opt \<le> o_extent_bytes opt" "max_aligned opt \<le> UINT32_MAX"
    unfolding max_aligned_def by (auto simp: min_le_iff_disj)
  then show "max_aligned opt \<le> o_extent_bytes opt" "max_aligned opt < 2 ^ 32"
    by (simp_all add: UINT32_MAX_def)
  show "o_align opt dvd max_aligned opt" by (auto simp: max_aligned_def min_def)
qed

lemma dvd_less_step:
  fixes a :: nat
  assumes "a dvd c" "a dvd m" "c < m"
  shows "c + a \<le> m"
  using assms by (metis dvd_diff_nat dvd_imp_le le_add_diff_inverse less_imp_le nat_add_left_cancel_le zero_less_diff)

lemma slot_candidate_bounds:
  assumes "o_align opt dvd c" "c < max_aligned opt"
  shows "c + o_align opt \<le> slot_candidate opt c" "slot_candidate opt c \<le> max_aligned opt"
    "o_align opt dvd slot_candidate opt c"
  using assms max_aligned_bounds(3) [of opt] dvd_less_step [OF assms(1) max_aligned_bounds(3) assms(2)]
  by (auto simp: slot_candidate_def Let_def)

definition on_chain :: "'w Options \<Rightarrow> nat \<Rightarrow> bool" where
  "on_chain opt c \<longleftrightarrow> 0 < c \<and> o_align opt dvd c \<and> c \<le> max_aligned opt \<and>
     (\<forall>len. c \<le> len \<longrightarrow> len \<le> max_aligned opt \<longrightarrow>
        canonical_loop opt len (o_align opt) = canonical_loop opt len c)"

lemma canonical_loop_step:
  assumes "0 < o_align opt" "o_align opt dvd c" "c < len" "len \<le> max_aligned opt"
  shows "canonical_loop opt len c = canonical_loop opt len (slot_candidate opt c)"
proof -
  have "c < slot_candidate opt c" using slot_candidate_bounds(1) [of opt c] assms by simp
  with assms(3) show ?thesis by (subst canonical_loop.simps) (simp add: Let_def)
qed

lemma canonical_loop_done: "len \<le> c \<Longrightarrow> c \<le> max_aligned opt \<Longrightarrow> canonical_loop opt len c = c"
  using max_aligned_bounds(2) [of opt] by (subst canonical_loop.simps) simp

lemma on_chain_start: "0 < o_align opt \<Longrightarrow> o_align opt \<le> max_aligned opt \<Longrightarrow> on_chain opt (o_align opt)"
  by (simp add: on_chain_def)

lemma on_chain_next:
  assumes "0 < o_align opt" "on_chain opt c" "c < max_aligned opt"
  shows "CanonicalSlotSize opt (c + o_align opt) = slot_candidate opt c" "on_chain opt (slot_candidate opt c)"
    "c < slot_candidate opt c"
proof -
  have c: "o_align opt dvd c" using assms(2) by (simp add: on_chain_def)
  note B = slot_candidate_bounds [OF c assms(3)]
  show less: "c < slot_candidate opt c" using B(1) assms(1) by simp
  have jump: "canonical_loop opt len (o_align opt) = canonical_loop opt len (slot_candidate opt c)"
    if "c < len" "len \<le> max_aligned opt" for len
    using that assms c canonical_loop_step [of opt c len] by (simp add: on_chain_def)
  show "CanonicalSlotSize opt (c + o_align opt) = slot_candidate opt c"
    unfolding CanonicalSlotSize_def using B assms(1) by (simp add: jump canonical_loop_done)
  show "on_chain opt (slot_candidate opt c)"
    using B less jump assms(1) by (auto simp: on_chain_def)
qed

lemma build_classes_step:
  assumes "0 < o_align opt" "on_chain opt c"
  shows "build_classes opt c = class_of_size opt c #
    (if c = max_aligned opt then [] else build_classes opt (slot_candidate opt c))"
proof -
  have "c \<le> max_aligned opt" using assms(2) by (simp add: on_chain_def)
  with on_chain_next [OF assms] show ?thesis
    by (subst build_classes.simps) (auto simp: Let_def)
qed

lemma class_of_size_sel:
  assumes "c \<le> max_aligned opt"
  shows "c_slot_size (class_of_size opt c) = c"
  using assms max_aligned_bounds(2) [of opt] by (simp add: class_of_size_def new_class_def)

text \<open>The sizes laid down from a point of the chain, and the one the loop picks for a length.\<close>

lemma build_classes_lattice:
  assumes al: "0 < o_align opt" and "on_chain opt c"
  shows "sorted_wrt (<) (map c_slot_size (build_classes opt c)) \<and>
    hd (map c_slot_size (build_classes opt c)) = c \<and> build_classes opt c \<noteq> [] \<and>
    last (map c_slot_size (build_classes opt c)) = max_aligned opt \<and>
    (\<forall>k\<in>set (build_classes opt c). c \<le> c_slot_size k \<and> c_slot_size k \<le> max_aligned opt \<and>
        o_align opt dvd c_slot_size k \<and> k = class_of_size opt (c_slot_size k)) \<and>
    (\<forall>len\<le>max_aligned opt. let z = canonical_loop opt len c
       in z \<in> c_slot_size ` set (build_classes opt c) \<and> len \<le> z \<and>
          (\<forall>z'\<in>c_slot_size ` set (build_classes opt c). len \<le> z' \<longrightarrow> z \<le> z'))"
  using assms(2)
proof (induction "max_aligned opt - c" arbitrary: c rule: less_induct)
  case less
  note st = build_classes_step [OF al less.prems]
  have c: "c \<le> max_aligned opt" "o_align opt dvd c" using less.prems by (auto simp: on_chain_def)
  show ?case
  proof (cases "c = max_aligned opt")
    case True
    then show ?thesis using class_of_size_sel [OF c(1)] c(2) canonical_loop_done [of _ c opt]
      unfolding st by (simp add: Let_def)
  next
    case False
    with c have lt: "c < max_aligned opt" by simp
    let ?d = "slot_candidate opt c"
    note N = on_chain_next [OF al less.prems lt]
    have d: "c < ?d" "?d \<le> max_aligned opt" using N(2,3) by (auto simp: on_chain_def)
    note IH = less.hyps [OF _ N(2)]
    have IH': "sorted_wrt (<) (map c_slot_size (build_classes opt ?d))"
      "hd (map c_slot_size (build_classes opt ?d)) = ?d" "build_classes opt ?d \<noteq> []"
      "last (map c_slot_size (build_classes opt ?d)) = max_aligned opt"
      "\<And>k. k \<in> set (build_classes opt ?d) \<Longrightarrow> ?d \<le> c_slot_size k \<and> c_slot_size k \<le> max_aligned opt \<and>
        o_align opt dvd c_slot_size k \<and> k = class_of_size opt (c_slot_size k)"
      and find: "\<And>len. len \<le> max_aligned opt \<Longrightarrow>
        canonical_loop opt len ?d \<in> c_slot_size ` set (build_classes opt ?d) \<and> len \<le> canonical_loop opt len ?d \<and>
          (\<forall>z'\<in>c_slot_size ` set (build_classes opt ?d). len \<le> z' \<longrightarrow> canonical_loop opt len ?d \<le> z')"
      using IH d lt by (simp_all add: Let_def)
    have pick: "let z = canonical_loop opt len c
       in z \<in> insert c (c_slot_size ` set (build_classes opt ?d)) \<and> len \<le> z \<and>
          (\<forall>z'\<in>insert c (c_slot_size ` set (build_classes opt ?d)). len \<le> z' \<longrightarrow> z \<le> z')"
      if "len \<le> max_aligned opt" for len
    proof (cases "len \<le> c")
      case True
      then show ?thesis using canonical_loop_done [OF True c(1)] IH'(5) d by (force simp: Let_def)
    next
      case False
      then show ?thesis using find [OF that] canonical_loop_step [OF al c(2) _ that]
        by (simp add: Let_def)
    qed
    have all: "\<forall>k\<in>set (build_classes opt ?d). c \<le> c_slot_size k \<and> c < c_slot_size k \<and> c_slot_size k \<le> max_aligned opt \<and>
        o_align opt dvd c_slot_size k \<and> k = class_of_size opt (c_slot_size k)"
      using IH'(5) d(1) by fastforce
    show ?thesis using st False IH'(1-4) all pick class_of_size_sel [OF c(1)] c by (simp add: last_map)
  qed
qed

text \<open>The loop returns a size that holds the length, except for the truncation of lengths beyond 32 bits.\<close>

lemma canonical_loop_ge:
  "current \<le> max_aligned opt \<Longrightarrow>
     aligned_len \<le> canonical_loop opt aligned_len current \<or> canonical_loop opt aligned_len current = aligned_len mod 2 ^ 32"
proof (induction opt aligned_len current rule: canonical_loop.induct)
  case (1 opt aligned_len current)
  have "slot_candidate opt current \<le> max_aligned opt" by (simp add: slot_candidate_def Let_def)
  with 1 max_aligned_bounds(2) [of opt] show ?case
    by (subst (1 2) canonical_loop.simps) (auto simp: Let_def)
qed

lemma AlignUp_ge: "AlignUp x a \<noteq> 0 \<Longrightarrow> x \<le> AlignUp x a" "AlignUp x a \<noteq> 0 \<Longrightarrow> AlignUp x a < x + max a 1"
proof -
  have "0 < a \<Longrightarrow> x \<le> (x + (a - 1)) div a * a" using div_mult_mod_eq [of "x + (a - 1)" a] mod_less_divisor [of a "x + (a - 1)"] by linarith
  then show "AlignUp x a \<noteq> 0 \<Longrightarrow> x \<le> AlignUp x a" by (auto simp: AlignUp_def split: if_splits)
  have "0 < a \<Longrightarrow> (x + (a - 1)) div a * a < x + a" using div_mult_mod_eq [of "x + (a - 1)" a] by linarith
  then show "AlignUp x a \<noteq> 0 \<Longrightarrow> AlignUp x a < x + max a 1" by (auto simp: AlignUp_def split: if_splits)
qed

lemma normalize_options_props:
  "0 < o_align (normalize_options opt)" "0 < o_num_extents (normalize_options opt)"
  by (auto simp: normalize_options_def Let_def)

end
