(* ===== verification/Slab_Free_Lists.thy ===== *)
theory Slab_Free_Lists
  imports Slab_State "HOL-Library.Multiset"
begin

text \<open>
  The free slots of a size class: one stack of slot numbers per extent and a rotation of the
  extents that still have free slots (\<^verbatim>\<open>PushFreeLocked\<close>, \<^verbatim>\<open>PopFreeLocked\<close>, \<^verbatim>\<open>TakeFreeSlotLocked\<close>,
  \<^verbatim>\<open>DropExtentFreeLocked\<close> and \<^verbatim>\<open>DropFromRotationLocked\<close> of \<^verbatim>\<open>src/cache/slab_allocator.cc\<close>). The locale
  \<open>free_pool\<close> states what the rest of the allocator relies on: a set of free slots per extent,
  and how each operation changes it.
\<close>

subsection \<open>Operations\<close>

definition free_of :: "Class \<Rightarrow> nat \<Rightarrow> nat list" where
  "free_of C extent = (case c_free_by_ext C extent of Some slots \<Rightarrow> slots | None \<Rightarrow> [])"

definition PushFreeLocked :: "nat \<Rightarrow> nat \<Rightarrow> Class \<Rightarrow> Class" where
  "PushFreeLocked extent slot C =
     (let slots = free_of C extent
      in C\<lparr>c_ext_rr := (if slots = [] then c_ext_rr C @ [extent] else c_ext_rr C),
           c_free_by_ext := (c_free_by_ext C)(extent \<mapsto> slots @ [slot]),
           c_free_count := c_free_count C + 1\<rparr>)"

text \<open>\<^verbatim>\<open>v[i] = v.back(); v.pop_back()\<close>\<close>

definition swap_remove :: "'a list \<Rightarrow> nat \<Rightarrow> 'a list" where
  "swap_remove xs i = butlast (xs[i := last xs])"

definition PopFreeLocked :: "Class \<Rightarrow> (nat \<times> nat) option \<times> Class" where
  "PopFreeLocked C =
     (if c_ext_rr C = [] then (None, C)
      else (let rr = (if c_rr_next C \<ge> length (c_ext_rr C) then 0 else c_rr_next C);
                extent = c_ext_rr C ! rr;
                slots = free_of C extent;
                slot = last slots;
                slots' = butlast slots
            in (Some (extent, slot),
                C\<lparr>c_free_by_ext := (c_free_by_ext C)(extent \<mapsto> slots'),
                  c_free_count := c_free_count C - 1,
                  c_ext_rr := (if slots' = [] then swap_remove (c_ext_rr C) rr else c_ext_rr C),
                  c_rr_next := (if slots' = [] then rr else rr + 1)\<rparr>)))"

fun position :: "'a \<Rightarrow> 'a list \<Rightarrow> nat \<Rightarrow> nat option" where
  "position x [] i = None"
| "position x (y # ys) i = (if y = x then Some i else position x ys (Suc i))"

definition DropFromRotationLocked :: "nat \<Rightarrow> Class \<Rightarrow> Class" where
  "DropFromRotationLocked extent C =
     (case position extent (c_ext_rr C) 0 of
        None \<Rightarrow> C
      | Some i \<Rightarrow>
          (let rr = swap_remove (c_ext_rr C) i;
               next1 = (if c_rr_next C > i then c_rr_next C - 1 else c_rr_next C);
               next2 = (if next1 \<ge> length rr \<and> rr \<noteq> [] then 0 else next1)
           in C\<lparr>c_ext_rr := rr, c_rr_next := next2\<rparr>))"

definition TakeFreeSlotLocked :: "nat \<Rightarrow> nat \<Rightarrow> Class \<Rightarrow> bool \<times> Class" where
  "TakeFreeSlotLocked extent slot C =
     (case c_free_by_ext C extent of
        None \<Rightarrow> (False, C)
      | Some slots \<Rightarrow>
          (case position slot slots 0 of
             None \<Rightarrow> (False, C)
           | Some i \<Rightarrow>
               (let slots' = swap_remove slots i;
                    C1 = C\<lparr>c_free_by_ext := (c_free_by_ext C)(extent \<mapsto> slots'),
                           c_free_count := c_free_count C - 1\<rparr>
                in (True, if slots' = [] then DropFromRotationLocked extent C1 else C1))))"

definition DropExtentFreeLocked :: "nat \<Rightarrow> Class \<Rightarrow> Class" where
  "DropExtentFreeLocked extent C =
     (case c_free_by_ext C extent of
        None \<Rightarrow> C
      | Some slots \<Rightarrow>
          DropFromRotationLocked extent
            (C\<lparr>c_free_count := c_free_count C - length slots,
               c_free_by_ext := (c_free_by_ext C)(extent := None)\<rparr>))"

subsection \<open>Lists\<close>

lemma mset_Cons_butlast: "xs \<noteq> [] \<Longrightarrow> mset (last xs # butlast xs) = mset xs"
  by (metis append_butlast_last_id mset.simps(1,2) mset_append union_mset_add_mset_right add.right_neutral)

lemma swap_remove_mset:
  assumes "i < length xs"
  shows "mset (xs ! i # swap_remove xs i) = mset xs"
proof -
  have ne: "xs \<noteq> []" using assms by auto
  let ?ys = "xs[i := last xs]"
  have l: "last ?ys = last xs" using ne by (simp add: last_list_update)
  have "mset ?ys = add_mset (last xs) (mset xs - {#xs ! i#})" using assms by (rule mset_update)
  moreover have "mset (last ?ys # butlast ?ys) = mset ?ys" using ne by (intro mset_Cons_butlast) simp
  ultimately have "mset (butlast ?ys) = mset xs - {#xs ! i#}" using l by simp
  with assms show ?thesis by (simp add: swap_remove_def)
qed

lemma swap_remove_distinct:
  assumes "i < length xs" "distinct xs"
  shows "distinct (swap_remove xs i)" "set (swap_remove xs i) = set xs - {xs ! i}"
    "length (swap_remove xs i) = length xs - 1"
proof -
  note M = swap_remove_mset [OF assms(1)]
  have d: "distinct (xs ! i # swap_remove xs i)" using mset_eq_imp_distinct_iff [OF M] assms(2) by blast
  then show "distinct (swap_remove xs i)" by simp
  show "set (swap_remove xs i) = set xs - {xs ! i}"
    using d mset_eq_setD [OF M] by auto
  show "length (swap_remove xs i) = length xs - 1"
    using mset_eq_length [OF M] by simp
qed

lemma position_Some: "position x xs i = Some j \<Longrightarrow> i \<le> j \<and> j < i + length xs \<and> xs ! (j - i) = x"
proof (induction x xs i rule: position.induct)
  case (2 x y ys i)
  then show ?case by (cases "y = x") (auto simp: nth_Cons')
qed simp

lemma position_None: "position x xs i = None \<longleftrightarrow> x \<notin> set xs"
  by (induction x xs i rule: position.induct) auto

lemma butlast_distinct:
  assumes "distinct xs" "xs \<noteq> []"
  shows "distinct (butlast xs)" "set (butlast xs) = set xs - {last xs}" "last xs \<in> set xs"
proof -
  note M = mset_Cons_butlast [OF assms(2)]
  have "distinct (last xs # butlast xs)" using mset_eq_imp_distinct_iff [OF M] assms(1) by blast
  then show "distinct (butlast xs)" "set (butlast xs) = set xs - {last xs}"
    using mset_eq_setD [OF M] by auto
  show "last xs \<in> set xs" using assms(2) by simp
qed

subsection \<open>The interface\<close>

text \<open>
  \<open>pool_ok\<close> is the invariant of the free lists; \<open>frees C e\<close> the set of free slots of extent \<open>e\<close>.
\<close>

definition frees :: "Class \<Rightarrow> nat \<Rightarrow> nat set" where
  "frees C e = set (free_of C e)"

definition pool_ok :: "Class \<Rightarrow> bool" where
  "pool_ok C \<longleftrightarrow> distinct (c_ext_rr C) \<and> (\<forall>e. e \<in> set (c_ext_rr C) \<longleftrightarrow> free_of C e \<noteq> []) \<and>
     (\<forall>e. distinct (free_of C e)) \<and>
     c_free_count C = (\<Sum>e\<in>set (c_ext_rr C). card (frees C e))"

locale free_pool =
  fixes ok :: "'c \<Rightarrow> bool" and free_set :: "'c \<Rightarrow> nat \<Rightarrow> nat set" and extents_with_free :: "'c \<Rightarrow> nat list"
    and count :: "'c \<Rightarrow> nat"
    and push :: "nat \<Rightarrow> nat \<Rightarrow> 'c \<Rightarrow> 'c" and pop :: "'c \<Rightarrow> (nat \<times> nat) option \<times> 'c"
    and take_slot :: "nat \<Rightarrow> nat \<Rightarrow> 'c \<Rightarrow> bool \<times> 'c" and drop_extent :: "nat \<Rightarrow> 'c \<Rightarrow> 'c"
  assumes rotation: "ok C \<Longrightarrow> set (extents_with_free C) = {e. free_set C e \<noteq> {}}"
    and rotation_distinct: "ok C \<Longrightarrow> distinct (extents_with_free C)"
    and count_sum: "ok C \<Longrightarrow> count C = (\<Sum>e\<in>set (extents_with_free C). card (free_set C e))"
    and finite_free: "finite (free_set C e)"
    and push_ok: "ok C \<Longrightarrow> s \<notin> free_set C e \<Longrightarrow> ok (push e s C)"
    and push_free: "free_set (push e s C) = (free_set C)(e := insert s (free_set C e))"
    and pop_none: "ok C \<Longrightarrow> fst (pop C) = None \<longleftrightarrow> (\<forall>e. free_set C e = {})"
    and pop_some: "ok C \<Longrightarrow> pop C = (Some (e, s), C') \<Longrightarrow>
      s \<in> free_set C e \<and> ok C' \<and> free_set C' = (free_set C)(e := free_set C e - {s})"
    and take_some: "ok C \<Longrightarrow> s \<in> free_set C e \<Longrightarrow> \<exists>C'. take_slot e s C = (True, C') \<and>
      ok C' \<and> free_set C' = (free_set C)(e := free_set C e - {s})"
    and drop_ok: "ok C \<Longrightarrow> ok (drop_extent e C)"
    and drop_free: "ok C \<Longrightarrow> free_set (drop_extent e C) = (free_set C)(e := {})"
begin

text \<open>Pushing a run of fresh slots, as binding an extent does.\<close>

lemma push_all:
  assumes "ok C" "distinct ss" "set ss \<inter> free_set C e = {}"
  shows "ok (fold (push e) ss C) \<and>
    free_set (fold (push e) ss C) = (free_set C)(e := free_set C e \<union> set ss)"
  using assms
proof (induction ss arbitrary: C)
  case (Cons s ss)
  then have "ok (push e s C)" by (intro push_ok) auto
  with Cons show ?case by (auto simp: push_free fun_eq_iff)
qed (simp add: fun_eq_iff)

lemma count_pos: "ok C \<Longrightarrow> s \<in> free_set C e \<Longrightarrow> 0 < count C"
proof -
  assume a: "ok C" "s \<in> free_set C e"
  then have e: "e \<in> set (extents_with_free C)" by (auto simp: rotation)
  have "0 < card (free_set C e)" using a(2) finite_free by (auto simp: card_gt_0_iff)
  also have "\<dots> \<le> (\<Sum>e\<in>set (extents_with_free C). card (free_set C e))"
    using e by (intro member_le_sum) auto
  finally show ?thesis using a(1) by (simp add: count_sum)
qed

end

subsection \<open>The class free lists provide the interface\<close>

lemma pool_okD:
  assumes "pool_ok C"
  shows "distinct (c_ext_rr C)" "e \<in> set (c_ext_rr C) \<longleftrightarrow> free_of C e \<noteq> []" "distinct (free_of C e)"
    "c_free_count C = (\<Sum>e\<in>set (c_ext_rr C). card (frees C e))"
  using assms by (auto simp: pool_ok_def)

lemma pool_okI:
  assumes "distinct (c_ext_rr C)" "\<And>e. e \<in> set (c_ext_rr C) \<longleftrightarrow> free_of C e \<noteq> []"
    "\<And>e. distinct (free_of C e)" "c_free_count C = (\<Sum>e\<in>set (c_ext_rr C). card (frees C e))"
  shows "pool_ok C"
  using assms by (simp add: pool_ok_def)

lemma frees_empty: "frees C e = {} \<longleftrightarrow> free_of C e = []"
  by (simp add: frees_def)

text \<open>The count when the free set of one extent changes.\<close>

lemma sum_frees_change:
  fixes g g' :: "nat \<Rightarrow> nat"
  assumes "finite A" "finite B" "\<And>x. x \<notin> A \<Longrightarrow> g x = 0" "\<And>x. x \<notin> B \<Longrightarrow> g' x = 0" "\<And>x. x \<noteq> e \<Longrightarrow> g' x = g x"
  shows "sum g' B + g e = sum g A + g' e"
proof -
  let ?U = "insert e (A \<union> B)"
  have "sum g A = sum g ?U" "sum g' B = sum g' ?U"
    using assms by (auto intro!: sum.mono_neutral_left)
  moreover have "sum g ?U = g e + sum g (?U - {e})" "sum g' ?U = g' e + sum g' (?U - {e})"
    using assms(1,2) by (simp_all add: sum.insert_remove)
  moreover have "sum g' (?U - {e}) = sum g (?U - {e})" using assms(5) by (intro sum.cong) auto
  ultimately show ?thesis by simp
qed

lemma free_count_change:
  assumes ok: "pool_ok C" and rr: "\<And>x. x \<in> set (c_ext_rr C') \<longleftrightarrow> free_of C' x \<noteq> []"
    and other: "\<And>x. x \<noteq> e \<Longrightarrow> frees C' x = frees C x"
  shows "(\<Sum>x\<in>set (c_ext_rr C'). card (frees C' x)) + card (frees C e) = c_free_count C + card (frees C' e)"
  unfolding pool_okD(4) [OF ok]
  by (rule sum_frees_change) (use ok rr other in \<open>auto simp: pool_okD frees_def\<close>)

lemma card_frees_le:
  assumes ok: "pool_ok C"
  shows "card (frees C e) \<le> c_free_count C"
proof (cases "e \<in> set (c_ext_rr C)")
  case True
  then show ?thesis
    unfolding pool_okD(4) [OF ok] by (intro member_le_sum) auto
qed (use ok in \<open>simp add: pool_okD frees_def\<close>)

lemma free_of_push: "free_of (PushFreeLocked e s C) x = (if x = e then free_of C e @ [s] else free_of C x)"
  by (simp add: PushFreeLocked_def Let_def free_of_def)

lemma frees_push: "frees (PushFreeLocked e s C) = (frees C)(e := insert s (frees C e))"
  by (auto simp: frees_def free_of_push fun_eq_iff)

lemma push_pool_ok:
  assumes ok: "pool_ok C" and s: "s \<notin> frees C e"
  shows "pool_ok (PushFreeLocked e s C)"
proof (rule pool_okI)
  let ?C = "PushFreeLocked e s C"
  have rr: "c_ext_rr ?C = (if free_of C e = [] then c_ext_rr C @ [e] else c_ext_rr C)"
    by (simp add: PushFreeLocked_def Let_def)
  show "distinct (c_ext_rr ?C)" using pool_okD(1,2) [OF ok] by (simp add: rr)
  show iff: "x \<in> set (c_ext_rr ?C) \<longleftrightarrow> free_of ?C x \<noteq> []" for x
    using pool_okD(2) [OF ok] by (simp add: rr free_of_push)
  show "distinct (free_of ?C x)" for x
    using pool_okD(3) [OF ok] s by (simp add: free_of_push frees_def)
  have "c_free_count ?C = c_free_count C + 1" by (simp add: PushFreeLocked_def Let_def)
  moreover have "card (frees ?C e) = card (frees C e) + 1"
    using s by (simp add: frees_push) (simp add: frees_def)
  ultimately show "c_free_count ?C = (\<Sum>e\<in>set (c_ext_rr ?C). card (frees ?C e))"
    using free_count_change [OF ok iff, of e] by (simp add: frees_push)
qed

text \<open>Any operation that drops some slots of one extent, keeping the rotation in step.\<close>

lemma shrink_pool_ok:
  assumes ok: "pool_ok C" and free: "\<And>x. free_of C' x = (if x = e then ss else free_of C x)"
    and ss: "distinct ss" "set ss \<subseteq> frees C e"
    and rr: "distinct (c_ext_rr C')" "set (c_ext_rr C') = (if ss = [] then set (c_ext_rr C) - {e} else set (c_ext_rr C))"
    and count: "c_free_count C' = c_free_count C - (card (frees C e) - length ss)"
  shows "pool_ok C'" "frees C' = (frees C)(e := set ss)"
proof -
  have iff: "x \<in> set (c_ext_rr C') \<longleftrightarrow> free_of C' x \<noteq> []" for x
    using pool_okD(2) [OF ok] rr(2) ss(2) by (auto simp: free frees_def split: if_splits)
  show fr: "frees C' = (frees C)(e := set ss)" by (auto simp: frees_def free fun_eq_iff)
  have "length ss \<le> card (frees C e)"
    using ss by (metis card_mono distinct_card frees_def List.finite_set)
  then show "pool_ok C'"
    using rr(1) iff pool_okD(3) [OF ok] ss(1) count card_frees_le [OF ok, of e]
      free_count_change [OF ok iff, of e] distinct_card [OF ss(1)]
    by (intro pool_okI) (auto simp: free fr)
qed

lemma pop_pool:
  assumes ok: "pool_ok C" and pop: "PopFreeLocked C = (Some (e, s), C')"
  shows "s \<in> frees C e \<and> pool_ok C' \<and> frees C' = (frees C)(e := frees C e - {s})"
proof -
  have ne: "c_ext_rr C \<noteq> []" using pop by (auto simp: PopFreeLocked_def)
  define rr where "rr = (if c_rr_next C \<ge> length (c_ext_rr C) then 0 else c_rr_next C)"
  have rr: "rr < length (c_ext_rr C)" using ne by (auto simp: rr_def)
  let ?ss = "butlast (free_of C e)"
  have e: "e = c_ext_rr C ! rr" "s = last (free_of C e)"
    and C': "C' = C\<lparr>c_free_by_ext := (c_free_by_ext C)(e \<mapsto> ?ss), c_free_count := c_free_count C - 1,
      c_ext_rr := (if ?ss = [] then swap_remove (c_ext_rr C) rr else c_ext_rr C),
      c_rr_next := (if ?ss = [] then rr else rr + 1)\<rparr>"
    using pop ne by (auto simp: PopFreeLocked_def Let_def simp flip: rr_def)
  have fne: "free_of C e \<noteq> []" using rr e(1) pool_okD(2) [OF ok] by (metis nth_mem)
  note B = butlast_distinct [OF pool_okD(3) [OF ok] fne]
  note S = swap_remove_distinct [OF rr pool_okD(1) [OF ok]]
  have card: "card (frees C e) - length ?ss = 1"
    using fne distinct_card [OF pool_okD(3) [OF ok, of e]] by (cases "free_of C e") (auto simp: frees_def)
  have "pool_ok C'" "frees C' = (frees C)(e := set ?ss)"
    by (rule shrink_pool_ok [OF ok, of C' e ?ss];
        use B S card e(1) pool_okD(1) [OF ok] in \<open>auto simp: C' free_of_def frees_def\<close>)+
  then show ?thesis using B e(2) by (simp add: frees_def)
qed

lemma pop_none_iff: "pool_ok C \<Longrightarrow> fst (PopFreeLocked C) = None \<longleftrightarrow> (\<forall>e. frees C e = {})"
proof -
  assume ok: "pool_ok C"
  have "fst (PopFreeLocked C) = None \<longleftrightarrow> c_ext_rr C = []"
    by (simp add: PopFreeLocked_def Let_def)
  also have "\<dots> \<longleftrightarrow> (\<forall>e. e \<notin> set (c_ext_rr C))" by (cases "c_ext_rr C") auto
  finally show ?thesis using pool_okD(2) [OF ok] by (simp add: frees_empty)
qed

lemma drop_rotation:
  assumes d: "distinct (c_ext_rr C)"
  shows "distinct (c_ext_rr (DropFromRotationLocked e C))"
    "set (c_ext_rr (DropFromRotationLocked e C)) = set (c_ext_rr C) - {e}"
    "c_free_by_ext (DropFromRotationLocked e C) = c_free_by_ext C"
    "c_free_count (DropFromRotationLocked e C) = c_free_count C"
proof -
  show "c_free_by_ext (DropFromRotationLocked e C) = c_free_by_ext C"
    "c_free_count (DropFromRotationLocked e C) = c_free_count C"
    by (simp_all add: DropFromRotationLocked_def Let_def split: option.split)
  have "distinct (c_ext_rr (DropFromRotationLocked e C)) \<and>
      set (c_ext_rr (DropFromRotationLocked e C)) = set (c_ext_rr C) - {e}"
  proof (cases "position e (c_ext_rr C) 0")
    case None
    then show ?thesis using d position_None [of e "c_ext_rr C" 0] by (simp add: DropFromRotationLocked_def)
  next
    case (Some i)
    then show ?thesis using swap_remove_distinct [OF _ d, of i] position_Some [OF Some]
      by (simp add: DropFromRotationLocked_def Let_def)
  qed
  then show "distinct (c_ext_rr (DropFromRotationLocked e C))"
    "set (c_ext_rr (DropFromRotationLocked e C)) = set (c_ext_rr C) - {e}" by simp_all
qed

lemma take_pool:
  assumes ok: "pool_ok C" and s: "s \<in> frees C e"
  shows "\<exists>C'. TakeFreeSlotLocked e s C = (True, C') \<and> pool_ok C' \<and> frees C' = (frees C)(e := frees C e - {s})"
proof -
  have fne: "free_of C e \<noteq> []" using s by (auto simp: frees_def)
  then have fb: "c_free_by_ext C e = Some (free_of C e)" by (auto simp: free_of_def split: option.splits)
  obtain i where i: "position s (free_of C e) 0 = Some i"
    using s position_None [of s "free_of C e" 0] by (auto simp: frees_def)
  have il: "i < length (free_of C e)" "free_of C e ! i = s" using position_Some [OF i] by simp_all
  let ?ss = "swap_remove (free_of C e) i"
  note S = swap_remove_distinct [OF il(1) pool_okD(3) [OF ok]]
  let ?C1 = "C\<lparr>c_free_by_ext := (c_free_by_ext C)(e \<mapsto> ?ss), c_free_count := c_free_count C - 1\<rparr>"
  let ?C = "if ?ss = [] then DropFromRotationLocked e ?C1 else ?C1"
  have T: "TakeFreeSlotLocked e s C = (True, ?C)"
    by (simp add: TakeFreeSlotLocked_def fb i Let_def)
  have card: "card (frees C e) - length ?ss = 1"
    using il distinct_card [OF pool_okD(3) [OF ok, of e]] S(3) by (auto simp: frees_def)
  note D = drop_rotation [of ?C1 e]
  have "pool_ok ?C" "frees ?C = (frees C)(e := set ?ss)"
    by (rule shrink_pool_ok [OF ok, of ?C e ?ss];
        use S card D pool_okD(1) [OF ok] in \<open>auto simp: free_of_def frees_def\<close>)+
  with T S il(2) show ?thesis by (simp add: frees_def)
qed

lemma drop_pool:
  assumes ok: "pool_ok C"
  shows "pool_ok (DropExtentFreeLocked e C)" "frees (DropExtentFreeLocked e C) = (frees C)(e := {})"
proof -
  have "pool_ok (DropExtentFreeLocked e C) \<and> frees (DropExtentFreeLocked e C) = (frees C)(e := set [])"
  proof (cases "c_free_by_ext C e")
    case None
    then show ?thesis using ok by (auto simp: DropExtentFreeLocked_def frees_def free_of_def fun_eq_iff)
  next
    case (Some ss)
    let ?C1 = "C\<lparr>c_free_count := c_free_count C - length ss, c_free_by_ext := (c_free_by_ext C)(e := None)\<rparr>"
    have ss: "free_of C e = ss" using Some by (simp add: free_of_def)
    note D = drop_rotation [of ?C1 e]
    have "card (frees C e) = length ss"
      using distinct_card [OF pool_okD(3) [OF ok, of e]] ss by (simp add: frees_def)
    then have "pool_ok (DropFromRotationLocked e ?C1)" "frees (DropFromRotationLocked e ?C1) = (frees C)(e := set [])"
      by - (rule shrink_pool_ok [OF ok, of "DropFromRotationLocked e ?C1" e "[]"];
        use D pool_okD(1) [OF ok] in \<open>simp add: free_of_def\<close>)+
    then show ?thesis by (simp add: DropExtentFreeLocked_def Some)
  qed
  then show "pool_ok (DropExtentFreeLocked e C)" "frees (DropExtentFreeLocked e C) = (frees C)(e := {})"
    by simp_all
qed

interpretation fp: free_pool pool_ok frees c_ext_rr c_free_count
  PushFreeLocked PopFreeLocked TakeFreeSlotLocked DropExtentFreeLocked
proof
  show "pool_ok C \<Longrightarrow> set (c_ext_rr C) = {e. frees C e \<noteq> {}}" for C
    using pool_okD(2) by (auto simp: frees_empty)
  show "finite (frees C e)" for C e by (simp add: frees_def)
qed (rule pool_okD pop_none_iff push_pool_ok frees_push pop_pool take_pool drop_pool; assumption)+

text \<open>The free-list operations leave every other field of the class alone.\<close>

lemma PushFree_sel [simp]:
  "c_slot_size (PushFreeLocked e x C) = c_slot_size C" "c_slots_per_extent (PushFreeLocked e x C) = c_slots_per_extent C"
  "c_resident_count (PushFreeLocked e x C) = c_resident_count C" "c_bound_extents (PushFreeLocked e x C) = c_bound_extents C"
  "c_puts (PushFreeLocked e x C) = c_puts C" "c_useful_bytes (PushFreeLocked e x C) = c_useful_bytes C"
  "c_read_touches (PushFreeLocked e x C) = c_read_touches C" "c_read_heat (PushFreeLocked e x C) = c_read_heat C"
  "c_heat_seq (PushFreeLocked e x C) = c_heat_seq C" "c_ring_head (PushFreeLocked e x C) = c_ring_head C"
  "c_hand (PushFreeLocked e x C) = c_hand C" "c_protected_slots (PushFreeLocked e x C) = c_protected_slots C"
  by (simp_all add: PushFreeLocked_def Let_def)

lemma PushFrees_sel [simp]:
  "c_slot_size (fold (PushFreeLocked e) xs C) = c_slot_size C" "c_slots_per_extent (fold (PushFreeLocked e) xs C) = c_slots_per_extent C"
  "c_resident_count (fold (PushFreeLocked e) xs C) = c_resident_count C" "c_bound_extents (fold (PushFreeLocked e) xs C) = c_bound_extents C"
  "c_puts (fold (PushFreeLocked e) xs C) = c_puts C" "c_useful_bytes (fold (PushFreeLocked e) xs C) = c_useful_bytes C"
  "c_read_touches (fold (PushFreeLocked e) xs C) = c_read_touches C" "c_read_heat (fold (PushFreeLocked e) xs C) = c_read_heat C"
  "c_heat_seq (fold (PushFreeLocked e) xs C) = c_heat_seq C" "c_ring_head (fold (PushFreeLocked e) xs C) = c_ring_head C"
  "c_hand (fold (PushFreeLocked e) xs C) = c_hand C" "c_protected_slots (fold (PushFreeLocked e) xs C) = c_protected_slots C"
  by (induction xs arbitrary: C) simp_all

lemma PopFree_sel [simp]:
  "c_slot_size (snd (PopFreeLocked C)) = c_slot_size C" "c_slots_per_extent (snd (PopFreeLocked C)) = c_slots_per_extent C"
  "c_resident_count (snd (PopFreeLocked C)) = c_resident_count C" "c_bound_extents (snd (PopFreeLocked C)) = c_bound_extents C"
  "c_puts (snd (PopFreeLocked C)) = c_puts C" "c_useful_bytes (snd (PopFreeLocked C)) = c_useful_bytes C"
  "c_read_touches (snd (PopFreeLocked C)) = c_read_touches C" "c_read_heat (snd (PopFreeLocked C)) = c_read_heat C"
  "c_heat_seq (snd (PopFreeLocked C)) = c_heat_seq C" "c_ring_head (snd (PopFreeLocked C)) = c_ring_head C"
  "c_hand (snd (PopFreeLocked C)) = c_hand C" "c_protected_slots (snd (PopFreeLocked C)) = c_protected_slots C"
  by (simp_all add: PopFreeLocked_def Let_def)

lemma DropRotation_sel [simp]:
  "c_slot_size (DropFromRotationLocked e C) = c_slot_size C" "c_slots_per_extent (DropFromRotationLocked e C) = c_slots_per_extent C"
  "c_resident_count (DropFromRotationLocked e C) = c_resident_count C" "c_bound_extents (DropFromRotationLocked e C) = c_bound_extents C"
  "c_puts (DropFromRotationLocked e C) = c_puts C" "c_useful_bytes (DropFromRotationLocked e C) = c_useful_bytes C"
  "c_read_touches (DropFromRotationLocked e C) = c_read_touches C" "c_read_heat (DropFromRotationLocked e C) = c_read_heat C"
  "c_heat_seq (DropFromRotationLocked e C) = c_heat_seq C" "c_ring_head (DropFromRotationLocked e C) = c_ring_head C"
  "c_hand (DropFromRotationLocked e C) = c_hand C" "c_protected_slots (DropFromRotationLocked e C) = c_protected_slots C"
  by (simp_all add: DropFromRotationLocked_def Let_def split: option.split)

lemma TakeFree_sel [simp]:
  "c_slot_size (snd (TakeFreeSlotLocked e x C)) = c_slot_size C" "c_slots_per_extent (snd (TakeFreeSlotLocked e x C)) = c_slots_per_extent C"
  "c_resident_count (snd (TakeFreeSlotLocked e x C)) = c_resident_count C" "c_bound_extents (snd (TakeFreeSlotLocked e x C)) = c_bound_extents C"
  "c_puts (snd (TakeFreeSlotLocked e x C)) = c_puts C" "c_useful_bytes (snd (TakeFreeSlotLocked e x C)) = c_useful_bytes C"
  "c_read_touches (snd (TakeFreeSlotLocked e x C)) = c_read_touches C" "c_read_heat (snd (TakeFreeSlotLocked e x C)) = c_read_heat C"
  "c_heat_seq (snd (TakeFreeSlotLocked e x C)) = c_heat_seq C" "c_ring_head (snd (TakeFreeSlotLocked e x C)) = c_ring_head C"
  "c_hand (snd (TakeFreeSlotLocked e x C)) = c_hand C" "c_protected_slots (snd (TakeFreeSlotLocked e x C)) = c_protected_slots C"
  by (simp_all add: TakeFreeSlotLocked_def Let_def split: option.split)

lemma DropExtent_sel [simp]:
  "c_slot_size (DropExtentFreeLocked e C) = c_slot_size C" "c_slots_per_extent (DropExtentFreeLocked e C) = c_slots_per_extent C"
  "c_resident_count (DropExtentFreeLocked e C) = c_resident_count C" "c_bound_extents (DropExtentFreeLocked e C) = c_bound_extents C"
  "c_puts (DropExtentFreeLocked e C) = c_puts C" "c_useful_bytes (DropExtentFreeLocked e C) = c_useful_bytes C"
  "c_read_touches (DropExtentFreeLocked e C) = c_read_touches C" "c_read_heat (DropExtentFreeLocked e C) = c_read_heat C"
  "c_heat_seq (DropExtentFreeLocked e C) = c_heat_seq C" "c_ring_head (DropExtentFreeLocked e C) = c_ring_head C"
  "c_hand (DropExtentFreeLocked e C) = c_hand C" "c_protected_slots (DropExtentFreeLocked e C) = c_protected_slots C"
  by (simp_all add: DropExtentFreeLocked_def split: option.split)

end
