(* ===== verification/Slab_Ops.thy ===== *)
theory Slab_Ops
  imports Slab_Free_Lists "HOL-Library.Product_Lexorder"
begin

text \<open>
  The operations of \<^verbatim>\<open>SlabAllocator\<close> (\<^verbatim>\<open>src/cache/slab_allocator.cc\<close>) in the order of the source, as
  functions on the allocator state. A C++ reference into a table is a read of the entry followed
  by an in-place update of the same index. The \<^verbatim>\<open>evicted\<close> out-vector is threaded through as the
  list \<open>ev\<close>; a false return with untouched out-parameters is \<open>None\<close>.
\<close>

subsection \<open>Slot metadata and intrusive rings\<close>

abbreviation set_class_next :: "nat \<Rightarrow> SlotMeta \<Rightarrow> SlotMeta" where
  "set_class_next n m \<equiv> m\<lparr>m_class_next := n\<rparr>"

abbreviation set_class_prev :: "nat \<Rightarrow> SlotMeta \<Rightarrow> SlotMeta" where
  "set_class_prev n m \<equiv> m\<lparr>m_class_prev := n\<rparr>"

abbreviation set_global_next :: "nat \<Rightarrow> SlotMeta \<Rightarrow> SlotMeta" where
  "set_global_next n m \<equiv> m\<lparr>m_global_next := n\<rparr>"

abbreviation set_global_prev :: "nat \<Rightarrow> SlotMeta \<Rightarrow> SlotMeta" where
  "set_global_prev n m \<equiv> m\<lparr>m_global_prev := n\<rparr>"

abbreviation set_extent_next :: "nat \<Rightarrow> SlotMeta \<Rightarrow> SlotMeta" where
  "set_extent_next n m \<equiv> m\<lparr>m_extent_next := n\<rparr>"

abbreviation set_extent_prev :: "nat \<Rightarrow> SlotMeta \<Rightarrow> SlotMeta" where
  "set_extent_prev n m \<equiv> m\<lparr>m_extent_prev := n\<rparr>"

interpretation class_ring: intrusive_list m_class_next m_class_prev set_class_next set_class_prev
  by unfold_locales simp_all

interpretation global_ring: intrusive_list m_global_next m_global_prev set_global_next set_global_prev
  by unfold_locales simp_all

interpretation extent_list: intrusive_list m_extent_next m_extent_prev set_extent_next set_extent_prev
  by unfold_locales simp_all

definition AcquireSlotMetaLocked :: "'w SlabAllocator \<Rightarrow> nat \<times> 'w SlabAllocator" where
  "AcquireSlotMetaLocked s =
     (if a_free_slot_meta_head s \<noteq> kNoSlot
      then (let index = a_free_slot_meta_head s
            in (index, s\<lparr>a_free_slot_meta_head := m_free_next (a_slots s ! index),
                         a_slots := (a_slots s)[index := empty_meta]\<rparr>))
      else (length (a_slots s) mod 2 ^ 32, s\<lparr>a_slots := a_slots s @ [empty_meta]\<rparr>))"

definition LinkBeforeHandLocked :: "nat \<Rightarrow> 'w SlabAllocator \<Rightarrow> 'w SlabAllocator" where
  "LinkBeforeHandLocked index s =
     (let c = ref_cls (m_ref (a_slots s ! index)); hand = c_hand (a_classes s ! c)
      in if hand = kNoSlot
         then upd_class c (\<lambda>C. C\<lparr>c_ring_head := index, c_hand := index\<rparr>) s
         else s\<lparr>a_slots := link_before_links m_class_prev set_class_next set_class_prev (a_slots s) hand index,
                a_classes := upd_nth (a_classes s) c
                  (\<lambda>C. C\<lparr>c_ring_head := link_before_head m_class_prev (a_slots s) hand index (c_ring_head C)\<rparr>)\<rparr>)"

definition LinkBeforeGlobalHandLocked :: "nat \<Rightarrow> 'w SlabAllocator \<Rightarrow> 'w SlabAllocator" where
  "LinkBeforeGlobalHandLocked index s =
     (if a_global_hand s = kNoSlot
      then s\<lparr>a_global_ring_head := index, a_global_hand := index\<rparr>
      else s\<lparr>a_slots := link_before_links m_global_prev set_global_next set_global_prev (a_slots s) (a_global_hand s) index,
             a_global_ring_head := link_before_head m_global_prev (a_slots s) (a_global_hand s) index (a_global_ring_head s)\<rparr>)"

text \<open>The tail of \<^verbatim>\<open>LinkResidentLocked\<close>: the extent's resident list.\<close>

definition link_extent :: "nat \<Rightarrow> 'w SlabAllocator \<Rightarrow> 'w SlabAllocator" where
  "link_extent index s =
     (let e = ref_extent (m_ref (a_slots s ! index)); head = e_resident_head (a_extents s ! e)
      in s\<lparr>a_slots := push_front_links set_extent_next set_extent_prev (a_slots s) head index,
           a_extents := upd_nth (a_extents s) e
             (\<lambda>E. E\<lparr>e_resident_head := index, e_resident_count := e_resident_count E + 1\<rparr>)\<rparr>)"

definition LinkResidentLocked :: "nat \<Rightarrow> 'w SlabAllocator \<Rightarrow> 'w SlabAllocator" where
  "LinkResidentLocked index s =
     (let c = ref_cls (m_ref (a_slots s ! index));
          s1 = LinkBeforeHandLocked index s;
          s2 = LinkBeforeGlobalHandLocked index s1;
          s3 = upd_class c (\<lambda>C. C\<lparr>c_resident_count := c_resident_count C + 1\<rparr>) s2
      in link_extent index s3)"

text \<open>Taking an entry out of its class ring and out of the global ring, the hands moving on.\<close>

definition unlink_class :: "nat \<Rightarrow> 'w SlabAllocator \<Rightarrow> 'w SlabAllocator" where
  "unlink_class index s =
     (let meta = a_slots s ! index; c = ref_cls (m_ref meta)
      in s\<lparr>a_slots := unlink_links m_class_next m_class_prev set_class_next set_class_prev (a_slots s) index,
           a_classes := upd_nth (a_classes s) c
             (\<lambda>C. let head = unlink_head m_class_next m_class_prev (a_slots s) index (c_ring_head C)
                  in C\<lparr>c_ring_head := head,
                       c_hand := (if c_hand C = index then cyc_next (m_class_next meta) head else c_hand C)\<rparr>)\<rparr>)"

definition unlink_global :: "nat \<Rightarrow> 'w SlabAllocator \<Rightarrow> 'w SlabAllocator" where
  "unlink_global index s =
     (let head = unlink_head m_global_next m_global_prev (a_slots s) index (a_global_ring_head s)
      in s\<lparr>a_slots := unlink_links m_global_next m_global_prev set_global_next set_global_prev (a_slots s) index,
           a_global_ring_head := head,
           a_global_hand := (if a_global_hand s = index
              then cyc_next (m_global_next (a_slots s ! index)) head else a_global_hand s)\<rparr>)"

definition unlink_extent :: "nat \<Rightarrow> 'w SlabAllocator \<Rightarrow> 'w SlabAllocator" where
  "unlink_extent index s =
     (let meta = a_slots s ! index; e = ref_extent (m_ref meta)
      in s\<lparr>a_slots := unlink_links m_extent_next m_extent_prev set_extent_next set_extent_prev (a_slots s) index,
           a_extents := upd_nth (a_extents s) e
             (\<lambda>E. E\<lparr>e_resident_head := unlink_head m_extent_next m_extent_prev (a_slots s) index (e_resident_head E),
                     e_resident_count := e_resident_count E - 1,
                     e_access_seq_sum := e_access_seq_sum E - m_access_seq meta\<rparr>)\<rparr>)"

subsection \<open>Heat and reads\<close>

definition DecayedHeat :: "'w SlabAllocator \<Rightarrow> nat \<Rightarrow> nat \<Rightarrow> nat" where
  "DecayedHeat s heat heat_seq =
     (if heat = 0 then 0
      else (let elapsed = (if a_activity_seq s \<ge> heat_seq then a_activity_seq s - heat_seq else 0);
                shifts = elapsed div kReadDecayOps
            in if shifts \<ge> 63 then 0 else drop_bit shifts heat))"

definition ExtentHeatLocked :: "'w SlabAllocator \<Rightarrow> ExtentMeta \<Rightarrow> nat" where
  "ExtentHeatLocked s E = DecayedHeat s (e_read_heat E) (e_heat_seq E)"

definition StealsBeforeLocked :: "'w SlabAllocator \<Rightarrow> ExtentMeta \<Rightarrow> ExtentMeta \<Rightarrow> bool" where
  "StealsBeforeLocked s a b =
     (if (e_resident_count a = 0) \<noteq> (e_resident_count b = 0) then e_resident_count a = 0
      else (let lhs = e_access_seq_sum a * e_resident_count b;
                rhs = e_access_seq_sum b * e_resident_count a
            in if lhs \<noteq> rhs then lhs < rhs
               else if ExtentHeatLocked s a \<noteq> ExtentHeatLocked s b
               then ExtentHeatLocked s a < ExtentHeatLocked s b
               else e_useful_bytes a < e_useful_bytes b))"

definition TouchLocked :: "nat \<Rightarrow> 'w SlabAllocator \<Rightarrow> 'w SlabAllocator" where
  "TouchLocked index s0 =
     (let s1 = upd_slot index (\<lambda>m. m\<lparr>m_referenced := True, m_read_touches := m_read_touches m + 1\<rparr>)
                 (s0\<lparr>a_activity_seq := a_activity_seq s0 + 1\<rparr>);
          meta = a_slots s1 ! index;
          c = ref_cls (m_ref meta); e = ref_extent (m_ref meta); C = a_classes s1 ! c;
          behind_hand = (m_class_next meta = c_hand C \<or> (m_class_next meta = kNoSlot \<and> c_hand C = c_ring_head C));
          s2 = (if behind_hand then s1 else LinkBeforeHandLocked index (unlink_class index s1));
          behind_global_hand = (m_global_next meta = a_global_hand s2 \<or>
             (m_global_next meta = kNoSlot \<and> a_global_hand s2 = a_global_ring_head s2));
          s3 = (if behind_global_hand then s2 else LinkBeforeGlobalHandLocked index (unlink_global index s2));
          s4 = upd_class c (\<lambda>C. C\<lparr>c_read_heat := DecayedHeat s3 (c_read_heat C) (c_heat_seq C) + kReadHeatUnit,
                                 c_heat_seq := a_activity_seq s3,
                                 c_read_touches := c_read_touches C + 1\<rparr>) s3;
          s5 = upd_extent e (\<lambda>E. E\<lparr>e_read_heat := ExtentHeatLocked s4 E + kReadHeatUnit,
                                  e_heat_seq := a_activity_seq s4,
                                  e_access_seq_sum := e_access_seq_sum E + (a_activity_seq s4 - m_access_seq meta)\<rparr>) s4
      in upd_slot index (\<lambda>m. m\<lparr>m_access_seq := a_activity_seq s5\<rparr>) s5)"

subsection \<open>Persistence callbacks\<close>

definition call_extent_bind :: "nat \<Rightarrow> 'w SlabAllocator \<Rightarrow> bool \<times> 'w SlabAllocator" where
  "call_extent_bind e s =
     (case on_extent_bind (a_opt s) of
        None \<Rightarrow> (True, s)
      | Some f \<Rightarrow> (let (ok, w) = f e (a_world s) in (ok, s\<lparr>a_world := w\<rparr>)))"

definition call_slot_evict :: "SlotRef \<Rightarrow> 'w SlabAllocator \<Rightarrow> bool \<times> 'w SlabAllocator" where
  "call_slot_evict r s =
     (case on_slot_evict (a_opt s) of
        None \<Rightarrow> (True, s)
      | Some f \<Rightarrow> (let (ok, w) = f r (a_world s) in (ok, s\<lparr>a_world := w\<rparr>)))"

subsection \<open>Binding extents\<close>

definition bind_extent :: "nat \<Rightarrow> nat \<Rightarrow> 'w SlabAllocator \<Rightarrow> 'w SlabAllocator" where
  "bind_extent c e s =
     (let spe = c_slots_per_extent (a_classes s ! c)
      in s\<lparr>a_extents := (a_extents s)[e := empty_extent\<lparr>e_cls := Some c, e_total_slots := spe, e_free_slots := spe\<rparr>],
           a_classes := upd_nth (a_classes s) c
             (\<lambda>C. fold (PushFreeLocked e) [0..<spe] (C\<lparr>c_bound_extents := c_bound_extents C + 1\<rparr>)),
           a_unbound := a_unbound s - 1\<rparr>)"

definition BindExtentLocked :: "nat \<Rightarrow> nat \<Rightarrow> bool \<Rightarrow> 'w SlabAllocator \<Rightarrow> ExtentBindResult \<times> 'w SlabAllocator" where
  "BindExtentLocked c e metadata_prepared s =
     (if c \<ge> length (a_classes s) \<or> e \<ge> length (a_extents s) \<or> e_cls (a_extents s ! e) \<noteq> None
      then (kUnavailable, s)
      else if c_slots_per_extent (a_classes s ! c) = 0 then (kUnavailable, s)
      else (let (ok, s1) = (if metadata_prepared then (True, s) else call_extent_bind e s)
            in if \<not> ok then (kPersistenceError, s1) else (kBound, bind_extent c e s1)))"

definition BindFreeExtent :: "nat \<Rightarrow> 'w SlabAllocator \<Rightarrow> ExtentBindResult \<times> 'w SlabAllocator" where
  "BindFreeExtent c s =
     (if a_unbound s = 0 then (kUnavailable, s)
      else (case List.find (\<lambda>e. e_cls (a_extents s ! e) = None) [0..<length (a_extents s)] of
              Some e \<Rightarrow> BindExtentLocked c e False s
            | None \<Rightarrow> (kUnavailable, s)))"

text \<open>Returning an extent without residents to the pool.\<close>

definition release_extent :: "nat \<Rightarrow> nat \<Rightarrow> 'w SlabAllocator \<Rightarrow> 'w SlabAllocator" where
  "release_extent c e s =
     s\<lparr>a_classes := upd_nth (a_classes s) c
         (\<lambda>C. (DropExtentFreeLocked e C)\<lparr>c_bound_extents := c_bound_extents C - 1\<rparr>),
       a_extents := (a_extents s)[e := empty_extent],
       a_unbound := a_unbound s + 1\<rparr>"

subsection \<open>Protection counters\<close>

definition ProtectLocked :: "nat \<Rightarrow> 'w SlabAllocator \<Rightarrow> 'w SlabAllocator" where
  "ProtectLocked index s =
     (let r = m_ref (a_slots s ! index)
      in s\<lparr>a_extents := upd_nth (a_extents s) (ref_extent r) (\<lambda>E. E\<lparr>e_protected_slots := e_protected_slots E + 1\<rparr>),
           a_classes := upd_nth (a_classes s) (ref_cls r) (\<lambda>C. C\<lparr>c_protected_slots := c_protected_slots C + 1\<rparr>),
           a_protected_bytes := a_protected_bytes s + ref_slot_size r,
           a_protected_slots := a_protected_slots s + 1\<rparr>)"

definition UnprotectLocked :: "nat \<Rightarrow> 'w SlabAllocator \<Rightarrow> 'w SlabAllocator" where
  "UnprotectLocked index s =
     (let r = m_ref (a_slots s ! index)
      in s\<lparr>a_extents := upd_nth (a_extents s) (ref_extent r)
             (\<lambda>E. if e_protected_slots E > 0 then E\<lparr>e_protected_slots := e_protected_slots E - 1\<rparr> else E),
           a_classes := upd_nth (a_classes s) (ref_cls r)
             (\<lambda>C. if c_protected_slots C > 0 then C\<lparr>c_protected_slots := c_protected_slots C - 1\<rparr> else C),
           a_protected_bytes := a_protected_bytes s - min (a_protected_bytes s) (ref_slot_size r),
           a_protected_slots := (if a_protected_slots s > 0 then a_protected_slots s - 1 else a_protected_slots s),
           a_slots := upd_nth (a_slots s) index (\<lambda>m. m\<lparr>m_retain_until := 0\<rparr>)\<rparr>)"

definition PushWheelLocked :: "BlockKey \<Rightarrow> nat \<Rightarrow> 'w SlabAllocator \<Rightarrow> 'w SlabAllocator" where
  "PushWheelLocked key until s =
     (if a_wheel s = [] then s
      else s\<lparr>a_wheel := upd_nth (a_wheel s) ((until div kWheelTickS) mod length (a_wheel s))
                (\<lambda>b. b @ [\<lparr>we_key = key, we_until = until\<rparr>]),
             a_wheel_entries := a_wheel_entries s + 1\<rparr>)"

subsection \<open>Freeing a slot\<close>

text \<open>
  \<^verbatim>\<open>FreeSlotLocked\<close> in five groups: leave the rings and the extent's list, drop the pin account
  and the index entry, give the slot and its bytes back, recycle the metadata entry, and return a
  wholly free surplus extent to the pool.
\<close>

definition free_unlink :: "nat \<Rightarrow> 'w SlabAllocator \<Rightarrow> 'w SlabAllocator" where
  "free_unlink index s =
     (let c = ref_cls (m_ref (a_slots s ! index));
          s1 = upd_class c (\<lambda>C. let rc = c_resident_count C - 1
                 in C\<lparr>c_resident_count := rc, c_hand := (if rc = 0 then kNoSlot else c_hand C)\<rparr>)
                 (unlink_class index s)
      in unlink_extent index (unlink_global index s1))"

definition free_forget :: "nat \<Rightarrow> 'w SlabAllocator \<Rightarrow> 'w SlabAllocator" where
  "free_forget index s =
     (let meta = a_slots s ! index
      in (upd_extent (ref_extent (m_ref meta))
            (\<lambda>E. if m_refs meta > 0 \<and> e_pinned E > 0 then E\<lparr>e_pinned := e_pinned E - 1\<rparr> else E) s)
         \<lparr>a_index := snd (Erase (a_index s) (m_key meta))\<rparr>)"

definition free_return :: "nat \<Rightarrow> 'w SlabAllocator \<Rightarrow> 'w SlabAllocator" where
  "free_return index s =
     (let meta = a_slots s ! index; r = m_ref meta
      in s\<lparr>a_classes := upd_nth (a_classes s) (ref_cls r)
             (\<lambda>C. (PushFreeLocked (ref_extent r) (ref_slot r) C)\<lparr>c_useful_bytes := c_useful_bytes C - m_useful_bytes meta\<rparr>),
           a_extents := upd_nth (a_extents s) (ref_extent r)
             (\<lambda>E. E\<lparr>e_free_slots := e_free_slots E + 1, e_useful_bytes := e_useful_bytes E - m_useful_bytes meta\<rparr>),
           a_used_bytes := a_used_bytes s - ref_slot_size r\<rparr>)"

definition free_recycle :: "nat \<Rightarrow> 'w SlabAllocator \<Rightarrow> 'w SlabAllocator" where
  "free_recycle index s =
     s\<lparr>a_slots := (a_slots s)[index := empty_meta\<lparr>m_free_next := a_free_slot_meta_head s\<rparr>],
       a_free_slot_meta_head := index\<rparr>"

definition FreeSlotLocked :: "nat \<Rightarrow> 'w SlabAllocator \<Rightarrow> 'w SlabAllocator" where
  "FreeSlotLocked index s0 =
     (let s = (if m_retain_until (a_slots s0 ! index) \<noteq> 0 then UnprotectLocked index s0 else s0);
          c = ref_cls (m_ref (a_slots s ! index)); e = ref_extent (m_ref (a_slots s ! index));
          s1 = free_recycle index (free_return index (free_forget index (free_unlink index s)))
      in if e_free_slots (a_extents s1 ! e) = e_total_slots (a_extents s1 ! e) \<and>
            length (c_ext_rr (a_classes s1 ! c)) > kStripeWays
         then (release_extent c e s1)\<lparr>a_extent_returns := a_extent_returns s1 + 1\<rparr>
         else s1)"

subsection \<open>Eviction\<close>

definition evict_slot :: "nat \<Rightarrow> 'w SlabAllocator \<Rightarrow> BlockKey list \<Rightarrow> bool \<times> 'w SlabAllocator \<times> BlockKey list" where
  "evict_slot index s ev =
     (let meta = a_slots s ! index; (ok, s1) = call_slot_evict (m_ref meta) s
      in if \<not> ok then (False, s1, ev)
         else (let s2 = FreeSlotLocked index s1
               in (True, s2\<lparr>a_evictions := a_evictions s2 + 1\<rparr>, ev @ [m_key meta])))"

datatype scan_outcome = Scan_Return bool | Scan_End nat

text \<open>The CLOCK scan of \<^verbatim>\<open>EvictOneFrom\<close> with the number of steps left and the fallback so far.\<close>

fun evict_scan :: "nat \<Rightarrow> nat \<Rightarrow> nat \<Rightarrow> 'w SlabAllocator \<Rightarrow> BlockKey list \<Rightarrow>
    scan_outcome \<times> 'w SlabAllocator \<times> BlockKey list" where
  "evict_scan 0 c fallback s ev = (Scan_End fallback, s, ev)"
| "evict_scan (Suc n) c fallback s ev =
     (if c_resident_count (a_classes s ! c) = 0 then (Scan_End fallback, s, ev)
      else
       (let s1 = (if c_hand (a_classes s ! c) = kNoSlot
                  then upd_class c (\<lambda>C. C\<lparr>c_hand := c_ring_head C\<rparr>) s else s);
            current = c_hand (a_classes s1 ! c);
            meta = a_slots s1 ! current;
            s2 = upd_class c (\<lambda>C. C\<lparr>c_hand := cyc_next (m_class_next meta) (c_ring_head C)\<rparr>) s1
        in if m_refs meta > 0 then evict_scan n c fallback s2 ev
           else if m_retain_until meta \<noteq> 0
           then evict_scan n c fallback (s2\<lparr>a_retain_evict_skipped := a_retain_evict_skipped s2 + 1\<rparr>) ev
           else (let fallback' = (if fallback = kNoSlot then current else fallback)
                 in if m_referenced meta
                    then evict_scan n c fallback' (upd_slot current (\<lambda>m. m\<lparr>m_referenced := False\<rparr>) s2) ev
                    else (case evict_slot current s2 ev of (ok, s3, ev3) \<Rightarrow> (Scan_Return ok, s3, ev3)))))"

definition EvictOneFrom :: "nat \<Rightarrow> 'w SlabAllocator \<Rightarrow> BlockKey list \<Rightarrow> bool \<times> 'w SlabAllocator \<times> BlockKey list" where
  "EvictOneFrom c s ev =
     (let rc = c_resident_count (a_classes s ! c)
      in if rc = 0 then (False, s, ev)
         else (case evict_scan (2 * rc + 2) c kNoSlot s ev of
                 (Scan_Return ok, s1, ev1) \<Rightarrow> (ok, s1, ev1)
               | (Scan_End fallback, s1, ev1) \<Rightarrow>
                   if fallback \<noteq> kNoSlot \<and> m_live (a_slots s1 ! fallback)
                   then evict_slot fallback s1 ev1 else (False, s1, ev1)))"

subsection \<open>Stealing extents\<close>

text \<open>The last eligible extent that no earlier choice precedes, in the order of the scan.\<close>

definition pick_extent :: "'w SlabAllocator \<Rightarrow> (nat \<Rightarrow> bool) \<Rightarrow> nat option" where
  "pick_extent s eligible =
     foldl (\<lambda>best e. if \<not> eligible e then best
                     else (case best of None \<Rightarrow> Some e
                           | Some b \<Rightarrow> if StealsBeforeLocked s (a_extents s ! e) (a_extents s ! b) then Some e else best))
       None [0..<length (a_extents s)]"

text \<open>The \<^verbatim>\<open>while (extent.resident_head != kNoSlot)\<close> loop; one metadata entry is freed per round.\<close>

fun wipe_extent :: "nat \<Rightarrow> nat \<Rightarrow> 'w SlabAllocator \<Rightarrow> BlockKey list \<Rightarrow> 'w SlabAllocator \<times> BlockKey list" where
  "wipe_extent 0 e s ev = (s, ev)"
| "wipe_extent (Suc n) e s ev =
     (let index = e_resident_head (a_extents s ! e)
      in if index = kNoSlot then (s, ev)
         else (let victim = m_key (a_slots s ! index); s1 = FreeSlotLocked index s
               in wipe_extent n e (s1\<lparr>a_evictions := a_evictions s1 + 1\<rparr>) (ev @ [victim])))"

definition StealExtentLocked :: "nat \<Rightarrow> nat \<Rightarrow> 'w SlabAllocator \<Rightarrow> BlockKey list \<Rightarrow>
    ExtentBindResult \<times> 'w SlabAllocator \<times> BlockKey list" where
  "StealExtentLocked e target s ev =
     (let E = a_extents s ! e
      in case e_cls E of
           None \<Rightarrow> (kUnavailable, s, ev)
         | Some old_cls \<Rightarrow>
             if target \<ge> length (a_classes s) \<or> c_slots_per_extent (a_classes s ! target) = 0 \<or>
                e_pinned E \<noteq> 0 \<or> e_protected_slots E \<noteq> 0
             then (kUnavailable, s, ev)
             else (let (ok, s1) = call_extent_bind e s
                   in if \<not> ok then (kPersistenceError, s1, ev)
                      else (let (s2, ev2) = wipe_extent (length (a_slots s1)) e s1 ev;
                                s3 = (if e_cls (a_extents s2 ! e) \<noteq> None then release_extent old_cls e s2 else s2);
                                (result, s4) = BindExtentLocked target e True s3
                            in (result, (if result = kBound then s4\<lparr>a_steals := a_steals s4 + 1\<rparr> else s4), ev2))))"

definition StealExtentFor :: "nat \<Rightarrow> nat \<Rightarrow> 'w SlabAllocator \<Rightarrow> BlockKey list \<Rightarrow>
    ExtentBindResult \<times> 'w SlabAllocator \<times> BlockKey list" where
  "StealExtentFor target min_donor_extents s ev =
     (let eligible = (\<lambda>e. let E = a_extents s ! e in
            case e_cls E of None \<Rightarrow> False
            | Some d \<Rightarrow> d \<noteq> target \<and> e_pinned E = 0 \<and> e_protected_slots E = 0 \<and>
                \<not> (min_donor_extents > 0 \<and> c_bound_extents (a_classes s ! d) \<le> min_donor_extents))
      in case pick_extent s eligible of
           None \<Rightarrow> (kUnavailable, s, ev)
         | Some best \<Rightarrow> StealExtentLocked best target s ev)"

text \<open>
  The selection loop of \<^verbatim>\<open>StealColdExtentFor\<close>; the accumulator is the best extent so far with its
  heat, useful bytes and newest insert sequence.
\<close>

definition cold_pick :: "nat \<Rightarrow> nat \<Rightarrow> 'w SlabAllocator \<Rightarrow> (nat \<times> nat \<times> nat \<times> nat) option" where
  "cold_pick target cold_before s =
     foldl (\<lambda>best e. let E = a_extents s ! e in
          if e_cls E = None \<or> e_cls E = Some target \<or> e_pinned E \<noteq> 0 \<or> e_protected_slots E \<noteq> 0 \<or>
             e_resident_count E = 0 \<or> e_youngest_seq E \<ge> cold_before
          then best
          else (let heat = ExtentHeatLocked s E
                in case best of
                     None \<Rightarrow> Some (e, heat, e_useful_bytes E, e_youngest_seq E)
                   | Some (b, best_heat, best_useful, best_seq) \<Rightarrow>
                       if heat < best_heat \<or> (heat = best_heat \<and> e_useful_bytes E < best_useful) \<or>
                          (heat = best_heat \<and> e_useful_bytes E = best_useful \<and> e_youngest_seq E < best_seq)
                       then Some (e, heat, e_useful_bytes E, e_youngest_seq E) else best))
       None [0..<length (a_extents s)]"

definition StealColdExtentFor :: "nat \<Rightarrow> 'w SlabAllocator \<Rightarrow> BlockKey list \<Rightarrow>
    ExtentBindResult \<times> 'w SlabAllocator \<times> BlockKey list" where
  "StealColdExtentFor target s ev =
     (let window = (if a_cold_window s \<noteq> 0 then a_cold_window s else fi_size (a_index s))
      in if \<not> a_cold_steal_enabled s then (kUnavailable, s, ev)
         else if window = 0 \<or> a_put_seq s \<le> window then (kUnavailable, s, ev)
         else (case cold_pick target (a_put_seq s - window) s of
                 None \<Rightarrow> (kUnavailable, s, ev)
               | Some (best, _) \<Rightarrow>
                   (case StealExtentLocked best target s ev of
                      (result, s1, ev1) \<Rightarrow>
                        (result, (if result = kBound then s1\<lparr>a_cold_steals := a_cold_steals s1 + 1\<rparr> else s1), ev1))))"

definition StealFrom :: "nat \<Rightarrow> nat \<Rightarrow> 'w SlabAllocator \<Rightarrow> BlockKey list \<Rightarrow> bool \<times> 'w SlabAllocator \<times> BlockKey list" where
  "StealFrom donor target s ev =
     (if donor = target \<or> donor \<ge> length (a_classes s) \<or> target \<ge> length (a_classes s) \<or>
         c_slots_per_extent (a_classes s ! target) = 0
      then (False, s, ev)
      else (case pick_extent s (\<lambda>e. let E = a_extents s ! e in
                   e_cls E = Some donor \<and> e_pinned E = 0 \<and> e_protected_slots E = 0) of
              None \<Rightarrow> (False, s, ev)
            | Some best \<Rightarrow>
                (case StealExtentLocked best target s ev of (result, s1, ev1) \<Rightarrow> (result = kBound, s1, ev1))))"

subsection \<open>Put\<close>

lemma BindFreeExtent_unbound:
  assumes "BindFreeExtent c s = (kBound, s')"
  shows "a_unbound s' < a_unbound s"
proof -
  have "a_unbound s \<noteq> 0" using assms by (auto simp: BindFreeExtent_def split: if_splits)
  moreover have "a_unbound s' = a_unbound s - 1"
    using assms
    by (auto simp: BindFreeExtent_def BindExtentLocked_def bind_extent_def call_extent_bind_def Let_def
        split: if_splits option.splits prod.splits)
  ultimately show ?thesis by simp
qed

text \<open>The striping loop: bind free extents until the class rotates over \<^verbatim>\<open>kStripeWays\<close> of them.\<close>

function bind_stripes :: "nat \<Rightarrow> 'w SlabAllocator \<Rightarrow> ExtentBindResult \<times> 'w SlabAllocator" where
  "bind_stripes c s =
     (if length (c_ext_rr (a_classes s ! c)) < kStripeWays
      then (case BindFreeExtent c s of
              (result, s1) \<Rightarrow> if result = kBound then bind_stripes c s1 else (result, s1))
      else (kBound, s))"
  by pat_completeness auto
termination
  by (relation "measure (\<lambda>(c, s). a_unbound s)") (auto dest: BindFreeExtent_unbound [OF sym])

declare bind_stripes.simps [simp del]

text \<open>
  The \<^verbatim>\<open>for (;;)\<close> loop of \<^verbatim>\<open>Put\<close>: \<open>Some (Some placement, \<dots>)\<close> when a free slot was popped,
  \<open>Some (None, \<dots>)\<close> when the code returns false, and \<open>None\<close> if the loop never ended.
\<close>

partial_function (option) put_loop :: "nat \<Rightarrow> 'w SlabAllocator \<Rightarrow> BlockKey list \<Rightarrow>
    ((nat \<times> nat) option \<times> 'w SlabAllocator \<times> BlockKey list) option" where
  "put_loop c s ev =
     (case bind_stripes c s of (bind, s1) \<Rightarrow>
        if bind = kPersistenceError then Some (None, s1, ev)
        else (case PopFreeLocked (a_classes s1 ! c) of
          (Some placement, C) \<Rightarrow> Some (Some placement, upd_class c (\<lambda>_. C) s1, ev)
        | (None, _) \<Rightarrow>
            (case (if c_bound_extents (a_classes s1 ! c) < kStripeWays
                   then StealExtentFor c kStripeWays s1 ev else (kUnavailable, s1, ev)) of
               (grow, s2, ev2) \<Rightarrow>
                 if grow = kBound then put_loop c s2 ev2
                 else if grow = kPersistenceError then Some (None, s2, ev2)
                 else (case StealColdExtentFor c s2 ev2 of
                   (cold, s3, ev3) \<Rightarrow>
                     if cold = kBound then put_loop c s3 ev3
                     else if cold = kPersistenceError then Some (None, s3, ev3)
                     else (case EvictOneFrom c s3 ev3 of
                       (ok, s4, ev4) \<Rightarrow>
                         if ok then put_loop c s4 ev4
                         else (case StealExtentFor c 0 s4 ev4 of
                           (steal, s5, ev5) \<Rightarrow>
                             if steal = kBound then put_loop c s5 ev5
                             else Some (None, s5, ev5)))))))"

text \<open>Installing a new resident into a popped slot.\<close>

definition install_resident :: "BlockKey \<Rightarrow> nat \<Rightarrow> nat \<Rightarrow> nat \<times> nat \<Rightarrow> 'w SlabAllocator \<Rightarrow>
    (SlotRef \<times> nat) option \<times> 'w SlabAllocator" where
  "install_resident key len c placement s =
     (let (e, slot) = placement;
          (i, s1) = AcquireSlotMetaLocked s;
          slot_size = c_slot_size (a_classes s1 ! c);
          r = \<lparr>ref_cls = c, ref_extent = e, ref_slot = slot, ref_slot_size = slot_size, ref_offset = slot * slot_size\<rparr>;
          s2 = (upd_slot i (\<lambda>m. m\<lparr>m_ref := r, m_useful_bytes := len, m_key := key, m_live := True\<rparr>) s1)
                 \<lparr>a_put_seq := a_put_seq s1 + 1\<rparr>;
          insert_seq = a_put_seq s2;
          (inserted, idx) = Insert (a_index s2) key i
      in if \<not> inserted
         then (None, upd_class c (PushFreeLocked e slot)
                (s2\<lparr>a_index := idx,
                    a_slots := (a_slots s2)[i := empty_meta\<lparr>m_free_next := a_free_slot_meta_head s2\<rparr>],
                    a_free_slot_meta_head := i\<rparr>))
         else (let s3 = LinkResidentLocked i (s2\<lparr>a_index := idx\<rparr>);
                   s4 = upd_class c (\<lambda>C. C\<lparr>c_puts := c_puts C + 1, c_useful_bytes := c_useful_bytes C + len\<rparr>) s3;
                   s5 = upd_extent e (\<lambda>E. E\<lparr>e_free_slots := e_free_slots E - 1,
                           e_useful_bytes := e_useful_bytes E + len,
                           e_youngest_seq := max (e_youngest_seq E) insert_seq,
                           e_access_seq_sum := e_access_seq_sum E + a_activity_seq s4\<rparr>) s4;
                   s6 = upd_slot i (\<lambda>m. m\<lparr>m_access_seq := a_activity_seq s5\<rparr>) s5
               in (Some (r, i), s6\<lparr>a_used_bytes := a_used_bytes s6 + slot_size\<rparr>)))"

definition Put :: "BlockKey \<Rightarrow> nat \<Rightarrow> 'w SlabAllocator \<Rightarrow>
    ((SlotRef \<times> nat) option \<times> 'w SlabAllocator \<times> BlockKey list) option" where
  "Put key len s0 =
     (let s = s0\<lparr>a_activity_seq := a_activity_seq s0 + 1\<rparr>
      in case Find (a_index s) key of
           Some i \<Rightarrow>
             (let meta = a_slots s ! i
              in if m_remove_pending meta then Some (None, s, [])
                 else Some (Some (m_ref meta, i), upd_slot i (\<lambda>m. m\<lparr>m_referenced := True\<rparr>) s, []))
         | None \<Rightarrow>
             if len = 0 \<or> len > o_extent_bytes (a_opt s) \<or> len > UINT32_MAX then Some (None, s, [])
             else (let aligned = AlignUp len (o_align (a_opt s))
                   in if aligned = 0 \<or> aligned > o_extent_bytes (a_opt s) then Some (None, s, [])
                      else (let c = ClassForLen s aligned
                            in if c \<ge> length (a_classes s) then Some (None, s, [])
                               else (case put_loop c s [] of
                                       None \<Rightarrow> None
                                     | Some (None, s1, ev) \<Rightarrow> Some (None, s1, ev)
                                     | Some (Some placement, s1, ev) \<Rightarrow>
                                         (case install_resident key len c placement s1 of
                                            (res, s2) \<Rightarrow> Some (res, s2, ev))))))"

subsection \<open>Reads, pins and removal\<close>

definition Get :: "BlockKey \<Rightarrow> 'w SlabAllocator \<Rightarrow> SlotRef option \<times> 'w SlabAllocator" where
  "Get key s =
     (case Find (a_index s) key of
        None \<Rightarrow> (None, s)
      | Some i \<Rightarrow>
          if m_remove_pending (a_slots s ! i) then (None, s)
          else (let s1 = TouchLocked i s in (Some (m_ref (a_slots s1 ! i)), s1)))"

definition add_pin :: "nat \<Rightarrow> 'w SlabAllocator \<Rightarrow> 'w SlabAllocator" where
  "add_pin i s =
     (let meta = a_slots s ! i;
          s1 = (if m_refs meta = 0
                then upd_extent (ref_extent (m_ref meta)) (\<lambda>E. E\<lparr>e_pinned := e_pinned E + 1\<rparr>) s else s)
      in upd_slot i (\<lambda>m. m\<lparr>m_refs := m_refs m + 1\<rparr>) s1)"

definition drop_pin :: "nat \<Rightarrow> 'w SlabAllocator \<Rightarrow> 'w SlabAllocator" where
  "drop_pin i s =
     (let s1 = upd_slot i (\<lambda>m. m\<lparr>m_refs := m_refs m - 1\<rparr>) s; meta = a_slots s1 ! i
      in if m_refs meta = 0
         then (let s2 = upd_extent (ref_extent (m_ref meta))
                     (\<lambda>E. if e_pinned E > 0 then E\<lparr>e_pinned := e_pinned E - 1\<rparr> else E) s1
               in if m_remove_pending meta then FreeSlotLocked i s2 else s2)
         else s1)"

definition GetAndPin :: "BlockKey \<Rightarrow> 'w SlabAllocator \<Rightarrow> SlotRef option \<times> 'w SlabAllocator" where
  "GetAndPin key s =
     (case Find (a_index s) key of
        None \<Rightarrow> (None, s)
      | Some i \<Rightarrow>
          if m_remove_pending (a_slots s ! i) then (None, s)
          else (let s1 = add_pin i (TouchLocked i s) in (Some (m_ref (a_slots s1 ! i)), s1)))"

definition Contains :: "BlockKey \<Rightarrow> 'w SlabAllocator \<Rightarrow> bool" where
  "Contains key s = (case Find (a_index s) key of None \<Rightarrow> False | Some i \<Rightarrow> \<not> m_remove_pending (a_slots s ! i))"

definition Remove :: "BlockKey \<Rightarrow> 'w SlabAllocator \<Rightarrow> RemoveResult \<times> 'w SlabAllocator" where
  "Remove key s =
     (case Find (a_index s) key of
        None \<Rightarrow> (kRemoveNotFound, s)
      | Some i \<Rightarrow>
          if m_refs (a_slots s ! i) > 0
          then (kDeferred, upd_slot i (\<lambda>m. m\<lparr>m_remove_pending := True, m_referenced := False\<rparr>) s)
          else (kRemoved, FreeSlotLocked i s))"

definition Pin :: "BlockKey \<Rightarrow> 'w SlabAllocator \<Rightarrow> bool \<times> 'w SlabAllocator" where
  "Pin key s =
     (case Find (a_index s) key of
        None \<Rightarrow> (False, s)
      | Some i \<Rightarrow> if m_remove_pending (a_slots s ! i) then (False, s) else (True, add_pin i s))"

definition Unpin :: "BlockKey \<Rightarrow> 'w SlabAllocator \<Rightarrow> bool \<times> 'w SlabAllocator" where
  "Unpin key s =
     (case Find (a_index s) key of
        None \<Rightarrow> (False, s)
      | Some i \<Rightarrow> if m_refs (a_slots s ! i) = 0 then (False, s) else (True, drop_pin i s))"

definition PinHandle :: "BlockKey \<Rightarrow> nat \<Rightarrow> 'w SlabAllocator \<Rightarrow> bool \<times> 'w SlabAllocator" where
  "PinHandle key handle s =
     (if \<not> SlotHandle_valid handle \<or> handle \<ge> length (a_slots s) then (False, s)
      else (let meta = a_slots s ! handle
            in if \<not> m_live meta \<or> m_key meta \<noteq> key \<or> m_remove_pending meta then (False, s)
               else (True, add_pin handle s)))"

definition UnpinHandle :: "BlockKey \<Rightarrow> nat \<Rightarrow> 'w SlabAllocator \<Rightarrow> bool \<times> 'w SlabAllocator" where
  "UnpinHandle key handle s =
     (if \<not> SlotHandle_valid handle \<or> handle \<ge> length (a_slots s) then (False, s)
      else (let meta = a_slots s ! handle
            in if \<not> m_live meta \<or> m_key meta \<noteq> key \<or> m_refs meta = 0 then (False, s)
               else (True, drop_pin handle s)))"

subsection \<open>Background reclaim\<close>

fun reclaim_loop :: "nat \<Rightarrow> nat \<Rightarrow> nat \<Rightarrow> nat \<Rightarrow> 'w SlabAllocator \<Rightarrow> BlockKey list \<Rightarrow>
    nat \<times> 'w SlabAllocator \<times> BlockKey list" where
  "reclaim_loop 0 c target_free reclaimed s ev = (reclaimed, s, ev)"
| "reclaim_loop (Suc n) c target_free reclaimed s ev =
     (if \<not> c_free_count (a_classes s ! c) < target_free \<or> a_unbound s > 0 then (reclaimed, s, ev)
      else (case EvictOneFrom c s ev of
              (ok, s1, ev1) \<Rightarrow>
                if \<not> ok then (reclaimed, s1, ev1)
                else if c_free_count (a_classes s1 ! c) \<le> c_free_count (a_classes s ! c)
                then (reclaimed + 1, s1, ev1)
                else reclaim_loop n c target_free (reclaimed + 1) s1 ev1))"

definition ReclaimClass :: "nat \<Rightarrow> nat \<Rightarrow> nat \<Rightarrow> 'w SlabAllocator \<Rightarrow> BlockKey list \<Rightarrow>
    nat \<times> 'w SlabAllocator \<times> BlockKey list" where
  "ReclaimClass c target_free max_victims s ev =
     (if c \<ge> length (a_classes s) then (0, s, ev) else reclaim_loop max_victims c target_free 0 s ev)"

text \<open>
  The persistence decision of \<^verbatim>\<open>EvictColdToTarget\<close> for one victim: the last resident of an extent
  clears the whole extent, any other resident needs the slot callback.
\<close>

definition call_cold_evict :: "SlotMeta \<Rightarrow> 'w SlabAllocator \<Rightarrow> bool \<times> 'w SlabAllocator" where
  "call_cold_evict meta s =
     (let r = m_ref meta; E = a_extents s ! ref_extent r
      in case on_extent_evict (a_opt s) of
           Some f \<Rightarrow>
             if e_resident_count E = 1
             then (let (ok, w) = f (ref_extent r) (e_total_slots E) 1 (a_world s) in (ok, s\<lparr>a_world := w\<rparr>))
             else (case on_slot_evict (a_opt s) of
                     Some _ \<Rightarrow> call_slot_evict r s
                   | None \<Rightarrow> (False, s))
         | None \<Rightarrow> call_slot_evict r s)"

fun cold_loop :: "nat \<Rightarrow> nat \<Rightarrow> nat \<Rightarrow> nat \<Rightarrow> 'w SlabAllocator \<Rightarrow> BlockKey list \<Rightarrow>
    nat \<times> 'w SlabAllocator \<times> BlockKey list" where
  "cold_loop 0 target_bytes max_victims freed s ev = (freed, s, ev)"
| "cold_loop (Suc n) target_bytes max_victims freed s0 ev =
     (if \<not> (freed < max_victims \<and> a_used_bytes s0 > target_bytes \<and> a_global_hand s0 \<noteq> kNoSlot)
      then (freed, s0, ev)
      else
       (let s = s0\<lparr>a_watermark_scan_steps := a_watermark_scan_steps s0 + 1\<rparr>;
            index = a_global_hand s;
            meta = a_slots s ! index;
            next = cyc_next (m_global_next meta) (a_global_ring_head s)
        in if m_refs meta > 0
           then cold_loop n target_bytes max_victims freed (s\<lparr>a_global_hand := next\<rparr>) ev
           else if m_retain_until meta \<noteq> 0
           then cold_loop n target_bytes max_victims freed
                  (s\<lparr>a_retain_evict_skipped := a_retain_evict_skipped s + 1, a_global_hand := next\<rparr>) ev
           else (case call_cold_evict meta s of
                   (ok, s1) \<Rightarrow>
                     if \<not> ok then (freed, s1, ev)
                     else (let s2 = FreeSlotLocked index s1
                           in cold_loop n target_bytes max_victims (freed + 1)
                                (s2\<lparr>a_evictions := a_evictions s2 + 1,
                                    a_watermark_evictions := a_watermark_evictions s2 + 1\<rparr>)
                                (ev @ [m_key meta])))))"

definition EvictColdToTarget :: "nat \<Rightarrow> nat \<Rightarrow> 'w SlabAllocator \<Rightarrow> BlockKey list \<Rightarrow>
    nat \<times> 'w SlabAllocator \<times> BlockKey list" where
  "EvictColdToTarget target_bytes max_victims s ev =
     (let limit = (if max_victims > UINT64_MAX div 4 then UINT64_MAX else 4 * max_victims)
      in cold_loop limit target_bytes max_victims 0 s ev)"

subsection \<open>Retention\<close>

definition ConfigureRetention :: "RetainOptions \<Rightarrow> nat \<Rightarrow> 'w SlabAllocator \<Rightarrow> 'w SlabAllocator" where
  "ConfigureRetention options now_s s =
     (let r1 = (if ro_max_ttl_s options = 0 then options\<lparr>ro_enabled := False\<rparr> else options);
          r2 = (if ro_class_pct r1 > 100 then r1\<lparr>ro_class_pct := 100\<rparr> else r1)
      in s\<lparr>a_retain := r2, a_retain_now_s := now_s,
           a_wheel := replicate (if ro_enabled r2 then ro_max_ttl_s r2 div kWheelTickS + 2 else 0) [],
           a_wheel_entries := 0,
           a_wheel_tick := (if now_s div kWheelTickS = 0 then 0 else now_s div kWheelTickS - 1)\<rparr>)"

definition ClassProtectCapLocked :: "'w SlabAllocator \<Rightarrow> Class \<Rightarrow> nat" where
  "ClassProtectCapLocked s C =
     (let slots = c_bound_extents C * c_slots_per_extent C
      in min (slots * ro_class_pct (a_retain s) div 100) UINT32_MAX)"

record RetainOutcome =
  out_code :: RetainCode
  out_ref :: SlotRef
  out_until :: nat
  out_ttl_s :: nat
  out_persist :: bool

definition empty_outcome :: RetainOutcome where
  "empty_outcome = \<lparr>out_code = kMiss, out_ref = m_ref empty_meta, out_until = 0, out_ttl_s = 0, out_persist = False\<rparr>"

definition count_result :: "RetainCode \<Rightarrow> 'w SlabAllocator \<Rightarrow> 'w SlabAllocator" where
  "count_result code s = s\<lparr>a_retain_results := upd_nth (a_retain_results s) (retain_code_index code) Suc\<rparr>"

text \<open>Lines from the admission decision on: grant, extend and schedule a protection.\<close>

definition retain_grant :: "nat \<Rightarrow> nat \<Rightarrow> nat \<Rightarrow> 'w SlabAllocator \<Rightarrow> RetainOutcome \<Rightarrow> RetainOutcome \<times> 'w SlabAllocator" where
  "retain_grant index stored eff s out0 =
     (let meta = a_slots s ! index;
          was_protected = (m_retain_until meta \<noteq> 0);
          candidate = a_retain_now_s s + eff;
          new_until = max (m_retain_until meta) (min candidate UINT32_MAX) mod 2 ^ 32;
          code = (if \<not> was_protected then kProtectedNew
                  else if eff > stored then kUpgraded
                  else if new_until > m_retain_until meta then kRefreshed else kUnchanged);
          s1 = (if \<not> was_protected then ProtectLocked index s else s);
          s2 = upd_slot index (\<lambda>m. m\<lparr>m_retain_ttl_s := eff\<rparr>) s1;
          s3 = (if new_until \<noteq> m_retain_until meta \<or> \<not> was_protected
                then PushWheelLocked (m_key meta) new_until
                       (upd_slot index (\<lambda>m. m\<lparr>m_retain_until := new_until\<rparr>) s2)
                else s2);
          delta_floor = max (ro_persist_min_delta_s (a_retain s)) (eff div 4);
          meta3 = a_slots s3 ! index;
          persist = (code = kProtectedNew \<or> code = kUpgraded \<or>
             m_retain_until meta3 \<ge> (m_retain_persisted_until meta3 + delta_floor) mod 2 ^ 32);
          s4 = (if persist then upd_slot index (\<lambda>m. m\<lparr>m_retain_persisted_until := m_retain_until m\<rparr>) s3 else s3)
      in (out0\<lparr>out_code := code, out_persist := persist, out_until := m_retain_until meta3, out_ttl_s := eff\<rparr>,
          count_result code s4))"

definition Retain :: "BlockKey \<Rightarrow> nat \<Rightarrow> RetainMode \<Rightarrow> nat \<Rightarrow> 'w SlabAllocator \<Rightarrow> RetainOutcome \<times> 'w SlabAllocator" where
  "Retain key ttl_s mode now_s s0 =
     (let s = (if now_s > a_retain_now_s s0 then s0\<lparr>a_retain_now_s := now_s\<rparr> else s0)
      in case Find (a_index s) key of
           None \<Rightarrow> (empty_outcome\<lparr>out_code := kMiss\<rparr>, count_result kMiss s)
         | Some index \<Rightarrow>
             if m_remove_pending (a_slots s ! index) then (empty_outcome\<lparr>out_code := kMiss\<rparr>, count_result kMiss s)
             else if \<not> ro_enabled (a_retain s)
             then (empty_outcome\<lparr>out_code := kHitUnprotected\<rparr>, count_result kHitUnprotected s)
             else
               (let s1 = (if mode = kRefresh then TouchLocked index s else s);
                    meta = a_slots s1 ! index;
                    out = empty_outcome\<lparr>out_ref := m_ref meta\<rparr>;
                    stored = min (m_retain_ttl_s meta) (ro_max_ttl_s (a_retain s1));
                    requested = min ttl_s (ro_max_ttl_s (a_retain s1));
                    eff = (if mode = kRefresh then stored else max stored requested);
                    C = a_classes s1 ! ref_cls (m_ref meta)
                in if eff = 0
                   then (out\<lparr>out_code := kHitUnprotected\<rparr>, count_result kHitUnprotected s1)
                   else if m_retain_until meta = 0 \<and>
                       (a_protected_bytes s1 + ref_slot_size (m_ref meta) > ro_budget_bytes (a_retain s1) \<or>
                        c_protected_slots C + 1 > ClassProtectCapLocked s1 C)
                   then (out\<lparr>out_code := kDenied, out_ttl_s := m_retain_ttl_s meta\<rparr>, count_result kDenied s1)
                   else retain_grant index stored eff s1 out))"

text \<open>One wheel entry whose bucket is being drained; the accumulator carries the kept entries.\<close>

definition expire_entry :: "nat \<Rightarrow> WheelEntry \<Rightarrow> nat \<times> WheelEntry list \<times> 'w SlabAllocator \<Rightarrow>
    nat \<times> WheelEntry list \<times> 'w SlabAllocator" where
  "expire_entry now entry acc =
     (case acc of (cleared, keep, s) \<Rightarrow>
        if we_until entry > now then (cleared, keep @ [entry], s)
        else (let s1 = s\<lparr>a_wheel_entries := a_wheel_entries s - 1\<rparr>
              in case Find (a_index s1) (we_key entry) of
                   None \<Rightarrow> (cleared, keep, s1)
                 | Some i \<Rightarrow>
                     if \<not> m_live (a_slots s1 ! i) \<or> m_retain_until (a_slots s1 ! i) \<noteq> we_until entry
                     then (cleared, keep, s1)
                     else (let s2 = upd_slot i (\<lambda>m. m\<lparr>m_referenced := False\<rparr>) (UnprotectLocked i s1)
                           in (cleared + 1, keep, s2\<lparr>a_retain_expired := a_retain_expired s2 + 1\<rparr>))))"

fun expire_ticks :: "nat \<Rightarrow> nat \<Rightarrow> nat \<Rightarrow> 'w SlabAllocator \<Rightarrow> nat \<times> 'w SlabAllocator" where
  "expire_ticks 0 now cleared s = (cleared, s)"
| "expire_ticks (Suc n) now cleared s0 =
     (let s = s0\<lparr>a_wheel_tick := a_wheel_tick s0 + 1\<rparr>;
          b = a_wheel_tick s mod length (a_wheel s);
          (cleared1, keep, s1) = fold (expire_entry now) (a_wheel s ! b) (cleared, [], s)
      in expire_ticks n now cleared1 (s1\<lparr>a_wheel := (a_wheel s1)[b := keep]\<rparr>))"

definition ExpireRetention :: "nat \<Rightarrow> 'w SlabAllocator \<Rightarrow> nat \<times> 'w SlabAllocator" where
  "ExpireRetention now_s s0 =
     (let s = (if now_s > a_retain_now_s s0 then s0\<lparr>a_retain_now_s := now_s\<rparr> else s0);
          now = a_retain_now_s s;
          target = (if now div kWheelTickS = 0 then 0 else now div kWheelTickS - 1)
      in if a_wheel s = [] then (0, s)
         else if target \<le> a_wheel_tick s then (0, s)
         else (let s1 = (if target - a_wheel_tick s > length (a_wheel s)
                         then s\<lparr>a_wheel_tick := target - length (a_wheel s)\<rparr> else s)
               in expire_ticks (target - a_wheel_tick s1) now 0 s1))"

subsection \<open>Rebuild\<close>

record RestoreEntry =
  re_key :: BlockKey
  re_slot_size :: nat
  re_extent :: nat
  re_slot :: nat
  re_value_bytes :: nat
  re_retain_until :: nat
  re_retain_ttl_s :: nat

text \<open>\<^verbatim>\<open>std::sort\<close> by (tenant, high, low) followed by \<^verbatim>\<open>std::adjacent_find\<close>.\<close>

definition key_order :: "BlockKey \<Rightarrow> u64 \<times> u64 \<times> u64" where
  "key_order k = (tenant_hash k, digest_hi k, digest_lo k)"

fun adjacent_find :: "'a list \<Rightarrow> bool" where
  "adjacent_find (x # y # ys) \<longleftrightarrow> x = y \<or> adjacent_find (y # ys)"
| "adjacent_find _ \<longleftrightarrow> False"

text \<open>The validation loop, with the placements and the extent sizes seen so far in the batch.\<close>

fun restore_check :: "'w SlabAllocator \<Rightarrow> nat set \<Rightarrow> (nat \<rightharpoonup> nat) \<Rightarrow> RestoreEntry list \<Rightarrow> bool" where
  "restore_check s placements batch [] = True"
| "restore_check s placements batch (entry # es) =
     (if re_slot_size entry = 0 \<or> re_extent entry \<ge> length (a_extents s) \<or>
         re_slot_size entry > o_extent_bytes (a_opt s) \<or>
         re_value_bytes entry > re_slot_size entry \<or>
         CanonicalSlotSize (a_opt s) (re_slot_size entry) \<noteq> re_slot_size entry \<or>
         ClassForExactSize s (re_slot_size entry) = length (a_classes s) \<or>
         re_slot entry \<ge> o_extent_bytes (a_opt s) div re_slot_size entry \<or>
         Find (a_index s) (re_key entry) \<noteq> None
      then False
      else (let placement = push_bit 32 (re_extent entry) OR re_slot entry
            in if placement \<in> placements then False
               else (let batch' = (if batch (re_extent entry) = None
                                   then batch(re_extent entry \<mapsto> re_slot_size entry) else batch)
                     in if batch' (re_extent entry) \<noteq> Some (re_slot_size entry) then False
                        else (case e_cls (a_extents s ! re_extent entry) of
                                None \<Rightarrow> restore_check s (insert placement placements) batch' es
                              | Some c \<Rightarrow>
                                  (let C = a_classes s ! c
                                   in if c_slot_size C \<noteq> re_slot_size entry then False
                                      else (case c_free_by_ext C (re_extent entry) of
                                              None \<Rightarrow> False
                                            | Some slots \<Rightarrow>
                                                if re_slot entry \<notin> set slots then False
                                                else restore_check s (insert placement placements) batch' es))))))"

text \<open>A persisted protection still in the future, re-clamped to the configured cap.\<close>

definition restore_retention :: "RestoreEntry \<Rightarrow> nat \<Rightarrow> 'w SlabAllocator \<Rightarrow> 'w SlabAllocator" where
  "restore_retention entry i s =
     (if \<not> ro_enabled (a_retain s) then s
      else if re_retain_until entry > a_retain_now_s s \<and> re_retain_ttl_s entry \<noteq> 0
      then (let ttl = min (re_retain_ttl_s entry) (ro_max_ttl_s (a_retain s));
                until = min (re_retain_until entry) (a_retain_now_s s + ttl) mod 2 ^ 32
            in PushWheelLocked (re_key entry) until
                 (ProtectLocked i
                   (upd_slot i (\<lambda>m. m\<lparr>m_retain_ttl_s := ttl, m_retain_until := until, m_retain_persisted_until := until\<rparr>) s)))
      else upd_slot i (\<lambda>m. m\<lparr>m_retain_ttl_s := min (re_retain_ttl_s entry) (ro_max_ttl_s (a_retain s))\<rparr>) s)"

definition restore_resident :: "RestoreEntry \<Rightarrow> nat \<Rightarrow> 'w SlabAllocator \<Rightarrow> bool \<times> 'w SlabAllocator" where
  "restore_resident entry c s =
     (let (i, s1) = AcquireSlotMetaLocked s;
          size = re_slot_size entry;
          r = \<lparr>ref_cls = c, ref_extent = re_extent entry, ref_slot = re_slot entry, ref_slot_size = size,
               ref_offset = re_slot entry * size\<rparr>;
          s2 = upd_slot i (\<lambda>m. m\<lparr>m_ref := r, m_useful_bytes := re_value_bytes entry, m_key := re_key entry, m_live := True\<rparr>) s1;
          (inserted, idx) = Insert (a_index s2) (re_key entry) i
      in if \<not> inserted then (False, s2\<lparr>a_index := idx\<rparr>)
         else (let s3 = LinkResidentLocked i (s2\<lparr>a_index := idx\<rparr>);
                   s4 = upd_extent (re_extent entry) (\<lambda>E. E\<lparr>e_free_slots := e_free_slots E - 1,
                            e_useful_bytes := e_useful_bytes E + re_value_bytes entry\<rparr>) s3;
                   s5 = upd_class c (\<lambda>C. C\<lparr>c_useful_bytes := c_useful_bytes C + re_value_bytes entry\<rparr>) s4;
                   s6 = s5\<lparr>a_used_bytes := a_used_bytes s5 + size\<rparr>
               in (True, restore_retention entry i s6)))"

definition restore_one :: "RestoreEntry \<Rightarrow> 'w SlabAllocator \<Rightarrow> bool \<times> 'w SlabAllocator" where
  "restore_one entry s =
     (let c = ClassForExactSize s (re_slot_size entry);
          (bound, s1) = (if e_cls (a_extents s ! re_extent entry) = None
             then (case BindExtentLocked c (re_extent entry) True s of (result, s1) \<Rightarrow> (result = kBound, s1))
             else (True, s))
      in if \<not> bound then (False, s1)
         else (case TakeFreeSlotLocked (re_extent entry) (re_slot entry) (a_classes s1 ! c) of
                 (taken, C) \<Rightarrow>
                   if \<not> taken then (False, s1)
                   else restore_resident entry c (upd_class c (\<lambda>_. C) s1)))"

fun restore_all :: "RestoreEntry list \<Rightarrow> 'w SlabAllocator \<Rightarrow> bool \<times> 'w SlabAllocator" where
  "restore_all [] s = (True, s)"
| "restore_all (entry # es) s =
     (case restore_one entry s of (ok, s1) \<Rightarrow> if ok then restore_all es s1 else (False, s1))"

definition RestoreBulk :: "RestoreEntry list \<Rightarrow> 'w SlabAllocator \<Rightarrow> bool \<times> 'w SlabAllocator" where
  "RestoreBulk es s =
     (if es = [] then (True, s)
      else if \<not> restore_check s {} Map.empty es then (False, s)
      else if adjacent_find (sort_key key_order (map re_key es)) then (False, s)
      else restore_all es (s\<lparr>a_index := Reserve (a_index s) (fi_size (a_index s) + length es)\<rparr>))"

subsection \<open>Observers\<close>

record ClassStat =
  cs_slot_size :: nat
  cs_free_slots :: nat
  cs_resident :: nat
  cs_puts :: nat
  cs_extents :: nat
  cs_slots_per_extent :: nat
  cs_useful_bytes :: nat
  cs_allocated_bytes :: nat
  cs_read_touches :: nat
  cs_read_heat :: nat

definition Classes :: "'w SlabAllocator \<Rightarrow> ClassStat list" where
  "Classes s = map (\<lambda>C. \<lparr>cs_slot_size = c_slot_size C, cs_free_slots = c_free_count C,
     cs_resident = c_resident_count C, cs_puts = c_puts C, cs_extents = c_bound_extents C,
     cs_slots_per_extent = c_slots_per_extent C, cs_useful_bytes = c_useful_bytes C,
     cs_allocated_bytes = c_resident_count C * c_slot_size C, cs_read_touches = c_read_touches C,
     cs_read_heat = DecayedHeat s (c_read_heat C) (c_heat_seq C)\<rparr>) (a_classes s)"

text \<open>\<^verbatim>\<open>ColdestGrowDonor\<close>, in the 64-bit arithmetic of the source.\<close>

definition grow_demand :: "ClassStat list \<Rightarrow> u64 list \<Rightarrow> nat \<Rightarrow> u64" where
  "grow_demand classes delta d = delta ! d * of_nat (cs_slot_size (classes ! d))"

definition ColdestGrowDonor :: "ClassStat list \<Rightarrow> u64 list \<Rightarrow> nat list \<Rightarrow> nat \<Rightarrow> nat" where
  "ColdestGrowDonor classes delta extents hot =
     fst (foldl (\<lambda>(donor, donor_demand) d.
            if d = hot \<or> extents ! d \<le> kStripeWays then (donor, donor_demand)
            else (let demand = grow_demand classes delta d
                  in if demand \<noteq> 0 \<and> demand * 4 > grow_demand classes delta hot then (donor, donor_demand)
                     else if donor = length classes \<or>
                        (demand, NOT (of_nat (extents ! d) :: u64)) < (donor_demand, NOT (of_nat (extents ! donor) :: u64))
                     then (d, demand) else (donor, donor_demand)))
          (length classes, 0) [0..<length classes])"

definition Count :: "'w SlabAllocator \<Rightarrow> nat" where
  "Count s = fi_size (a_index s)"

definition UsedBytes :: "'w SlabAllocator \<Rightarrow> nat" where
  "UsedBytes s = a_used_bytes s"

definition BoundExtents :: "'w SlabAllocator \<Rightarrow> nat" where
  "BoundExtents s = length (filter (\<lambda>E. e_cls E \<noteq> None) (a_extents s))"

definition RetentionHeadroomPct :: "'w SlabAllocator \<Rightarrow> nat" where
  "RetentionHeadroomPct s =
     (let budget = ro_budget_bytes (a_retain s)
      in if \<not> ro_enabled (a_retain s) \<or> budget = 0 then 0
         else (budget - min (a_protected_bytes s) budget) * 100 div budget)"

record RetentionStats =
  rs_enabled :: bool
  rs_budget_bytes :: nat
  rs_protected_bytes :: nat
  rs_protected_slots :: nat
  rs_extents_pinned :: nat
  rs_expired :: nat
  rs_evict_skipped :: nat
  rs_wheel_entries :: nat
  rs_max_ttl_s :: nat
  rs_headroom_pct :: nat
  rs_results :: "nat list"

definition GetRetentionStats :: "'w SlabAllocator \<Rightarrow> RetentionStats" where
  "GetRetentionStats s =
     \<lparr>rs_enabled = ro_enabled (a_retain s), rs_budget_bytes = ro_budget_bytes (a_retain s),
      rs_protected_bytes = a_protected_bytes s, rs_protected_slots = a_protected_slots s,
      rs_extents_pinned = length (filter (\<lambda>E. e_protected_slots E \<noteq> 0) (a_extents s)),
      rs_expired = a_retain_expired s, rs_evict_skipped = a_retain_evict_skipped s,
      rs_wheel_entries = a_wheel_entries s, rs_max_ttl_s = ro_max_ttl_s (a_retain s),
      rs_headroom_pct = RetentionHeadroomPct s, rs_results = take 7 (a_retain_results s)\<rparr>"

end
