(* ===== verification/Slab_Inv.thy ===== *)
theory Slab_Inv
  imports Slab_Ops
begin

text \<open>
  The invariant of the slab allocator, stated view by view over the tables of the state: the
  class rings, the global ring and the extent lists thread exactly the live metadata entries;
  the free entries form a list; the key index maps each key to its live entry; every slot of a
  bound extent is either on a free list or held by exactly one resident; and every counter
  (free, resident, bound, pinned, protected, useful and used bytes) equals the sum it stands
  for. Each view takes the set \<open>L\<close> of entries that count as resident, so that the intermediate
  states of installing and freeing a resident can be described too.
\<close>

subsection \<open>Link functions of the three lists\<close>

abbreviation ul_class :: "SlotMeta list \<Rightarrow> nat \<Rightarrow> SlotMeta list" where
  "ul_class \<equiv> unlink_links m_class_next m_class_prev set_class_next set_class_prev"

abbreviation ul_global :: "SlotMeta list \<Rightarrow> nat \<Rightarrow> SlotMeta list" where
  "ul_global \<equiv> unlink_links m_global_next m_global_prev set_global_next set_global_prev"

abbreviation ul_extent :: "SlotMeta list \<Rightarrow> nat \<Rightarrow> SlotMeta list" where
  "ul_extent \<equiv> unlink_links m_extent_next m_extent_prev set_extent_next set_extent_prev"

abbreviation lb_class :: "SlotMeta list \<Rightarrow> nat \<Rightarrow> nat \<Rightarrow> SlotMeta list" where
  "lb_class \<equiv> link_before_links m_class_prev set_class_next set_class_prev"

abbreviation lb_global :: "SlotMeta list \<Rightarrow> nat \<Rightarrow> nat \<Rightarrow> SlotMeta list" where
  "lb_global \<equiv> link_before_links m_global_prev set_global_next set_global_prev"

abbreviation pf_extent :: "SlotMeta list \<Rightarrow> nat \<Rightarrow> nat \<Rightarrow> SlotMeta list" where
  "pf_extent \<equiv> push_front_links set_extent_next set_extent_prev"

lemma ul_class_sel [simp]:
  "m_key (ul_class sl i ! j) = m_key (sl ! j)" "m_ref (ul_class sl i ! j) = m_ref (sl ! j)"
  "m_useful_bytes (ul_class sl i ! j) = m_useful_bytes (sl ! j)" "m_global_prev (ul_class sl i ! j) = m_global_prev (sl ! j)"
  "m_global_next (ul_class sl i ! j) = m_global_next (sl ! j)" "m_free_next (ul_class sl i ! j) = m_free_next (sl ! j)"
  "m_read_touches (ul_class sl i ! j) = m_read_touches (sl ! j)" "m_access_seq (ul_class sl i ! j) = m_access_seq (sl ! j)"
  "m_refs (ul_class sl i ! j) = m_refs (sl ! j)" "m_extent_prev (ul_class sl i ! j) = m_extent_prev (sl ! j)"
  "m_extent_next (ul_class sl i ! j) = m_extent_next (sl ! j)" "m_retain_until (ul_class sl i ! j) = m_retain_until (sl ! j)"
  "m_retain_ttl_s (ul_class sl i ! j) = m_retain_ttl_s (sl ! j)" "m_retain_persisted_until (ul_class sl i ! j) = m_retain_persisted_until (sl ! j)"
  "m_referenced (ul_class sl i ! j) = m_referenced (sl ! j)" "m_remove_pending (ul_class sl i ! j) = m_remove_pending (sl ! j)"
  "m_live (ul_class sl i ! j) = m_live (sl ! j)"
  by (rule unlink_links_field; simp)+

lemma lb_class_sel [simp]:
  "m_key (lb_class sl h i ! j) = m_key (sl ! j)" "m_ref (lb_class sl h i ! j) = m_ref (sl ! j)"
  "m_useful_bytes (lb_class sl h i ! j) = m_useful_bytes (sl ! j)" "m_global_prev (lb_class sl h i ! j) = m_global_prev (sl ! j)"
  "m_global_next (lb_class sl h i ! j) = m_global_next (sl ! j)" "m_free_next (lb_class sl h i ! j) = m_free_next (sl ! j)"
  "m_read_touches (lb_class sl h i ! j) = m_read_touches (sl ! j)" "m_access_seq (lb_class sl h i ! j) = m_access_seq (sl ! j)"
  "m_refs (lb_class sl h i ! j) = m_refs (sl ! j)" "m_extent_prev (lb_class sl h i ! j) = m_extent_prev (sl ! j)"
  "m_extent_next (lb_class sl h i ! j) = m_extent_next (sl ! j)" "m_retain_until (lb_class sl h i ! j) = m_retain_until (sl ! j)"
  "m_retain_ttl_s (lb_class sl h i ! j) = m_retain_ttl_s (sl ! j)" "m_retain_persisted_until (lb_class sl h i ! j) = m_retain_persisted_until (sl ! j)"
  "m_referenced (lb_class sl h i ! j) = m_referenced (sl ! j)" "m_remove_pending (lb_class sl h i ! j) = m_remove_pending (sl ! j)"
  "m_live (lb_class sl h i ! j) = m_live (sl ! j)"
  by (rule link_before_links_field; simp)+

lemma ul_global_sel [simp]:
  "m_key (ul_global sl i ! j) = m_key (sl ! j)" "m_ref (ul_global sl i ! j) = m_ref (sl ! j)"
  "m_useful_bytes (ul_global sl i ! j) = m_useful_bytes (sl ! j)" "m_free_next (ul_global sl i ! j) = m_free_next (sl ! j)"
  "m_read_touches (ul_global sl i ! j) = m_read_touches (sl ! j)" "m_access_seq (ul_global sl i ! j) = m_access_seq (sl ! j)"
  "m_refs (ul_global sl i ! j) = m_refs (sl ! j)" "m_class_prev (ul_global sl i ! j) = m_class_prev (sl ! j)"
  "m_class_next (ul_global sl i ! j) = m_class_next (sl ! j)" "m_extent_prev (ul_global sl i ! j) = m_extent_prev (sl ! j)"
  "m_extent_next (ul_global sl i ! j) = m_extent_next (sl ! j)" "m_retain_until (ul_global sl i ! j) = m_retain_until (sl ! j)"
  "m_retain_ttl_s (ul_global sl i ! j) = m_retain_ttl_s (sl ! j)" "m_retain_persisted_until (ul_global sl i ! j) = m_retain_persisted_until (sl ! j)"
  "m_referenced (ul_global sl i ! j) = m_referenced (sl ! j)" "m_remove_pending (ul_global sl i ! j) = m_remove_pending (sl ! j)"
  "m_live (ul_global sl i ! j) = m_live (sl ! j)"
  by (rule unlink_links_field; simp)+

lemma lb_global_sel [simp]:
  "m_key (lb_global sl h i ! j) = m_key (sl ! j)" "m_ref (lb_global sl h i ! j) = m_ref (sl ! j)"
  "m_useful_bytes (lb_global sl h i ! j) = m_useful_bytes (sl ! j)" "m_free_next (lb_global sl h i ! j) = m_free_next (sl ! j)"
  "m_read_touches (lb_global sl h i ! j) = m_read_touches (sl ! j)" "m_access_seq (lb_global sl h i ! j) = m_access_seq (sl ! j)"
  "m_refs (lb_global sl h i ! j) = m_refs (sl ! j)" "m_class_prev (lb_global sl h i ! j) = m_class_prev (sl ! j)"
  "m_class_next (lb_global sl h i ! j) = m_class_next (sl ! j)" "m_extent_prev (lb_global sl h i ! j) = m_extent_prev (sl ! j)"
  "m_extent_next (lb_global sl h i ! j) = m_extent_next (sl ! j)" "m_retain_until (lb_global sl h i ! j) = m_retain_until (sl ! j)"
  "m_retain_ttl_s (lb_global sl h i ! j) = m_retain_ttl_s (sl ! j)" "m_retain_persisted_until (lb_global sl h i ! j) = m_retain_persisted_until (sl ! j)"
  "m_referenced (lb_global sl h i ! j) = m_referenced (sl ! j)" "m_remove_pending (lb_global sl h i ! j) = m_remove_pending (sl ! j)"
  "m_live (lb_global sl h i ! j) = m_live (sl ! j)"
  by (rule link_before_links_field; simp)+

lemma ul_extent_sel [simp]:
  "m_key (ul_extent sl i ! j) = m_key (sl ! j)" "m_ref (ul_extent sl i ! j) = m_ref (sl ! j)"
  "m_useful_bytes (ul_extent sl i ! j) = m_useful_bytes (sl ! j)" "m_global_prev (ul_extent sl i ! j) = m_global_prev (sl ! j)"
  "m_global_next (ul_extent sl i ! j) = m_global_next (sl ! j)" "m_free_next (ul_extent sl i ! j) = m_free_next (sl ! j)"
  "m_read_touches (ul_extent sl i ! j) = m_read_touches (sl ! j)" "m_access_seq (ul_extent sl i ! j) = m_access_seq (sl ! j)"
  "m_refs (ul_extent sl i ! j) = m_refs (sl ! j)" "m_class_prev (ul_extent sl i ! j) = m_class_prev (sl ! j)"
  "m_class_next (ul_extent sl i ! j) = m_class_next (sl ! j)" "m_retain_until (ul_extent sl i ! j) = m_retain_until (sl ! j)"
  "m_retain_ttl_s (ul_extent sl i ! j) = m_retain_ttl_s (sl ! j)" "m_retain_persisted_until (ul_extent sl i ! j) = m_retain_persisted_until (sl ! j)"
  "m_referenced (ul_extent sl i ! j) = m_referenced (sl ! j)" "m_remove_pending (ul_extent sl i ! j) = m_remove_pending (sl ! j)"
  "m_live (ul_extent sl i ! j) = m_live (sl ! j)"
  by (rule unlink_links_field; simp)+

lemma pf_extent_sel [simp]:
  "m_key (pf_extent sl h i ! j) = m_key (sl ! j)" "m_ref (pf_extent sl h i ! j) = m_ref (sl ! j)"
  "m_useful_bytes (pf_extent sl h i ! j) = m_useful_bytes (sl ! j)" "m_global_prev (pf_extent sl h i ! j) = m_global_prev (sl ! j)"
  "m_global_next (pf_extent sl h i ! j) = m_global_next (sl ! j)" "m_free_next (pf_extent sl h i ! j) = m_free_next (sl ! j)"
  "m_read_touches (pf_extent sl h i ! j) = m_read_touches (sl ! j)" "m_access_seq (pf_extent sl h i ! j) = m_access_seq (sl ! j)"
  "m_refs (pf_extent sl h i ! j) = m_refs (sl ! j)" "m_class_prev (pf_extent sl h i ! j) = m_class_prev (sl ! j)"
  "m_class_next (pf_extent sl h i ! j) = m_class_next (sl ! j)" "m_retain_until (pf_extent sl h i ! j) = m_retain_until (sl ! j)"
  "m_retain_ttl_s (pf_extent sl h i ! j) = m_retain_ttl_s (sl ! j)" "m_retain_persisted_until (pf_extent sl h i ! j) = m_retain_persisted_until (sl ! j)"
  "m_referenced (pf_extent sl h i ! j) = m_referenced (sl ! j)" "m_remove_pending (pf_extent sl h i ! j) = m_remove_pending (sl ! j)"
  "m_live (pf_extent sl h i ! j) = m_live (sl ! j)"
  by (rule push_front_links_field; simp)+

subsection \<open>Views\<close>

definition live_set :: "SlotMeta list \<Rightarrow> nat set" where
  "live_set sl = {i. i < length sl \<and> m_live (sl ! i)}"

definition at_ext :: "SlotMeta list \<Rightarrow> nat set \<Rightarrow> nat \<Rightarrow> nat set" where
  "at_ext sl L e = {i \<in> L. ref_extent (m_ref (sl ! i)) = e}"

definition in_cls :: "SlotMeta list \<Rightarrow> nat set \<Rightarrow> nat \<Rightarrow> nat set" where
  "in_cls sl L c = {i \<in> L. ref_cls (m_ref (sl ! i)) = c}"

definition class_rings :: "SlotMeta list \<Rightarrow> Class list \<Rightarrow> nat set \<Rightarrow> bool" where
  "class_rings sl cs L \<longleftrightarrow> (\<forall>c<length cs.
     ring m_class_next m_class_prev sl (c_ring_head (cs ! c)) (c_hand (cs ! c)) (in_cls sl L c) \<and>
     c_resident_count (cs ! c) = card (in_cls sl L c))"

definition extent_lists :: "SlotMeta list \<Rightarrow> ExtentMeta list \<Rightarrow> nat set \<Rightarrow> bool" where
  "extent_lists sl es L \<longleftrightarrow> (\<forall>e<length es.
     (\<exists>xs. linked m_extent_next m_extent_prev sl (e_resident_head (es ! e)) xs \<and> set xs = at_ext sl L e) \<and>
     e_resident_count (es ! e) = card (at_ext sl L e) \<and>
     e_access_seq_sum (es ! e) = (\<Sum>i\<in>at_ext sl L e. m_access_seq (sl ! i)))"

fun chain :: "(nat \<Rightarrow> nat) \<Rightarrow> nat \<Rightarrow> nat list \<Rightarrow> bool" where
  "chain nx h [] \<longleftrightarrow> h = kNoSlot"
| "chain nx h (x # xs) \<longleftrightarrow> h = x \<and> x \<noteq> kNoSlot \<and> chain nx (nx x) xs"

definition free_metas :: "SlotMeta list \<Rightarrow> nat \<Rightarrow> nat set \<Rightarrow> bool" where
  "free_metas sl h L \<longleftrightarrow> (\<exists>xs. chain (\<lambda>i. m_free_next (sl ! i)) h xs \<and> distinct xs \<and> set xs = {..<length sl} - L)"

definition index_ok :: "SlotMeta list \<Rightarrow> flat_index \<Rightarrow> nat set \<Rightarrow> bool" where
  "index_ok sl ix L \<longleftrightarrow> index_inv ix \<and> (\<forall>k i. Find ix k = Some i \<longleftrightarrow> i \<in> L \<and> m_key (sl ! i) = k)"

definition pools_ok :: "Class list \<Rightarrow> ExtentMeta list \<Rightarrow> bool" where
  "pools_ok cs es \<longleftrightarrow> (\<forall>c<length cs. pool_ok (cs ! c) \<and>
     (\<forall>e. frees (cs ! c) e \<noteq> {} \<longrightarrow> e < length es \<and> e_cls (es ! e) = Some c))"

text \<open>
  The slots of a bound extent are divided between the free lists, the residents and the slots
  \<open>H\<close> in transit (popped, not yet installed).
\<close>

definition space_ok :: "SlotMeta list \<Rightarrow> Class list \<Rightarrow> ExtentMeta list \<Rightarrow> nat set \<Rightarrow> (nat \<times> nat) set \<Rightarrow> bool" where
  "space_ok sl cs es L H \<longleftrightarrow>
     (\<forall>i\<in>L. let r = m_ref (sl ! i) in
        ref_extent r < length es \<and> e_cls (es ! ref_extent r) = Some (ref_cls r) \<and>
        ref_slot_size r = c_slot_size (cs ! ref_cls r) \<and> ref_offset r = ref_slot r * ref_slot_size r) \<and>
     (\<forall>e<length es. \<forall>c. e_cls (es ! e) = Some c \<longrightarrow>
        c < length cs \<and> e_total_slots (es ! e) = c_slots_per_extent (cs ! c) \<and>
        e_free_slots (es ! e) + card (at_ext sl L e) = e_total_slots (es ! e) \<and>
        inj_on (\<lambda>i. ref_slot (m_ref (sl ! i))) (at_ext sl L e) \<and>
        (let free = frees (cs ! c) e; used = (\<lambda>i. ref_slot (m_ref (sl ! i))) ` at_ext sl L e; moving = {x. (e, x) \<in> H}
         in free \<inter> used = {} \<and> free \<inter> moving = {} \<and> used \<inter> moving = {} \<and>
            free \<union> used \<union> moving = {..<c_slots_per_extent (cs ! c)}))"

definition pins_ok :: "SlotMeta list \<Rightarrow> ExtentMeta list \<Rightarrow> nat set \<Rightarrow> bool" where
  "pins_ok sl es L \<longleftrightarrow> (\<forall>e<length es. e_pinned (es ! e) = (\<Sum>i\<in>at_ext sl L e. of_bool (m_refs (sl ! i) > 0)))"

definition prot_ok :: "SlotMeta list \<Rightarrow> Class list \<Rightarrow> ExtentMeta list \<Rightarrow> nat \<Rightarrow> nat \<Rightarrow> nat set \<Rightarrow> bool" where
  "prot_ok sl cs es bytes slots L \<longleftrightarrow>
     (\<forall>e<length es. e_protected_slots (es ! e) = (\<Sum>i\<in>at_ext sl L e. of_bool (m_retain_until (sl ! i) \<noteq> 0))) \<and>
     (\<forall>c<length cs. c_protected_slots (cs ! c) = (\<Sum>i\<in>in_cls sl L c. of_bool (m_retain_until (sl ! i) \<noteq> 0))) \<and>
     bytes = (\<Sum>i\<in>L. if m_retain_until (sl ! i) \<noteq> 0 then ref_slot_size (m_ref (sl ! i)) else 0) \<and>
     slots = (\<Sum>i\<in>L. of_bool (m_retain_until (sl ! i) \<noteq> 0))"

definition bytes_ok :: "SlotMeta list \<Rightarrow> Class list \<Rightarrow> ExtentMeta list \<Rightarrow> nat \<Rightarrow> nat set \<Rightarrow> bool" where
  "bytes_ok sl cs es used L \<longleftrightarrow>
     (\<forall>e<length es. e_useful_bytes (es ! e) = (\<Sum>i\<in>at_ext sl L e. m_useful_bytes (sl ! i))) \<and>
     (\<forall>c<length cs. c_useful_bytes (cs ! c) = (\<Sum>i\<in>in_cls sl L c. m_useful_bytes (sl ! i))) \<and>
     used = (\<Sum>i\<in>L. ref_slot_size (m_ref (sl ! i)))"

definition binding_ok :: "Class list \<Rightarrow> ExtentMeta list \<Rightarrow> nat \<Rightarrow> bool" where
  "binding_ok cs es unbound \<longleftrightarrow>
     (\<forall>c<length cs. c_bound_extents (cs ! c) = card {e. e < length es \<and> e_cls (es ! e) = Some c}) \<and>
     unbound = card {e. e < length es \<and> e_cls (es ! e) = None}"

definition metas_ok :: "SlotMeta list \<Rightarrow> nat \<Rightarrow> nat set \<Rightarrow> bool" where
  "metas_ok sl act L \<longleftrightarrow> (\<forall>i\<in>L. (m_remove_pending (sl ! i) \<longrightarrow> m_refs (sl ! i) > 0) \<and>
     m_access_seq (sl ! i) \<le> act \<and> m_useful_bytes (sl ! i) \<le> ref_slot_size (m_ref (sl ! i)))"

definition geometry :: "'w Options \<Rightarrow> Class list \<Rightarrow> nat \<Rightarrow> bool" where
  "geometry opt cs n \<longleftrightarrow>
     0 < o_align opt \<and> n = o_num_extents opt \<and> distinct (map c_slot_size cs) \<and> n * (o_extent_bytes opt div o_align opt) < kNoSlot \<and>
     (\<forall>C\<in>set cs. o_align opt \<le> c_slot_size C \<and> c_slot_size C \<le> max_aligned opt \<and>
        c_slots_per_extent C = o_extent_bytes opt div c_slot_size C)"

definition inv_at :: "'w SlabAllocator \<Rightarrow> nat set \<Rightarrow> (nat \<times> nat) set \<Rightarrow> bool" where
  "inv_at s L H \<longleftrightarrow>
     geometry (a_opt s) (a_classes s) (length (a_extents s)) \<and> L \<subseteq> {..<length (a_slots s)} \<and>
     length (a_slots s) \<le> o_num_extents (a_opt s) * (o_extent_bytes (a_opt s) div o_align (a_opt s)) \<and>
     class_rings (a_slots s) (a_classes s) L \<and>
     ring m_global_next m_global_prev (a_slots s) (a_global_ring_head s) (a_global_hand s) L \<and>
     extent_lists (a_slots s) (a_extents s) L \<and>
     index_ok (a_slots s) (a_index s) L \<and>
     pools_ok (a_classes s) (a_extents s) \<and>
     space_ok (a_slots s) (a_classes s) (a_extents s) L H \<and>
     pins_ok (a_slots s) (a_extents s) L \<and>
     prot_ok (a_slots s) (a_classes s) (a_extents s) (a_protected_bytes s) (a_protected_slots s) L \<and>
     bytes_ok (a_slots s) (a_classes s) (a_extents s) (a_used_bytes s) L \<and>
     binding_ok (a_classes s) (a_extents s) (a_unbound s) \<and>
     metas_ok (a_slots s) (a_activity_seq s) L"

definition inv_moving :: "'w SlabAllocator \<Rightarrow> (nat \<times> nat) set \<Rightarrow> bool" where
  "inv_moving s H \<longleftrightarrow> inv_at s (live_set (a_slots s)) H \<and>
     free_metas (a_slots s) (a_free_slot_meta_head s) (live_set (a_slots s))"

definition slab_inv :: "'w SlabAllocator \<Rightarrow> bool" where
  "slab_inv s \<longleftrightarrow> inv_moving s {}"

lemma pools_okD:
  assumes "pools_ok cs es" "c < length cs"
  shows "pool_ok (cs ! c)" "x \<in> frees (cs ! c) e \<Longrightarrow> e < length es" "x \<in> frees (cs ! c) e \<Longrightarrow> e_cls (es ! e) = Some c"
  using assms by (auto simp: pools_ok_def)

lemma pools_okI:
  assumes "\<And>c. c < length cs \<Longrightarrow> pool_ok (cs ! c)"
    "\<And>c e x. c < length cs \<Longrightarrow> x \<in> frees (cs ! c) e \<Longrightarrow> e < length es \<and> e_cls (es ! e) = Some c"
  shows "pools_ok cs es"
  using assms by (auto simp: pools_ok_def)

subsection \<open>Frames: views that do not read what changed\<close>

lemma at_ext_cong: "(\<And>i. i \<in> L \<Longrightarrow> ref_extent (m_ref (sl' ! i)) = ref_extent (m_ref (sl ! i))) \<Longrightarrow> at_ext sl' L e = at_ext sl L e"
  by (auto simp: at_ext_def)

lemma in_cls_cong: "(\<And>i. i \<in> L \<Longrightarrow> ref_cls (m_ref (sl' ! i)) = ref_cls (m_ref (sl ! i))) \<Longrightarrow> in_cls sl' L c = in_cls sl L c"
  by (auto simp: in_cls_def)

lemma at_ext_subset: "at_ext sl L e \<subseteq> L" "in_cls sl L c \<subseteq> L"
  by (auto simp: at_ext_def in_cls_def)

lemma at_extD: "i \<in> at_ext sl L e \<Longrightarrow> i \<in> L" "i \<in> in_cls sl L c \<Longrightarrow> i \<in> L"
  by (auto simp: at_ext_def in_cls_def)

lemma at_ext_remove: "at_ext sl (L - {i}) e = at_ext sl L e - {i}" "in_cls sl (L - {i}) c = in_cls sl L c - {i}"
  by (auto simp: at_ext_def in_cls_def)

lemma at_ext_insert:
  "at_ext sl (insert i L) e = (if ref_extent (m_ref (sl ! i)) = e then insert i (at_ext sl L e) else at_ext sl L e)"
  "in_cls sl (insert i L) c = (if ref_cls (m_ref (sl ! i)) = c then insert i (in_cls sl L c) else in_cls sl L c)"
  by (auto simp: at_ext_def in_cls_def)

lemma class_rings_cong:
  assumes "class_rings sl cs L" "length sl' = length sl" "length cs' = length cs"
    and "\<And>i. i \<in> L \<Longrightarrow> m_class_next (sl' ! i) = m_class_next (sl ! i) \<and> m_class_prev (sl' ! i) = m_class_prev (sl ! i) \<and>
      ref_cls (m_ref (sl' ! i)) = ref_cls (m_ref (sl ! i))"
    and "\<And>c. c < length cs \<Longrightarrow> c_ring_head (cs' ! c) = c_ring_head (cs ! c) \<and> c_hand (cs' ! c) = c_hand (cs ! c) \<and>
      c_resident_count (cs' ! c) = c_resident_count (cs ! c)"
  shows "class_rings sl' cs' L"
proof -
  have ic: "in_cls sl' L c = in_cls sl L c" for c using assms(4) by (intro in_cls_cong) simp
  have "ring m_class_next m_class_prev sl' h hd (in_cls sl L c) \<longleftrightarrow> ring m_class_next m_class_prev sl h hd (in_cls sl L c)"
    for h hd c using assms(2,4) at_ext_subset by (intro ring_cong) blast+
  with assms(1,3,5) show ?thesis by (simp add: class_rings_def ic)
qed

lemma extent_lists_cong:
  assumes "extent_lists sl es L" "length sl' = length sl" "length es' = length es"
    and "\<And>i. i \<in> L \<Longrightarrow> m_extent_next (sl' ! i) = m_extent_next (sl ! i) \<and> m_extent_prev (sl' ! i) = m_extent_prev (sl ! i) \<and>
      ref_extent (m_ref (sl' ! i)) = ref_extent (m_ref (sl ! i)) \<and> m_access_seq (sl' ! i) = m_access_seq (sl ! i)"
    and "\<And>e. e < length es \<Longrightarrow> e_resident_head (es' ! e) = e_resident_head (es ! e) \<and>
      e_resident_count (es' ! e) = e_resident_count (es ! e) \<and> e_access_seq_sum (es' ! e) = e_access_seq_sum (es ! e)"
  shows "extent_lists sl' es' L"
proof -
  have ae: "at_ext sl' L e = at_ext sl L e" for e using assms(4) by (intro at_ext_cong) simp
  have lk: "linked m_extent_next m_extent_prev sl' h xs \<longleftrightarrow> linked m_extent_next m_extent_prev sl h xs"
    if "set xs = at_ext sl L e" for h xs e
    using assms(2,4) at_ext_subset that by (intro linked_cong) blast+
  have sum: "(\<Sum>i\<in>at_ext sl L e. m_access_seq (sl' ! i)) = (\<Sum>i\<in>at_ext sl L e. m_access_seq (sl ! i))" for e
    using assms(4) by (intro sum.cong) (auto dest: at_extD)
  show ?thesis unfolding extent_lists_def ae sum assms(3)
  proof (intro allI impI)
    fix e assume e: "e < length es"
    with assms(1) obtain xs where xs: "linked m_extent_next m_extent_prev sl (e_resident_head (es ! e)) xs"
      "set xs = at_ext sl L e" by (auto simp: extent_lists_def)
    have "linked m_extent_next m_extent_prev sl' (e_resident_head (es' ! e)) xs"
      using xs lk [OF xs(2)] assms(5) [OF e] by simp
    with xs(2) assms(1,5) e show "(\<exists>xs. linked m_extent_next m_extent_prev sl' (e_resident_head (es' ! e)) xs \<and>
        set xs = at_ext sl L e) \<and> e_resident_count (es' ! e) = card (at_ext sl L e) \<and>
      e_access_seq_sum (es' ! e) = (\<Sum>i\<in>at_ext sl L e. m_access_seq (sl ! i))"
      by (auto simp: extent_lists_def)
  qed
qed

lemma index_ok_cong:
  assumes "index_ok sl ix L" "\<And>i. i \<in> L \<Longrightarrow> m_key (sl' ! i) = m_key (sl ! i)"
  shows "index_ok sl' ix L"
  using assms by (auto simp: index_ok_def)

lemma pools_ok_cong:
  assumes "pools_ok cs es" "length cs' = length cs" "length es' = length es"
    and "\<And>c. c < length cs \<Longrightarrow> pool_ok (cs' ! c) = pool_ok (cs ! c) \<and> frees (cs' ! c) = frees (cs ! c)"
    and "\<And>e. e < length es \<Longrightarrow> e_cls (es' ! e) = e_cls (es ! e)"
  shows "pools_ok cs' es'"
  using assms by (auto simp: pools_ok_def)

lemma space_ok_cong:
  assumes "space_ok sl cs es L H" "length cs' = length cs" "length es' = length es"
    and "\<And>i. i \<in> L \<Longrightarrow> m_ref (sl' ! i) = m_ref (sl ! i)"
    and "\<And>c. c < length cs \<Longrightarrow> c_slot_size (cs' ! c) = c_slot_size (cs ! c) \<and>
      c_slots_per_extent (cs' ! c) = c_slots_per_extent (cs ! c) \<and> frees (cs' ! c) = frees (cs ! c)"
    and "\<And>e. e < length es \<Longrightarrow> e_cls (es' ! e) = e_cls (es ! e) \<and> e_total_slots (es' ! e) = e_total_slots (es ! e) \<and>
      e_free_slots (es' ! e) = e_free_slots (es ! e)"
  shows "space_ok sl' cs' es' L H"
proof -
  have ae: "at_ext sl' L e = at_ext sl L e" for e using assms(4) by (intro at_ext_cong) simp
  have im: "(\<lambda>i. ref_slot (m_ref (sl' ! i))) ` at_ext sl L e = (\<lambda>i. ref_slot (m_ref (sl ! i))) ` at_ext sl L e" for e
    using assms(4) by (intro image_cong) (auto dest: at_extD)
  have inj: "inj_on (\<lambda>i. ref_slot (m_ref (sl' ! i))) (at_ext sl L e) = inj_on (\<lambda>i. ref_slot (m_ref (sl ! i))) (at_ext sl L e)" for e
    using assms(4) by (intro inj_on_cong) (auto dest: at_extD)
  have cl: "ref_cls (m_ref (sl ! i)) < length cs" if "i \<in> L" for i
    using assms(1) that by (auto simp: space_ok_def Let_def)
  show ?thesis using assms(1-3) unfolding space_ok_def ae im inj
    by (auto simp: Let_def assms(4-6) cl)
qed

lemma pins_ok_cong:
  assumes "pins_ok sl es L" "length es' = length es"
    and "\<And>i. i \<in> L \<Longrightarrow> (m_refs (sl' ! i) > 0) = (m_refs (sl ! i) > 0) \<and> ref_extent (m_ref (sl' ! i)) = ref_extent (m_ref (sl ! i))"
    and "\<And>e. e < length es \<Longrightarrow> e_pinned (es' ! e) = e_pinned (es ! e)"
  shows "pins_ok sl' es' L"
proof -
  have ae: "at_ext sl' L e = at_ext sl L e" for e using assms(3) by (intro at_ext_cong) simp
  have "(\<Sum>i\<in>at_ext sl L e. of_bool (m_refs (sl' ! i) > 0)) = (\<Sum>i\<in>at_ext sl L e. of_bool (m_refs (sl ! i) > 0) :: nat)" for e
    by (intro sum.cong refl) (simp only: assms(3) [THEN conjunct1, OF at_extD(1)])
  with assms(1,2,4) show ?thesis by (simp add: pins_ok_def ae)
qed

lemma prot_ok_cong:
  assumes "prot_ok sl cs es pb ps L" "length cs' = length cs" "length es' = length es"
    and "\<And>i. i \<in> L \<Longrightarrow> (m_retain_until (sl' ! i) = 0) = (m_retain_until (sl ! i) = 0) \<and> m_ref (sl' ! i) = m_ref (sl ! i)"
    and "\<And>c. c < length cs \<Longrightarrow> c_protected_slots (cs' ! c) = c_protected_slots (cs ! c)"
    and "\<And>e. e < length es \<Longrightarrow> e_protected_slots (es' ! e) = e_protected_slots (es ! e)"
  shows "prot_ok sl' cs' es' pb ps L"
proof -
  have ae: "at_ext sl' L e = at_ext sl L e" "in_cls sl' L c = in_cls sl L c" for e c
    using assms(4) by (intro at_ext_cong in_cls_cong; simp)+
  have "(\<Sum>i\<in>A. of_bool (m_retain_until (sl' ! i) \<noteq> 0)) = (\<Sum>i\<in>A. of_bool (m_retain_until (sl ! i) \<noteq> 0) :: nat)"
    if "A \<subseteq> L" for A using that by (intro sum.cong refl) (simp only: assms(4) [THEN conjunct1, OF subsetD [OF that]])
  moreover have "(\<Sum>i\<in>L. if m_retain_until (sl' ! i) \<noteq> 0 then ref_slot_size (m_ref (sl' ! i)) else 0) =
      (\<Sum>i\<in>L. if m_retain_until (sl ! i) \<noteq> 0 then ref_slot_size (m_ref (sl ! i)) else 0)"
    using assms(4) by (intro sum.cong) auto
  ultimately show ?thesis
    using assms(1-3,5,6) by (simp add: prot_ok_def ae at_ext_subset)
qed

lemma bytes_ok_cong:
  assumes "bytes_ok sl cs es used L" "length cs' = length cs" "length es' = length es"
    and "\<And>i. i \<in> L \<Longrightarrow> m_useful_bytes (sl' ! i) = m_useful_bytes (sl ! i) \<and> m_ref (sl' ! i) = m_ref (sl ! i)"
    and "\<And>c. c < length cs \<Longrightarrow> c_useful_bytes (cs' ! c) = c_useful_bytes (cs ! c)"
    and "\<And>e. e < length es \<Longrightarrow> e_useful_bytes (es' ! e) = e_useful_bytes (es ! e)"
  shows "bytes_ok sl' cs' es' used L"
proof -
  have ae: "at_ext sl' L e = at_ext sl L e" "in_cls sl' L c = in_cls sl L c" for e c
    using assms(4) by (intro at_ext_cong in_cls_cong; simp)+
  have "(\<Sum>i\<in>A. m_useful_bytes (sl' ! i)) = (\<Sum>i\<in>A. m_useful_bytes (sl ! i))" if "A \<subseteq> L" for A
    using assms(4) that by (intro sum.cong) auto
  moreover have "(\<Sum>i\<in>L. ref_slot_size (m_ref (sl' ! i))) = (\<Sum>i\<in>L. ref_slot_size (m_ref (sl ! i)))"
    using assms(4) by (intro sum.cong) auto
  ultimately show ?thesis
    using assms(1-3,5,6) by (simp add: bytes_ok_def ae at_ext_subset)
qed

lemma binding_ok_cong:
  assumes "binding_ok cs es ub" "length cs' = length cs" "length es' = length es"
    and "\<And>c. c < length cs \<Longrightarrow> c_bound_extents (cs' ! c) = c_bound_extents (cs ! c)"
    and "\<And>e. e < length es \<Longrightarrow> e_cls (es' ! e) = e_cls (es ! e)"
  shows "binding_ok cs' es' ub"
proof -
  have "{e. e < length es' \<and> e_cls (es' ! e) = x} = {e. e < length es \<and> e_cls (es ! e) = x}" for x
    using assms(3,5) by auto
  with assms show ?thesis by (simp add: binding_ok_def)
qed

lemma metas_ok_cong:
  assumes "metas_ok sl act L" "act \<le> act'"
    and "\<And>i. i \<in> L \<Longrightarrow> m_remove_pending (sl' ! i) = m_remove_pending (sl ! i) \<and> m_refs (sl' ! i) = m_refs (sl ! i) \<and>
      m_access_seq (sl' ! i) = m_access_seq (sl ! i) \<and> m_useful_bytes (sl' ! i) = m_useful_bytes (sl ! i) \<and>
      m_ref (sl' ! i) = m_ref (sl ! i)"
  shows "metas_ok sl' act' L"
  using assms by (auto simp: metas_ok_def intro: le_trans)

lemma geometry_cong:
  assumes "geometry opt cs n" "length cs' = length cs"
    and "\<And>c. c < length cs \<Longrightarrow> c_slot_size (cs' ! c) = c_slot_size (cs ! c) \<and>
      c_slots_per_extent (cs' ! c) = c_slots_per_extent (cs ! c)"
  shows "geometry opt cs' n"
proof -
  have "map c_slot_size cs' = map c_slot_size cs" using assms(2,3) by (intro nth_equalityI) auto
  then show ?thesis using assms by (auto simp: geometry_def all_set_conv_all_nth)
qed

end
