(* ===== verification/Slab_Free.thy ===== *)
theory Slab_Free
  imports Slab_Inv
begin

text \<open>
  Freeing a resident (\<^verbatim>\<open>FreeSlotLocked\<close>) keeps the invariant: one lemma per group of the
  operation, each moving some of the views from the resident set \<open>L\<close> to \<open>L - {i}\<close>, and the
  abstract effect of the whole operation.
\<close>

text \<open>The invariant with one resident set per group of views.\<close>

definition inv_parts :: "'w SlabAllocator \<Rightarrow> nat set \<Rightarrow> nat set \<Rightarrow> nat set \<Rightarrow> nat set \<Rightarrow> nat set \<Rightarrow> nat set \<Rightarrow>
    (nat \<times> nat) set \<Rightarrow> bool" where
  "inv_parts s Lk Li Ls Lp Lq Lb H \<longleftrightarrow>
     geometry (a_opt s) (a_classes s) (length (a_extents s)) \<and> Lk \<subseteq> {..<length (a_slots s)} \<and>
     length (a_slots s) \<le> o_num_extents (a_opt s) * (o_extent_bytes (a_opt s) div o_align (a_opt s)) \<and>
     class_rings (a_slots s) (a_classes s) Lk \<and>
     ring m_global_next m_global_prev (a_slots s) (a_global_ring_head s) (a_global_hand s) Lk \<and>
     extent_lists (a_slots s) (a_extents s) Lk \<and>
     index_ok (a_slots s) (a_index s) Li \<and>
     pools_ok (a_classes s) (a_extents s) \<and>
     space_ok (a_slots s) (a_classes s) (a_extents s) Ls H \<and>
     pins_ok (a_slots s) (a_extents s) Lp \<and>
     prot_ok (a_slots s) (a_classes s) (a_extents s) (a_protected_bytes s) (a_protected_slots s) Lq \<and>
     bytes_ok (a_slots s) (a_classes s) (a_extents s) (a_used_bytes s) Lb \<and>
     binding_ok (a_classes s) (a_extents s) (a_unbound s) \<and>
     metas_ok (a_slots s) (a_activity_seq s) Lk"

lemma inv_at_parts: "inv_at s L H = inv_parts s L L L L L L H"
  by (simp add: inv_at_def inv_parts_def)

lemmas frames = class_rings_cong extent_lists_cong index_ok_cong pools_ok_cong space_ok_cong pins_ok_cong
  prot_ok_cong bytes_ok_cong binding_ok_cong metas_ok_cong geometry_cong

text \<open>What the invariant says of one resident entry.\<close>

lemma inv_at_entry:
  assumes "inv_at s L H" "i \<in> L"
  shows "i < length (a_slots s)" "i \<noteq> kNoSlot" "finite L"
    "ref_extent (m_ref (a_slots s ! i)) < length (a_extents s)"
    "ref_cls (m_ref (a_slots s ! i)) < length (a_classes s)"
    "e_cls (a_extents s ! ref_extent (m_ref (a_slots s ! i))) = Some (ref_cls (m_ref (a_slots s ! i)))"
proof -
  have L: "L \<subseteq> {..<length (a_slots s)}" and g: "length (a_slots s) < kNoSlot"
    using assms(1) by (auto simp: inv_at_def geometry_def)
  show "i < length (a_slots s)" "i \<noteq> kNoSlot" "finite L"
    using L g assms(2) by (auto intro: finite_subset)
  have sp: "space_ok (a_slots s) (a_classes s) (a_extents s) L H" using assms(1) by (simp add: inv_at_def)
  then show "ref_extent (m_ref (a_slots s ! i)) < length (a_extents s)"
    "ref_cls (m_ref (a_slots s ! i)) < length (a_classes s)"
    "e_cls (a_extents s ! ref_extent (m_ref (a_slots s ! i))) = Some (ref_cls (m_ref (a_slots s ! i)))"
    using assms(2) by (auto simp: space_ok_def Let_def)
qed

lemma no_slot_notin:
  assumes "inv_at s L H"
  shows "kNoSlot \<notin> L"
  using inv_at_entry(2) [OF assms] by blast

subsection \<open>Leaving the rings\<close>

lemma class_rings_unlink:
  assumes cr: "class_rings sl cs L" and i: "i \<in> L" and c: "c = ref_cls (m_ref (sl ! i))" "c < length cs"
    and L: "kNoSlot \<notin> L" "finite L" and len: "length cs' = length cs"
    and same: "\<And>d. d < length cs \<Longrightarrow> d \<noteq> c \<Longrightarrow> c_ring_head (cs' ! d) = c_ring_head (cs ! d) \<and>
      c_hand (cs' ! d) = c_hand (cs ! d) \<and> c_resident_count (cs' ! d) = c_resident_count (cs ! d)"
    and head: "c_ring_head (cs' ! c) = unlink_head m_class_next m_class_prev sl i (c_ring_head (cs ! c))"
    and hand: "c_hand (cs' ! c) = (if c_resident_count (cs ! c) - 1 = 0 then kNoSlot
      else if c_hand (cs ! c) = i then cyc_next (m_class_next (sl ! i)) (c_ring_head (cs' ! c)) else c_hand (cs ! c))"
    and count: "c_resident_count (cs' ! c) = c_resident_count (cs ! c) - 1"
  shows "class_rings (ul_class sl i) cs' (L - {i})"
  unfolding class_rings_def
proof (intro allI impI)
  fix d assume "d < length cs'"
  then have d: "d < length cs" by (simp add: len)
  let ?S = "in_cls sl L c"
  have ic: "in_cls (ul_class sl i) (L - {i}) d = in_cls sl L d - {i}" by (auto simp: in_cls_def)
  have rc: "ring m_class_next m_class_prev sl (c_ring_head (cs ! d)) (c_hand (cs ! d)) (in_cls sl L d)"
    "c_resident_count (cs ! d) = card (in_cls sl L d)" if "d < length cs" for d
    using cr that by (auto simp: class_rings_def)
  have iS: "i \<in> ?S" using i c by (simp add: in_cls_def)
  have fin: "finite ?S" using L by (simp add: in_cls_def)
  show "ring m_class_next m_class_prev (ul_class sl i) (c_ring_head (cs' ! d)) (c_hand (cs' ! d))
      (in_cls (ul_class sl i) (L - {i}) d) \<and> c_resident_count (cs' ! d) = card (in_cls (ul_class sl i) (L - {i}) d)"
  proof (cases "d = c")
    case True
    let ?h = "if c_hand (cs ! c) = i then cyc_next (m_class_next (sl ! i)) (c_ring_head (cs' ! c)) else c_hand (cs ! c)"
    have R: "ring m_class_next m_class_prev (ul_class sl i) (c_ring_head (cs' ! c)) ?h (?S - {i})"
      using class_ring.ring_unlink [OF rc(1) [OF c(2)] iS] unfolding head .
    have card: "card (?S - {i}) = c_resident_count (cs ! c) - 1" using iS fin rc(2) [OF c(2)] by simp
    have "c_resident_count (cs ! c) - 1 = 0 \<longleftrightarrow> ?S - {i} = {}" using card_0_eq [of "?S - {i}"] fin unfolding card by blast
    then have hh: "c_hand (cs' ! c) = ?h" using ring_empty_iff [OF R] unfolding hand by presburger
    show ?thesis unfolding ic unfolding True hh count card using R by blast
  next
    case False
    have ni: "i \<notin> in_cls sl L d" using c(1) False by (simp add: in_cls_def)
    have out: "ul_class sl i ! x = sl ! x" if "x \<in> in_cls sl L d" for x
      by (rule class_ring.ring_unlink_outside [OF rc(1) [OF c(2)] iS])
        (use that False c(1) L(1) in \<open>auto simp: in_cls_def\<close>)
    have "ring m_class_next m_class_prev (ul_class sl i) (c_ring_head (cs ! d)) (c_hand (cs ! d)) (in_cls sl L d)"
      using rc(1) [OF d] out by (subst ring_cong [of _ sl]) auto
    then show ?thesis using False ni d rc(2) [OF d] same [OF d False] by (simp add: ic)
  qed
qed

lemma extent_lists_unlink:
  assumes el: "extent_lists sl es L" and i: "i \<in> L" and e: "e = ref_extent (m_ref (sl ! i))" "e < length es"
    and L: "kNoSlot \<notin> L" "finite L" and len: "length es' = length es"
    and same: "\<And>d. d < length es \<Longrightarrow> d \<noteq> e \<Longrightarrow> e_resident_head (es' ! d) = e_resident_head (es ! d) \<and>
      e_resident_count (es' ! d) = e_resident_count (es ! d) \<and> e_access_seq_sum (es' ! d) = e_access_seq_sum (es ! d)"
    and head: "e_resident_head (es' ! e) = unlink_head m_extent_next m_extent_prev sl i (e_resident_head (es ! e))"
    and count: "e_resident_count (es' ! e) = e_resident_count (es ! e) - 1"
    and acc: "e_access_seq_sum (es' ! e) = e_access_seq_sum (es ! e) - m_access_seq (sl ! i)"
  shows "extent_lists (ul_extent sl i) es' (L - {i})"
  unfolding extent_lists_def
proof (intro allI impI)
  fix d assume "d < length es'"
  then have d: "d < length es" by (simp add: len)
  have ae: "at_ext (ul_extent sl i) (L - {i}) d = at_ext sl L d - {i}" by (auto simp: at_ext_def)
  have el': "\<exists>xs. linked m_extent_next m_extent_prev sl (e_resident_head (es ! d)) xs \<and> set xs = at_ext sl L d"
    "e_resident_count (es ! d) = card (at_ext sl L d)"
    "e_access_seq_sum (es ! d) = (\<Sum>i\<in>at_ext sl L d. m_access_seq (sl ! i))" if "d < length es" for d
    using el that by (auto simp: extent_lists_def)
  obtain xs where xs: "linked m_extent_next m_extent_prev sl (e_resident_head (es ! e)) xs" "set xs = at_ext sl L e"
    using el'(1) [OF e(2)] by blast
  have iS: "i \<in> set xs" using i e xs(2) by (simp add: at_ext_def)
  have fin: "finite (at_ext sl L d)" using L by (simp add: at_ext_def)
  show "(\<exists>xs. linked m_extent_next m_extent_prev (ul_extent sl i) (e_resident_head (es' ! d)) xs \<and>
        set xs = at_ext (ul_extent sl i) (L - {i}) d) \<and>
      e_resident_count (es' ! d) = card (at_ext (ul_extent sl i) (L - {i}) d) \<and>
      e_access_seq_sum (es' ! d) = (\<Sum>j\<in>at_ext (ul_extent sl i) (L - {i}) d. m_access_seq (ul_extent sl i ! j))"
  proof (cases "d = e")
    case True
    obtain as bs where ab: "xs = as @ i # bs" using iS by (metis split_list)
    have "linked m_extent_next m_extent_prev (ul_extent sl i) (e_resident_head (es' ! e)) (as @ bs)"
      using extent_list.unlink xs(1) ab by (simp add: head)
    moreover have "set (as @ bs) = at_ext sl L e - {i}" using xs ab by (auto simp: linked_def)
    moreover have "i \<in> at_ext sl L d" using iS xs(2) True by simp
    ultimately show ?thesis
      using True el'(2,3) [OF d] count acc fin unfolding ae by (auto simp: sum_diff1_nat)
  next
    case False
    obtain ys where ys: "linked m_extent_next m_extent_prev sl (e_resident_head (es ! d)) ys" "set ys = at_ext sl L d"
      using el'(1) [OF d] by blast
    have ni: "i \<notin> at_ext sl L d" using e(1) False by (simp add: at_ext_def)
    have out: "ul_extent sl i ! x = sl ! x" if "x \<in> set ys" for x
      by (rule extent_list.unlink_outside [OF xs(1) iS])
        (use that False e(1) L(1) xs(2) ys(2) in \<open>auto simp: at_ext_def\<close>)
    have "linked m_extent_next m_extent_prev (ul_extent sl i) (e_resident_head (es ! d)) ys"
      using ys(1) out by (subst linked_cong [of _ sl]) auto
    then show ?thesis using False ni d ys(2) el'(2,3) [OF d] same [OF d False] by (auto simp: ae)
  qed
qed

lemma free_unlink_slots:
  "a_slots (free_unlink i s) = ul_extent (ul_global (ul_class (a_slots s) i) i) i"
  by (simp add: free_unlink_def unlink_class_def unlink_global_def unlink_extent_def Let_def)

lemma free_unlink_frame [simp]:
  "a_opt (free_unlink i s) = a_opt s" "a_index (free_unlink i s) = a_index s"
  "a_unbound (free_unlink i s) = a_unbound s" "a_used_bytes (free_unlink i s) = a_used_bytes s"
  "a_protected_bytes (free_unlink i s) = a_protected_bytes s" "a_protected_slots (free_unlink i s) = a_protected_slots s"
  "a_activity_seq (free_unlink i s) = a_activity_seq s" "length (a_slots (free_unlink i s)) = length (a_slots s)"
  "length (a_classes (free_unlink i s)) = length (a_classes s)" "length (a_extents (free_unlink i s)) = length (a_extents s)"
  "a_free_slot_meta_head (free_unlink i s) = a_free_slot_meta_head s"
  by (simp_all add: free_unlink_def unlink_class_def unlink_global_def unlink_extent_def Let_def)

lemma free_unlink_slot_sel [simp]:
  "m_key (a_slots (free_unlink i s) ! j) = m_key (a_slots s ! j)" "m_ref (a_slots (free_unlink i s) ! j) = m_ref (a_slots s ! j)"
  "m_useful_bytes (a_slots (free_unlink i s) ! j) = m_useful_bytes (a_slots s ! j)"
  "m_refs (a_slots (free_unlink i s) ! j) = m_refs (a_slots s ! j)"
  "m_access_seq (a_slots (free_unlink i s) ! j) = m_access_seq (a_slots s ! j)"
  "m_retain_until (a_slots (free_unlink i s) ! j) = m_retain_until (a_slots s ! j)"
  "m_remove_pending (a_slots (free_unlink i s) ! j) = m_remove_pending (a_slots s ! j)"
  "m_free_next (a_slots (free_unlink i s) ! j) = m_free_next (a_slots s ! j)"
  "m_live (a_slots (free_unlink i s) ! j) = m_live (a_slots s ! j)"
  "m_retain_ttl_s (a_slots (free_unlink i s) ! j) = m_retain_ttl_s (a_slots s ! j)"
  "m_referenced (a_slots (free_unlink i s) ! j) = m_referenced (a_slots s ! j)"
  by (simp_all add: free_unlink_slots)

lemma free_unlink_classes:
  "a_classes (free_unlink i s) =
     (let c = ref_cls (m_ref (a_slots s ! i)); C = a_classes s ! c;
          head = unlink_head m_class_next m_class_prev (a_slots s) i (c_ring_head C);
          hand = (if c_hand C = i then cyc_next (m_class_next (a_slots s ! i)) head else c_hand C)
      in (a_classes s)[c := C\<lparr>c_ring_head := head, c_resident_count := c_resident_count C - 1,
           c_hand := (if c_resident_count C - 1 = 0 then kNoSlot else hand)\<rparr>])"
  by (cases "ref_cls (m_ref (a_slots s ! i)) < length (a_classes s)")
    (simp_all add: free_unlink_def unlink_class_def unlink_global_def unlink_extent_def Let_def upd_nth_def list_update_beyond)

lemma free_unlink_extents:
  "a_extents (free_unlink i s) = upd_nth (a_extents s) (ref_extent (m_ref (a_slots s ! i)))
     (\<lambda>E. E\<lparr>e_resident_head := unlink_head m_extent_next m_extent_prev (ul_global (ul_class (a_slots s) i) i) i (e_resident_head E),
        e_resident_count := e_resident_count E - 1, e_access_seq_sum := e_access_seq_sum E - m_access_seq (a_slots s ! i)\<rparr>)"
  by (simp add: free_unlink_def unlink_class_def unlink_global_def unlink_extent_def Let_def)

lemma free_unlink_global:
  "a_global_ring_head (free_unlink i s) =
     unlink_head m_global_next m_global_prev (ul_class (a_slots s) i) i (a_global_ring_head s)"
  "a_global_hand (free_unlink i s) = (if a_global_hand s = i
     then cyc_next (m_global_next (ul_class (a_slots s) i ! i)) (a_global_ring_head (free_unlink i s)) else a_global_hand s)"
  by (simp_all add: free_unlink_def unlink_class_def unlink_global_def unlink_extent_def Let_def)

lemma free_unlink_links:
  assumes inv: "inv_at s L H" and i: "i \<in> L"
  shows "class_rings (a_slots (free_unlink i s)) (a_classes (free_unlink i s)) (L - {i})"
    "ring m_global_next m_global_prev (a_slots (free_unlink i s)) (a_global_ring_head (free_unlink i s))
       (a_global_hand (free_unlink i s)) (L - {i})"
    "extent_lists (a_slots (free_unlink i s)) (a_extents (free_unlink i s)) (L - {i})"
proof -
  let ?sl = "a_slots s"
  note E = inv_at_entry [OF inv i]
  have no: "kNoSlot \<notin> L" using no_slot_notin [OF inv] .
  have V: "class_rings ?sl (a_classes s) L" "extent_lists ?sl (a_extents s) L"
    "ring m_global_next m_global_prev ?sl (a_global_ring_head s) (a_global_hand s) L"
    using inv by (auto simp: inv_at_def)
  have "class_rings (ul_class ?sl i) (a_classes (free_unlink i s)) (L - {i})"
    by (rule class_rings_unlink [OF V(1) i refl E(5) no E(3)])
      (use E(5) in \<open>auto simp: free_unlink_classes Let_def\<close>)
  then show "class_rings (a_slots (free_unlink i s)) (a_classes (free_unlink i s)) (L - {i})"
    by (rule class_rings_cong) (simp_all add: free_unlink_slots)
  have "ring m_global_next m_global_prev (ul_class ?sl i) (a_global_ring_head s) (a_global_hand s) L"
    using V(3) by (subst ring_cong [of _ ?sl]) simp_all
  from global_ring.ring_unlink [OF this i]
  have "ring m_global_next m_global_prev (ul_global (ul_class ?sl i) i) (a_global_ring_head (free_unlink i s))
      (a_global_hand (free_unlink i s)) (L - {i})"
    by (simp only: free_unlink_global)
  then show "ring m_global_next m_global_prev (a_slots (free_unlink i s)) (a_global_ring_head (free_unlink i s))
       (a_global_hand (free_unlink i s)) (L - {i})"
    by (subst ring_cong [of _ "ul_global (ul_class ?sl i) i"]) (simp_all add: free_unlink_slots)
  have "extent_lists (ul_global (ul_class ?sl i) i) (a_extents s) L"
    using V(2) by (rule extent_lists_cong) simp_all
  then have "extent_lists (ul_extent (ul_global (ul_class ?sl i) i) i) (a_extents (free_unlink i s)) (L - {i})"
    by (rule extent_lists_unlink [OF _ i refl _ no E(3)])
      (use E(4) in \<open>auto simp: free_unlink_extents nth_upd_nth\<close>)
  then show "extent_lists (a_slots (free_unlink i s)) (a_extents (free_unlink i s)) (L - {i})"
    by (simp add: free_unlink_slots)
qed

lemma pool_upd [simp]:
  "pool_ok (C\<lparr>c_ring_head := x\<rparr>) = pool_ok C" "frees (C\<lparr>c_ring_head := x\<rparr>) = frees C"
  "pool_ok (C\<lparr>c_hand := x\<rparr>) = pool_ok C" "frees (C\<lparr>c_hand := x\<rparr>) = frees C"
  "pool_ok (C\<lparr>c_resident_count := x\<rparr>) = pool_ok C" "frees (C\<lparr>c_resident_count := x\<rparr>) = frees C"
  "pool_ok (C\<lparr>c_bound_extents := x\<rparr>) = pool_ok C" "frees (C\<lparr>c_bound_extents := x\<rparr>) = frees C"
  "pool_ok (C\<lparr>c_puts := x\<rparr>) = pool_ok C" "frees (C\<lparr>c_puts := x\<rparr>) = frees C"
  "pool_ok (C\<lparr>c_useful_bytes := x\<rparr>) = pool_ok C" "frees (C\<lparr>c_useful_bytes := x\<rparr>) = frees C"
  "pool_ok (C\<lparr>c_read_touches := x\<rparr>) = pool_ok C" "frees (C\<lparr>c_read_touches := x\<rparr>) = frees C"
  "pool_ok (C\<lparr>c_read_heat := x\<rparr>) = pool_ok C" "frees (C\<lparr>c_read_heat := x\<rparr>) = frees C"
  "pool_ok (C\<lparr>c_heat_seq := x\<rparr>) = pool_ok C" "frees (C\<lparr>c_heat_seq := x\<rparr>) = frees C"
  "pool_ok (C\<lparr>c_protected_slots := x\<rparr>) = pool_ok C" "frees (C\<lparr>c_protected_slots := x\<rparr>) = frees C"
  by (simp_all add: pool_ok_def free_of_def frees_def fun_eq_iff)

lemma free_unlink_class_sel [simp]:
  "c_slot_size (a_classes (free_unlink i s) ! d) = c_slot_size (a_classes s ! d)"
  "c_slots_per_extent (a_classes (free_unlink i s) ! d) = c_slots_per_extent (a_classes s ! d)"
  "pool_ok (a_classes (free_unlink i s) ! d) = pool_ok (a_classes s ! d)"
  "frees (a_classes (free_unlink i s) ! d) = frees (a_classes s ! d)"
  "c_protected_slots (a_classes (free_unlink i s) ! d) = c_protected_slots (a_classes s ! d)"
  "c_useful_bytes (a_classes (free_unlink i s) ! d) = c_useful_bytes (a_classes s ! d)"
  "c_bound_extents (a_classes (free_unlink i s) ! d) = c_bound_extents (a_classes s ! d)"
  by (simp_all add: free_unlink_classes Let_def nth_list_upd)

lemma free_unlink_extent_sel [simp]:
  "e_cls (a_extents (free_unlink i s) ! d) = e_cls (a_extents s ! d)"
  "e_free_slots (a_extents (free_unlink i s) ! d) = e_free_slots (a_extents s ! d)"
  "e_total_slots (a_extents (free_unlink i s) ! d) = e_total_slots (a_extents s ! d)"
  "e_pinned (a_extents (free_unlink i s) ! d) = e_pinned (a_extents s ! d)"
  "e_useful_bytes (a_extents (free_unlink i s) ! d) = e_useful_bytes (a_extents s ! d)"
  "e_protected_slots (a_extents (free_unlink i s) ! d) = e_protected_slots (a_extents s ! d)"
  by (simp_all add: free_unlink_extents nth_upd)

lemma metas_ok_subset: "metas_ok sl act L \<Longrightarrow> L' \<subseteq> L \<Longrightarrow> metas_ok sl act L'"
  by (auto simp: metas_ok_def)

lemma free_unlink_parts:
  assumes inv: "inv_at s L H" and i: "i \<in> L"
  shows "inv_parts (free_unlink i s) (L - {i}) L L L L L H"
proof -
  have V: "geometry (a_opt s) (a_classes s) (length (a_extents s))"
    "index_ok (a_slots s) (a_index s) L" "pools_ok (a_classes s) (a_extents s)"
    "space_ok (a_slots s) (a_classes s) (a_extents s) L H" "pins_ok (a_slots s) (a_extents s) L"
    "prot_ok (a_slots s) (a_classes s) (a_extents s) (a_protected_bytes s) (a_protected_slots s) L"
    "bytes_ok (a_slots s) (a_classes s) (a_extents s) (a_used_bytes s) L"
    "binding_ok (a_classes s) (a_extents s) (a_unbound s)"
    "metas_ok (a_slots s) (a_activity_seq s) (L - {i})"
    using inv by (auto simp: inv_at_def intro: metas_ok_subset)
  have rest: "L - {i} \<subseteq> {..<length (a_slots s)}"
    "length (a_slots s) \<le> o_num_extents (a_opt s) * (o_extent_bytes (a_opt s) div o_align (a_opt s))"
    using inv by (auto simp: inv_at_def)
  show ?thesis unfolding inv_parts_def
  proof (intro conjI free_unlink_links [OF inv i])
    show "geometry (a_opt (free_unlink i s)) (a_classes (free_unlink i s)) (length (a_extents (free_unlink i s)))"
      using V(1) by (auto intro: geometry_cong)
    show "index_ok (a_slots (free_unlink i s)) (a_index (free_unlink i s)) L"
      using V(2) by (auto intro: index_ok_cong)
    show "pools_ok (a_classes (free_unlink i s)) (a_extents (free_unlink i s))"
      using V(3) by (rule pools_ok_cong) simp_all
    show "space_ok (a_slots (free_unlink i s)) (a_classes (free_unlink i s)) (a_extents (free_unlink i s)) L H"
      using V(4) by (rule space_ok_cong) simp_all
    show "pins_ok (a_slots (free_unlink i s)) (a_extents (free_unlink i s)) L"
      using V(5) by (rule pins_ok_cong) simp_all
    show "prot_ok (a_slots (free_unlink i s)) (a_classes (free_unlink i s)) (a_extents (free_unlink i s))
        (a_protected_bytes (free_unlink i s)) (a_protected_slots (free_unlink i s)) L"
      unfolding free_unlink_frame using V(6) by (rule prot_ok_cong) simp_all
    show "bytes_ok (a_slots (free_unlink i s)) (a_classes (free_unlink i s)) (a_extents (free_unlink i s))
        (a_used_bytes (free_unlink i s)) L"
      unfolding free_unlink_frame using V(7) by (rule bytes_ok_cong) simp_all
    show "binding_ok (a_classes (free_unlink i s)) (a_extents (free_unlink i s)) (a_unbound (free_unlink i s))"
      unfolding free_unlink_frame using V(8) by (rule binding_ok_cong) simp_all
    show "metas_ok (a_slots (free_unlink i s)) (a_activity_seq (free_unlink i s)) (L - {i})"
      unfolding free_unlink_frame using V(9) by (rule metas_ok_cong) simp_all
  qed (use rest in simp_all)
qed

subsection \<open>Dropping the pin account and the index entry\<close>

lemma index_ok_erase:
  assumes ok: "index_ok sl ix L" and i: "i \<in> L"
  shows "index_ok sl (snd (Erase ix (m_key (sl ! i)))) (L - {i})"
proof -
  have inv: "index_inv ix" and F: "\<And>k j. Find ix k = Some j \<longleftrightarrow> j \<in> L \<and> m_key (sl ! j) = k"
    using ok by (auto simp: index_ok_def)
  have uniq: "j = i" if "j \<in> L" "m_key (sl ! j) = m_key (sl ! i)" for j
    using F [of "m_key (sl ! i)" i] F [of "m_key (sl ! i)" j] that i by simp
  show ?thesis unfolding index_ok_def
    using fki.inv_erase [OF inv] fki.find_erase [OF inv] F uniq by auto
qed

text \<open>Removing one index from a sum over the residents of an extent or of a class.\<close>

lemma sum_at_remove:
  fixes f :: "nat \<Rightarrow> nat"
  assumes "finite L" "i \<in> L"
  shows "(\<Sum>j\<in>at_ext sl L e - {i}. f j) = (\<Sum>j\<in>at_ext sl L e. f j) - (if ref_extent (m_ref (sl ! i)) = e then f i else 0)"
    "(\<Sum>j\<in>in_cls sl L c - {i}. f j) = (\<Sum>j\<in>in_cls sl L c. f j) - (if ref_cls (m_ref (sl ! i)) = c then f i else 0)"
    "card (at_ext sl L e - {i}) = card (at_ext sl L e) - (if ref_extent (m_ref (sl ! i)) = e then 1 else 0)"
  using assms by (auto simp: at_ext_def in_cls_def sum_diff1_nat)

lemma member_sum_le:
  fixes f :: "nat \<Rightarrow> nat"
  assumes "finite L" "i \<in> L"
  shows "f i \<le> (\<Sum>j\<in>at_ext sl L (ref_extent (m_ref (sl ! i))). f j)"
    "f i \<le> (\<Sum>j\<in>in_cls sl L (ref_cls (m_ref (sl ! i))). f j)" "f i \<le> (\<Sum>j\<in>L. f j)"
  using assms by (auto intro!: member_le_sum simp: at_ext_def in_cls_def)

lemma pins_ok_remove:
  assumes ok: "pins_ok sl es L" and L: "finite L" "i \<in> L" and e: "e = ref_extent (m_ref (sl ! i))"
  shows "pins_ok sl (upd_nth es e (\<lambda>E. if m_refs (sl ! i) > 0 \<and> e_pinned E > 0 then E\<lparr>e_pinned := e_pinned E - 1\<rparr> else E)) (L - {i})"
  using ok member_sum_le(1) [OF L, of "\<lambda>j. of_bool (m_refs (sl ! j) > 0)" sl]
  by (auto simp: pins_ok_def nth_upd at_ext_remove sum_at_remove L e)

lemma free_forget_frame [simp]:
  "a_opt (free_forget i s) = a_opt s" "a_classes (free_forget i s) = a_classes s" "a_slots (free_forget i s) = a_slots s"
  "a_global_ring_head (free_forget i s) = a_global_ring_head s" "a_global_hand (free_forget i s) = a_global_hand s"
  "a_unbound (free_forget i s) = a_unbound s" "a_used_bytes (free_forget i s) = a_used_bytes s"
  "a_protected_bytes (free_forget i s) = a_protected_bytes s" "a_protected_slots (free_forget i s) = a_protected_slots s"
  "a_activity_seq (free_forget i s) = a_activity_seq s" "length (a_extents (free_forget i s)) = length (a_extents s)"
  "a_free_slot_meta_head (free_forget i s) = a_free_slot_meta_head s"
  by (simp_all add: free_forget_def Let_def)

lemma free_forget_extent_sel [simp]:
  "e_cls (a_extents (free_forget i s) ! d) = e_cls (a_extents s ! d)"
  "e_free_slots (a_extents (free_forget i s) ! d) = e_free_slots (a_extents s ! d)"
  "e_total_slots (a_extents (free_forget i s) ! d) = e_total_slots (a_extents s ! d)"
  "e_useful_bytes (a_extents (free_forget i s) ! d) = e_useful_bytes (a_extents s ! d)"
  "e_protected_slots (a_extents (free_forget i s) ! d) = e_protected_slots (a_extents s ! d)"
  "e_resident_head (a_extents (free_forget i s) ! d) = e_resident_head (a_extents s ! d)"
  "e_resident_count (a_extents (free_forget i s) ! d) = e_resident_count (a_extents s ! d)"
  "e_access_seq_sum (a_extents (free_forget i s) ! d) = e_access_seq_sum (a_extents s ! d)"
  by (simp_all add: free_forget_def Let_def nth_upd)

lemma free_forget_parts:
  assumes inv: "inv_parts s Lk L L L L L H" and i: "i \<in> L" "finite L"
  shows "inv_parts (free_forget i s) Lk (L - {i}) L (L - {i}) L L H"
proof -
  have idx: "index_ok (a_slots s) (a_index (free_forget i s)) (L - {i})"
    using inv i(1) by (auto simp: inv_parts_def free_forget_def Let_def intro: index_ok_erase)
  have pins: "pins_ok (a_slots s) (a_extents (free_forget i s)) (L - {i})"
    using pins_ok_remove [OF _ i(2,1) refl, of "a_slots s" "a_extents s"] inv
    by (simp add: inv_parts_def free_forget_def Let_def)
  have "extent_lists (a_slots s) (a_extents (free_forget i s)) Lk" "pools_ok (a_classes s) (a_extents (free_forget i s))"
    "space_ok (a_slots s) (a_classes s) (a_extents (free_forget i s)) L H"
    "prot_ok (a_slots s) (a_classes s) (a_extents (free_forget i s)) (a_protected_bytes s) (a_protected_slots s) L"
    "bytes_ok (a_slots s) (a_classes s) (a_extents (free_forget i s)) (a_used_bytes s) L"
    "binding_ok (a_classes s) (a_extents (free_forget i s)) (a_unbound s)"
    using inv unfolding inv_parts_def
    by (auto elim!: extent_lists_cong pools_ok_cong space_ok_cong prot_ok_cong bytes_ok_cong binding_ok_cong)
  with idx pins inv show ?thesis by (simp add: inv_parts_def)
qed

subsection \<open>Giving the slot back\<close>

lemma space_okD:
  assumes "space_ok sl cs es L H" "i \<in> L"
  defines "r \<equiv> m_ref (sl ! i)"
  shows "ref_extent r < length es" "e_cls (es ! ref_extent r) = Some (ref_cls r)" "ref_cls r < length cs"
    "ref_slot_size r = c_slot_size (cs ! ref_cls r)" "ref_offset r = ref_slot r * ref_slot_size r"
    "ref_slot r < c_slots_per_extent (cs ! ref_cls r)" "ref_slot r \<notin> frees (cs ! ref_cls r) (ref_extent r)"
proof -
  show e: "ref_extent r < length es" "e_cls (es ! ref_extent r) = Some (ref_cls r)"
    "ref_slot_size r = c_slot_size (cs ! ref_cls r)" "ref_offset r = ref_slot r * ref_slot_size r"
    using assms by (auto simp: space_ok_def Let_def)
  have i: "i \<in> at_ext sl L (ref_extent r)" using assms by (simp add: at_ext_def)
  then show "ref_cls r < length cs" "ref_slot r < c_slots_per_extent (cs ! ref_cls r)"
    "ref_slot r \<notin> frees (cs ! ref_cls r) (ref_extent r)"
    using assms(1) e(1,2) r_def unfolding space_ok_def Let_def by blast+
qed

lemma space_ok_extent:
  assumes "space_ok sl cs es L H" "e < length es" "e_cls (es ! e) = Some c"
  shows "c < length cs" "e_total_slots (es ! e) = c_slots_per_extent (cs ! c)"
    "e_free_slots (es ! e) + card (at_ext sl L e) = e_total_slots (es ! e)"
    "inj_on (\<lambda>i. ref_slot (m_ref (sl ! i))) (at_ext sl L e)"
    "frees (cs ! c) e \<inter> (\<lambda>i. ref_slot (m_ref (sl ! i))) ` at_ext sl L e = {}"
    "frees (cs ! c) e \<inter> {x. (e, x) \<in> H} = {}"
    "(\<lambda>i. ref_slot (m_ref (sl ! i))) ` at_ext sl L e \<inter> {x. (e, x) \<in> H} = {}"
    "frees (cs ! c) e \<union> (\<lambda>i. ref_slot (m_ref (sl ! i))) ` at_ext sl L e \<union> {x. (e, x) \<in> H} = {..<c_slots_per_extent (cs ! c)}"
  using assms unfolding space_ok_def Let_def by blast+

lemma space_ok_remove:
  assumes sp: "space_ok sl cs es L H" and L: "finite L" "i \<in> L"
    and r: "e = ref_extent (m_ref (sl ! i))" "c = ref_cls (m_ref (sl ! i))" "x = ref_slot (m_ref (sl ! i))"
    and cs: "length cs' = length cs" "\<And>d. c_slot_size (cs' ! d) = c_slot_size (cs ! d)"
      "\<And>d. c_slots_per_extent (cs' ! d) = c_slots_per_extent (cs ! d)"
      "\<And>d. frees (cs' ! d) = (if d = c then (frees (cs ! c))(e := insert x (frees (cs ! c) e)) else frees (cs ! d))"
    and es: "length es' = length es" "\<And>d. e_cls (es' ! d) = e_cls (es ! d)" "\<And>d. e_total_slots (es' ! d) = e_total_slots (es ! d)"
      "\<And>d. e_free_slots (es' ! d) = (if d = e then e_free_slots (es ! e) + 1 else e_free_slots (es ! d))"
  shows "space_ok sl cs' es' (L - {i}) H"
  unfolding space_ok_def
proof (intro conjI ballI allI impI)
  fix j assume "j \<in> L - {i}"
  then show "let r = m_ref (sl ! j) in ref_extent r < length es' \<and> e_cls (es' ! ref_extent r) = Some (ref_cls r) \<and>
      ref_slot_size r = c_slot_size (cs' ! ref_cls r) \<and> ref_offset r = ref_slot r * ref_slot_size r"
    using space_okD [OF sp, of j] by (simp add: Let_def cs es)
next
  fix d b assume d0: "d < length es'" "e_cls (es' ! d) = Some b"
  then have d: "d < length es" "e_cls (es ! d) = Some b" by (simp_all add: es)
  note X = space_ok_extent [OF sp d]
  note I = space_okD [OF sp L(2), folded r]
  have fin: "finite (at_ext sl L d)" using L(1) by (simp add: at_ext_def)
  have mem: "i \<in> at_ext sl L d \<longleftrightarrow> d = e" using L(2) r(1) by (auto simp: at_ext_def)
  show "b < length cs'" using X(1) cs by simp
  show "e_total_slots (es' ! d) = c_slots_per_extent (cs' ! b)" using X(2) by (simp add: cs es)
  have "0 < card (at_ext sl L e)" if "d = e" using that mem fin by (auto simp: card_gt_0_iff)
  then show "e_free_slots (es' ! d) + card (at_ext sl (L - {i}) d) = e_total_slots (es' ! d)"
    using X(3) mem fin by (auto simp: es at_ext_remove)
  show "inj_on (\<lambda>i. ref_slot (m_ref (sl ! i))) (at_ext sl (L - {i}) d)"
    using X(4) by (auto simp: at_ext_remove intro: inj_on_subset)
  have used: "(\<lambda>i. ref_slot (m_ref (sl ! i))) ` (at_ext sl L d - {i}) =
      (\<lambda>i. ref_slot (m_ref (sl ! i))) ` at_ext sl L d - (if d = e then {x} else {})"
    using inj_on_image_set_diff [OF X(4), of "at_ext sl L d" "{i}"] mem r(3) by auto
  have free: "frees (cs' ! b) d = (if d = e then insert x (frees (cs ! b) d) else frees (cs ! b) d)"
    using d I(2) by (auto simp: cs)
  have xin: "d = e \<Longrightarrow> x \<in> (\<lambda>i. ref_slot (m_ref (sl ! i))) ` at_ext sl L d" using mem r(3) by auto
  show "let free = frees (cs' ! b) d; used = (\<lambda>i. ref_slot (m_ref (sl ! i))) ` at_ext sl (L - {i}) d; moving = {x. (d, x) \<in> H}
      in free \<inter> used = {} \<and> free \<inter> moving = {} \<and> used \<inter> moving = {} \<and>
         free \<union> used \<union> moving = {..<c_slots_per_extent (cs' ! b)}"
    unfolding Let_def at_ext_remove used free cs(3) using X(5-8) xin by (cases "d = e") auto
qed

lemma bytes_ok_remove:
  assumes ok: "bytes_ok sl cs es used L" and L: "finite L" "i \<in> L"
    and r: "e = ref_extent (m_ref (sl ! i))" "c = ref_cls (m_ref (sl ! i))"
    and cs: "length cs' = length cs"
      "\<And>d. d < length cs \<Longrightarrow> c_useful_bytes (cs' ! d) = (if d = c then c_useful_bytes (cs ! c) - m_useful_bytes (sl ! i) else c_useful_bytes (cs ! d))"
    and es: "length es' = length es"
      "\<And>d. d < length es \<Longrightarrow> e_useful_bytes (es' ! d) = (if d = e then e_useful_bytes (es ! e) - m_useful_bytes (sl ! i) else e_useful_bytes (es ! d))"
  shows "bytes_ok sl cs' es' (used - ref_slot_size (m_ref (sl ! i))) (L - {i})"
proof -
  have "(\<Sum>j\<in>L - {i}. ref_slot_size (m_ref (sl ! j))) = (\<Sum>j\<in>L. ref_slot_size (m_ref (sl ! j))) - ref_slot_size (m_ref (sl ! i))"
    using L(2) by (simp add: sum_diff1_nat)
  with ok show ?thesis by (auto simp: bytes_ok_def cs es at_ext_remove sum_at_remove L r)
qed

lemma free_return_classes:
  "a_classes (free_return i s) = upd_nth (a_classes s) (ref_cls (m_ref (a_slots s ! i)))
     (\<lambda>C. (PushFreeLocked (ref_extent (m_ref (a_slots s ! i))) (ref_slot (m_ref (a_slots s ! i))) C)
        \<lparr>c_useful_bytes := c_useful_bytes C - m_useful_bytes (a_slots s ! i)\<rparr>)"
  "a_extents (free_return i s) = upd_nth (a_extents s) (ref_extent (m_ref (a_slots s ! i)))
     (\<lambda>E. E\<lparr>e_free_slots := e_free_slots E + 1, e_useful_bytes := e_useful_bytes E - m_useful_bytes (a_slots s ! i)\<rparr>)"
  "a_used_bytes (free_return i s) = a_used_bytes s - ref_slot_size (m_ref (a_slots s ! i))"
  by (simp_all add: free_return_def Let_def)

lemma free_return_frame [simp]:
  "a_opt (free_return i s) = a_opt s" "a_slots (free_return i s) = a_slots s" "a_index (free_return i s) = a_index s"
  "a_global_ring_head (free_return i s) = a_global_ring_head s" "a_global_hand (free_return i s) = a_global_hand s"
  "a_unbound (free_return i s) = a_unbound s" "a_protected_bytes (free_return i s) = a_protected_bytes s"
  "a_protected_slots (free_return i s) = a_protected_slots s" "a_activity_seq (free_return i s) = a_activity_seq s"
  "length (a_extents (free_return i s)) = length (a_extents s)" "length (a_classes (free_return i s)) = length (a_classes s)"
  "a_free_slot_meta_head (free_return i s) = a_free_slot_meta_head s"
  by (simp_all add: free_return_def Let_def)

lemma free_return_parts:
  assumes inv: "inv_parts s Lk Li L Lp Lq L H" and i: "i \<in> L" "finite L"
  shows "inv_parts (free_return i s) Lk Li (L - {i}) Lp Lq (L - {i}) H"
proof -
  let ?sl = "a_slots s" and ?r = "m_ref (a_slots s ! i)"
  let ?cs = "a_classes (free_return i s)" and ?es = "a_extents (free_return i s)"
  have V: "geometry (a_opt s) (a_classes s) (length (a_extents s))" "class_rings ?sl (a_classes s) Lk"
    "extent_lists ?sl (a_extents s) Lk" "pools_ok (a_classes s) (a_extents s)"
    "space_ok ?sl (a_classes s) (a_extents s) L H" "pins_ok ?sl (a_extents s) Lp"
    "prot_ok ?sl (a_classes s) (a_extents s) (a_protected_bytes s) (a_protected_slots s) Lq"
    "bytes_ok ?sl (a_classes s) (a_extents s) (a_used_bytes s) L" "binding_ok (a_classes s) (a_extents s) (a_unbound s)"
    using inv by (auto simp: inv_parts_def)
  note I = space_okD [OF V(5) i(1)]
  have sp: "space_ok ?sl ?cs ?es (L - {i}) H"
    by (rule space_ok_remove [OF V(5) i(2,1) refl refl refl])
      (use I(1,3) in \<open>auto simp: free_return_classes nth_upd frees_push\<close>)
  have byt: "bytes_ok ?sl ?cs ?es (a_used_bytes (free_return i s)) (L - {i})"
    unfolding free_return_classes(3)
    by (rule bytes_ok_remove [OF V(8) i(2,1) refl refl])
      (use I(1,3) in \<open>auto simp: free_return_classes nth_upd\<close>)
  have "pool_ok (PushFreeLocked (ref_extent ?r) (ref_slot ?r) (a_classes s ! ref_cls ?r))"
    using V(4) I(3,7) by (intro push_pool_ok) (auto simp: pools_ok_def)
  then have po: "pools_ok ?cs ?es"
    using pools_okD [OF V(4)] I(1,2)
    by (intro pools_okI) (auto simp: free_return_classes nth_upd frees_push split: if_splits)
  have "geometry (a_opt s) ?cs (length (a_extents s))"
    using V(1) by (rule geometry_cong) (auto simp: free_return_classes nth_upd)
  moreover have "class_rings ?sl ?cs Lk"
    using V(2) by (rule class_rings_cong) (auto simp: free_return_classes nth_upd)
  moreover have "extent_lists ?sl ?es Lk"
    using V(3) by (rule extent_lists_cong) (auto simp: free_return_classes nth_upd)
  moreover have "pins_ok ?sl ?es Lp"
    using V(6) by (rule pins_ok_cong) (auto simp: free_return_classes nth_upd)
  moreover have "prot_ok ?sl ?cs ?es (a_protected_bytes s) (a_protected_slots s) Lq"
    using V(7) by (rule prot_ok_cong) (auto simp: free_return_classes nth_upd)
  moreover have "binding_ok ?cs ?es (a_unbound s)"
    using V(9) by (rule binding_ok_cong) (auto simp: free_return_classes nth_upd)
  ultimately show ?thesis using inv sp byt po by (simp add: inv_parts_def)
qed

subsection \<open>Changes of the books only\<close>

text \<open>
  A step that leaves the links, the free lists and the placements alone keeps the invariant as
  soon as the pin, protection and access accounts still add up.
\<close>

definition same_links :: "SlotMeta \<Rightarrow> SlotMeta \<Rightarrow> bool" where
  "same_links m m' \<longleftrightarrow> m_key m' = m_key m \<and> m_ref m' = m_ref m \<and> m_useful_bytes m' = m_useful_bytes m \<and>
     m_class_next m' = m_class_next m \<and> m_class_prev m' = m_class_prev m \<and>
     m_global_next m' = m_global_next m \<and> m_global_prev m' = m_global_prev m \<and>
     m_extent_next m' = m_extent_next m \<and> m_extent_prev m' = m_extent_prev m"

definition same_class :: "Class \<Rightarrow> Class \<Rightarrow> bool" where
  "same_class C C' \<longleftrightarrow> c_slot_size C' = c_slot_size C \<and> c_slots_per_extent C' = c_slots_per_extent C \<and>
     pool_ok C' = pool_ok C \<and> frees C' = frees C \<and> c_ring_head C' = c_ring_head C \<and> c_hand C' = c_hand C \<and>
     c_resident_count C' = c_resident_count C \<and> c_useful_bytes C' = c_useful_bytes C \<and> c_bound_extents C' = c_bound_extents C"

definition same_extent :: "ExtentMeta \<Rightarrow> ExtentMeta \<Rightarrow> bool" where
  "same_extent E E' \<longleftrightarrow> e_cls E' = e_cls E \<and> e_free_slots E' = e_free_slots E \<and> e_total_slots E' = e_total_slots E \<and>
     e_resident_head E' = e_resident_head E \<and> e_resident_count E' = e_resident_count E \<and> e_useful_bytes E' = e_useful_bytes E"

lemma inv_at_books:
  assumes inv: "inv_at s L H"
    and st: "a_opt s' = a_opt s" "a_index s' = a_index s" "a_global_ring_head s' = a_global_ring_head s"
      "a_global_hand s' = a_global_hand s" "a_unbound s' = a_unbound s" "a_used_bytes s' = a_used_bytes s"
    and len: "length (a_slots s') = length (a_slots s)" "length (a_classes s') = length (a_classes s)"
      "length (a_extents s') = length (a_extents s)"
    and sl: "\<And>i. i \<in> L \<Longrightarrow> same_links (a_slots s ! i) (a_slots s' ! i)"
    and cs: "\<And>c. c < length (a_classes s) \<Longrightarrow> same_class (a_classes s ! c) (a_classes s' ! c)"
    and es: "\<And>e. e < length (a_extents s) \<Longrightarrow> same_extent (a_extents s ! e) (a_extents s' ! e)"
    and acc: "\<And>e. e < length (a_extents s) \<Longrightarrow>
      e_access_seq_sum (a_extents s' ! e) = (\<Sum>i\<in>at_ext (a_slots s) L e. m_access_seq (a_slots s' ! i))"
    and pins: "pins_ok (a_slots s') (a_extents s') L"
    and prot: "prot_ok (a_slots s') (a_classes s') (a_extents s') (a_protected_bytes s') (a_protected_slots s') L"
    and metas: "metas_ok (a_slots s') (a_activity_seq s') L"
  shows "inv_at s' L H"
proof -
  have V: "geometry (a_opt s) (a_classes s) (length (a_extents s))" "class_rings (a_slots s) (a_classes s) L"
    "ring m_global_next m_global_prev (a_slots s) (a_global_ring_head s) (a_global_hand s) L"
    "extent_lists (a_slots s) (a_extents s) L" "index_ok (a_slots s) (a_index s) L" "pools_ok (a_classes s) (a_extents s)"
    "space_ok (a_slots s) (a_classes s) (a_extents s) L H" "bytes_ok (a_slots s) (a_classes s) (a_extents s) (a_used_bytes s) L"
    "binding_ok (a_classes s) (a_extents s) (a_unbound s)"
    "L \<subseteq> {..<length (a_slots s)}" "length (a_slots s) \<le> o_num_extents (a_opt s) * (o_extent_bytes (a_opt s) div o_align (a_opt s))"
    using inv by (auto simp: inv_at_def)
  have "geometry (a_opt s) (a_classes s') (length (a_extents s))"
    using V(1) cs by (auto intro: geometry_cong simp: len same_class_def)
  moreover have "class_rings (a_slots s') (a_classes s') L"
    using V(2) len(1,2) by (rule class_rings_cong) (use sl cs in \<open>auto simp: same_links_def same_class_def\<close>)
  moreover have "ring m_global_next m_global_prev (a_slots s') (a_global_ring_head s) (a_global_hand s) L"
    using V(3) sl len(1) by (subst ring_cong [of _ "a_slots s"]) (auto simp: same_links_def)
  moreover have "extent_lists (a_slots s') (a_extents s') L"
  proof -
    have ae: "at_ext (a_slots s') L e = at_ext (a_slots s) L e" for e using sl by (intro at_ext_cong) (simp add: same_links_def)
    have lk: "linked m_extent_next m_extent_prev (a_slots s') h xs \<longleftrightarrow> linked m_extent_next m_extent_prev (a_slots s) h xs"
      if "set xs = at_ext (a_slots s) L e" for h xs e
      using sl that len(1) by (intro linked_cong) (auto simp: same_links_def dest: at_extD)
    show ?thesis using V(4) es acc unfolding extent_lists_def ae same_extent_def len(3) by (metis lk)
  qed
  moreover have "index_ok (a_slots s') (a_index s) L"
    using V(5) sl by (auto intro: index_ok_cong simp: same_links_def)
  moreover have "pools_ok (a_classes s') (a_extents s')"
    using V(6) len(2,3) by (rule pools_ok_cong) (use cs es in \<open>auto simp: same_class_def same_extent_def\<close>)
  moreover have "space_ok (a_slots s') (a_classes s') (a_extents s') L H"
    using V(7) len(2,3) by (rule space_ok_cong) (use sl cs es in \<open>auto simp: same_links_def same_class_def same_extent_def\<close>)
  moreover have "bytes_ok (a_slots s') (a_classes s') (a_extents s') (a_used_bytes s) L"
    using V(8) len(2,3) by (rule bytes_ok_cong) (use sl cs es in \<open>auto simp: same_links_def same_class_def same_extent_def\<close>)
  moreover have "binding_ok (a_classes s') (a_extents s') (a_unbound s)"
    using V(9) len(2,3) by (rule binding_ok_cong) (use cs es in \<open>auto simp: same_class_def same_extent_def\<close>)
  ultimately show ?thesis using V(10,11) st len pins prot metas by (simp add: inv_at_def)
qed

subsection \<open>Protection\<close>

lemma sum_change_one:
  fixes f f' :: "nat \<Rightarrow> nat"
  assumes "finite A" "\<And>j. j \<in> A \<Longrightarrow> j \<noteq> i \<Longrightarrow> f' j = f j"
  shows "sum f' A + (if i \<in> A then f i else 0) = sum f A + (if i \<in> A then f' i else 0)"
proof (cases "i \<in> A")
  case True
  have "sum f' (A - {i}) = sum f (A - {i})" using assms(2) by (intro sum.cong) auto
  then show ?thesis using True assms(1) by (simp add: sum.remove [of A i])
next
  case False
  then show ?thesis using assms(2) by (auto intro: sum.cong)
qed

text \<open>The protection account when the deadline of one resident is set or cleared.\<close>

lemma prot_ok_set:
  assumes ok: "prot_ok sl cs es pb ps L" and L: "finite L" "i \<in> L" "i < length sl"
    and sl': "\<And>j. m_ref (sl' ! j) = m_ref (sl ! j)" "\<And>j. j \<noteq> i \<Longrightarrow> m_retain_until (sl' ! j) = m_retain_until (sl ! j)"
    and old: "old = of_bool (m_retain_until (sl ! i) \<noteq> 0)" and new: "new = of_bool (m_retain_until (sl' ! i) \<noteq> 0)"
    and len: "length cs' = length cs" "length es' = length es"
    and cs: "\<And>c. c < length cs \<Longrightarrow> c_protected_slots (cs' ! c) + (if c = ref_cls (m_ref (sl ! i)) then old else 0) =
      c_protected_slots (cs ! c) + (if c = ref_cls (m_ref (sl ! i)) then new else 0)"
    and es: "\<And>e. e < length es \<Longrightarrow> e_protected_slots (es' ! e) + (if e = ref_extent (m_ref (sl ! i)) then old else 0) =
      e_protected_slots (es ! e) + (if e = ref_extent (m_ref (sl ! i)) then new else 0)"
    and pb: "pb' + old * ref_slot_size (m_ref (sl ! i)) = pb + new * ref_slot_size (m_ref (sl ! i))"
    and ps: "ps' + old = ps + new"
  shows "prot_ok sl' cs' es' pb' ps' L"
proof -
  let ?f = "\<lambda>j. of_bool (m_retain_until (sl ! j) \<noteq> 0) :: nat" and ?f' = "\<lambda>j. of_bool (m_retain_until (sl' ! j) \<noteq> 0) :: nat"
  have ae: "at_ext sl' L e = at_ext sl L e" "in_cls sl' L c = in_cls sl L c" for e c
    by (auto simp: at_ext_def in_cls_def sl'(1))
  have S: "sum ?f' A + (if i \<in> A then old else 0) = sum ?f A + (if i \<in> A then new else 0)" if "finite A" for A
    unfolding old new using that sl'(2) by (intro sum_change_one) auto
  have mem: "i \<in> at_ext sl L e \<longleftrightarrow> e = ref_extent (m_ref (sl ! i))" "i \<in> in_cls sl L c \<longleftrightarrow> c = ref_cls (m_ref (sl ! i))" for e c
    using L(2) by (auto simp: at_ext_def in_cls_def)
  have fin: "finite (at_ext sl L e)" "finite (in_cls sl L c)" for e c using L(1) by (auto simp: at_ext_def in_cls_def)
  let ?g = "\<lambda>sl j. if m_retain_until (sl ! j) \<noteq> 0 then ref_slot_size (m_ref (sl ! j)) else 0"
  have "sum (?g sl') L + ?g sl i = sum (?g sl) L + ?g sl' i"
    using sum_change_one [of L i "?g sl'" "?g sl"] L sl' by simp
  moreover have "?g sl i = old * ref_slot_size (m_ref (sl ! i))" "?g sl' i = new * ref_slot_size (m_ref (sl ! i))"
    by (simp_all add: old new sl'(1))
  ultimately have "pb' = sum (?g sl') L" using ok pb by (simp add: prot_ok_def)
  moreover have "e_protected_slots (es' ! e) = sum ?f' (at_ext sl L e)" if "e < length es" for e
    using ok es [OF that] S [OF fin(1), of e] that by (auto simp: prot_ok_def mem)
  moreover have "c_protected_slots (cs' ! c) = sum ?f' (in_cls sl L c)" if "c < length cs" for c
    using ok cs [OF that] S [OF fin(2), of c] that by (auto simp: prot_ok_def mem)
  moreover have "ps' = sum ?f' L" using ok ps S [OF L(1)] L(2) by (simp add: prot_ok_def)
  ultimately show ?thesis by (simp add: prot_ok_def ae len)
qed

lemma prot_ok_pos:
  assumes ok: "prot_ok sl cs es pb ps L" and L: "finite L" "i \<in> L" and u: "m_retain_until (sl ! i) \<noteq> 0"
    and r: "ref_extent (m_ref (sl ! i)) < length es" "ref_cls (m_ref (sl ! i)) < length cs"
  shows "0 < e_protected_slots (es ! ref_extent (m_ref (sl ! i)))" "0 < c_protected_slots (cs ! ref_cls (m_ref (sl ! i)))"
    "ref_slot_size (m_ref (sl ! i)) \<le> pb" "0 < ps"
  using member_sum_le(1,2) [OF L, of "\<lambda>j. of_bool (m_retain_until (sl ! j) \<noteq> 0)" sl] ok r u
    member_sum_le(3) [OF L, of "\<lambda>j. of_bool (m_retain_until (sl ! j) \<noteq> 0)"]
    member_sum_le(3) [OF L, of "\<lambda>j. if m_retain_until (sl ! j) \<noteq> 0 then ref_slot_size (m_ref (sl ! j)) else 0"]
  by (auto simp: prot_ok_def)

lemma unprotect_inv:
  assumes inv: "inv_at s L H" and i: "i \<in> L" and u: "m_retain_until (a_slots s ! i) \<noteq> 0"
  shows "inv_at (UnprotectLocked i s) L H"
proof -
  note E = inv_at_entry [OF inv i]
  have P: "prot_ok (a_slots s) (a_classes s) (a_extents s) (a_protected_bytes s) (a_protected_slots s) L"
    and M: "metas_ok (a_slots s) (a_activity_seq s) L" and X: "extent_lists (a_slots s) (a_extents s) L"
    and Q: "pins_ok (a_slots s) (a_extents s) L" using inv by (auto simp: inv_at_def)
  note pos = prot_ok_pos [OF P E(3) i u E(4,5)]
  let ?s = "UnprotectLocked i s"
  show ?thesis
  proof (rule inv_at_books [OF inv])
    show "prot_ok (a_slots ?s) (a_classes ?s) (a_extents ?s) (a_protected_bytes ?s) (a_protected_slots ?s) L"
      by (rule prot_ok_set [OF P E(3) i E(1), where old = 1 and new = 0])
        (use E(1,4,5) u pos in \<open>auto simp: UnprotectLocked_def Let_def nth_upd\<close>)
    show "pins_ok (a_slots ?s) (a_extents ?s) L"
      using Q by (rule pins_ok_cong) (auto simp: UnprotectLocked_def Let_def nth_upd)
    show "metas_ok (a_slots ?s) (a_activity_seq ?s) L"
      using M by (rule metas_ok_cong) (auto simp: UnprotectLocked_def Let_def nth_upd)
    show "e_access_seq_sum (a_extents ?s ! e) = (\<Sum>i\<in>at_ext (a_slots s) L e. m_access_seq (a_slots ?s ! i))"
      if "e < length (a_extents s)" for e
      using X that by (auto simp: extent_lists_def UnprotectLocked_def Let_def nth_upd intro!: sum.cong)
  qed (auto simp: UnprotectLocked_def Let_def nth_upd same_links_def same_class_def same_extent_def)
qed

lemma protect_inv:
  assumes inv: "inv_at s L H" and i: "i \<in> L" and u: "m_retain_until (a_slots s ! i) = 0" and t: "t \<noteq> 0"
  shows "inv_at (upd_slot i (\<lambda>m. m\<lparr>m_retain_until := t\<rparr>) (ProtectLocked i s)) L H" (is "inv_at ?s L H")
proof -
  note E = inv_at_entry [OF inv i]
  have P: "prot_ok (a_slots s) (a_classes s) (a_extents s) (a_protected_bytes s) (a_protected_slots s) L"
    and M: "metas_ok (a_slots s) (a_activity_seq s) L" and X: "extent_lists (a_slots s) (a_extents s) L"
    and Q: "pins_ok (a_slots s) (a_extents s) L" using inv by (auto simp: inv_at_def)
  show ?thesis
  proof (rule inv_at_books [OF inv])
    show "prot_ok (a_slots ?s) (a_classes ?s) (a_extents ?s) (a_protected_bytes ?s) (a_protected_slots ?s) L"
      by (rule prot_ok_set [OF P E(3) i E(1), where old = 0 and new = 1])
        (use E(1,4,5) u t in \<open>auto simp: ProtectLocked_def Let_def nth_upd\<close>)
    show "pins_ok (a_slots ?s) (a_extents ?s) L"
      using Q by (rule pins_ok_cong) (auto simp: ProtectLocked_def Let_def nth_upd)
    show "metas_ok (a_slots ?s) (a_activity_seq ?s) L"
      using M by (rule metas_ok_cong) (auto simp: ProtectLocked_def Let_def nth_upd)
    show "e_access_seq_sum (a_extents ?s ! e) = (\<Sum>i\<in>at_ext (a_slots s) L e. m_access_seq (a_slots ?s ! i))"
      if "e < length (a_extents s)" for e
      using X that by (auto simp: extent_lists_def ProtectLocked_def Let_def nth_upd intro!: sum.cong)
  qed (auto simp: ProtectLocked_def Let_def nth_upd same_links_def same_class_def same_extent_def)
qed

subsection \<open>Recycling the metadata entry\<close>

lemma prot_ok_remove:
  assumes ok: "prot_ok sl cs es pb ps L" and L: "finite L" "i \<in> L" and u: "m_retain_until (sl ! i) = 0"
  shows "prot_ok sl cs es pb ps (L - {i})"
  using ok L u by (auto simp: prot_ok_def at_ext_remove sum_at_remove sum_diff1_nat)

lemma free_recycle_parts:
  assumes inv: "inv_at s (L - {i}) H"
  shows "inv_at (free_recycle i s) (L - {i}) H"
proof -
  have V: "extent_lists (a_slots s) (a_extents s) (L - {i})" "pins_ok (a_slots s) (a_extents s) (L - {i})"
    "prot_ok (a_slots s) (a_classes s) (a_extents s) (a_protected_bytes s) (a_protected_slots s) (L - {i})"
    "metas_ok (a_slots s) (a_activity_seq s) (L - {i})"
    using inv by (auto simp: inv_at_def)
  have same: "a_slots (free_recycle i s) ! j = a_slots s ! j" if "j \<in> L - {i}" for j
    using that by (simp add: free_recycle_def)
  have acc: "e_access_seq_sum (a_extents s ! e) = (\<Sum>j\<in>at_ext (a_slots s) (L - {i}) e. m_access_seq (a_slots (free_recycle i s) ! j))"
    if "e < length (a_extents s)" for e
  proof -
    have "(\<Sum>j\<in>at_ext (a_slots s) (L - {i}) e. m_access_seq (a_slots (free_recycle i s) ! j)) =
        (\<Sum>j\<in>at_ext (a_slots s) (L - {i}) e. m_access_seq (a_slots s ! j))"
      by (intro sum.cong refl) (simp add: same [OF at_extD(1)])
    with V(1) that show ?thesis by (simp add: extent_lists_def)
  qed
  show ?thesis
  proof (rule inv_at_books [OF inv])
    show "pins_ok (a_slots (free_recycle i s)) (a_extents (free_recycle i s)) (L - {i})"
      using V(2) by (rule pins_ok_cong) (use same in \<open>auto simp: free_recycle_def\<close>)
    show "prot_ok (a_slots (free_recycle i s)) (a_classes (free_recycle i s)) (a_extents (free_recycle i s))
        (a_protected_bytes (free_recycle i s)) (a_protected_slots (free_recycle i s)) (L - {i})"
      using V(3) same by (auto simp: free_recycle_def elim!: prot_ok_cong)
    show "metas_ok (a_slots (free_recycle i s)) (a_activity_seq (free_recycle i s)) (L - {i})"
      using V(4) same by (auto simp: free_recycle_def metas_ok_def)
  qed (use acc same in \<open>auto simp: free_recycle_def same_links_def same_class_def same_extent_def\<close>)
qed

lemma chain_cong: "(\<And>x. x \<in> set xs \<Longrightarrow> nx' x = nx x) \<Longrightarrow> chain nx' h xs = chain nx h xs"
  by (induction xs arbitrary: h) auto

lemma free_metas_push:
  assumes fm: "free_metas sl h L" and i: "i \<in> L" "i < length sl" "i \<noteq> kNoSlot"
    and sl': "length sl' = length sl" "m_free_next (sl' ! i) = h" "\<And>j. j \<noteq> i \<Longrightarrow> m_free_next (sl' ! j) = m_free_next (sl ! j)"
  shows "free_metas sl' i (L - {i})"
proof -
  obtain xs where xs: "chain (\<lambda>i. m_free_next (sl ! i)) h xs" "distinct xs" "set xs = {..<length sl} - L"
    using fm by (auto simp: free_metas_def)
  have "chain (\<lambda>i. m_free_next (sl' ! i)) h xs"
    using xs(1,3) i(1) sl'(3) chain_cong [of xs "\<lambda>i. m_free_next (sl' ! i)" "\<lambda>i. m_free_next (sl ! i)" h]
    by (metis DiffD2)
  then have "chain (\<lambda>i. m_free_next (sl' ! i)) i (i # xs)" using sl'(2) i(3) by simp
  moreover have "distinct (i # xs)" "set (i # xs) = {..<length sl'} - (L - {i})" using xs i sl'(1) by auto
  ultimately show ?thesis unfolding free_metas_def by blast
qed

definition free_core :: "nat \<Rightarrow> 'w SlabAllocator \<Rightarrow> 'w SlabAllocator" where
  "free_core i s = free_recycle i (free_return i (free_forget i (free_unlink i s)))"

lemma free_core_slots: "a_slots (free_core i s) =
    (a_slots (free_unlink i s))[i := empty_meta\<lparr>m_free_next := a_free_slot_meta_head s\<rparr>]"
  "a_free_slot_meta_head (free_core i s) = i"
  "a_index (free_core i s) = snd (Erase (a_index s) (m_key (a_slots s ! i)))"
  by (simp_all add: free_core_def free_recycle_def free_forget_def Let_def)

lemma free_core_inv:
  assumes inv: "inv_moving s H" and i: "i \<in> live_set (a_slots s)" and u: "m_retain_until (a_slots s ! i) = 0"
  shows "inv_moving (free_core i s) H" "live_set (a_slots (free_core i s)) = live_set (a_slots s) - {i}"
proof -
  let ?L = "live_set (a_slots s)"
  have at: "inv_at s ?L H" and fm: "free_metas (a_slots s) (a_free_slot_meta_head s) ?L"
    using inv by (auto simp: inv_moving_def)
  note E = inv_at_entry [OF at i]
  have "inv_parts (free_return i (free_forget i (free_unlink i s))) (?L - {i}) (?L - {i}) (?L - {i}) (?L - {i}) ?L (?L - {i}) H"
    by (intro free_return_parts free_forget_parts free_unlink_parts at i E(3))
  then have "inv_at (free_return i (free_forget i (free_unlink i s))) (?L - {i}) H"
    unfolding inv_at_parts using i E(3) u by (auto simp: inv_parts_def intro: prot_ok_remove)
  then have "inv_at (free_core i s) (?L - {i}) H" unfolding free_core_def by (rule free_recycle_parts)
  moreover show L: "live_set (a_slots (free_core i s)) = ?L - {i}"
    using E(1) by (auto simp: live_set_def free_core_slots nth_list_upd empty_meta_def split: if_splits)
  moreover have "free_metas (a_slots (free_core i s)) (a_free_slot_meta_head (free_core i s)) (?L - {i})"
    using free_metas_push [OF fm i E(1,2), of "a_slots (free_core i s)"] E(1)
    by (simp add: free_core_slots nth_list_upd)
  ultimately show "inv_moving (free_core i s) H" by (simp add: inv_moving_def)
qed

end
