(* ===== verification/Slab_Extents.thy ===== *)
theory Slab_Extents
  imports Slab_Free
begin

text \<open>
  Binding an extent to a class and returning it to the pool keep the invariant; with them, the
  whole of \<^verbatim>\<open>FreeSlotLocked\<close> does. The abstract content of the allocator is the map \<open>residents\<close>
  from keys to placement, length, pins and protection.
\<close>

subsection \<open>Replacing an extent that has no residents\<close>

definition blank_extent :: "ExtentMeta \<Rightarrow> bool" where
  "blank_extent E \<longleftrightarrow> e_resident_head E = kNoSlot \<and> e_resident_count E = 0 \<and> e_access_seq_sum E = 0 \<and>
     e_pinned E = 0 \<and> e_protected_slots E = 0 \<and> e_useful_bytes E = 0"

definition same_class_books :: "Class \<Rightarrow> Class \<Rightarrow> bool" where
  "same_class_books C C' \<longleftrightarrow> c_slot_size C' = c_slot_size C \<and> c_slots_per_extent C' = c_slots_per_extent C \<and>
     c_ring_head C' = c_ring_head C \<and> c_hand C' = c_hand C \<and> c_resident_count C' = c_resident_count C \<and>
     c_useful_bytes C' = c_useful_bytes C \<and> c_protected_slots C' = c_protected_slots C"

lemma replace_extent_inv:
  assumes inv: "inv_at s L H" and e: "at_ext (a_slots s) L e = {}"
    and s': "s' = s\<lparr>a_extents := (a_extents s)[e := E], a_classes := cs, a_unbound := ub\<rparr>"
    and E: "blank_extent E"
    and cs: "length cs = length (a_classes s)" "\<And>c. c < length (a_classes s) \<Longrightarrow> same_class_books (a_classes s ! c) (cs ! c)"
    and po: "pools_ok cs ((a_extents s)[e := E])"
    and sp: "space_ok (a_slots s) cs ((a_extents s)[e := E]) L H'"
    and bi: "binding_ok cs ((a_extents s)[e := E]) ub"
  shows "inv_at s' L H'"
proof -
  let ?es = "(a_extents s)[e := E]"
  have V: "geometry (a_opt s) (a_classes s) (length (a_extents s))" "class_rings (a_slots s) (a_classes s) L"
    "extent_lists (a_slots s) (a_extents s) L" "pins_ok (a_slots s) (a_extents s) L"
    "prot_ok (a_slots s) (a_classes s) (a_extents s) (a_protected_bytes s) (a_protected_slots s) L"
    "bytes_ok (a_slots s) (a_classes s) (a_extents s) (a_used_bytes s) L"
    using inv by (auto simp: inv_at_def)
  have same: "d < length (a_extents s) \<Longrightarrow> d \<noteq> e \<Longrightarrow> ?es ! d = a_extents s ! d" for d by simp
  have "geometry (a_opt s) cs (length ?es)"
    using V(1) cs by (auto intro: geometry_cong simp: same_class_books_def)
  moreover have "class_rings (a_slots s) cs L"
    using V(2) refl cs(1) by (rule class_rings_cong) (use cs(2) in \<open>auto simp: same_class_books_def\<close>)
  moreover have "extent_lists (a_slots s) ?es L"
    unfolding extent_lists_def
  proof (intro allI impI)
    fix d assume "d < length ?es"
    then show "(\<exists>xs. linked m_extent_next m_extent_prev (a_slots s) (e_resident_head (?es ! d)) xs \<and>
        set xs = at_ext (a_slots s) L d) \<and> e_resident_count (?es ! d) = card (at_ext (a_slots s) L d) \<and>
      e_access_seq_sum (?es ! d) = (\<Sum>i\<in>at_ext (a_slots s) L d. m_access_seq (a_slots s ! i))"
      using V(3) e E by (cases "d = e") (auto simp: extent_lists_def blank_extent_def)
  qed
  moreover have "pins_ok (a_slots s) ?es L"
    using V(4) e E by (auto simp: pins_ok_def nth_list_upd blank_extent_def)
  moreover have "prot_ok (a_slots s) cs ?es (a_protected_bytes s) (a_protected_slots s) L"
    using V(5) e E cs by (auto simp: prot_ok_def nth_list_upd blank_extent_def same_class_books_def)
  moreover have "bytes_ok (a_slots s) cs ?es (a_used_bytes s) L"
    using V(6) e E cs by (auto simp: bytes_ok_def nth_list_upd blank_extent_def same_class_books_def)
  ultimately show ?thesis using inv po sp bi by (simp add: inv_at_def s')
qed

lemma card_extent_update:
  assumes "e < length es" "e_cls (es ! e) \<noteq> x"
  shows "card {d. d < length es \<and> e_cls ((es[e := E]) ! d) = x} =
    card {d. d < length es \<and> e_cls (es ! d) = x} + (if e_cls E = x then 1 else 0)"
proof -
  have "{d. d < length es \<and> e_cls ((es[e := E]) ! d) = x} =
      {d. d < length es \<and> e_cls (es ! d) = x} \<union> (if e_cls E = x then {e} else {})"
    using assms by (auto simp: nth_list_upd)
  moreover have "finite {d. d < length es \<and> e_cls (es ! d) = x}" by simp
  ultimately show ?thesis using assms(2) by auto
qed

lemma card_extent_drop:
  assumes "e < length es" "e_cls (es ! e) = x" "e_cls E \<noteq> x"
  shows "card {d. d < length es \<and> e_cls ((es[e := E]) ! d) = x} = card {d. d < length es \<and> e_cls (es ! d) = x} - 1"
proof -
  have "{d. d < length es \<and> e_cls ((es[e := E]) ! d) = x} = {d. d < length es \<and> e_cls (es ! d) = x} - {e}"
    using assms by (auto simp: nth_list_upd)
  then show ?thesis using assms(1,2) by simp
qed

lemma at_ext_other:
  assumes "space_ok sl cs es L H" "e < length es" "e_cls (es ! e) = None"
  shows "at_ext sl L e = {}"
  using space_okD(2) [OF assms(1)] assms(3) by (fastforce simp: at_ext_def)

lemma release_extent_inv:
  assumes inv: "inv_at s L H" and e: "e < length (a_extents s)" "e_cls (a_extents s ! e) = Some c"
    and none: "at_ext (a_slots s) L e = {}"
  shows "inv_at (release_extent c e s) L H"
proof (rule replace_extent_inv [OF inv none])
  let ?cs = "a_classes (release_extent c e s)" and ?es = "(a_extents s)[e := empty_extent]"
  have V: "pools_ok (a_classes s) (a_extents s)" "space_ok (a_slots s) (a_classes s) (a_extents s) L H"
    "binding_ok (a_classes s) (a_extents s) (a_unbound s)" using inv by (auto simp: inv_at_def)
  have c: "c < length (a_classes s)" using space_ok_extent(1) [OF V(2) e] .
  have cs: "?cs = upd_nth (a_classes s) c (\<lambda>C. (DropExtentFreeLocked e C)\<lparr>c_bound_extents := c_bound_extents C - 1\<rparr>)"
    by (simp add: release_extent_def)
  note po = pools_okD [OF V(1)]
  have fr: "frees (?cs ! d) = (if d = c then (frees (a_classes s ! c))(e := {}) else frees (a_classes s ! d))" for d
    using c by (simp add: cs nth_upd drop_pool(2) po(1))
  show "release_extent c e s = s\<lparr>a_extents := ?es, a_classes := ?cs, a_unbound := a_unbound s + 1\<rparr>"
    by (simp add: release_extent_def)
  show "blank_extent empty_extent" by (simp add: blank_extent_def empty_extent_def)
  show "length ?cs = length (a_classes s)" by (simp add: cs)
  show "same_class_books (a_classes s ! d) (?cs ! d)" if "d < length (a_classes s)" for d
    by (simp add: cs nth_upd same_class_books_def)
  show "pools_ok ?cs ?es"
  proof (rule pools_okI)
    show "pool_ok (?cs ! d)" if "d < length ?cs" for d
      using that po(1) by (simp add: cs nth_upd drop_pool(1))
    show "d < length ?es \<and> e_cls (?es ! d) = Some b" if "b < length ?cs" "x \<in> frees (?cs ! b) d" for b d x
    proof -
      have b: "b < length (a_classes s)" using that(1) by (simp add: cs)
      show ?thesis using that(2) po(2,3) [OF b, of x d] e by (auto simp: fr nth_list_upd split: if_splits)
    qed
  qed
  show "space_ok (a_slots s) ?cs ?es L H"
    unfolding space_ok_def
  proof (intro conjI ballI allI impI)
    fix i assume i: "i \<in> L"
    then have "ref_extent (m_ref (a_slots s ! i)) \<noteq> e" using none by (auto simp: at_ext_def)
    then show "let r = m_ref (a_slots s ! i) in ref_extent r < length ?es \<and> e_cls (?es ! ref_extent r) = Some (ref_cls r) \<and>
        ref_slot_size r = c_slot_size (?cs ! ref_cls r) \<and> ref_offset r = ref_slot r * ref_slot_size r"
      using space_okD [OF V(2) i] by (simp add: Let_def cs nth_upd)
  next
    fix d b assume d: "d < length ?es" "e_cls (?es ! d) = Some b"
    then have d': "d \<noteq> e" "d < length (a_extents s)" "e_cls (a_extents s ! d) = Some b"
      by (auto simp: nth_list_upd empty_extent_def split: if_splits)
    note X = space_ok_extent [OF V(2) d'(2,3)]
    have f: "frees (?cs ! b) d = frees (a_classes s ! b) d" using d'(1) by (simp add: fr)
    show "b < length ?cs" using X(1) by (simp add: cs)
    show "e_total_slots (?es ! d) = c_slots_per_extent (?cs ! b)"
      "e_free_slots (?es ! d) + card (at_ext (a_slots s) L d) = e_total_slots (?es ! d)"
      using X(2,3) d'(1) by (simp_all add: cs nth_upd)
    show "inj_on (\<lambda>i. ref_slot (m_ref (a_slots s ! i))) (at_ext (a_slots s) L d)" by (fact X(4))
    show "let free = frees (?cs ! b) d; used = (\<lambda>i. ref_slot (m_ref (a_slots s ! i))) ` at_ext (a_slots s) L d; moving = {x. (d, x) \<in> H}
      in free \<inter> used = {} \<and> free \<inter> moving = {} \<and> used \<inter> moving = {} \<and>
         free \<union> used \<union> moving = {..<c_slots_per_extent (?cs ! b)}"
      unfolding Let_def f using X(5-8) by (simp add: cs nth_upd)
  qed
  show "binding_ok ?cs ?es (a_unbound s + 1)"
    unfolding binding_ok_def
  proof (intro conjI allI impI)
    fix d assume "d < length ?cs"
    then have d: "d < length (a_classes s)" by (simp add: cs)
    then have b: "c_bound_extents (a_classes s ! d) = card {e. e < length (a_extents s) \<and> e_cls (a_extents s ! e) = Some d}"
      using V(3) by (simp add: binding_ok_def)
    show "c_bound_extents (?cs ! d) = card {x. x < length ?es \<and> e_cls (?es ! x) = Some d}"
      using b c e card_extent_drop [OF e, of empty_extent] card_extent_update [of e "a_extents s" "Some d" empty_extent]
      by (auto simp: cs nth_upd empty_extent_def)
  next
    show "a_unbound s + 1 = card {x. x < length ?es \<and> e_cls (?es ! x) = None}"
      using V(3) e card_extent_update [of e "a_extents s" None empty_extent] by (simp add: binding_ok_def empty_extent_def)
  qed
qed

subsection \<open>Binding\<close>

lemma bind_extent_inv:
  assumes inv: "inv_at s L H" and e: "e < length (a_extents s)" "e_cls (a_extents s ! e) = None"
    and c: "c < length (a_classes s)" and H: "\<And>x. (e, x) \<notin> H"
  shows "inv_at (bind_extent c e s) L H"
proof -
  let ?spe = "c_slots_per_extent (a_classes s ! c)"
  let ?E = "empty_extent\<lparr>e_cls := Some c, e_total_slots := ?spe, e_free_slots := ?spe\<rparr>"
  let ?cs = "a_classes (bind_extent c e s)" and ?es = "(a_extents s)[e := ?E]"
  have V: "pools_ok (a_classes s) (a_extents s)" "space_ok (a_slots s) (a_classes s) (a_extents s) L H"
    "binding_ok (a_classes s) (a_extents s) (a_unbound s)" using inv by (auto simp: inv_at_def)
  have none: "at_ext (a_slots s) L e = {}" by (rule at_ext_other [OF V(2) e])
  note po = pools_okD [OF V(1)]
  let ?F = "\<lambda>C. fold (PushFreeLocked e) [0..<?spe] (C\<lparr>c_bound_extents := c_bound_extents C + 1\<rparr>)"
  have cs: "?cs = upd_nth (a_classes s) c ?F" by (simp add: bind_extent_def Let_def)
  have clen: "length ?cs = length (a_classes s)" by (simp add: cs)
  have empty: "frees (a_classes s ! c) e = {}" using po(3) [OF c, of _ e] e(2) by fastforce
  have push: "pool_ok (?F (a_classes s ! c)) \<and> frees (?F (a_classes s ! c)) = (frees (a_classes s ! c))(e := {..<?spe})"
    using fp.push_all [of "(a_classes s ! c)\<lparr>c_bound_extents := c_bound_extents (a_classes s ! c) + 1\<rparr>" "[0..<?spe]" e]
      po(1) [OF c] empty by (auto simp: atLeast0LessThan)
  have fr: "frees (?cs ! d) = (if d = c then (frees (a_classes s ! c))(e := {..<?spe}) else frees (a_classes s ! d))" for d
    using c push by (simp add: cs nth_upd)
  have sizes: "c_slot_size (?cs ! d) = c_slot_size (a_classes s ! d)" "c_slots_per_extent (?cs ! d) = c_slots_per_extent (a_classes s ! d)" for d
    by (simp_all add: cs nth_upd)
  show ?thesis
  proof (rule replace_extent_inv [OF inv none])
    show "bind_extent c e s = s\<lparr>a_extents := ?es, a_classes := ?cs, a_unbound := a_unbound s - 1\<rparr>"
      by (simp add: bind_extent_def Let_def)
    show "blank_extent ?E" by (simp add: blank_extent_def empty_extent_def)
    show "length ?cs = length (a_classes s)" by (fact clen)
    show "same_class_books (a_classes s ! d) (?cs ! d)" if "d < length (a_classes s)" for d
      by (simp add: cs nth_upd same_class_books_def)
    show "pools_ok ?cs ?es"
    proof (rule pools_okI)
      show "pool_ok (?cs ! d)" if "d < length ?cs" for d using that po(1) push by (simp add: cs nth_upd)
      show "d < length ?es \<and> e_cls (?es ! d) = Some b" if "b < length ?cs" "x \<in> frees (?cs ! b) d" for b d x
        using that(2) po(2,3) [OF that(1) [unfolded clen], of x d] e by (auto simp: fr nth_list_upd split: if_splits)
    qed
    show "space_ok (a_slots s) ?cs ?es L H"
      unfolding space_ok_def
    proof (intro conjI ballI allI impI)
      fix i assume i: "i \<in> L"
      then have "ref_extent (m_ref (a_slots s ! i)) \<noteq> e" using none by (auto simp: at_ext_def)
      then show "let r = m_ref (a_slots s ! i) in ref_extent r < length ?es \<and> e_cls (?es ! ref_extent r) = Some (ref_cls r) \<and>
          ref_slot_size r = c_slot_size (?cs ! ref_cls r) \<and> ref_offset r = ref_slot r * ref_slot_size r"
        using space_okD [OF V(2) i] by (simp add: Let_def sizes)
    next
      fix d b assume d: "d < length ?es" "e_cls (?es ! d) = Some b"
      consider "d = e" "b = c" | "d \<noteq> e" "d < length (a_extents s)" "e_cls (a_extents s ! d) = Some b"
        using d e(1) by (auto simp: nth_list_upd split: if_splits)
      note cases = this
      show "b < length ?cs" "e_total_slots (?es ! d) = c_slots_per_extent (?cs ! b)"
        "e_free_slots (?es ! d) + card (at_ext (a_slots s) L d) = e_total_slots (?es ! d)"
        "inj_on (\<lambda>i. ref_slot (m_ref (a_slots s ! i))) (at_ext (a_slots s) L d)"
        using cases space_ok_extent(1-4) [OF V(2), of d b] e(1) c none
        by (cases; simp add: sizes clen)+
      show "let free = frees (?cs ! b) d; used = (\<lambda>i. ref_slot (m_ref (a_slots s ! i))) ` at_ext (a_slots s) L d; moving = {x. (d, x) \<in> H}
        in free \<inter> used = {} \<and> free \<inter> moving = {} \<and> used \<inter> moving = {} \<and>
           free \<union> used \<union> moving = {..<c_slots_per_extent (?cs ! b)}"
      proof (cases "d = e")
        case True
        then show ?thesis using cases none H by (auto simp: Let_def fr sizes)
      next
        case False
        then have f: "frees (?cs ! b) d = frees (a_classes s ! b) d" by (simp add: fr)
        have "d < length (a_extents s)" "e_cls (a_extents s ! d) = Some b"
          using d False by simp_all
        from space_ok_extent(5-8) [OF V(2) this] show ?thesis unfolding Let_def f sizes by blast
      qed
    qed
    show "binding_ok ?cs ?es (a_unbound s - 1)"
      unfolding binding_ok_def
    proof (intro conjI allI impI)
      fix d assume "d < length ?cs"
      then have "c_bound_extents (a_classes s ! d) = card {e. e < length (a_extents s) \<and> e_cls (a_extents s ! e) = Some d}"
        using V(3) by (simp add: binding_ok_def clen)
      then show "c_bound_extents (?cs ! d) = card {x. x < length ?es \<and> e_cls (?es ! x) = Some d}"
        using c e card_extent_update [of e "a_extents s" "Some d" ?E] by (auto simp: cs nth_upd)
    next
      show "a_unbound s - 1 = card {x. x < length ?es \<and> e_cls (?es ! x) = None}"
        using V(3) e card_extent_drop [of e "a_extents s" None ?E] by (simp add: binding_ok_def)
    qed
  qed
qed

subsection \<open>Freeing a slot\<close>

lemma unprotect_frame [simp]:
  "a_index (UnprotectLocked i s) = a_index s" "length (a_slots (UnprotectLocked i s)) = length (a_slots s)"
  "a_free_slot_meta_head (UnprotectLocked i s) = a_free_slot_meta_head s"
  "length (a_classes (UnprotectLocked i s)) = length (a_classes s)"
  "length (a_extents (UnprotectLocked i s)) = length (a_extents s)" "a_opt (UnprotectLocked i s) = a_opt s"
  by (simp_all add: UnprotectLocked_def Let_def)

lemma unprotect_slots: "a_slots (UnprotectLocked i s) = upd_nth (a_slots s) i (\<lambda>m. m\<lparr>m_retain_until := 0\<rparr>)"
  by (simp add: UnprotectLocked_def Let_def)

lemma live_set_upd: "(\<And>m. m_live (f m) = m_live m) \<Longrightarrow> live_set (upd_nth sl i f) = live_set sl"
  by (auto simp: live_set_def nth_upd)

lemma free_metas_upd:
  assumes "\<And>m. m_free_next (f m) = m_free_next m" "\<And>m. m_live (f m) = m_live m"
  shows "free_metas (upd_nth sl i f) h (live_set (upd_nth sl i f)) = free_metas sl h (live_set sl)"
proof -
  have "(\<lambda>j. m_free_next (upd_nth sl i f ! j)) = (\<lambda>j. m_free_next (sl ! j))" using assms(1) by (auto simp: nth_upd)
  then show ?thesis using assms(2) by (simp add: free_metas_def live_set_upd)
qed

lemma release_frame [simp]:
  "a_slots (release_extent c e s) = a_slots s" "a_index (release_extent c e s) = a_index s"
  "a_free_slot_meta_head (release_extent c e s) = a_free_slot_meta_head s" "a_opt (release_extent c e s) = a_opt s"
  "length (a_classes (release_extent c e s)) = length (a_classes s)"
  "length (a_extents (release_extent c e s)) = length (a_extents s)"
  by (simp_all add: release_extent_def)

lemma inv_at_counters [simp]:
  "inv_at (s\<lparr>a_extent_returns := x\<rparr>) L H = inv_at s L H" "inv_at (s\<lparr>a_evictions := x\<rparr>) L H = inv_at s L H"
  "inv_at (s\<lparr>a_steals := x\<rparr>) L H = inv_at s L H" "inv_at (s\<lparr>a_cold_steals := x\<rparr>) L H = inv_at s L H"
  "inv_at (s\<lparr>a_watermark_evictions := x\<rparr>) L H = inv_at s L H" "inv_at (s\<lparr>a_watermark_scan_steps := x\<rparr>) L H = inv_at s L H"
  "inv_at (s\<lparr>a_put_seq := x\<rparr>) L H = inv_at s L H" "inv_at (s\<lparr>a_retain_evict_skipped := x\<rparr>) L H = inv_at s L H"
  "inv_at (s\<lparr>a_retain_expired := x\<rparr>) L H = inv_at s L H" "inv_at (s\<lparr>a_retain_results := y\<rparr>) L H = inv_at s L H"
  "inv_at (s\<lparr>a_wheel := z\<rparr>) L H = inv_at s L H" "inv_at (s\<lparr>a_wheel_entries := x\<rparr>) L H = inv_at s L H"
  "inv_at (s\<lparr>a_wheel_tick := x\<rparr>) L H = inv_at s L H" "inv_at (s\<lparr>a_retain_now_s := x\<rparr>) L H = inv_at s L H"
  "inv_at (s\<lparr>a_retain := r\<rparr>) L H = inv_at s L H" "inv_at (s\<lparr>a_world := w\<rparr>) L H = inv_at s L H"
  by (simp_all add: inv_at_def)

text \<open>The abstract content: what the allocator knows of each resident key.\<close>

record resident =
  r_ref :: SlotRef
  r_len :: nat
  r_refs :: nat
  r_until :: nat
  r_ttl :: nat
  r_pending :: bool

definition abs_meta :: "SlotMeta \<Rightarrow> resident" where
  "abs_meta m = \<lparr>r_ref = m_ref m, r_len = m_useful_bytes m, r_refs = m_refs m, r_until = m_retain_until m,
     r_ttl = m_retain_ttl_s m, r_pending = m_remove_pending m\<rparr>"

definition residents :: "'w SlabAllocator \<Rightarrow> BlockKey \<rightharpoonup> resident" where
  "residents s k = map_option (\<lambda>i. abs_meta (a_slots s ! i)) (Find (a_index s) k)"

lemma inv_moving_index:
  assumes "inv_moving s H"
  shows "index_inv (a_index s)" "Find (a_index s) k = Some i \<longleftrightarrow> i \<in> live_set (a_slots s) \<and> m_key (a_slots s ! i) = k"
  using assms by (auto simp: inv_moving_def inv_at_def index_ok_def)

lemma residents_eqI:
  assumes "a_index s' = a_index s" "\<And>k i. Find (a_index s) k = Some i \<Longrightarrow> abs_meta (a_slots s' ! i) = abs_meta (a_slots s ! i)"
  shows "residents s' = residents s"
proof (rule ext)
  show "residents s' k = residents s k" for k
    using assms by (cases "Find (a_index s) k") (auto simp: residents_def)
qed

definition free_mid :: "nat \<Rightarrow> 'w SlabAllocator \<Rightarrow> 'w SlabAllocator" where
  "free_mid i s = free_core i (if m_retain_until (a_slots s ! i) \<noteq> 0 then UnprotectLocked i s else s)"

lemma free_mid_inv:
  assumes inv: "inv_moving s H" and i: "i \<in> live_set (a_slots s)"
  shows "inv_moving (free_mid i s) H" "live_set (a_slots (free_mid i s)) = live_set (a_slots s) - {i}"
    "residents (free_mid i s) = (residents s)(m_key (a_slots s ! i) := None)"
    "\<And>j. j \<noteq> i \<Longrightarrow> m_key (a_slots (free_mid i s) ! j) = m_key (a_slots s ! j) \<and>
       abs_meta (a_slots (free_mid i s) ! j) = abs_meta (a_slots s ! j) \<and>
       m_referenced (a_slots (free_mid i s) ! j) = m_referenced (a_slots s ! j)"
proof -
  define s1 where "s1 = (if m_retain_until (a_slots s ! i) \<noteq> 0 then UnprotectLocked i s else s)"
  have il: "i < length (a_slots s)" using i by (simp add: live_set_def)
  have inv1: "inv_moving s1 H" "live_set (a_slots s1) = live_set (a_slots s)"
    using inv i unprotect_inv [of s "live_set (a_slots s)" H i]
      free_metas_upd [of "\<lambda>m. m\<lparr>m_retain_until := 0\<rparr>" "a_slots s" i]
    by (auto simp: s1_def inv_moving_def unprotect_slots live_set_upd)
  have i1: "i \<in> live_set (a_slots s1)" "m_retain_until (a_slots s1 ! i) = 0"
    using i il inv1(2) by (auto simp: s1_def unprotect_slots)
  have mid: "free_mid i s = free_core i s1" by (simp add: free_mid_def s1_def)
  show "inv_moving (free_mid i s) H" "live_set (a_slots (free_mid i s)) = live_set (a_slots s) - {i}"
    using free_core_inv [OF inv1(1) i1] inv1(2) by (simp_all add: mid)
  have sl1: "j \<noteq> i \<Longrightarrow> a_slots s1 ! j = a_slots s ! j" for j by (simp add: s1_def unprotect_slots)
  have key1: "m_key (a_slots s1 ! i) = m_key (a_slots s ! i)" "a_index s1 = a_index s"
    by (simp_all add: s1_def unprotect_slots nth_upd)
  show other: "m_key (a_slots (free_mid i s) ! j) = m_key (a_slots s ! j) \<and>
       abs_meta (a_slots (free_mid i s) ! j) = abs_meta (a_slots s ! j) \<and>
       m_referenced (a_slots (free_mid i s) ! j) = m_referenced (a_slots s ! j)" if "j \<noteq> i" for j
    using that sl1 [OF that] by (simp add: mid free_core_slots abs_meta_def)
  have ix: "a_index (free_mid i s) = snd (Erase (a_index s) (m_key (a_slots s ! i)))"
    by (simp add: mid free_core_slots key1)
  show "residents (free_mid i s) = (residents s)(m_key (a_slots s ! i) := None)"
  proof (rule ext)
    fix k
    have F: "Find (a_index (free_mid i s)) = (Find (a_index s))(m_key (a_slots s ! i) := None)"
      unfolding ix by (rule fki.find_erase [OF inv_moving_index(1) [OF inv]])
    show "residents (free_mid i s) k = ((residents s)(m_key (a_slots s ! i) := None)) k"
    proof (cases "Find (a_index s) k")
      case (Some j)
      then have "j = i \<longleftrightarrow> k = m_key (a_slots s ! i)"
        using inv_moving_index(2) [OF inv] i by (metis option.inject)
      with Some other show ?thesis by (auto simp: residents_def F)
    qed (simp add: residents_def F)
  qed
qed

text \<open>What no operation on residents changes: the configuration, the class sizes, the wheel.\<close>

definition stable :: "'w SlabAllocator \<Rightarrow> 'w SlabAllocator \<Rightarrow> bool" where
  "stable s s' \<longleftrightarrow> a_opt s' = a_opt s \<and> length (a_classes s') = length (a_classes s) \<and>
     length (a_extents s') = length (a_extents s) \<and>
     (\<forall>c. c_slot_size (a_classes s' ! c) = c_slot_size (a_classes s ! c)) \<and>
     a_retain s' = a_retain s \<and> a_wheel s' = a_wheel s \<and> a_wheel_tick s' = a_wheel_tick s \<and>
     a_retain_now_s s' = a_retain_now_s s"

lemma stable_refl [simp]: "stable s s"
  by (simp add: stable_def)

lemma stable_trans: "stable s t \<Longrightarrow> stable t u \<Longrightarrow> stable s u"
  by (simp add: stable_def)

lemma stable_free_core: "stable s (free_core i s)"
  by (simp add: stable_def free_core_def free_recycle_def free_return_def free_forget_def free_unlink_def
      unlink_class_def unlink_global_def unlink_extent_def Let_def nth_upd)

lemma stable_unprotect: "stable s (UnprotectLocked i s)"
  by (simp add: stable_def UnprotectLocked_def Let_def nth_upd)

lemma stable_release: "stable s (release_extent c e s)"
  by (simp add: stable_def release_extent_def nth_upd)

lemma stable_free_mid: "stable s (free_mid i s)"
  unfolding free_mid_def using stable_free_core stable_trans stable_unprotect by (metis (full_types))

lemma FreeSlotLocked_mid:
  "FreeSlotLocked i s =
     (let s1 = free_mid i s; c = ref_cls (m_ref (a_slots s ! i)); e = ref_extent (m_ref (a_slots s ! i))
      in if e_free_slots (a_extents s1 ! e) = e_total_slots (a_extents s1 ! e) \<and> length (c_ext_rr (a_classes s1 ! c)) > kStripeWays
         then (release_extent c e s1)\<lparr>a_extent_returns := a_extent_returns s1 + 1\<rparr> else s1)"
proof -
  have "m_ref (a_slots (UnprotectLocked i s) ! i) = m_ref (a_slots s ! i)" by (simp add: unprotect_slots nth_upd)
  then show ?thesis
    by (cases "m_retain_until (a_slots s ! i) = 0") (simp_all add: FreeSlotLocked_def free_mid_def free_core_def Let_def)
qed

lemma free_mid_extent_cls: "e_cls (a_extents (free_mid i s) ! d) = e_cls (a_extents s ! d)"
  by (simp add: free_mid_def free_core_def free_recycle_def free_return_def free_forget_def free_unlink_def
      unlink_class_def unlink_global_def unlink_extent_def UnprotectLocked_def Let_def nth_upd)

lemma inv_moving_returns [simp]: "inv_moving (s\<lparr>a_extent_returns := x\<rparr>) H = inv_moving s H"
  by (simp add: inv_moving_def)

theorem FreeSlotLocked_inv:
  assumes inv: "inv_moving s H" and i: "i \<in> live_set (a_slots s)"
  shows "inv_moving (FreeSlotLocked i s) H" "live_set (a_slots (FreeSlotLocked i s)) = live_set (a_slots s) - {i}"
    "residents (FreeSlotLocked i s) = (residents s)(m_key (a_slots s ! i) := None)"
    "stable s (FreeSlotLocked i s)"
    "\<And>j. j \<noteq> i \<Longrightarrow> m_key (a_slots (FreeSlotLocked i s) ! j) = m_key (a_slots s ! j) \<and>
       abs_meta (a_slots (FreeSlotLocked i s) ! j) = abs_meta (a_slots s ! j) \<and>
       m_referenced (a_slots (FreeSlotLocked i s) ! j) = m_referenced (a_slots s ! j)"
proof -
  let ?s1 = "free_mid i s" and ?r = "m_ref (a_slots s ! i)"
  let ?rel = "release_extent (ref_cls ?r) (ref_extent ?r) ?s1"
  note M = free_mid_inv [OF inv i]
  have at: "inv_at s (live_set (a_slots s)) H" "inv_at ?s1 (live_set (a_slots ?s1)) H"
    using inv M(1) by (auto simp: inv_moving_def)
  note E = inv_at_entry [OF at(1) i]
  have e: "ref_extent ?r < length (a_extents ?s1)" "e_cls (a_extents ?s1 ! ref_extent ?r) = Some (ref_cls ?r)"
    using E(4,6) stable_free_mid [of s i] by (simp_all add: stable_def free_mid_extent_cls)
  have rel: "inv_moving ?rel H" if full: "e_free_slots (a_extents ?s1 ! ref_extent ?r) = e_total_slots (a_extents ?s1 ! ref_extent ?r)"
  proof -
    have sp: "space_ok (a_slots ?s1) (a_classes ?s1) (a_extents ?s1) (live_set (a_slots ?s1)) H"
      using at(2) by (simp add: inv_at_def)
    have "card (at_ext (a_slots ?s1) (live_set (a_slots ?s1)) (ref_extent ?r)) = 0"
      using space_ok_extent(3) [OF sp e] full by simp
    moreover have "finite (live_set (a_slots ?s1))" by (simp add: live_set_def)
    ultimately have "at_ext (a_slots ?s1) (live_set (a_slots ?s1)) (ref_extent ?r) = {}" by (simp add: at_ext_def)
    from release_extent_inv [OF at(2) e this] M(1) show ?thesis by (simp add: inv_moving_def)
  qed
  show "inv_moving (FreeSlotLocked i s) H" using rel M(1) by (simp add: FreeSlotLocked_mid Let_def)
  show "live_set (a_slots (FreeSlotLocked i s)) = live_set (a_slots s) - {i}"
    using M(2) by (simp add: FreeSlotLocked_mid Let_def)
  have sl: "a_slots (FreeSlotLocked i s) = a_slots ?s1" "a_index (FreeSlotLocked i s) = a_index ?s1"
    by (simp_all add: FreeSlotLocked_mid Let_def)
  show "residents (FreeSlotLocked i s) = (residents s)(m_key (a_slots s ! i) := None)"
    using M(3) residents_eqI [of "FreeSlotLocked i s" ?s1] sl by simp
  have "stable ?s1 (FreeSlotLocked i s)"
    using stable_release [of ?s1 "ref_cls ?r" "ref_extent ?r"] by (simp add: FreeSlotLocked_mid Let_def stable_def)
  then show "stable s (FreeSlotLocked i s)" using stable_free_mid stable_trans by blast
  show "\<And>j. j \<noteq> i \<Longrightarrow> m_key (a_slots (FreeSlotLocked i s) ! j) = m_key (a_slots s ! j) \<and>
       abs_meta (a_slots (FreeSlotLocked i s) ! j) = abs_meta (a_slots s ! j) \<and>
       m_referenced (a_slots (FreeSlotLocked i s) ! j) = m_referenced (a_slots s ! j)"
    using M(4) by (simp add: sl)
qed

text \<open>A freed slot is available to its class unless its extent was returned to the pool.\<close>

lemma free_mid_class:
  assumes "ref_cls (m_ref (a_slots s ! i)) < length (a_classes s)"
  shows "frees (a_classes (free_mid i s) ! ref_cls (m_ref (a_slots s ! i))) =
      (frees (a_classes s ! ref_cls (m_ref (a_slots s ! i))))(ref_extent (m_ref (a_slots s ! i)) :=
        insert (ref_slot (m_ref (a_slots s ! i))) (frees (a_classes s ! ref_cls (m_ref (a_slots s ! i))) (ref_extent (m_ref (a_slots s ! i)))))"
    "length (c_ext_rr (a_classes (free_mid i s) ! ref_cls (m_ref (a_slots s ! i)))) \<le>
      length (c_ext_rr (a_classes s ! ref_cls (m_ref (a_slots s ! i)))) + 1"
proof -
  let ?c = "ref_cls (m_ref (a_slots s ! i))" and ?e = "ref_extent (m_ref (a_slots s ! i))" and ?x = "ref_slot (m_ref (a_slots s ! i))"
  define s1 where "s1 = (if m_retain_until (a_slots s ! i) \<noteq> 0 then UnprotectLocked i s else s)"
  have r: "m_ref (a_slots s1 ! i) = m_ref (a_slots s ! i)" by (simp add: s1_def unprotect_slots nth_upd)
  have c1: "frees (a_classes s1 ! ?c) = frees (a_classes s ! ?c)" "c_ext_rr (a_classes s1 ! ?c) = c_ext_rr (a_classes s ! ?c)"
    "free_of (a_classes s1 ! ?c) = free_of (a_classes s ! ?c)" "length (a_classes s1) = length (a_classes s)"
    by (auto simp: s1_def UnprotectLocked_def Let_def nth_upd frees_def free_of_def)
  have cls: "a_classes (free_mid i s) ! ?c =
      (PushFreeLocked ?e ?x (a_classes (free_unlink i s1) ! ?c))\<lparr>c_useful_bytes := c_useful_bytes (a_classes (free_unlink i s1) ! ?c) - m_useful_bytes (a_slots s1 ! i)\<rparr>"
    unfolding free_mid_def s1_def [symmetric]
    using assms c1(4) r by (simp add: free_core_def free_recycle_def free_return_def Let_def)
  show "frees (a_classes (free_mid i s) ! ?c) = (frees (a_classes s ! ?c))(?e := insert ?x (frees (a_classes s ! ?c) ?e))"
    unfolding cls by (simp add: frees_push c1(1))
  have "c_ext_rr (a_classes (free_unlink i s1) ! ?c) = c_ext_rr (a_classes s1 ! ?c)"
    by (simp add: free_unlink_classes Let_def nth_list_upd)
  then show "length (c_ext_rr (a_classes (free_mid i s) ! ?c)) \<le> length (c_ext_rr (a_classes s ! ?c)) + 1"
    unfolding cls by (simp add: PushFreeLocked_def Let_def c1(2))
qed

end
