(* ===== verification/Slab_Evict.thy ===== *)
theory Slab_Evict
  imports Slab_Extents
begin

text \<open>
  Capacity eviction: the CLOCK scan of a class, whole-extent steals, the bounded background
  reclaim and the global watermark sweep. Every one of them keeps the invariant and acts on the
  abstract content as \<open>evicts\<close> says: the reported keys, and only they, lose residency, and each
  of them was neither pinned nor protected. The scan of a class finds the victim that CLOCK
  second chance prescribes, and finds one whenever one exists.
\<close>

subsection \<open>The abstract effect of eviction\<close>

definition evictable :: "resident \<Rightarrow> bool" where
  "evictable r \<longleftrightarrow> r_refs r = 0 \<and> r_until r = 0"

definition evicts :: "'w SlabAllocator \<Rightarrow> 'w SlabAllocator \<Rightarrow> BlockKey list \<Rightarrow> BlockKey list \<Rightarrow> bool" where
  "evicts s s' ev ev' \<longleftrightarrow> (\<exists>vs. ev' = ev @ vs \<and> distinct vs \<and>
     (\<forall>k\<in>set vs. \<exists>r. residents s k = Some r \<and> evictable r) \<and>
     residents s' = residents s |` (- set vs) \<and> stable s s')"

lemma evicts_refl: "evicts s s ev ev"
  unfolding evicts_def by (intro exI [of _ "[]"]) (simp add: restrict_map_def)

lemma evicts_same: "residents s' = residents s \<Longrightarrow> stable s s' \<Longrightarrow> evicts s s' ev ev"
  unfolding evicts_def by (intro exI [of _ "[]"]) (simp add: restrict_map_def)

lemma evicts_trans:
  assumes "evicts s t e0 e1" "evicts t u e1 e2"
  shows "evicts s u e0 e2"
proof -
  obtain vs where vs: "e1 = e0 @ vs" "distinct vs" "\<forall>k\<in>set vs. \<exists>r. residents s k = Some r \<and> evictable r"
    "residents t = residents s |` (- set vs)" "stable s t" using assms(1) by (auto simp: evicts_def)
  obtain ws where ws: "e2 = e1 @ ws" "distinct ws" "\<forall>k\<in>set ws. \<exists>r. residents t k = Some r \<and> evictable r"
    "residents u = residents t |` (- set ws)" "stable t u" using assms(2) by (auto simp: evicts_def)
  have mem: "k \<notin> set vs \<and> (\<exists>r. residents s k = Some r \<and> evictable r)" if k: "k \<in> set ws" for k
    using ws(3) k by (auto simp: vs(4) restrict_map_def split: if_splits)
  show ?thesis unfolding evicts_def
  proof (intro exI conjI)
    show "e2 = e0 @ (vs @ ws)" by (simp add: vs(1) ws(1))
    show "distinct (vs @ ws)" using vs(2) ws(2) mem by auto
    show "\<forall>k\<in>set (vs @ ws). \<exists>r. residents s k = Some r \<and> evictable r" using vs(3) mem by auto
    show "residents u = residents s |` (- set (vs @ ws))" by (simp add: ws(4) vs(4) inf_commute)
    show "stable s u" using vs(5) ws(5) by (rule stable_trans)
  qed
qed

lemma evicts_one:
  assumes "residents s k = Some r" "evictable r" "residents s' = (residents s)(k := None)" "stable s s'"
  shows "evicts s s' ev (ev @ [k])"
  unfolding evicts_def using assms by (intro exI [of _ "[k]"]) (auto simp: restrict_map_def fun_eq_iff)

lemma stable_counters [simp]:
  "stable s (t\<lparr>a_evictions := x\<rparr>) = stable s t" "stable s (t\<lparr>a_steals := x\<rparr>) = stable s t"
  "stable s (t\<lparr>a_cold_steals := x\<rparr>) = stable s t" "stable s (t\<lparr>a_extent_returns := x\<rparr>) = stable s t"
  "stable s (t\<lparr>a_watermark_evictions := x\<rparr>) = stable s t" "stable s (t\<lparr>a_watermark_scan_steps := x\<rparr>) = stable s t"
  "stable s (t\<lparr>a_retain_evict_skipped := x\<rparr>) = stable s t" "stable s (t\<lparr>a_world := w\<rparr>) = stable s t"
  "stable s (t\<lparr>a_activity_seq := x\<rparr>) = stable s t" "stable s (t\<lparr>a_put_seq := x\<rparr>) = stable s t"
  "stable s (t\<lparr>a_global_hand := x\<rparr>) = stable s t"
  by (simp_all add: stable_def)

lemma residents_counters [simp]:
  "residents (t\<lparr>a_evictions := x\<rparr>) = residents t" "residents (t\<lparr>a_steals := x\<rparr>) = residents t"
  "residents (t\<lparr>a_cold_steals := x\<rparr>) = residents t" "residents (t\<lparr>a_extent_returns := x\<rparr>) = residents t"
  "residents (t\<lparr>a_watermark_evictions := x\<rparr>) = residents t" "residents (t\<lparr>a_watermark_scan_steps := x\<rparr>) = residents t"
  "residents (t\<lparr>a_retain_evict_skipped := x\<rparr>) = residents t" "residents (t\<lparr>a_world := w\<rparr>) = residents t"
  "residents (t\<lparr>a_activity_seq := x\<rparr>) = residents t" "residents (t\<lparr>a_put_seq := x\<rparr>) = residents t"
  "residents (t\<lparr>a_global_hand := x\<rparr>) = residents t" "residents (t\<lparr>a_classes := cs\<rparr>) = residents t"
  "residents (t\<lparr>a_extents := es\<rparr>) = residents t" "residents (t\<lparr>a_unbound := x\<rparr>) = residents t"
  by (simp_all add: residents_def fun_eq_iff)

lemma inv_moving_counters [simp]:
  "inv_moving (s\<lparr>a_evictions := x\<rparr>) H = inv_moving s H" "inv_moving (s\<lparr>a_steals := x\<rparr>) H = inv_moving s H"
  "inv_moving (s\<lparr>a_cold_steals := x\<rparr>) H = inv_moving s H" "inv_moving (s\<lparr>a_watermark_evictions := x\<rparr>) H = inv_moving s H"
  "inv_moving (s\<lparr>a_watermark_scan_steps := x\<rparr>) H = inv_moving s H"
  "inv_moving (s\<lparr>a_retain_evict_skipped := x\<rparr>) H = inv_moving s H" "inv_moving (s\<lparr>a_world := w\<rparr>) H = inv_moving s H"
  by (simp_all add: inv_moving_def)

subsection \<open>Hands and marks\<close>

definition quiet :: "(SlotMeta \<Rightarrow> SlotMeta) \<Rightarrow> bool" where
  "quiet f \<longleftrightarrow> (\<forall>m. same_links m (f m) \<and> m_refs (f m) = m_refs m \<and> m_retain_until (f m) = m_retain_until m \<and>
     m_access_seq (f m) = m_access_seq m \<and> m_remove_pending (f m) = m_remove_pending m \<and> m_live (f m) = m_live m \<and>
     m_free_next (f m) = m_free_next m)"

lemma inv_at_quiet:
  assumes inv: "inv_at s L H" and f: "quiet f"
  shows "inv_at (upd_slot i f s) L H"
proof -
  have V: "extent_lists (a_slots s) (a_extents s) L" "pins_ok (a_slots s) (a_extents s) L"
    "prot_ok (a_slots s) (a_classes s) (a_extents s) (a_protected_bytes s) (a_protected_slots s) L"
    "metas_ok (a_slots s) (a_activity_seq s) L"
    using inv by (auto simp: inv_at_def)
  have fld: "m_refs (upd_nth (a_slots s) i f ! j) = m_refs (a_slots s ! j)"
    "m_retain_until (upd_nth (a_slots s) i f ! j) = m_retain_until (a_slots s ! j)"
    "m_access_seq (upd_nth (a_slots s) i f ! j) = m_access_seq (a_slots s ! j)"
    "m_remove_pending (upd_nth (a_slots s) i f ! j) = m_remove_pending (a_slots s ! j)"
    "m_ref (upd_nth (a_slots s) i f ! j) = m_ref (a_slots s ! j)"
    "m_useful_bytes (upd_nth (a_slots s) i f ! j) = m_useful_bytes (a_slots s ! j)"
    "same_links (a_slots s ! j) (upd_nth (a_slots s) i f ! j)" for j
    using f by (auto simp: nth_upd quiet_def same_links_def)
  have "e_access_seq_sum (a_extents s ! e) = (\<Sum>j\<in>at_ext (a_slots s) L e. m_access_seq (a_slots s ! j))"
    if "e < length (a_extents s)" for e using V(1) that by (simp add: extent_lists_def)
  with V(2-4) show ?thesis
    by (intro inv_at_books [OF inv])
      (auto simp: fld same_class_def same_extent_def elim!: pins_ok_cong prot_ok_cong metas_ok_cong)
qed

lemma inv_moving_quiet:
  assumes "inv_moving s H" "quiet f"
  shows "inv_moving (upd_slot i f s) H" "live_set (a_slots (upd_slot i f s)) = live_set (a_slots s)"
proof -
  have f: "\<And>m. m_live (f m) = m_live m" "\<And>m. m_free_next (f m) = m_free_next m" using assms(2) by (auto simp: quiet_def)
  show "live_set (a_slots (upd_slot i f s)) = live_set (a_slots s)" using f by (simp add: live_set_upd)
  then show "inv_moving (upd_slot i f s) H"
    using assms inv_at_quiet [OF _ assms(2), of s "live_set (a_slots s)" H i] free_metas_upd [of f "a_slots s" i] f
    by (simp add: inv_moving_def)
qed

lemma residents_quiet:
  assumes "quiet f" "\<And>m. m_retain_ttl_s (f m) = m_retain_ttl_s m"
  shows "residents (upd_slot i f s) = residents s"
  using assms by (intro residents_eqI) (auto simp: nth_upd quiet_def same_links_def abs_meta_def)

lemma quiet_referenced [simp]: "quiet (\<lambda>m. m\<lparr>m_referenced := b\<rparr>)"
  by (simp add: quiet_def same_links_def)

lemma class_hand_inv:
  assumes inv: "inv_moving s H" and c: "c < length (a_classes s)" "in_cls (a_slots s) (live_set (a_slots s)) c \<noteq> {}"
  shows "inv_moving (upd_class c (\<lambda>C. C\<lparr>c_hand := cyc_next (m_class_next (a_slots s ! c_hand (a_classes s ! c))) (c_ring_head C)\<rparr>) s) H"
    (is "inv_moving (upd_class c ?f s) H")
proof -
  let ?L = "live_set (a_slots s)" and ?cs = "upd_nth (a_classes s) c ?f"
  have at: "inv_at s ?L H" using inv by (simp add: inv_moving_def)
  have V: "geometry (a_opt s) (a_classes s) (length (a_extents s))" "class_rings (a_slots s) (a_classes s) ?L"
    "pools_ok (a_classes s) (a_extents s)" "space_ok (a_slots s) (a_classes s) (a_extents s) ?L H"
    "prot_ok (a_slots s) (a_classes s) (a_extents s) (a_protected_bytes s) (a_protected_slots s) ?L"
    "bytes_ok (a_slots s) (a_classes s) (a_extents s) (a_used_bytes s) ?L"
    "binding_ok (a_classes s) (a_extents s) (a_unbound s)"
    using at by (auto simp: inv_at_def)
  have "class_rings (a_slots s) ?cs ?L"
    using V(2) c ring_step [of m_class_next m_class_prev "a_slots s"]
    by (auto simp: class_rings_def nth_upd)
  moreover have "geometry (a_opt s) ?cs (length (a_extents s))" using V(1) by (rule geometry_cong) (auto simp: nth_upd)
  moreover have "pools_ok ?cs (a_extents s)" using V(3) by (rule pools_ok_cong) (auto simp: nth_upd)
  moreover have "space_ok (a_slots s) ?cs (a_extents s) ?L H" using V(4) by (rule space_ok_cong) (auto simp: nth_upd)
  moreover have "prot_ok (a_slots s) ?cs (a_extents s) (a_protected_bytes s) (a_protected_slots s) ?L"
    using V(5) by (rule prot_ok_cong) (auto simp: nth_upd)
  moreover have "bytes_ok (a_slots s) ?cs (a_extents s) (a_used_bytes s) ?L" using V(6) by (rule bytes_ok_cong) (auto simp: nth_upd)
  moreover have "binding_ok ?cs (a_extents s) (a_unbound s)" using V(7) by (rule binding_ok_cong) (auto simp: nth_upd)
  ultimately show ?thesis using inv by (simp add: inv_moving_def inv_at_def)
qed

lemma global_hand_inv:
  assumes inv: "inv_moving s H" and h: "a_global_hand s \<noteq> kNoSlot"
  shows "inv_moving (s\<lparr>a_global_hand := cyc_next (m_global_next (a_slots s ! a_global_hand s)) (a_global_ring_head s)\<rparr>) H"
proof -
  have r: "ring m_global_next m_global_prev (a_slots s) (a_global_ring_head s) (a_global_hand s) (live_set (a_slots s))"
    using inv by (simp add: inv_moving_def inv_at_def)
  then have "live_set (a_slots s) \<noteq> {}" using h ring_empty_iff by blast
  from ring_step [OF r this] inv show ?thesis by (simp add: inv_moving_def inv_at_def)
qed

subsection \<open>Evicting one slot\<close>

lemma call_slot_evict_world: "call_slot_evict r s = (ok, s') \<Longrightarrow> \<exists>w. s' = s\<lparr>a_world := w\<rparr>"
  by (auto simp: call_slot_evict_def split: option.splits prod.splits intro: exI [of _ "a_world s"])

lemma call_extent_bind_world: "call_extent_bind e s = (ok, s') \<Longrightarrow> \<exists>w. s' = s\<lparr>a_world := w\<rparr>"
  by (auto simp: call_extent_bind_def split: option.splits prod.splits intro: exI [of _ "a_world s"])

lemma call_cold_evict_world: "call_cold_evict m s = (ok, s') \<Longrightarrow> \<exists>w. s' = s\<lparr>a_world := w\<rparr>"
  by (auto simp: call_cold_evict_def Let_def split: option.splits prod.splits if_splits
      dest: call_slot_evict_world intro: exI [of _ "a_world s"])

lemma live_resident:
  assumes "inv_moving s H" "i \<in> live_set (a_slots s)"
  shows "residents s (m_key (a_slots s ! i)) = Some (abs_meta (a_slots s ! i))"
proof -
  have "Find (a_index s) (m_key (a_slots s ! i)) = Some i"
    using inv_moving_index(2) [OF assms(1)] assms(2) by simp
  then show ?thesis by (simp add: residents_def)
qed

lemma free_evicts:
  assumes inv: "inv_moving s H" and i: "i \<in> live_set (a_slots s)"
    and free: "m_refs (a_slots s ! i) = 0" "m_retain_until (a_slots s ! i) = 0"
  shows "evicts s (FreeSlotLocked i s) ev (ev @ [m_key (a_slots s ! i)])"
  using FreeSlotLocked_inv(3,4) [OF inv i] live_resident [OF inv i] free
  by (intro evicts_one) (auto simp: evictable_def abs_meta_def)

lemma evict_slot_correct:
  assumes inv: "inv_moving s H" and i: "i \<in> live_set (a_slots s)"
    and free: "m_refs (a_slots s ! i) = 0" "m_retain_until (a_slots s ! i) = 0"
    and ev: "evict_slot i s ev = (ok, s', ev')"
  shows "inv_moving s' H" "evicts s s' ev ev'" "ev' = (if ok then ev @ [m_key (a_slots s ! i)] else ev)"
proof -
  obtain ok1 s1 where c: "call_slot_evict (m_ref (a_slots s ! i)) s = (ok1, s1)" by fastforce
  then obtain w where w: "s1 = s\<lparr>a_world := w\<rparr>" using call_slot_evict_world by blast
  have i1: "i \<in> live_set (a_slots s1)" "inv_moving s1 H" using inv i by (simp_all add: w)
  have "evicts s s1 ev ev" by (rule evicts_same) (simp_all add: w)
  moreover have "evicts s1 (FreeSlotLocked i s1) ev (ev @ [m_key (a_slots s1 ! i)])"
    using i1 free by (intro free_evicts) (simp_all add: w)
  ultimately have E: "evicts s (FreeSlotLocked i s1) ev (ev @ [m_key (a_slots s ! i)])"
    using evicts_trans by (simp add: w)
  note F = FreeSlotLocked_inv [OF i1(2,1)]
  show "inv_moving s' H" "evicts s s' ev ev'" "ev' = (if ok then ev @ [m_key (a_slots s ! i)] else ev)"
    using ev c F(1) E i1(2) \<open>evicts s s1 ev ev\<close>
    by (auto simp: evict_slot_def Let_def evicts_def split: if_splits)
qed

subsection \<open>The CLOCK scan\<close>

lemma class_members:
  assumes inv: "inv_moving s H" and c: "c < length (a_classes s)" "c_resident_count (a_classes s ! c) \<noteq> 0"
  shows "in_cls (a_slots s) (live_set (a_slots s)) c \<noteq> {}" "c_hand (a_classes s ! c) \<noteq> kNoSlot"
    "c_hand (a_classes s ! c) \<in> in_cls (a_slots s) (live_set (a_slots s)) c"
proof -
  have r: "ring m_class_next m_class_prev (a_slots s) (c_ring_head (a_classes s ! c)) (c_hand (a_classes s ! c))
      (in_cls (a_slots s) (live_set (a_slots s)) c)"
    "c_resident_count (a_classes s ! c) = card (in_cls (a_slots s) (live_set (a_slots s)) c)"
    using inv c(1) by (auto simp: inv_moving_def inv_at_def class_rings_def)
  show ne: "in_cls (a_slots s) (live_set (a_slots s)) c \<noteq> {}" using r(2) c(2) by auto
  show "c_hand (a_classes s ! c) \<noteq> kNoSlot" using ring_empty_iff [OF r(1)] ne by simp
  show "c_hand (a_classes s ! c) \<in> in_cls (a_slots s) (live_set (a_slots s)) c" using ring_hand_in [OF r(1) ne] .
qed

abbreviation move_hand :: "nat \<Rightarrow> 'w SlabAllocator \<Rightarrow> 'w SlabAllocator" where
  "move_hand c s \<equiv> upd_class c
     (\<lambda>C. C\<lparr>c_hand := cyc_next (m_class_next (a_slots s ! c_hand (a_classes s ! c))) (c_ring_head C)\<rparr>) s"

lemma evict_scan_step:
  assumes inv: "inv_moving s H" and c: "c < length (a_classes s)" "c_resident_count (a_classes s ! c) \<noteq> 0"
  defines "h \<equiv> c_hand (a_classes s ! c)"
  shows "evict_scan (Suc n) c fb s ev =
    (if m_refs (a_slots s ! h) > 0 then evict_scan n c fb (move_hand c s) ev
     else if m_retain_until (a_slots s ! h) \<noteq> 0
     then evict_scan n c fb ((move_hand c s)\<lparr>a_retain_evict_skipped := a_retain_evict_skipped s + 1\<rparr>) ev
     else if m_referenced (a_slots s ! h)
     then evict_scan n c (if fb = kNoSlot then h else fb) (upd_slot h (\<lambda>m. m\<lparr>m_referenced := False\<rparr>) (move_hand c s)) ev
     else (case evict_slot h (move_hand c s) ev of (ok, s3, ev3) \<Rightarrow> (Scan_Return ok, s3, ev3)))"
  using class_members(2) [OF inv c] c(2) by (simp add: h_def Let_def)

declare evict_scan.simps(2) [simp del]

lemma move_hand_stable: "stable s (move_hand c s)" "residents (move_hand c s) = residents s"
  by (simp_all add: stable_def nth_upd)

definition scan_ok :: "nat \<Rightarrow> 'w SlabAllocator \<Rightarrow> bool" where
  "scan_ok fb s \<longleftrightarrow> fb = kNoSlot \<or> (fb \<in> live_set (a_slots s) \<and> m_refs (a_slots s ! fb) = 0 \<and> m_retain_until (a_slots s ! fb) = 0)"

lemma evict_scan_correct:
  assumes "inv_moving s H" "c < length (a_classes s)" "scan_ok fb s" "evict_scan n c fb s ev = (out, s', ev')"
  shows "inv_moving s' H \<and> evicts s s' ev ev' \<and>
    (case out of Scan_Return ok \<Rightarrow> length ev' = length ev + of_bool ok | Scan_End fb' \<Rightarrow> ev' = ev \<and> scan_ok fb' s')"
  using assms
proof (induction n arbitrary: s fb)
  case 0
  then show ?case by (auto simp: evicts_refl)
next
  case (Suc n)
  show ?case
  proof (cases "c_resident_count (a_classes s ! c) = 0")
    case True
    with Suc.prems show ?thesis by (auto simp: evicts_refl evict_scan.simps(2))
  next
    case False
    note inv = Suc.prems(1) and c = Suc.prems(2)
    note M = class_members [OF inv c False]
    let ?h = "c_hand (a_classes s ! c)" and ?t = "move_hand c s"
    let ?t1 = "?t\<lparr>a_retain_evict_skipped := a_retain_evict_skipped s + 1\<rparr>"
    let ?t2 = "upd_slot ?h (\<lambda>m. m\<lparr>m_referenced := False\<rparr>) ?t"
    have hL: "?h \<in> live_set (a_slots s)" using M(3) by (auto dest: at_extD)
    have t: "inv_moving ?t H" using class_hand_inv [OF inv c M(1)] .
    have t2: "inv_moving ?t2 H" using inv_moving_quiet(1) [OF t, where f = "\<lambda>m. m\<lparr>m_referenced := False\<rparr>" and i = ?h] by simp
    have e: "evicts s ?t ev ev" "evicts s ?t1 ev ev" "evicts s ?t2 ev ev"
    proof -
      have r2: "residents ?t2 = residents ?t" by (rule residents_quiet) simp_all
      show "evicts s ?t ev ev" "evicts s ?t1 ev ev" by (rule evicts_same; simp add: stable_def nth_upd)+
      show "evicts s ?t2 ev ev" by (rule evicts_same) (simp only: r2 move_hand_stable(2), simp add: stable_def nth_upd)
    qed
    have fb: "scan_ok fb ?t" "scan_ok fb ?t1" using Suc.prems(3) by (simp_all add: scan_ok_def)
    note step = evict_scan_step [OF inv c False, of n fb ev]
    consider (pin) "m_refs (a_slots s ! ?h) > 0"
      | (prot) "m_refs (a_slots s ! ?h) = 0" "m_retain_until (a_slots s ! ?h) \<noteq> 0"
      | (ref) "m_refs (a_slots s ! ?h) = 0" "m_retain_until (a_slots s ! ?h) = 0" "m_referenced (a_slots s ! ?h)"
      | (take) "m_refs (a_slots s ! ?h) = 0" "m_retain_until (a_slots s ! ?h) = 0" "\<not> m_referenced (a_slots s ! ?h)"
      by blast
    then show ?thesis
    proof cases
      case pin
      with step Suc.prems(4) have "evict_scan n c fb ?t ev = (out, s', ev')" by simp
      then show ?thesis using Suc.IH [OF t _ fb(1)] c evicts_trans [OF e(1), of s' ev'] by simp
    next
      case prot
      with step Suc.prems(4) have "evict_scan n c fb ?t1 ev = (out, s', ev')" by simp
      then show ?thesis using Suc.IH [OF _ _ fb(2)] t c evicts_trans [OF e(2), of s' ev'] by simp
    next
      case ref
      have fb2: "scan_ok (if fb = kNoSlot then ?h else fb) ?t2"
        using Suc.prems(3) ref hL by (auto simp: scan_ok_def live_set_def nth_upd)
      from ref step Suc.prems(4)
      have "evict_scan n c (if fb = kNoSlot then ?h else fb) ?t2 ev = (out, s', ev')" by simp
      then show ?thesis using Suc.IH [OF t2 _ fb2] c evicts_trans [OF e(3), of s' ev'] by simp
    next
      case take
      obtain ok s3 ev3 where r: "evict_slot ?h ?t ev = (ok, s3, ev3)" by (rule prod_cases3)
      note S = evict_slot_correct [OF t _ _ _ r]
      have "evict_scan (Suc n) c fb s ev = (Scan_Return ok, s3, ev3)" using take step r by simp
      then have eq: "out = Scan_Return ok" "s' = s3" "ev' = ev3" using Suc.prems(4) by simp_all
      show ?thesis using S hL take evicts_trans [OF e(1), of s3 ev3] unfolding eq by simp
    qed
  qed
qed

lemma EvictOneFrom_correct:
  assumes inv: "inv_moving s H" and c: "c < length (a_classes s)" and r: "EvictOneFrom c s ev = (ok, s', ev')"
  shows "inv_moving s' H" "evicts s s' ev ev'" "length ev' = length ev + of_bool ok"
proof -
  have "inv_moving s' H \<and> evicts s s' ev ev' \<and> length ev' = length ev + of_bool ok"
  proof (cases "c_resident_count (a_classes s ! c) = 0")
    case True
    with r inv show ?thesis by (auto simp: EvictOneFrom_def evicts_refl)
  next
    case False
    obtain out s1 ev1 where sc: "evict_scan (2 * c_resident_count (a_classes s ! c) + 2) c kNoSlot s ev = (out, s1, ev1)"
      by (rule prod_cases3)
    note S = evict_scan_correct [OF inv c _ sc]
    have S': "inv_moving s1 H" "evicts s s1 ev ev1" using S by (simp_all add: scan_ok_def)
    show ?thesis
    proof (cases out)
      case (Scan_Return ok1)
      with sc r False S show ?thesis by (auto simp: EvictOneFrom_def Let_def scan_ok_def)
    next
      case (Scan_End fb)
      then have fb: "ev1 = ev" "scan_ok fb s1" using S by (auto simp: scan_ok_def)
      have E: "(ok, s', ev') = (if fb \<noteq> kNoSlot \<and> m_live (a_slots s1 ! fb) then evict_slot fb s1 ev1 else (False, s1, ev1))"
        using sc r False Scan_End by (simp add: EvictOneFrom_def Let_def)
      show ?thesis
      proof (cases "fb \<noteq> kNoSlot \<and> m_live (a_slots s1 ! fb)")
        case True
        then have "evict_slot fb s1 ev1 = (ok, s', ev')" using E by simp
        from evict_slot_correct [OF S'(1) _ _ _ this] True fb S'(2) show ?thesis
          by (auto simp: scan_ok_def intro: evicts_trans)
      qed (use E S' fb in auto)
    qed
  qed
  then show "inv_moving s' H" "evicts s s' ev ev'" "length ev' = length ev + of_bool ok" by auto
qed

subsection \<open>Second chance\<close>

text \<open>
  \<open>sweep s c ys\<close>: starting at the hand of class \<open>c\<close>, one lap of the ring meets the entries \<open>ys\<close>.
\<close>

definition sweep :: "'w SlabAllocator \<Rightarrow> nat \<Rightarrow> nat list \<Rightarrow> bool" where
  "sweep s c ys \<longleftrightarrow> (\<exists>as bs. linked m_class_next m_class_prev (a_slots s) (c_ring_head (a_classes s ! c)) (as @ bs) \<and>
     bs \<noteq> [] \<and> c_hand (a_classes s ! c) = hd bs \<and> ys = bs @ as)"

lemma sweep_exists:
  assumes inv: "inv_moving s H" and c: "c < length (a_classes s)" "c_resident_count (a_classes s ! c) \<noteq> 0"
  shows "\<exists>ys. sweep s c ys \<and> set ys = in_cls (a_slots s) (live_set (a_slots s)) c \<and>
    length ys = c_resident_count (a_classes s ! c)"
proof -
  have "ring m_class_next m_class_prev (a_slots s) (c_ring_head (a_classes s ! c)) (c_hand (a_classes s ! c))
      (in_cls (a_slots s) (live_set (a_slots s)) c)"
    and card: "c_resident_count (a_classes s ! c) = card (in_cls (a_slots s) (live_set (a_slots s)) c)"
    using inv c(1) by (auto simp: inv_moving_def inv_at_def class_rings_def)
  then obtain xs where xs: "linked m_class_next m_class_prev (a_slots s) (c_ring_head (a_classes s ! c)) xs"
    "set xs = in_cls (a_slots s) (live_set (a_slots s)) c" by (auto simp: ring_def)
  have "c_hand (a_classes s ! c) \<in> set xs" using class_members(3) [OF inv c] xs(2) by simp
  then obtain as bs where ab: "xs = as @ c_hand (a_classes s ! c) # bs" by (metis split_list)
  have "distinct xs" using xs(1) by (simp add: linked_def)
  then have "length xs = c_resident_count (a_classes s ! c)" using distinct_card xs(2) card by metis
  moreover have "sweep s c ((c_hand (a_classes s ! c) # bs) @ as)"
    unfolding sweep_def using xs(1) ab by (intro exI [of _ as] exI [of _ "c_hand (a_classes s ! c) # bs"]) simp
  ultimately show ?thesis using xs(2) ab
    by (intro exI [of _ "(c_hand (a_classes s ! c) # bs) @ as"]) auto
qed

lemma sweep_distinct: "sweep s c ys \<Longrightarrow> distinct ys \<and> set ys \<subseteq> {..<length (a_slots s)}"
  by (auto simp: sweep_def linked_def)

lemma sweep_step:
  assumes sw: "sweep s c (y # ys)" and c: "c < length (a_classes s)"
  shows "c_hand (a_classes s ! c) = y" "sweep (move_hand c s) c (ys @ [y])"
proof -
  obtain as bs where ab: "linked m_class_next m_class_prev (a_slots s) (c_ring_head (a_classes s ! c)) (as @ y # bs)"
    "c_hand (a_classes s ! c) = y" "ys = bs @ as"
  proof -
    obtain as bs where ab: "linked m_class_next m_class_prev (a_slots s) (c_ring_head (a_classes s ! c)) (as @ bs)"
      "bs \<noteq> []" "c_hand (a_classes s ! c) = hd bs" "y # ys = bs @ as"
      using sw unfolding sweep_def by blast
    then obtain bs' where "bs = y # bs'" by (cases bs) auto
    with ab that show thesis by simp
  qed
  show "c_hand (a_classes s ! c) = y" by (fact ab(2))
  have n: "m_class_next (a_slots s ! y) = hd_or kNoSlot bs" "c_ring_head (a_classes s ! c) = hd_or y as"
    using linked_parts(2,3) [OF ab(1)] by simp_all
  have no: "kNoSlot \<notin> set bs" using ab(1) by (auto simp: linked_def)
  let ?h = "cyc_next (m_class_next (a_slots s ! y)) (c_ring_head (a_classes s ! c))"
  show "sweep (move_hand c s) c (ys @ [y])"
  proof (cases bs)
    case Nil
    then have "?h = hd (as @ [y])" using n by (cases as) (auto simp: cyc_next_def)
    then show ?thesis unfolding sweep_def using ab c Nil
      by (intro exI [of _ "[]"] exI [of _ "as @ [y]"]) (simp add: nth_upd)
  next
    case (Cons b bs')
    then have "?h = b" using n no by (auto simp: cyc_next_def)
    then show ?thesis unfolding sweep_def using ab c Cons
      by (intro exI [of _ "as @ [y]"] exI [of _ bs]) (simp add: nth_upd)
  qed
qed

lemma sweep_mark: "sweep (upd_slot i (\<lambda>m. m\<lparr>m_referenced := b\<rparr>) s) c ys = sweep s c ys"
proof -
  have "linked m_class_next m_class_prev (upd_nth (a_slots s) i (\<lambda>m. m\<lparr>m_referenced := b\<rparr>)) h xs \<longleftrightarrow>
      linked m_class_next m_class_prev (a_slots s) h xs" for h xs
    by (intro linked_cong) (simp_all add: nth_upd)
  then show ?thesis by (simp add: sweep_def)
qed

definition free_entry :: "'w SlabAllocator \<Rightarrow> nat \<Rightarrow> bool" where
  "free_entry s i \<longleftrightarrow> m_refs (a_slots s ! i) = 0 \<and> m_retain_until (a_slots s ! i) = 0"

text \<open>
  The victim CLOCK second chance prescribes for a lap \<open>ys\<close>: the first entry without a reference
  bit among those that may be evicted, or the first that may be evicted when all carry the bit.
\<close>

definition clock_victim :: "'w SlabAllocator \<Rightarrow> nat list \<Rightarrow> nat option" where
  "clock_victim s ys =
     (case List.find (\<lambda>i. free_entry s i \<and> \<not> m_referenced (a_slots s ! i)) ys of
        Some i \<Rightarrow> Some i
      | None \<Rightarrow> List.find (free_entry s) ys)"

lemma evict_slot_outcome:
  assumes "evict_slot i s ev = (ok, s', ev')"
  shows "ev' = (if ok then ev @ [m_key (a_slots s ! i)] else ev)" "on_slot_evict (a_opt s) = None \<Longrightarrow> ok"
    "ok = fst (call_slot_evict (m_ref (a_slots s ! i)) s)"
  using assms by (auto simp: evict_slot_def Let_def call_slot_evict_def split: if_splits prod.splits option.splits)

lemma resident_count_pos:
  assumes inv: "inv_moving s H" and c: "c < length (a_classes s)" and i: "i \<in> in_cls (a_slots s) (live_set (a_slots s)) c"
  shows "c_resident_count (a_classes s ! c) \<noteq> 0"
proof -
  have "finite (in_cls (a_slots s) (live_set (a_slots s)) c)" by (simp add: in_cls_def live_set_def)
  then show ?thesis using inv c i by (auto simp: inv_moving_def inv_at_def class_rings_def)
qed

text \<open>
  What the scan returns when its victim is the entry \<open>v\<close>: the outcome of evicting \<open>v\<close> in a state
  that differs from the one at the start in hands, marks and counters only.
\<close>

definition scan_same :: "nat \<Rightarrow> 'w SlabAllocator \<Rightarrow> 'w SlabAllocator \<Rightarrow> bool" where
  "scan_same c s t \<longleftrightarrow> a_opt t = a_opt s \<and> a_world t = a_world s \<and> length (a_classes t) = length (a_classes s) \<and>
     c_ext_rr (a_classes t ! c) = c_ext_rr (a_classes s ! c) \<and> a_unbound t = a_unbound s \<and>
     (\<forall>j. m_key (a_slots t ! j) = m_key (a_slots s ! j) \<and> m_ref (a_slots t ! j) = m_ref (a_slots s ! j))"

definition scan_hits :: "nat \<Rightarrow> nat \<Rightarrow> 'w SlabAllocator \<Rightarrow> BlockKey list \<Rightarrow> scan_outcome \<times> 'w SlabAllocator \<times> BlockKey list \<Rightarrow> bool" where
  "scan_hits v c s ev res \<longleftrightarrow> (\<exists>t ok s' ev'. scan_same c s t \<and> evict_slot v t ev = (ok, s', ev') \<and> res = (Scan_Return ok, s', ev'))"

lemma scan_same_trans: "scan_same c s t \<Longrightarrow> scan_same c t u \<Longrightarrow> scan_same c s u"
  by (simp add: scan_same_def)

lemma scan_hits_cong: "scan_same c s t \<Longrightarrow> scan_hits v c t ev res \<Longrightarrow> scan_hits v c s ev res"
  using scan_same_trans unfolding scan_hits_def by blast

text \<open>Passing over the entry at the hand.\<close>

definition pass_over :: "nat \<Rightarrow> 'w SlabAllocator \<Rightarrow> 'w SlabAllocator" where
  "pass_over c s =
     (let h = c_hand (a_classes s ! c); t = move_hand c s
      in if m_refs (a_slots s ! h) > 0 then t
         else if m_retain_until (a_slots s ! h) \<noteq> 0 then t\<lparr>a_retain_evict_skipped := a_retain_evict_skipped s + 1\<rparr>
         else upd_slot h (\<lambda>m. m\<lparr>m_referenced := False\<rparr>) t)"

lemma pass_over_correct:
  assumes inv: "inv_moving s H" and c: "c < length (a_classes s)" and sw: "sweep s c (y # ys)"
    and mem: "set (y # ys) = in_cls (a_slots s) (live_set (a_slots s)) c"
  defines "t \<equiv> pass_over c s"
  shows "inv_moving t H" "c < length (a_classes t)" "sweep t c (ys @ [y])"
    "set (ys @ [y]) = in_cls (a_slots t) (live_set (a_slots t)) c"
    "scan_same c s t" "\<And>j. free_entry t j = free_entry s j"
    "\<And>j. j \<noteq> y \<Longrightarrow> m_referenced (a_slots t ! j) = m_referenced (a_slots s ! j)"
    "free_entry s y \<Longrightarrow> \<not> m_referenced (a_slots t ! y)"
    "\<not> free_entry s y \<or> m_referenced (a_slots s ! y) \<Longrightarrow> \<exists>fb'. evict_scan (Suc n) c fb s ev = evict_scan n c fb' t ev"
proof -
  have y: "y \<in> in_cls (a_slots s) (live_set (a_slots s)) c" using mem by auto
  have h: "c_hand (a_classes s ! c) = y" using sweep_step(1) [OF sw c] .
  have ne: "c_resident_count (a_classes s ! c) \<noteq> 0" using resident_count_pos [OF inv c y] .
  have t0: "inv_moving (move_hand c s) H" using class_hand_inv [OF inv c] y by blast
  have q: "quiet (\<lambda>m. m\<lparr>m_referenced := False\<rparr>)" by simp
  have yl: "y < length (a_slots s)" using y by (auto simp: in_cls_def live_set_def)
  let ?u = "upd_slot y (\<lambda>m. m\<lparr>m_referenced := False\<rparr>) (move_hand c s)"
  have mk: "inv_moving ?u H" by (rule inv_moving_quiet(1) [OF t0 q])
  have lv: "live_set (upd_nth (a_slots s) y (\<lambda>m. m\<lparr>m_referenced := False\<rparr>)) = live_set (a_slots s)"
    by (rule live_set_upd) simp
  have t: "t = move_hand c s \<or> t = (move_hand c s)\<lparr>a_retain_evict_skipped := a_retain_evict_skipped s + 1\<rparr> \<or> t = ?u"
    by (simp add: t_def pass_over_def Let_def h)
  show "inv_moving t H" using t t0 mk by (elim disjE) simp_all
  have "length (a_classes t) = length (a_classes s)" by (simp add: t_def pass_over_def Let_def)
  then show "c < length (a_classes t)" using c by simp
  have s0: "sweep (move_hand c s) c (ys @ [y])" by (rule sweep_step(2) [OF sw c])
  then have s1: "sweep ((move_hand c s)\<lparr>a_retain_evict_skipped := x\<rparr>) c (ys @ [y])" for x by (simp add: sweep_def)
  have s2: "sweep ?u c (ys @ [y])" using s0 by (simp only: sweep_mark)
  show "sweep t c (ys @ [y])" using t s0 s1 s2 by (elim disjE) simp_all
  have ic: "in_cls (a_slots t) (live_set (a_slots t)) c = in_cls (a_slots s) (live_set (a_slots s)) c"
    using t lv by (elim disjE) (auto simp: in_cls_def nth_upd)
  show "set (ys @ [y]) = in_cls (a_slots t) (live_set (a_slots t)) c" using mem ic by auto
  show "scan_same c s t" using t by (elim disjE) (simp_all add: nth_upd scan_same_def)
  show "free_entry t j = free_entry s j" for j using t by (elim disjE) (simp_all add: nth_upd free_entry_def)
  show "j \<noteq> y \<Longrightarrow> m_referenced (a_slots t ! j) = m_referenced (a_slots s ! j)" for j
    using t by (elim disjE) simp_all
  show "free_entry s y \<Longrightarrow> \<not> m_referenced (a_slots t ! y)"
    using yl by (simp add: t_def pass_over_def Let_def h free_entry_def)
  show "\<not> free_entry s y \<or> m_referenced (a_slots s ! y) \<Longrightarrow> \<exists>fb'. evict_scan (Suc n) c fb s ev = evict_scan n c fb' t ev"
    using evict_scan_step [OF inv c ne, of n fb ev]
    by (auto simp: t_def pass_over_def Let_def h free_entry_def)
qed

lemma scan_takes_hand:
  assumes inv: "inv_moving s H" and c: "c < length (a_classes s)" and sw: "sweep s c (v # ys)"
    and mem: "set (v # ys) = in_cls (a_slots s) (live_set (a_slots s)) c"
    and v: "free_entry s v" "\<not> m_referenced (a_slots s ! v)"
  shows "scan_hits v c s ev (evict_scan (Suc n) c fb s ev)"
proof -
  have h: "c_hand (a_classes s ! c) = v" using sweep_step(1) [OF sw c] .
  have ne: "c_resident_count (a_classes s ! c) \<noteq> 0" using resident_count_pos [OF inv c, of v] mem by auto
  obtain ok s3 ev3 where r: "evict_slot v (move_hand c s) ev = (ok, s3, ev3)" by (rule prod_cases3)
  have "evict_scan (Suc n) c fb s ev = (Scan_Return ok, s3, ev3)"
    using evict_scan_step [OF inv c ne, of n fb ev] v r by (simp add: h free_entry_def)
  moreover have "scan_same c s (move_hand c s)" by (simp add: scan_same_def nth_upd)
  ultimately show ?thesis using r by (auto simp: scan_hits_def)
qed

lemma scan_first_unreferenced:
  assumes "inv_moving s H" "c < length (a_classes s)" "sweep s c (as @ v # bs)"
    "set (as @ v # bs) = in_cls (a_slots s) (live_set (a_slots s)) c"
    "free_entry s v" "\<not> m_referenced (a_slots s ! v)"
    "\<forall>a\<in>set as. \<not> (free_entry s a \<and> \<not> m_referenced (a_slots s ! a))" "length as < n"
  shows "scan_hits v c s ev (evict_scan n c fb s ev)"
  using assms
proof (induction as arbitrary: s bs fb n)
  case Nil
  then obtain m where n: "n = Suc m" by (cases n) auto
  show ?case unfolding n using Nil.prems by (intro scan_takes_hand) auto
next
  case (Cons a as)
  obtain m where n: "n = Suc m" "length as < m" using Cons.prems(8) by (cases n) auto
  let ?t = "pass_over c s"
  note P = pass_over_correct [OF Cons.prems(1,2) Cons.prems(3,4) [unfolded append_Cons]]
  have d: "distinct (a # as @ v # bs)" using sweep_distinct Cons.prems(3) by fastforce
  obtain fb' where e: "evict_scan (Suc m) c fb s ev = evict_scan m c fb' ?t ev"
    using P(9) [of m fb ev] Cons.prems(7) by auto
  have kept: "m_referenced (a_slots ?t ! x) = m_referenced (a_slots s ! x)" if "x \<in> set (as @ v # bs)" for x
    by (rule P(7)) (use d that in auto)
  have "scan_hits v c ?t ev (evict_scan m c fb' ?t ev)"
  proof (rule Cons.IH [where bs = "bs @ [a]"])
    show "\<forall>x\<in>set as. \<not> (free_entry ?t x \<and> \<not> m_referenced (a_slots ?t ! x))"
      using Cons.prems(7) P(6) kept by auto
  qed (use P n d Cons.prems(5,6) in auto)
  then show ?case unfolding n(1) e using P(5) scan_hits_cong by blast
qed

lemma scan_first_referenced:
  assumes "inv_moving s H" "c < length (a_classes s)" "sweep s c (as @ v # bs)"
    "set (as @ v # bs) = in_cls (a_slots s) (live_set (a_slots s)) c"
    "free_entry s v" "\<forall>a\<in>set as. \<not> free_entry s a"
    "\<forall>a\<in>set (as @ v # bs). free_entry s a \<longrightarrow> m_referenced (a_slots s ! a)"
    "length as + length (as @ v # bs) < n"
  shows "scan_hits v c s ev (evict_scan n c fb s ev)"
  using assms
proof (induction as arbitrary: s bs fb n)
  case Nil
  obtain m where n: "n = Suc m" "length bs < m" using Nil.prems(8) by (cases n) auto
  let ?t = "pass_over c s"
  note P = pass_over_correct [OF Nil.prems(1,2) Nil.prems(3,4) [unfolded append_Nil]]
  have d: "distinct (v # bs)" using sweep_distinct Nil.prems(3) by fastforce
  obtain fb' where e: "evict_scan (Suc m) c fb s ev = evict_scan m c fb' ?t ev"
    using P(9) [of m fb ev] Nil.prems(5,7) by auto
  have kept: "m_referenced (a_slots ?t ! x) = m_referenced (a_slots s ! x)" if "x \<in> set bs" for x
    by (rule P(7)) (use d that in auto)
  have "scan_hits v c ?t ev (evict_scan m c fb' ?t ev)"
  proof (rule scan_first_unreferenced [where as = bs and bs = "[]"])
    show "\<forall>x\<in>set bs. \<not> (free_entry ?t x \<and> \<not> m_referenced (a_slots ?t ! x))"
      using Nil.prems(7) P(6) kept by auto
  qed (use P n Nil.prems(5) in auto)
  then show ?case unfolding n(1) e using P(5) scan_hits_cong by blast
next
  case (Cons a as)
  obtain m where n: "n = Suc m" "length as + length (as @ v # bs @ [a]) < m" using Cons.prems(8) by (cases n) auto
  let ?t = "pass_over c s"
  note P = pass_over_correct [OF Cons.prems(1,2) Cons.prems(3,4) [unfolded append_Cons]]
  have d: "distinct (a # as @ v # bs)" using sweep_distinct Cons.prems(3) by fastforce
  have na: "\<not> free_entry s a" using Cons.prems(6) by simp
  obtain fb' where e: "evict_scan (Suc m) c fb s ev = evict_scan m c fb' ?t ev"
    using P(9) [of m fb ev] na by auto
  have kept: "m_referenced (a_slots ?t ! x) = m_referenced (a_slots s ! x)" if "x \<in> set (as @ v # bs)" for x
    by (rule P(7)) (use d that in auto)
  have "scan_hits v c ?t ev (evict_scan m c fb' ?t ev)"
  proof (rule Cons.IH [where bs = "bs @ [a]"])
    show "\<forall>x\<in>set (as @ v # bs @ [a]). free_entry ?t x \<longrightarrow> m_referenced (a_slots ?t ! x)"
      using Cons.prems(7) P(6) kept na by auto
  qed (use P n d Cons.prems(5,6) in auto)
  then show ?case unfolding n(1) e using P(5) scan_hits_cong by blast
qed

lemma find_split: "List.find P xs = Some x \<Longrightarrow> \<exists>as bs. xs = as @ x # bs \<and> P x \<and> (\<forall>a\<in>set as. \<not> P a)"
proof (induction xs)
  case (Cons y ys)
  show ?case
  proof (cases "P y")
    case True
    with Cons.prems show ?thesis by (intro exI [of _ "[]"] exI [of _ ys]) simp
  next
    case False
    with Cons obtain as bs where "ys = as @ x # bs" "P x" "\<forall>a\<in>set as. \<not> P a" by auto
    with False show ?thesis by (intro exI [of _ "y # as"] exI [of _ bs]) simp
  qed
qed simp

lemma EvictOneFrom_victim:
  assumes inv: "inv_moving s H" and c: "c < length (a_classes s)" and sw: "sweep s c ys"
    and mem: "set ys = in_cls (a_slots s) (live_set (a_slots s)) c" and len: "length ys = c_resident_count (a_classes s ! c)"
    and v: "clock_victim s ys = Some v" and r: "EvictOneFrom c s ev = (ok, s', ev')"
  shows "\<exists>t. scan_same c s t \<and> evict_slot v t ev = (ok, s', ev')"
proof -
  let ?n = "2 * c_resident_count (a_classes s ! c) + 2"
  have "scan_hits v c s ev (evict_scan ?n c kNoSlot s ev)"
  proof (cases "List.find (\<lambda>i. free_entry s i \<and> \<not> m_referenced (a_slots s ! i)) ys")
    case (Some i)
    then have "i = v" using v by (simp add: clock_victim_def)
    then obtain as bs where ab: "ys = as @ v # bs" "free_entry s v \<and> \<not> m_referenced (a_slots s ! v)"
      "\<forall>a\<in>set as. \<not> (free_entry s a \<and> \<not> m_referenced (a_slots s ! a))"
      using find_split [OF Some] by blast
    show ?thesis by (rule scan_first_unreferenced [OF inv c sw [unfolded ab(1)] mem [unfolded ab(1)]])
        (use ab len in auto)
  next
    case None
    then have f: "List.find (free_entry s) ys = Some v" using v by (simp add: clock_victim_def)
    then obtain as bs where ab: "ys = as @ v # bs" "free_entry s v" "\<forall>a\<in>set as. \<not> free_entry s a"
      using find_split [OF f] by blast
    show ?thesis by (rule scan_first_referenced [OF inv c sw [unfolded ab(1)] mem [unfolded ab(1)] ab(2,3)])
        (use None ab(1) len in \<open>auto simp: find_None_iff\<close>)
  qed
  then obtain t ok1 s1 ev1 where t: "scan_same c s t" "evict_slot v t ev = (ok1, s1, ev1)"
    "evict_scan ?n c kNoSlot s ev = (Scan_Return ok1, s1, ev1)" by (auto simp: scan_hits_def)
  moreover have "ys \<noteq> []" using sw by (auto simp: sweep_def)
  then have "c_resident_count (a_classes s ! c) \<noteq> 0" using len by (metis length_0_conv)
  ultimately have "ok1 = ok" "s1 = s'" "ev1 = ev'" using r by (auto simp: EvictOneFrom_def Let_def)
  with t(1,2) show ?thesis by auto
qed

lemma scan_blocked:
  assumes "inv_moving s H" "c < length (a_classes s)" "\<forall>i\<in>in_cls (a_slots s) (live_set (a_slots s)) c. \<not> free_entry s i"
  shows "\<exists>s'. evict_scan n c fb s ev = (Scan_End fb, s', ev)"
  using assms
proof (induction n arbitrary: s)
  case (Suc n)
  show ?case
  proof (cases "c_resident_count (a_classes s ! c) = 0")
    case True
    then show ?thesis by (simp add: evict_scan.simps(2))
  next
    case False
    note M = class_members [OF Suc.prems(1,2) False]
    let ?t = "move_hand c s" and ?h = "c_hand (a_classes s ! c)"
    let ?t1 = "?t\<lparr>a_retain_evict_skipped := a_retain_evict_skipped s + 1\<rparr>"
    have t: "inv_moving ?t H" using class_hand_inv [OF Suc.prems(1,2) M(1)] .
    have IH: "\<exists>s'. evict_scan n c fb ?t ev = (Scan_End fb, s', ev)" "\<exists>s'. evict_scan n c fb ?t1 ev = (Scan_End fb, s', ev)"
      by (rule Suc.IH; use t Suc.prems in \<open>simp add: free_entry_def\<close>)+
    have "\<not> free_entry s ?h" using Suc.prems(3) M(3) by blast
    with IH show ?thesis
      using evict_scan_step [OF Suc.prems(1,2) False, of n fb ev] by (auto simp: free_entry_def)
  qed
qed simp

lemma EvictOneFrom_blocked:
  assumes "inv_moving s H" "c < length (a_classes s)" "\<forall>i\<in>in_cls (a_slots s) (live_set (a_slots s)) c. \<not> free_entry s i"
    and "EvictOneFrom c s ev = (ok, s', ev')"
  shows "\<not> ok \<and> ev' = ev"
  using assms(4) scan_blocked [OF assms(1-3), of "2 * c_resident_count (a_classes s ! c) + 2" kNoSlot ev]
  by (auto simp: EvictOneFrom_def Let_def split: if_splits)

lemma clock_victim_Some: "clock_victim s ys = Some v \<Longrightarrow> v \<in> set ys \<and> free_entry s v"
  by (auto simp: clock_victim_def find_Some_iff split: option.splits)

lemma clock_victim_None: "clock_victim s ys = None \<longleftrightarrow> (\<forall>i\<in>set ys. \<not> free_entry s i)"
  by (auto simp: clock_victim_def find_None_iff dest: find_split split: option.splits)

end
