(* ===== verification/Slab_Steal.thy ===== *)
theory Slab_Steal
  imports Slab_Evict
begin

text \<open>
  Moving extents between classes: binding a free extent, wiping and rebinding a bound one, the
  choice of the donor extent, and the two background sweeps built on eviction. A steal evicts
  only residents that are neither pinned nor protected, ends with the extent bound to the target
  class and gives that class a free slot.
\<close>

subsection \<open>Residents of an extent\<close>

lemma extent_residents:
  assumes inv: "inv_moving s H" and e: "e < length (a_extents s)"
  defines "A \<equiv> at_ext (a_slots s) (live_set (a_slots s)) e"
  shows "finite A" "e_resident_head (a_extents s ! e) = kNoSlot \<longleftrightarrow> A = {}"
    "A \<noteq> {} \<Longrightarrow> e_resident_head (a_extents s ! e) \<in> A" "card A \<le> length (a_slots s)"
    "e_pinned (a_extents s ! e) = 0 \<Longrightarrow> e_protected_slots (a_extents s ! e) = 0 \<Longrightarrow> i \<in> A \<Longrightarrow> free_entry s i"
proof -
  have sub: "A \<subseteq> {..<length (a_slots s)}" by (auto simp: A_def at_ext_def live_set_def)
  show fin: "finite A" using sub finite_subset by blast
  show "card A \<le> length (a_slots s)" using card_mono [OF _ sub] by simp
  obtain xs where xs: "linked m_extent_next m_extent_prev (a_slots s) (e_resident_head (a_extents s ! e)) xs" "set xs = A"
    using inv e by (auto simp: inv_moving_def inv_at_def extent_lists_def A_def)
  then have hd: "e_resident_head (a_extents s ! e) = hd_or kNoSlot xs" "kNoSlot \<notin> set xs" by (auto simp: linked_def)
  show "e_resident_head (a_extents s ! e) = kNoSlot \<longleftrightarrow> A = {}" "A \<noteq> {} \<Longrightarrow> e_resident_head (a_extents s ! e) \<in> A"
    using hd xs(2) by (cases xs; auto)+
  assume z: "e_pinned (a_extents s ! e) = 0" "e_protected_slots (a_extents s ! e) = 0" "i \<in> A"
  have "e_pinned (a_extents s ! e) = (\<Sum>i\<in>A. of_bool (m_refs (a_slots s ! i) > 0))"
    "e_protected_slots (a_extents s ! e) = (\<Sum>i\<in>A. of_bool (m_retain_until (a_slots s ! i) \<noteq> 0))"
    using inv e by (simp_all add: inv_moving_def inv_at_def pins_ok_def prot_ok_def A_def)
  then show "free_entry s i" using z fin by (auto simp: free_entry_def)
qed

lemma FreeSlotLocked_extent_cls:
  "e_cls (a_extents (FreeSlotLocked i s) ! d) = e_cls (a_extents s ! d) \<or>
   d = ref_extent (m_ref (a_slots s ! i)) \<and> e_cls (a_extents (FreeSlotLocked i s) ! d) = None"
  by (auto simp: FreeSlotLocked_mid Let_def release_extent_def nth_list_upd free_mid_extent_cls empty_extent_def)

lemma wipe_extent_correct:
  assumes "inv_moving s H" "e < length (a_extents s)" "\<forall>i\<in>at_ext (a_slots s) (live_set (a_slots s)) e. free_entry s i"
    "card (at_ext (a_slots s) (live_set (a_slots s)) e) \<le> n" "wipe_extent n e s ev = (s', ev')"
  shows "inv_moving s' H \<and> evicts s s' ev ev' \<and> at_ext (a_slots s') (live_set (a_slots s')) e = {} \<and>
    (e_cls (a_extents s' ! e) = e_cls (a_extents s ! e) \<or> e_cls (a_extents s' ! e) = None) \<and>
    (\<forall>k r. residents s k = Some r \<longrightarrow> residents s' k = None \<longrightarrow> ref_extent (r_ref r) = e)"
  using assms
proof (induction n arbitrary: s ev)
  case 0
  then have "at_ext (a_slots s) (live_set (a_slots s)) e = {}" using extent_residents(1) [OF 0(1,2)] by simp
  with 0 show ?case by (auto simp: evicts_refl)
next
  case (Suc n)
  note R = extent_residents [OF Suc.prems(1,2)]
  let ?i = "e_resident_head (a_extents s ! e)"
  show ?case
  proof (cases "?i = kNoSlot")
    case True
    with R(2) Suc.prems show ?thesis by (auto simp: evicts_refl)
  next
    case False
    let ?s1 = "FreeSlotLocked ?i s"
    let ?t = "?s1\<lparr>a_evictions := a_evictions ?s1 + 1\<rparr>"
    have iA: "?i \<in> at_ext (a_slots s) (live_set (a_slots s)) e" using R(2,3) False by blast
    then have iL: "?i \<in> live_set (a_slots s)" "ref_extent (m_ref (a_slots s ! ?i)) = e" by (auto simp: at_ext_def)
    have fe: "free_entry s ?i" using Suc.prems(3) iA by blast
    note F = FreeSlotLocked_inv [OF Suc.prems(1) iL(1)]
    have A: "at_ext (a_slots ?t) (live_set (a_slots ?t)) e = at_ext (a_slots s) (live_set (a_slots s)) e - {?i}"
      using F(2,5) by (auto simp: at_ext_def abs_meta_def)
    have w: "wipe_extent n e ?t (ev @ [m_key (a_slots s ! ?i)]) = (s', ev')"
      using Suc.prems(5) False by (simp add: Let_def)
    have I: "inv_moving s' H \<and> evicts ?t s' (ev @ [m_key (a_slots s ! ?i)]) ev' \<and>
      at_ext (a_slots s') (live_set (a_slots s')) e = {} \<and>
      (e_cls (a_extents s' ! e) = e_cls (a_extents ?t ! e) \<or> e_cls (a_extents s' ! e) = None) \<and>
      (\<forall>k r. residents ?t k = Some r \<longrightarrow> residents s' k = None \<longrightarrow> ref_extent (r_ref r) = e)"
    proof (rule Suc.IH [OF _ _ _ _ w])
      show "inv_moving ?t H" using F(1) by simp
      show "e < length (a_extents ?t)" using Suc.prems(2) F(4) by (simp add: stable_def)
      show "\<forall>i\<in>at_ext (a_slots ?t) (live_set (a_slots ?t)) e. free_entry ?t i"
        unfolding A using Suc.prems(3) F(5) by (auto simp: free_entry_def abs_meta_def)
      show "card (at_ext (a_slots ?t) (live_set (a_slots ?t)) e) \<le> n"
        unfolding A using Suc.prems(4) iA R(1) by simp
    qed
    have E: "evicts s ?t ev (ev @ [m_key (a_slots s ! ?i)])"
      using free_evicts [OF Suc.prems(1) iL(1), of ev] fe by (simp add: free_entry_def evicts_def)
    have "ref_extent (r_ref r) = e" if k: "residents s k = Some r" "residents s' k = None" for k r
    proof (cases "k = m_key (a_slots s ! ?i)")
      case True
      then have "r = abs_meta (a_slots s ! ?i)" using k(1) live_resident [OF Suc.prems(1) iL(1)] by simp
      then show ?thesis using iL(2) by (simp add: abs_meta_def)
    next
      case False
      then have "residents ?t k = Some r" using k(1) F(3) by simp
      then show ?thesis using I k(2) by blast
    qed
    then show ?thesis using I evicts_trans [OF E] FreeSlotLocked_extent_cls [of ?i s e] by auto
  qed
qed

subsection \<open>Binding and rebinding\<close>

lemma bind_frame [simp]:
  "a_slots (bind_extent c e s) = a_slots s" "a_index (bind_extent c e s) = a_index s"
  "a_free_slot_meta_head (bind_extent c e s) = a_free_slot_meta_head s" "a_opt (bind_extent c e s) = a_opt s"
  "length (a_classes (bind_extent c e s)) = length (a_classes s)"
  "length (a_extents (bind_extent c e s)) = length (a_extents s)"
  by (simp_all add: bind_extent_def Let_def)

lemma release_moving:
  assumes "inv_moving s H" "e < length (a_extents s)" "e_cls (a_extents s ! e) = Some c"
    "at_ext (a_slots s) (live_set (a_slots s)) e = {}"
  shows "inv_moving (release_extent c e s) H" "residents (release_extent c e s) = residents s"
    "e_cls (a_extents (release_extent c e s) ! e) = None"
  using assms release_extent_inv [of s "live_set (a_slots s)" H e c]
  by (auto simp: inv_moving_def release_extent_def empty_extent_def intro: residents_eqI)

lemma stable_bind: "stable s (bind_extent c e s)"
  by (simp add: stable_def bind_extent_def Let_def nth_upd)

lemma bind_moving:
  assumes inv: "inv_moving s H" and e: "e < length (a_extents s)" "e_cls (a_extents s ! e) = None"
    and c: "c < length (a_classes s)" and H: "\<And>x. (e, x) \<notin> H"
  shows "inv_moving (bind_extent c e s) H" "residents (bind_extent c e s) = residents s"
    "frees (a_classes (bind_extent c e s) ! c) = (frees (a_classes s ! c))(e := {..<c_slots_per_extent (a_classes s ! c)})"
    "\<And>d. d \<noteq> c \<Longrightarrow> frees (a_classes (bind_extent c e s) ! d) = frees (a_classes s ! d)"
proof -
  show "inv_moving (bind_extent c e s) H"
    using inv bind_extent_inv [OF _ e c H, of "live_set (a_slots s)"] by (simp add: inv_moving_def)
  show "residents (bind_extent c e s) = residents s" by (rule residents_eqI) simp_all
  have po: "pools_ok (a_classes s) (a_extents s)" using inv by (simp add: inv_moving_def inv_at_def)
  note po = pools_okD [OF po c]
  have "frees (a_classes s ! c) e = {}" using po(3) [of _ e] e(2) by fastforce
  then show "frees (a_classes (bind_extent c e s) ! c) = (frees (a_classes s ! c))(e := {..<c_slots_per_extent (a_classes s ! c)})"
    using fp.push_all [of "(a_classes s ! c)\<lparr>c_bound_extents := c_bound_extents (a_classes s ! c) + 1\<rparr>"
        "[0..<c_slots_per_extent (a_classes s ! c)]" e] po(1) c
    by (auto simp: bind_extent_def Let_def nth_upd atLeast0LessThan)
  show "\<And>d. d \<noteq> c \<Longrightarrow> frees (a_classes (bind_extent c e s) ! d) = frees (a_classes s ! d)"
    by (simp add: bind_extent_def Let_def)
qed

lemma slots_per_extent_stable:
  assumes "inv_moving s H" "inv_moving s' H'" "stable s s'" "c < length (a_classes s)"
  shows "c_slots_per_extent (a_classes s' ! c) = c_slots_per_extent (a_classes s ! c)"
proof -
  have "c_slots_per_extent (a_classes t ! c) = o_extent_bytes (a_opt t) div c_slot_size (a_classes t ! c)"
    if "inv_moving t K" "c < length (a_classes t)" for t :: "'a SlabAllocator" and K
    using that by (auto simp: inv_moving_def inv_at_def geometry_def)
  with assms show ?thesis by (simp add: stable_def)
qed

text \<open>\<open>some_free s c\<close>: class \<open>c\<close> has a free slot in some extent.\<close>

definition some_free :: "'w SlabAllocator \<Rightarrow> nat \<Rightarrow> bool" where
  "some_free s c \<longleftrightarrow> (\<exists>e. frees (a_classes s ! c) e \<noteq> {})"

lemma StealExtentLocked_correct:
  assumes inv: "slab_inv s" and e: "e < length (a_extents s)" and r: "StealExtentLocked e c s ev = (res, s', ev')"
  shows "slab_inv s'" "evicts s s' ev ev'"
    "res \<noteq> kBound \<Longrightarrow> ev' = ev \<and> (\<exists>w. s' = s\<lparr>a_world := w\<rparr>)" "res = kUnavailable \<Longrightarrow> s' = s"
    "on_extent_bind (a_opt s) = None \<Longrightarrow> res \<noteq> kPersistenceError"
    "res = kUnavailable \<Longrightarrow> e_cls (a_extents s ! e) = None \<or> c \<ge> length (a_classes s) \<or> c_slots_per_extent (a_classes s ! c) = 0 \<or>
       e_pinned (a_extents s ! e) \<noteq> 0 \<or> e_protected_slots (a_extents s ! e) \<noteq> 0"
    "res = kBound \<Longrightarrow> some_free s' c \<and> c < length (a_classes s) \<and> e_cls (a_extents s' ! e) = Some c \<and>
       (\<forall>k r. residents s k = Some r \<longrightarrow> residents s' k = None \<longrightarrow> ref_extent (r_ref r) = e)"
proof -
  let ?E = "a_extents s ! e"
  have "slab_inv s' \<and> evicts s s' ev ev' \<and> (res \<noteq> kBound \<longrightarrow> ev' = ev \<and> (\<exists>w. s' = s\<lparr>a_world := w\<rparr>)) \<and>
      (res = kUnavailable \<longrightarrow> s' = s) \<and> (on_extent_bind (a_opt s) = None \<longrightarrow> res \<noteq> kPersistenceError) \<and>
      (res = kUnavailable \<longrightarrow> e_cls ?E = None \<or> c \<ge> length (a_classes s) \<or> c_slots_per_extent (a_classes s ! c) = 0 \<or>
        e_pinned ?E \<noteq> 0 \<or> e_protected_slots ?E \<noteq> 0) \<and>
      (res = kBound \<longrightarrow> some_free s' c \<and> c < length (a_classes s) \<and> e_cls (a_extents s' ! e) = Some c \<and>
       (\<forall>k r. residents s k = Some r \<longrightarrow> residents s' k = None \<longrightarrow> ref_extent (r_ref r) = e))"
  proof (cases "e_cls ?E = None \<or> c \<ge> length (a_classes s) \<or> c_slots_per_extent (a_classes s ! c) = 0 \<or>
      e_pinned ?E \<noteq> 0 \<or> e_protected_slots ?E \<noteq> 0")
    case True
    then have "StealExtentLocked e c s ev = (kUnavailable, s, ev)"
      by (cases "e_cls ?E") (auto simp: StealExtentLocked_def Let_def)
    then have "res = kUnavailable" "s' = s" "ev' = ev" using r by simp_all
    moreover have "s = s\<lparr>a_world := a_world s\<rparr>" by simp
    ultimately show ?thesis using inv evicts_refl True by blast
  next
    case False
    then obtain old where old: "e_cls ?E = Some old" by auto
    obtain ok s1 where cb: "call_extent_bind e s = (ok, s1)" by fastforce
    then obtain w where w: "s1 = s\<lparr>a_world := w\<rparr>" using call_extent_bind_world by blast
    show ?thesis
    proof (cases ok)
      case nok: False
      then have "on_extent_bind (a_opt s) \<noteq> None" using cb by (auto simp: call_extent_bind_def split: option.splits)
      with nok False old cb r inv w show ?thesis
        by (auto simp: StealExtentLocked_def Let_def slab_inv_def intro: evicts_same)
    next
      case True
      have inv1: "inv_moving s1 {}" using inv by (simp add: w slab_inv_def)
      obtain s2 ev2 where wp: "wipe_extent (length (a_slots s1)) e s1 ev = (s2, ev2)" by fastforce
      define s3 where "s3 = (if e_cls (a_extents s2 ! e) \<noteq> None then release_extent old e s2 else s2)"
      have W: "inv_moving s2 {} \<and> evicts s1 s2 ev ev2 \<and> at_ext (a_slots s2) (live_set (a_slots s2)) e = {} \<and>
        (e_cls (a_extents s2 ! e) = e_cls (a_extents s1 ! e) \<or> e_cls (a_extents s2 ! e) = None) \<and>
        (\<forall>k r. residents s1 k = Some r \<longrightarrow> residents s2 k = None \<longrightarrow> ref_extent (r_ref r) = e)"
      proof (rule wipe_extent_correct [OF inv1 _ _ _ wp])
        show "e < length (a_extents s1)" using e by (simp add: w)
        then show "\<forall>i\<in>at_ext (a_slots s1) (live_set (a_slots s1)) e. free_entry s1 i"
          "card (at_ext (a_slots s1) (live_set (a_slots s1)) e) \<le> length (a_slots s1)"
          using extent_residents(4,5) [OF inv1, of e] False by (auto simp: w)
      qed
      have st2: "stable s s2" using W by (auto simp: evicts_def w stable_def)
      have e2: "e < length (a_extents s2)" using e st2 by (simp add: stable_def)
      have R: "e_cls (a_extents s2 ! e) = Some old \<Longrightarrow> inv_moving (release_extent old e s2) {}"
        using release_moving(1) [OF _ e2, of "{}" old] W by blast
      have s3: "inv_moving s3 {}" "residents s3 = residents s2" "e_cls (a_extents s3 ! e) = None" "stable s2 s3" "e < length (a_extents s3)"
        using W old R e2 stable_release [of s2 old e]
        by (auto simp: s3_def w release_extent_def empty_extent_def intro: residents_eqI)
      have st3: "stable s s3" using st2 s3(4) stable_trans by blast
      have c3: "c < length (a_classes s3)" using False st3 by (simp add: stable_def)
      have spe: "c_slots_per_extent (a_classes s3 ! c) = c_slots_per_extent (a_classes s ! c)"
        using slots_per_extent_stable [OF _ s3(1) st3] inv False by (simp add: slab_inv_def)
      note B = bind_moving [OF s3(1,5,3) c3]
      have res: "res = kBound" "ev' = ev2"
          "s' = (bind_extent c e s3)\<lparr>a_steals := a_steals (bind_extent c e s3) + 1\<rparr>"
      proof -
        have "BindExtentLocked c e True s3 = (kBound, bind_extent c e s3)"
          using s3(3,5) c3 spe False by (simp add: BindExtentLocked_def)
        moreover have "(res, s', ev') = (case BindExtentLocked c e True s3 of (result, s4) \<Rightarrow>
            (result, (if result = kBound then s4\<lparr>a_steals := a_steals s4 + 1\<rparr> else s4), ev2))"
          unfolding s3_def using r False old cb True wp by (simp add: StealExtentLocked_def Let_def)
        ultimately show "res = kBound" "ev' = ev2"
          "s' = (bind_extent c e s3)\<lparr>a_steals := a_steals (bind_extent c e s3) + 1\<rparr>" by simp_all
      qed
      have "evicts s2 s' ev2 ev2"
        by (rule evicts_same) (use B(2) s3(2,4) stable_trans [OF s3(4) stable_bind, of c e] in \<open>simp_all add: res(3)\<close>)
      moreover have "evicts s s2 ev ev2" using W by (auto simp: evicts_def w stable_def)
      ultimately have "evicts s s' ev ev'" using evicts_trans res(2) by blast
      moreover have "some_free s' c" using B(3) spe False by (auto simp: some_free_def res(3) intro: exI [of _ e])
      moreover have "e_cls (a_extents s' ! e) = Some c" using s3(5) by (simp add: res(3) bind_extent_def Let_def)
      moreover have "residents s' = residents s2" using B(2) s3(2) by (simp add: res(3))
      ultimately show ?thesis using W B(1) False res(1) by (auto simp: slab_inv_def w res(3))
    qed
  qed
  then show "slab_inv s'" "evicts s s' ev ev'"
    "res \<noteq> kBound \<Longrightarrow> ev' = ev \<and> (\<exists>w. s' = s\<lparr>a_world := w\<rparr>)" "res = kUnavailable \<Longrightarrow> s' = s"
    "on_extent_bind (a_opt s) = None \<Longrightarrow> res \<noteq> kPersistenceError"
    "res = kUnavailable \<Longrightarrow> e_cls (a_extents s ! e) = None \<or> c \<ge> length (a_classes s) \<or> c_slots_per_extent (a_classes s ! c) = 0 \<or>
       e_pinned (a_extents s ! e) \<noteq> 0 \<or> e_protected_slots (a_extents s ! e) \<noteq> 0"
    "res = kBound \<Longrightarrow> some_free s' c \<and> c < length (a_classes s) \<and> e_cls (a_extents s' ! e) = Some c \<and>
       (\<forall>k r. residents s k = Some r \<longrightarrow> residents s' k = None \<longrightarrow> ref_extent (r_ref r) = e)"
    by blast+
qed

subsection \<open>The choice of the donor extent\<close>

lemma foldl_least:
  fixes key :: "nat \<Rightarrow> 'a::linorder" and P :: "nat \<Rightarrow> bool"
  defines "step \<equiv> \<lambda>best e. if \<not> P e then best else (case best of None \<Rightarrow> Some e | Some b \<Rightarrow> if key e < key b then Some e else best)"
  shows "case foldl step None xs of None \<Rightarrow> \<forall>e\<in>set xs. \<not> P e
    | Some b \<Rightarrow> b \<in> set xs \<and> P b \<and> (\<forall>e\<in>set xs. P e \<longrightarrow> key b \<le> key e)"
  by (induction xs rule: rev_induct) (auto simp: step_def split: option.splits)

lemma foldl_fuse:
  assumes "\<And>best e. f (map_option h best) e = map_option h (g best e)"
  shows "foldl f (map_option h z) xs = map_option h (foldl g z xs)"
  by (induction xs arbitrary: z) (simp_all add: assms)

text \<open>
  \<^verbatim>\<open>StealsBeforeLocked\<close> is the strict order of a key: empty extents first, then the mean access
  sequence of the residents, the decayed heat and the useful bytes.
\<close>

definition steal_key :: "'w SlabAllocator \<Rightarrow> ExtentMeta \<Rightarrow> bool \<times> rat \<times> nat \<times> nat" where
  "steal_key s E = (e_resident_count E \<noteq> 0,
     if e_resident_count E = 0 then 0 else of_nat (e_access_seq_sum E) / of_nat (e_resident_count E),
     ExtentHeatLocked s E, e_useful_bytes E)"

lemma StealsBeforeLocked_key: "StealsBeforeLocked s a b \<longleftrightarrow> steal_key s a < steal_key s b"
proof (cases "e_resident_count a = 0 \<or> e_resident_count b = 0")
  case True
  then show ?thesis by (auto simp: StealsBeforeLocked_def steal_key_def Let_def)
next
  case False
  let ?m = "\<lambda>E. of_nat (e_access_seq_sum E) / of_nat (e_resident_count E) :: rat"
  have lt: "?m a < ?m b \<longleftrightarrow> e_access_seq_sum a * e_resident_count b < e_access_seq_sum b * e_resident_count a"
    using False by (simp add: divide_simps flip: of_nat_mult)
  have eq: "?m a = ?m b \<longleftrightarrow> e_access_seq_sum a * e_resident_count b = e_access_seq_sum b * e_resident_count a"
    using False by (simp add: divide_simps mult.commute flip: of_nat_mult)
  show ?thesis using False lt eq by (auto simp: StealsBeforeLocked_def steal_key_def Let_def)
qed

lemma pick_extent_least:
  "case pick_extent s P of None \<Rightarrow> \<forall>e<length (a_extents s). \<not> P e
   | Some b \<Rightarrow> b < length (a_extents s) \<and> P b \<and>
       (\<forall>e<length (a_extents s). P e \<longrightarrow> steal_key s (a_extents s ! b) \<le> steal_key s (a_extents s ! e))"
  unfolding pick_extent_def StealsBeforeLocked_key
  using foldl_least [where P = P and key = "\<lambda>e. steal_key s (a_extents s ! e)" and xs = "[0..<length (a_extents s)]"]
  by (auto split: option.splits)

definition cold_key :: "'w SlabAllocator \<Rightarrow> ExtentMeta \<Rightarrow> nat \<times> nat \<times> nat" where
  "cold_key s E = (ExtentHeatLocked s E, e_useful_bytes E, e_youngest_seq E)"

definition cold_eligible :: "nat \<Rightarrow> nat \<Rightarrow> ExtentMeta \<Rightarrow> bool" where
  "cold_eligible c cold_before E \<longleftrightarrow> e_cls E \<noteq> None \<and> e_cls E \<noteq> Some c \<and> e_pinned E = 0 \<and> e_protected_slots E = 0 \<and>
     e_resident_count E \<noteq> 0 \<and> e_youngest_seq E < cold_before"

lemma cold_pick_least:
  "case cold_pick c cold_before s of None \<Rightarrow> \<forall>e<length (a_extents s). \<not> cold_eligible c cold_before (a_extents s ! e)
   | Some (b, _) \<Rightarrow> b < length (a_extents s) \<and> cold_eligible c cold_before (a_extents s ! b) \<and>
       (\<forall>e<length (a_extents s). cold_eligible c cold_before (a_extents s ! e) \<longrightarrow>
          cold_key s (a_extents s ! b) \<le> cold_key s (a_extents s ! e))"
proof -
  let ?P = "\<lambda>e. cold_eligible c cold_before (a_extents s ! e)" and ?k = "\<lambda>e. cold_key s (a_extents s ! e)"
  let ?step = "\<lambda>best e. if \<not> ?P e then best else (case best of None \<Rightarrow> Some e | Some b \<Rightarrow> if ?k e < ?k b then Some e else best)"
  have "cold_pick c cold_before s = map_option (\<lambda>e. (e, ?k e)) (foldl ?step None [0..<length (a_extents s)])"
    unfolding cold_pick_def
    by (rule foldl_fuse [where z = None, unfolded option.map(1)])
      (auto simp: cold_eligible_def cold_key_def Let_def not_le split: option.splits)
  with foldl_least [where P = ?P and key = ?k and xs = "[0..<length (a_extents s)]"] show ?thesis by (auto split: option.splits)
qed

subsection \<open>Steals\<close>

text \<open>The contract shared by the steals for class \<open>c\<close>.\<close>

definition steal_ok :: "nat \<Rightarrow> 'w SlabAllocator \<Rightarrow> BlockKey list \<Rightarrow> ExtentBindResult \<times> 'w SlabAllocator \<times> BlockKey list \<Rightarrow> bool" where
  "steal_ok c s ev out \<longleftrightarrow> (case out of (res, s', ev') \<Rightarrow>
     slab_inv s' \<and> evicts s s' ev ev' \<and> (res = kUnavailable \<longrightarrow> s' = s \<and> ev' = ev) \<and>
     (res = kPersistenceError \<longrightarrow> ev' = ev \<and> residents s' = residents s) \<and>
     (on_extent_bind (a_opt s) = None \<longrightarrow> res \<noteq> kPersistenceError) \<and> (res = kBound \<longrightarrow> some_free s' c))"

lemma steal_ok_unavailable: "slab_inv s \<Longrightarrow> steal_ok c s ev (kUnavailable, s, ev)"
  by (simp add: steal_ok_def evicts_refl)

lemma StealExtentLocked_ok:
  assumes "slab_inv s" "e < length (a_extents s)"
  shows "steal_ok c s ev (StealExtentLocked e c s ev)"
proof -
  obtain res s' ev' where r: "StealExtentLocked e c s ev = (res, s', ev')" by (rule prod_cases3)
  note S = StealExtentLocked_correct [OF assms r]
  have "res = kPersistenceError \<longrightarrow> ev' = ev \<and> residents s' = residents s"
    using S(3) by (metis ExtentBindResult.distinct residents_counters(8))
  moreover have "res = kUnavailable \<longrightarrow> s' = s \<and> ev' = ev" using S(3,4) by (metis ExtentBindResult.distinct)
  ultimately show ?thesis unfolding r steal_ok_def using S(1,2,5,7) by blast
qed

lemma StealExtentFor_ok:
  assumes "slab_inv s"
  shows "steal_ok c s ev (StealExtentFor c m s ev)"
proof -
  define P where "P = (\<lambda>e. let E = a_extents s ! e in case e_cls E of None \<Rightarrow> False
      | Some d \<Rightarrow> d \<noteq> c \<and> e_pinned E = 0 \<and> e_protected_slots E = 0 \<and> \<not> (m > 0 \<and> c_bound_extents (a_classes s ! d) \<le> m))"
  have "StealExtentFor c m s ev = (case pick_extent s P of None \<Rightarrow> (kUnavailable, s, ev) | Some b \<Rightarrow> StealExtentLocked b c s ev)"
    by (simp add: StealExtentFor_def P_def)
  then show ?thesis
    using pick_extent_least [of s P] StealExtentLocked_ok [OF assms] steal_ok_unavailable [OF assms]
    by (auto split: option.splits)
qed

lemma StealColdExtentFor_ok:
  assumes "slab_inv s"
  shows "steal_ok c s ev (StealColdExtentFor c s ev)"
proof (cases "StealColdExtentFor c s ev = (kUnavailable, s, ev)")
  case True
  then show ?thesis using steal_ok_unavailable [OF assms] by simp
next
  case False
  then obtain cb b x where cp: "cold_pick c cb s = Some (b, x)"
    "StealColdExtentFor c s ev = (case StealExtentLocked b c s ev of (res, s1, ev1) \<Rightarrow>
       (res, (if res = kBound then s1\<lparr>a_cold_steals := a_cold_steals s1 + 1\<rparr> else s1), ev1))"
    by (auto simp: StealColdExtentFor_def Let_def split: if_splits option.splits)
  then have "b < length (a_extents s)" using cold_pick_least [where c = c and cold_before = cb and s = s] by simp
  then have ok: "steal_ok c s ev (StealExtentLocked b c s ev)" using StealExtentLocked_ok [OF assms] by blast
  obtain res s1 ev1 where r: "StealExtentLocked b c s ev = (res, s1, ev1)" by (rule prod_cases3)
  show ?thesis using ok by (auto simp: cp(2) r steal_ok_def slab_inv_def evicts_def some_free_def)
qed

lemma StealFrom_ok:
  assumes "slab_inv s" "StealFrom donor c s ev = (ok, s', ev')"
  shows "\<exists>res. steal_ok c s ev (res, s', ev') \<and> ok = (res = kBound)"
proof -
  define P where "P = (\<lambda>e. let E = a_extents s ! e in e_cls E = Some donor \<and> e_pinned E = 0 \<and> e_protected_slots E = 0)"
  consider "ok = False" "s' = s" "ev' = ev"
    | b where "pick_extent s P = Some b" "\<exists>res. StealExtentLocked b c s ev = (res, s', ev') \<and> ok = (res = kBound)"
    using assms(2) by (auto simp: StealFrom_def P_def [symmetric] split: if_splits option.splits prod.splits)
  then show ?thesis
  proof cases
    case 1
    then show ?thesis using steal_ok_unavailable [OF assms(1), of c ev] by (intro exI [of _ kUnavailable]) simp
  next
    case 2
    then have "b < length (a_extents s)" using pick_extent_least [of s P] by simp
    then show ?thesis using StealExtentLocked_ok [OF assms(1), of b c ev] 2(2) by metis
  qed
qed

subsection \<open>Free extents\<close>

lemma class_geometry:
  assumes "inv_moving s H" "c < length (a_classes s)"
  shows "0 < c_slot_size (a_classes s ! c)" "c_slot_size (a_classes s ! c) \<le> o_extent_bytes (a_opt s)"
    "c_slots_per_extent (a_classes s ! c) = o_extent_bytes (a_opt s) div c_slot_size (a_classes s ! c)"
    "0 < c_slots_per_extent (a_classes s ! c)" "o_align (a_opt s) \<le> c_slot_size (a_classes s ! c)"
    "c_slot_size (a_classes s ! c) \<le> max_aligned (a_opt s)"
proof -
  have C: "a_classes s ! c \<in> set (a_classes s)" using assms(2) by simp
  show a: "0 < c_slot_size (a_classes s ! c)" "o_align (a_opt s) \<le> c_slot_size (a_classes s ! c)"
    "c_slots_per_extent (a_classes s ! c) = o_extent_bytes (a_opt s) div c_slot_size (a_classes s ! c)"
    "c_slot_size (a_classes s ! c) \<le> max_aligned (a_opt s)"
    using assms(1) C by (auto simp: inv_moving_def inv_at_def geometry_def dest: less_le_trans)
  then show "c_slot_size (a_classes s ! c) \<le> o_extent_bytes (a_opt s)" using max_aligned_bounds(1) le_trans by blast
  then show "0 < c_slots_per_extent (a_classes s ! c)" using a by (simp add: div_greater_zero_iff)
qed

definition bind_ok :: "nat \<Rightarrow> 'w SlabAllocator \<Rightarrow> 'w SlabAllocator \<Rightarrow> bool" where
  "bind_ok c s s' \<longleftrightarrow> slab_inv s' \<and> residents s' = residents s \<and> stable s s' \<and> (some_free s c \<longrightarrow> some_free s' c)"

lemma bind_ok_refl: "slab_inv s \<Longrightarrow> bind_ok c s s"
  by (simp add: bind_ok_def)

lemma bind_ok_trans: "bind_ok c s t \<Longrightarrow> bind_ok c t u \<Longrightarrow> bind_ok c s u"
  using stable_trans by (auto simp: bind_ok_def)

lemma BindFreeExtent_ok:
  assumes inv: "slab_inv s" and c: "c < length (a_classes s)" and r: "BindFreeExtent c s = (res, s')"
  shows "bind_ok c s s'" "res = kBound \<Longrightarrow> some_free s' c" "res = kUnavailable \<Longrightarrow> a_unbound s = 0 \<and> s' = s"
    "on_extent_bind (a_opt s) = None \<Longrightarrow> res \<noteq> kPersistenceError"
proof -
  have im: "inv_moving s {}" using inv by (simp add: slab_inv_def)
  have "bind_ok c s s' \<and> (res = kBound \<longrightarrow> some_free s' c) \<and> (res = kUnavailable \<longrightarrow> a_unbound s = 0 \<and> s' = s) \<and>
    (on_extent_bind (a_opt s) = None \<longrightarrow> res \<noteq> kPersistenceError)"
  proof (cases "a_unbound s = 0")
    case True
    with r inv show ?thesis by (auto simp: BindFreeExtent_def bind_ok_refl)
  next
    case False
    have "a_unbound s = card {e. e < length (a_extents s) \<and> e_cls (a_extents s ! e) = None}"
      using im by (simp add: inv_moving_def inv_at_def binding_ok_def)
    with False obtain d where "d < length (a_extents s)" "e_cls (a_extents s ! d) = None"
      by (metis (mono_tags, lifting) card.empty empty_Collect_eq)
    then obtain e where f: "List.find (\<lambda>e. e_cls (a_extents s ! e) = None) [0..<length (a_extents s)] = Some e"
      by (cases "List.find (\<lambda>e. e_cls (a_extents s ! e) = None) [0..<length (a_extents s)]") (auto simp: find_None_iff)
    then have e: "e < length (a_extents s)" "e_cls (a_extents s ! e) = None" by (auto simp: find_Some_iff)
    obtain ok s1 where cb: "call_extent_bind e s = (ok, s1)" by fastforce
    then obtain w where w: "s1 = s\<lparr>a_world := w\<rparr>" using call_extent_bind_world by blast
    have nocb: "on_extent_bind (a_opt s) = None \<Longrightarrow> ok" using cb by (simp add: call_extent_bind_def)
    have im1: "inv_moving s1 {}" using im by (simp add: w)
    note B = bind_moving [OF im1, of e c]
    have out: "(res, s') = (if ok then (kBound, bind_extent c e s1) else (kPersistenceError, s1))"
      using r False f c e cb class_geometry(4) [OF im c]
      by (simp add: BindFreeExtent_def BindExtentLocked_def split: if_splits)
    show ?thesis
    proof (cases ok)
      case True
      then have "res = kBound" "s' = bind_extent c e s1" using out by simp_all
      moreover have "some_free (bind_extent c e s1) c"
        using B(3) c e class_geometry(4) [OF im c] by (auto simp: some_free_def w intro!: exI [of _ e])
      moreover have "stable s (bind_extent c e s1)" using stable_bind [of s1 c e] by (simp add: w stable_def)
      ultimately show ?thesis using B(1,2) c e by (simp add: bind_ok_def slab_inv_def w)
    next
      case nok: False
      then show ?thesis using out im nocb by (auto simp: w bind_ok_def slab_inv_def some_free_def)
    qed
  qed
  then show "bind_ok c s s'" "res = kBound \<Longrightarrow> some_free s' c" "res = kUnavailable \<Longrightarrow> a_unbound s = 0 \<and> s' = s"
    "on_extent_bind (a_opt s) = None \<Longrightarrow> res \<noteq> kPersistenceError" by blast+
qed

lemma bind_stripes_ok:
  assumes "slab_inv s" "c < length (a_classes s)" "bind_stripes c s = (res, s')"
  shows "bind_ok c s s' \<and> (res = kUnavailable \<longrightarrow> a_unbound s' = 0) \<and>
    (res = kBound \<longrightarrow> length (c_ext_rr (a_classes s' ! c)) \<ge> kStripeWays) \<and>
    (on_extent_bind (a_opt s) = None \<longrightarrow> res \<noteq> kPersistenceError)"
  using assms
proof (induction c s rule: bind_stripes.induct)
  case (1 c s)
  show ?case
  proof (cases "length (c_ext_rr (a_classes s ! c)) < kStripeWays")
    case False
    with 1 show ?thesis by (subst (asm) (2) bind_stripes.simps) (auto simp: bind_ok_refl)
  next
    case True
    obtain r1 s1 where b: "BindFreeExtent c s = (r1, s1)" by fastforce
    note B = BindFreeExtent_ok [OF 1(2,3) b]
    have l: "c < length (a_classes s1)" "slab_inv s1" "a_opt s1 = a_opt s" using B(1) 1(3) by (auto simp: bind_ok_def stable_def)
    show ?thesis
    proof (cases "r1 = kBound")
      case bound: True
      then have "bind_stripes c s1 = (res, s')" using 1(4) True b by (subst (asm) bind_stripes.simps) simp
      from 1(1) [OF True b [symmetric] bound l(2,1) this] bind_ok_trans [OF B(1)] l(3) show ?thesis by auto
    next
      case nb: False
      then have "res = r1" "s' = s1" using 1(4) True b by (subst (asm) bind_stripes.simps, simp)+
      with B nb show ?thesis by auto
    qed
  qed
qed

subsection \<open>When no extent can be taken\<close>

definition held_extent :: "'w SlabAllocator \<Rightarrow> nat \<Rightarrow> bool" where
  "held_extent s e \<longleftrightarrow> (\<exists>k r. residents s k = Some r \<and> ref_extent (r_ref r) = e \<and> \<not> evictable r)"

lemma sum_pos_bool: "0 < (\<Sum>i\<in>A. of_bool (P i) :: nat) \<Longrightarrow> \<exists>i\<in>A. P i"
  by (rule ccontr) (simp add: sum.neutral)

lemma held_extentI:
  assumes inv: "inv_moving s H" and e: "e < length (a_extents s)" and h: "e_pinned (a_extents s ! e) \<noteq> 0 \<or> e_protected_slots (a_extents s ! e) \<noteq> 0"
  shows "held_extent s e"
proof -
  let ?A = "at_ext (a_slots s) (live_set (a_slots s)) e"
  have "e_pinned (a_extents s ! e) = (\<Sum>i\<in>?A. of_bool (m_refs (a_slots s ! i) > 0))"
    "e_protected_slots (a_extents s ! e) = (\<Sum>i\<in>?A. of_bool (m_retain_until (a_slots s ! i) \<noteq> 0))"
    using inv e by (simp_all add: inv_moving_def inv_at_def pins_ok_def prot_ok_def)
  then have "\<not> (\<forall>i\<in>?A. \<not> m_refs (a_slots s ! i) > 0 \<and> \<not> m_retain_until (a_slots s ! i) \<noteq> 0)"
    using h sum_pos_bool [where A = ?A and P = "\<lambda>i. m_refs (a_slots s ! i) > 0"]
      sum_pos_bool [where A = ?A and P = "\<lambda>i. m_retain_until (a_slots s ! i) \<noteq> 0"] by auto
  then obtain i where i: "i \<in> live_set (a_slots s)" "ref_extent (m_ref (a_slots s ! i)) = e"
    "m_refs (a_slots s ! i) > 0 \<or> m_retain_until (a_slots s ! i) \<noteq> 0" by (auto simp: at_ext_def)
  show ?thesis unfolding held_extent_def
    using live_resident [OF inv i(1)] i(2,3)
    by (intro exI [of _ "m_key (a_slots s ! i)"] exI [of _ "abs_meta (a_slots s ! i)"]) (auto simp: abs_meta_def evictable_def)
qed

lemma StealExtentFor_unavailable:
  assumes inv: "slab_inv s" and c: "c < length (a_classes s)" and r: "StealExtentFor c 0 s ev = (kUnavailable, s', ev')"
    and e: "e < length (a_extents s)" "e_cls (a_extents s ! e) = Some d" "d \<noteq> c"
  shows "held_extent s e"
proof -
  define P where "P = (\<lambda>e. let E = a_extents s ! e in case e_cls E of None \<Rightarrow> False
      | Some d \<Rightarrow> d \<noteq> c \<and> e_pinned E = 0 \<and> e_protected_slots E = 0 \<and> \<not> ((0::nat) > 0 \<and> c_bound_extents (a_classes s ! d) \<le> 0))"
  have im: "inv_moving s {}" using inv by (simp add: slab_inv_def)
  have S: "StealExtentFor c 0 s ev = (case pick_extent s P of None \<Rightarrow> (kUnavailable, s, ev) | Some b \<Rightarrow> StealExtentLocked b c s ev)"
    by (simp add: StealExtentFor_def P_def)
  have "pick_extent s P = None"
  proof (rule ccontr)
    assume "pick_extent s P \<noteq> None"
    then obtain b where b: "pick_extent s P = Some b" by blast
    then have "b < length (a_extents s)" "P b" using pick_extent_least [of s P] by auto
    moreover have "StealExtentLocked b c s ev = (kUnavailable, s', ev')" using S r b by simp
    ultimately show False using StealExtentLocked_correct(6) [OF inv] class_geometry(4) [OF im c] c
      by (fastforce simp: P_def Let_def split: option.splits)
  qed
  then have "\<not> P e" using pick_extent_least [of s P] e(1) by simp
  then show ?thesis using held_extentI [OF im e(1)] e(2,3) by (auto simp: P_def Let_def)
qed

end
