(* ===== verification/Slab_Reclaim.thy ===== *)
theory Slab_Reclaim
  imports Slab_Steal
begin

text \<open>
  The two background sweeps: \<^verbatim>\<open>ReclaimClass\<close> refills the free slots of one class and
  \<^verbatim>\<open>EvictColdToTarget\<close> lowers the used bytes along the global ring. Both report exactly what they
  evict, stay within their victim bound and stop at their target.
\<close>

subsection \<open>Refilling a class\<close>

lemma reclaim_loop_ok:
  assumes "slab_inv s" "c < length (a_classes s)" "reclaim_loop n c target r s ev = (r', s', ev')"
  shows "slab_inv s' \<and> evicts s s' ev ev' \<and> r' = r + (length ev' - length ev) \<and> r' \<le> r + n"
  using assms
proof (induction n arbitrary: r s ev)
  case 0
  then show ?case by (auto simp: evicts_refl)
next
  case (Suc n)
  show ?case
  proof (cases "\<not> c_free_count (a_classes s ! c) < target \<or> a_unbound s > 0")
    case True
    with Suc.prems show ?thesis by (auto simp: evicts_refl)
  next
    case False
    obtain ok s1 ev1 where e: "EvictOneFrom c s ev = (ok, s1, ev1)" by (rule prod_cases3)
    have inv: "inv_moving s {}" using Suc.prems(1) by (simp add: slab_inv_def)
    note E = EvictOneFrom_correct [OF inv Suc.prems(2) e]
    have l: "c < length (a_classes s1)" "slab_inv s1" using E(1,2) Suc.prems(2) by (auto simp: evicts_def stable_def slab_inv_def)
    show ?thesis
    proof (cases "\<not> ok \<or> c_free_count (a_classes s1 ! c) \<le> c_free_count (a_classes s ! c)")
      case True
      with Suc.prems(3) False e E l show ?thesis by (auto split: if_splits)
    next
      case go: False
      then have "reclaim_loop n c target (r + 1) s1 ev1 = (r', s', ev')" using Suc.prems(3) False e by simp
      from Suc.IH [OF l(2,1) this] have I: "slab_inv s'" "evicts s1 s' ev1 ev'" "r' = r + 1 + (length ev' - length ev1)" "r' \<le> r + 1 + n"
        by auto
      have "length ev1 \<le> length ev'" using I(2) by (auto simp: evicts_def)
      then show ?thesis using I go E(3) evicts_trans [OF E(2) I(2)] by auto
    qed
  qed
qed

lemma ReclaimClass_ok:
  assumes "slab_inv s" "ReclaimClass c target n s ev = (r, s', ev')"
  shows "slab_inv s' \<and> evicts s s' ev ev' \<and> r = length ev' - length ev \<and> r \<le> n"
  using assms reclaim_loop_ok [OF assms(1), of c n target 0 ev r s' ev']
  by (auto simp: ReclaimClass_def evicts_refl split: if_splits)

subsection \<open>The watermark sweep\<close>

text \<open>The used bytes are those of the resident keys.\<close>

lemma used_bytes_residents:
  assumes "inv_moving s H"
  shows "a_used_bytes s = (\<Sum>k\<in>dom (residents s). ref_slot_size (r_ref (the (residents s k))))"
proof -
  let ?L = "live_set (a_slots s)" and ?k = "\<lambda>i. m_key (a_slots s ! i)"
  have "bij_betw ?k ?L (dom (residents s))"
  proof (rule bij_betwI')
    show "?k i = ?k j \<longleftrightarrow> i = j" if "i \<in> ?L" "j \<in> ?L" for i j
      using that inv_moving_index(2) [OF assms] by (metis option.inject)
    show "?k i \<in> dom (residents s)" if "i \<in> ?L" for i using live_resident [OF assms that] by auto
    show "\<exists>i\<in>?L. k = ?k i" if "k \<in> dom (residents s)" for k
      using that inv_moving_index(2) [OF assms] by (auto simp: residents_def)
  qed
  then have "(\<Sum>k\<in>dom (residents s). ref_slot_size (r_ref (the (residents s k)))) =
      (\<Sum>i\<in>?L. ref_slot_size (r_ref (the (residents s (?k i)))))" by (rule sum.reindex_bij_betw [symmetric])
  also have "\<dots> = (\<Sum>i\<in>?L. ref_slot_size (m_ref (a_slots s ! i)))"
    using live_resident [OF assms] by (intro sum.cong) (simp_all add: abs_meta_def)
  finally show ?thesis using assms by (simp add: inv_moving_def inv_at_def bytes_ok_def)
qed

lemma evicts_nothing: "evicts s s' ev ev \<Longrightarrow> residents s' = residents s"
  by (auto simp: evicts_def restrict_map_def)

lemma used_bytes_entry:
  assumes "inv_moving s H" "i \<in> live_set (a_slots s)"
  shows "a_used_bytes (FreeSlotLocked i s) + o_extent_bytes (a_opt s) \<ge> a_used_bytes s"
proof -
  let ?L = "live_set (a_slots s)" and ?r = "\<lambda>j. ref_slot_size (m_ref (a_slots s ! j))"
  have u: "a_used_bytes s = sum ?r ?L" and sp: "space_ok (a_slots s) (a_classes s) (a_extents s) ?L H"
    using assms(1) by (auto simp: inv_moving_def inv_at_def bytes_ok_def)
  note F = FreeSlotLocked_inv [OF assms]
  have "a_used_bytes (FreeSlotLocked i s) = (\<Sum>j\<in>?L - {i}. ref_slot_size (m_ref (a_slots (FreeSlotLocked i s) ! j)))"
    using F(1,2) by (simp add: inv_moving_def inv_at_def bytes_ok_def)
  also have "\<dots> = sum ?r (?L - {i})" using F(5) by (intro sum.cong) (auto simp: abs_meta_def)
  finally have "a_used_bytes s = a_used_bytes (FreeSlotLocked i s) + ?r i"
    using assms(2) u by (simp add: sum.remove live_set_def)
  moreover have "?r i \<le> o_extent_bytes (a_opt s)"
    using space_okD(3,4) [OF sp assms(2)] class_geometry(2) [OF assms(1)] by simp
  ultimately show ?thesis by simp
qed

lemma cold_loop_ok:
  assumes "slab_inv s" "cold_loop n target m f s ev = (f', s', ev')" "f \<le> m"
  shows "slab_inv s' \<and> evicts s s' ev ev' \<and> f' = f + (length ev' - length ev) \<and> f' \<le> m \<and>
    (ev' \<noteq> ev \<longrightarrow> target < a_used_bytes s' + o_extent_bytes (a_opt s))"
  using assms
proof (induction n arbitrary: f s ev)
  case 0
  then show ?case by (auto simp: evicts_refl)
next
  case (Suc n)
  show ?case
  proof (cases "f < m \<and> a_used_bytes s > target \<and> a_global_hand s \<noteq> kNoSlot")
    case False
    with Suc.prems show ?thesis by (auto simp: evicts_refl)
  next
    case True
    define t where "t = s\<lparr>a_watermark_scan_steps := a_watermark_scan_steps s + 1\<rparr>"
    define h where "h = a_global_hand s"
    define u where "u = t\<lparr>a_global_hand := cyc_next (m_global_next (a_slots s ! h)) (a_global_ring_head s)\<rparr>"
    define v where "v = t\<lparr>a_retain_evict_skipped := a_retain_evict_skipped t + 1,
      a_global_hand := cyc_next (m_global_next (a_slots s ! h)) (a_global_ring_head s)\<rparr>"
    have im: "inv_moving s {}" "inv_moving t {}" using Suc.prems(1) by (simp_all add: slab_inv_def t_def)
    have "inv_moving u {}" using global_hand_inv [OF im(2)] True by (simp add: u_def t_def h_def)
    moreover have "v = u\<lparr>a_retain_evict_skipped := a_retain_evict_skipped t + 1\<rparr>" by (simp add: v_def u_def)
    ultimately have inv: "slab_inv u" "slab_inv v" by (simp_all add: slab_inv_def)
    have same: "evicts s u ev ev" "evicts s v ev ev" "a_used_bytes u = a_used_bytes s" "a_opt u = a_opt s" "a_opt v = a_opt s"
      by (auto simp: u_def v_def t_def intro: evicts_same)
    have hL: "h \<in> live_set (a_slots s)"
    proof -
      have r: "ring m_global_next m_global_prev (a_slots s) (a_global_ring_head s) (a_global_hand s) (live_set (a_slots s))"
        using im(1) by (simp add: inv_moving_def inv_at_def)
      show ?thesis using ring_hand_in [OF r] ring_empty_iff [OF r] True by (auto simp: h_def)
    qed
    consider (pin) "m_refs (a_slots s ! h) > 0" | (prot) "m_refs (a_slots s ! h) = 0" "m_retain_until (a_slots s ! h) \<noteq> 0"
      | (free) "m_refs (a_slots s ! h) = 0" "m_retain_until (a_slots s ! h) = 0" by blast
    then show ?thesis
    proof cases
      case pin
      then have "cold_loop n target m f u ev = (f', s', ev')"
        using Suc.prems(2) True by (simp add: u_def t_def h_def Let_def)
      from Suc.IH [OF inv(1) this Suc.prems(3)] evicts_trans [OF same(1)] same show ?thesis by auto
    next
      case prot
      then have "cold_loop n target m f v ev = (f', s', ev')"
        using Suc.prems(2) True by (simp add: v_def u_def t_def h_def Let_def)
      from Suc.IH [OF inv(2) this Suc.prems(3)] evicts_trans [OF same(2)] same show ?thesis by auto
    next
      case free
      obtain ok s1 where cb: "call_cold_evict (a_slots s ! h) t = (ok, s1)" by fastforce
      then obtain w where w: "s1 = t\<lparr>a_world := w\<rparr>" using call_cold_evict_world by blast
      have im1: "inv_moving s1 {}" "h \<in> live_set (a_slots s1)" using im hL by (simp_all add: w t_def)
      have E1: "evicts s s1 ev ev" by (rule evicts_same) (simp_all add: w t_def)
      show ?thesis
      proof (cases ok)
        case False
        then have "f' = f" "s' = s1" "ev' = ev" using Suc.prems(2) True free cb by (simp_all add: t_def h_def Let_def)
        then show ?thesis using E1 im1 Suc.prems(3) by (simp add: slab_inv_def)
      next
        case ok: True
        define s2 where "s2 = (FreeSlotLocked h s1)\<lparr>a_evictions := a_evictions (FreeSlotLocked h s1) + 1,
          a_watermark_evictions := a_watermark_evictions (FreeSlotLocked h s1) + 1\<rparr>"
        let ?ev = "ev @ [m_key (a_slots s ! h)]"
        have l: "cold_loop n target m (f + 1) s2 ?ev = (f', s', ev')"
          using Suc.prems(2) True free cb ok by (simp add: t_def h_def s2_def Let_def)
        have inv2: "slab_inv s2" using FreeSlotLocked_inv(1) [OF im1] by (simp add: s2_def slab_inv_def)
        have "evicts s1 (FreeSlotLocked h s1) ev ?ev" using free_evicts [OF im1, of ev] free by (simp add: w t_def)
        from evicts_trans [OF E1 this] have E2: "evicts s s2 ev ?ev" by (simp add: s2_def evicts_def)
        have opt: "a_opt s2 = a_opt s" using E2 by (auto simp: evicts_def stable_def)
        have I: "slab_inv s'" "evicts s2 s' ?ev ev'" "f' = f + 1 + (length ev' - length ?ev)" "f' \<le> m"
          "ev' \<noteq> ?ev \<longrightarrow> target < a_used_bytes s' + o_extent_bytes (a_opt s2)"
          using Suc.IH [OF inv2 l] True by auto
        have low: "target < a_used_bytes s2 + o_extent_bytes (a_opt s)"
          using used_bytes_entry [OF im1] True by (simp add: s2_def w t_def)
        have idle: "a_used_bytes s' = a_used_bytes s2" if "ev' = ?ev"
          using used_bytes_residents [of s' "{}"] used_bytes_residents [of s2 "{}"] I(1,2) inv2 that
          by (simp add: evicts_nothing slab_inv_def)
        have "length ?ev \<le> length ev'" using I(2) by (auto simp: evicts_def)
        moreover have "target < a_used_bytes s' + o_extent_bytes (a_opt s)"
          using I(5) low opt idle by metis
        ultimately show ?thesis using I(1,3,4) evicts_trans [OF E2 I(2)] by auto
      qed
    qed
  qed
qed

lemma EvictColdToTarget_ok:
  assumes "slab_inv s" "EvictColdToTarget target m s ev = (f, s', ev')"
  shows "slab_inv s' \<and> evicts s s' ev ev' \<and> f = length ev' - length ev \<and> f \<le> m \<and>
    (ev' \<noteq> ev \<longrightarrow> target < a_used_bytes s' + o_extent_bytes (a_opt s))"
  using cold_loop_ok [OF assms(1)] assms(2) by (fastforce simp: EvictColdToTarget_def Let_def)

end
