(* ===== verification/Slab_Install.thy ===== *)
theory Slab_Install
  imports Slab_Reclaim
begin

text \<open>
  Admitting a resident: taking a free slot, acquiring a metadata entry, filling it in, entering
  it into the index, the rings and the extent's list, and charging the accounts. The popped slot
  is in transit between the free list and the new resident; \<open>inv_moving\<close> with that slot in its
  second argument describes the states in between.
\<close>

subsection \<open>Taking a slot off the free lists\<close>

lemma take_moving:
  assumes inv: "inv_moving s H" and c: "c < length (a_classes s)"
    and x: "x \<in> frees (a_classes s ! c) e" and C: "pool_ok C" "frees C = (frees (a_classes s ! c))(e := frees (a_classes s ! c) e - {x})"
    and same: "same_class_books (a_classes s ! c) C" "c_bound_extents C = c_bound_extents (a_classes s ! c)"
  defines "t \<equiv> upd_class c (\<lambda>_. C) s"
  shows "inv_moving t (insert (e, x) H)" "e < length (a_extents s)" "e_cls (a_extents s ! e) = Some c"
    "residents t = residents s" "stable s t"
proof -
  let ?L = "live_set (a_slots s)" and ?cs = "a_classes t"
  have V: "geometry (a_opt s) (a_classes s) (length (a_extents s))" "class_rings (a_slots s) (a_classes s) ?L"
    "pools_ok (a_classes s) (a_extents s)" "space_ok (a_slots s) (a_classes s) (a_extents s) ?L H"
    "prot_ok (a_slots s) (a_classes s) (a_extents s) (a_protected_bytes s) (a_protected_slots s) ?L"
    "bytes_ok (a_slots s) (a_classes s) (a_extents s) (a_used_bytes s) ?L"
    "binding_ok (a_classes s) (a_extents s) (a_unbound s)"
    using inv by (auto simp: inv_moving_def inv_at_def)
  note S = same_class_books_def same
  show e: "e < length (a_extents s)" "e_cls (a_extents s ! e) = Some c" using pools_okD(2,3) [OF V(3) c x] by auto
  have cs: "length ?cs = length (a_classes s)" "?cs ! d = (if d = c then C else a_classes s ! d)" for d
    using c by (auto simp: t_def nth_upd)
  have "geometry (a_opt s) ?cs (length (a_extents s))" using V(1) cs(1) by (rule geometry_cong) (use S in \<open>auto simp: cs\<close>)
  moreover have "class_rings (a_slots s) ?cs ?L" using V(2) refl cs(1) by (rule class_rings_cong) (use S in \<open>auto simp: cs\<close>)
  moreover have "pools_ok ?cs (a_extents s)"
    using pools_okD [OF V(3)] C c by (intro pools_okI) (auto simp: cs split: if_splits)
  moreover have "space_ok (a_slots s) ?cs (a_extents s) ?L (insert (e, x) H)"
    unfolding space_ok_def
  proof (intro conjI ballI allI impI)
    fix i assume "i \<in> ?L"
    then show "let r = m_ref (a_slots s ! i) in ref_extent r < length (a_extents s) \<and> e_cls (a_extents s ! ref_extent r) = Some (ref_cls r) \<and>
        ref_slot_size r = c_slot_size (?cs ! ref_cls r) \<and> ref_offset r = ref_slot r * ref_slot_size r"
      using space_okD [OF V(4), of i] S by (auto simp: Let_def cs)
  next
    fix d b assume d: "d < length (a_extents s)" "e_cls (a_extents s ! d) = Some b"
    note X = space_ok_extent [OF V(4) d]
    have spe: "c_slots_per_extent (?cs ! b) = c_slots_per_extent (a_classes s ! b)" using S by (simp add: cs)
    show "b < length ?cs" "e_total_slots (a_extents s ! d) = c_slots_per_extent (?cs ! b)"
      "e_free_slots (a_extents s ! d) + card (at_ext (a_slots s) ?L d) = e_total_slots (a_extents s ! d)"
      "inj_on (\<lambda>i. ref_slot (m_ref (a_slots s ! i))) (at_ext (a_slots s) ?L d)"
      using X(1-4) by (simp_all add: cs(1) spe)
    have fr: "frees (?cs ! b) d = (if d = e then frees (a_classes s ! b) d - {x} else frees (a_classes s ! b) d)"
      using C(2) e d pools_okD(3) [OF V(3)] by (auto simp: cs)
    have mv: "{y. (d, y) \<in> insert (e, x) H} = (if d = e then insert x {y. (d, y) \<in> H} else {y. (d, y) \<in> H})" by auto
    have "d = e \<Longrightarrow> x \<in> frees (a_classes s ! b) d" using x e(2) d(2) by simp
    then show "let free = frees (?cs ! b) d; used = (\<lambda>i. ref_slot (m_ref (a_slots s ! i))) ` at_ext (a_slots s) ?L d;
          moving = {y. (d, y) \<in> insert (e, x) H}
      in free \<inter> used = {} \<and> free \<inter> moving = {} \<and> used \<inter> moving = {} \<and>
         free \<union> used \<union> moving = {..<c_slots_per_extent (?cs ! b)}"
      unfolding Let_def fr mv spe using X(5-8) by (cases "d = e") auto
  qed
  moreover have "prot_ok (a_slots s) ?cs (a_extents s) (a_protected_bytes s) (a_protected_slots s) ?L"
    using V(5) cs(1) refl by (rule prot_ok_cong) (use S in \<open>auto simp: cs\<close>)
  moreover have "bytes_ok (a_slots s) ?cs (a_extents s) (a_used_bytes s) ?L"
    using V(6) cs(1) refl by (rule bytes_ok_cong) (use S in \<open>auto simp: cs\<close>)
  moreover have "binding_ok ?cs (a_extents s) (a_unbound s)"
    using V(7) cs(1) refl by (rule binding_ok_cong) (use same in \<open>auto simp: cs\<close>)
  ultimately show "inv_moving t (insert (e, x) H)" using inv by (simp add: inv_moving_def inv_at_def t_def)
  show "residents t = residents s" by (simp add: t_def)
  show "stable s t" using S cs by (auto simp: stable_def t_def)
qed

lemma pop_class_books:
  assumes "PopFreeLocked C = (r, C')"
  shows "same_class_books C C'" "c_bound_extents C' = c_bound_extents C"
  using assms by (auto simp: PopFreeLocked_def Let_def same_class_books_def split: if_splits)

lemma take_class_books:
  assumes "TakeFreeSlotLocked e x C = (r, C')"
  shows "same_class_books C C'" "c_bound_extents C' = c_bound_extents C"
  using assms by (auto simp: TakeFreeSlotLocked_def DropFromRotationLocked_def Let_def same_class_books_def
      split: if_splits option.splits)

lemma PopFree_moving:
  assumes inv: "inv_moving s H" and c: "c < length (a_classes s)" and pop: "PopFreeLocked (a_classes s ! c) = (Some (e, x), C)"
  shows "inv_moving (upd_class c (\<lambda>_. C) s) (insert (e, x) H)" "e < length (a_extents s)" "e_cls (a_extents s ! e) = Some c"
    "residents (upd_class c (\<lambda>_. C) s) = residents s" "stable s (upd_class c (\<lambda>_. C) s)"
proof -
  have "pools_ok (a_classes s) (a_extents s)" using inv by (simp add: inv_moving_def inv_at_def)
  then have ok: "pool_ok (a_classes s ! c)" using pools_okD(1) c by blast
  note P = pop_pool [OF ok pop] and B = pop_class_books [OF pop]
  show "inv_moving (upd_class c (\<lambda>_. C) s) (insert (e, x) H)" "e < length (a_extents s)" "e_cls (a_extents s ! e) = Some c"
    "residents (upd_class c (\<lambda>_. C) s) = residents s" "stable s (upd_class c (\<lambda>_. C) s)"
    using take_moving [OF inv c, of x e C] P B by blast+
qed

lemma PopFree_some:
  assumes "inv_moving s H" "c < length (a_classes s)"
  shows "(\<exists>p C. PopFreeLocked (a_classes s ! c) = (Some p, C)) \<longleftrightarrow> some_free s c" "c_ext_rr (a_classes s ! c) = [] \<longleftrightarrow> \<not> some_free s c"
proof -
  have "pools_ok (a_classes s) (a_extents s)" using assms by (simp add: inv_moving_def inv_at_def)
  then have ok: "pool_ok (a_classes s ! c)" using pools_okD(1) assms(2) by blast
  show "c_ext_rr (a_classes s ! c) = [] \<longleftrightarrow> \<not> some_free s c"
    using fp.rotation [OF ok] by (auto simp: some_free_def)
  then show "(\<exists>p C. PopFreeLocked (a_classes s ! c) = (Some p, C)) \<longleftrightarrow> some_free s c"
    by (auto simp: PopFreeLocked_def Let_def)
qed

subsection \<open>Room in the metadata table\<close>

text \<open>With a slot in transit the residents do not yet fill every slot of every extent.\<close>

lemma residents_below_capacity:
  assumes inv: "inv_at s L H" and e: "e < length (a_extents s)" "e_cls (a_extents s ! e) = Some c" and x: "(e, x) \<in> H"
  shows "card L < o_num_extents (a_opt s) * (o_extent_bytes (a_opt s) div o_align (a_opt s))"
proof -
  let ?n = "length (a_extents s)" and ?q = "o_extent_bytes (a_opt s) div o_align (a_opt s)" and ?A = "at_ext (a_slots s) L"
  have sp: "space_ok (a_slots s) (a_classes s) (a_extents s) L H" and fin: "finite L"
    and g: "geometry (a_opt s) (a_classes s) ?n"
    using inv finite_subset by (auto simp: inv_at_def)
  have finA: "finite (?A d)" for d using fin by (simp add: at_ext_def)
  have spe: "c_slots_per_extent (a_classes s ! b) \<le> ?q" if "b < length (a_classes s)" for b
    using g that by (auto simp: geometry_def all_set_conv_all_nth div_le_mono2)
  have le: "card (?A d) + of_bool (d = e) \<le> ?q" if d: "d < ?n" for d
  proof (cases "e_cls (a_extents s ! d)")
    case None
    then show ?thesis using at_ext_other [OF sp d] e by auto
  next
    case (Some b)
    note X = space_ok_extent [OF sp d Some]
    let ?u = "(\<lambda>i. ref_slot (m_ref (a_slots s ! i))) ` ?A d" and ?m = "if d = e then {x} else {}"
    have "?u \<union> ?m \<subseteq> {..<c_slots_per_extent (a_classes s ! b)}" using X(8) x by auto
    from card_mono [OF _ this] have "card (?u \<union> ?m) \<le> c_slots_per_extent (a_classes s ! b)" by simp
    moreover have "card (?u \<union> ?m) = card ?u + card ?m" using X(7) x finA by (intro card_Un_disjoint) auto
    moreover have "card ?u = card (?A d)" by (rule card_image [OF X(4)])
    ultimately show ?thesis using spe [OF X(1)] by auto
  qed
  have "L = (\<Union>d<?n. ?A d)" using space_okD(1) [OF sp] by (auto simp: at_ext_def)
  then have "card L = (\<Sum>d<?n. card (?A d))"
    using card_UN_disjoint [of "{..<?n}" ?A] finA by (auto simp: at_ext_def)
  moreover have "(\<Sum>d<?n. card (?A d)) + 1 = (\<Sum>d<?n. card (?A d) + of_bool (d = e))"
    using e(1) by (simp add: sum.distrib)
  moreover have "\<dots> \<le> ?n * ?q" using sum_bounded_above [of "{..<?n}" "\<lambda>d. card (?A d) + of_bool (d = e)" ?q] le by simp
  ultimately show ?thesis using g by (simp add: geometry_def)
qed

text \<open>The metadata table may grow, and entries that are not resident may change.\<close>

lemma linked_extend:
  assumes "linked gn gp sl h xs" "length sl \<le> length sl'" "\<And>j. j \<in> set xs \<Longrightarrow> sl' ! j = sl ! j"
  shows "linked gn gp sl' h xs"
  using assms dll_cong [of xs "\<lambda>j. gn (sl' ! j)" "\<lambda>j. gn (sl ! j)" "\<lambda>j. gp (sl' ! j)" "\<lambda>j. gp (sl ! j)" kNoSlot kNoSlot]
  by (auto simp: linked_def)

lemma inv_at_slots:
  assumes inv: "inv_at s L H" and len: "length (a_slots s) \<le> length sl"
    and cap: "length sl \<le> o_num_extents (a_opt s) * (o_extent_bytes (a_opt s) div o_align (a_opt s))"
    and same: "\<And>j. j \<in> L \<Longrightarrow> sl ! j = a_slots s ! j"
  shows "inv_at (s\<lparr>a_slots := sl\<rparr>) L H"
proof -
  let ?sl = "a_slots s"
  have V: "class_rings ?sl (a_classes s) L" "ring m_global_next m_global_prev ?sl (a_global_ring_head s) (a_global_hand s) L"
    "extent_lists ?sl (a_extents s) L" "index_ok ?sl (a_index s) L" "space_ok ?sl (a_classes s) (a_extents s) L H"
    "pins_ok ?sl (a_extents s) L" "prot_ok ?sl (a_classes s) (a_extents s) (a_protected_bytes s) (a_protected_slots s) L"
    "bytes_ok ?sl (a_classes s) (a_extents s) (a_used_bytes s) L" "metas_ok ?sl (a_activity_seq s) L"
    using inv by (auto simp: inv_at_def)
  have sets: "at_ext sl L e = at_ext ?sl L e" "in_cls sl L c = in_cls ?sl L c" for e c
    using same by (auto simp: at_ext_def in_cls_def)
  have lk: "linked gn gp ?sl h xs \<Longrightarrow> set xs \<subseteq> L \<Longrightarrow> linked gn gp sl h xs" for gn gp h xs
    using linked_extend [of gn gp ?sl h xs sl] len same by blast
  have rg: "ring gn gp ?sl h hd S \<Longrightarrow> S \<subseteq> L \<Longrightarrow> ring gn gp sl h hd S" for gn gp h hd S
    unfolding ring_def using lk by metis
  have "class_rings sl (a_classes s) L" using V(1) rg at_ext_subset(2) by (fastforce simp: class_rings_def sets)
  moreover have "ring m_global_next m_global_prev sl (a_global_ring_head s) (a_global_hand s) L" using V(2) rg by blast
  moreover have "extent_lists sl (a_extents s) L"
  proof -
    have "(\<Sum>i\<in>at_ext ?sl L e. m_access_seq (sl ! i)) = (\<Sum>i\<in>at_ext ?sl L e. m_access_seq (?sl ! i))" for e
      using same by (intro sum.cong) (auto dest: at_extD)
    then show ?thesis using V(3) lk at_ext_subset(1) unfolding extent_lists_def sets by metis
  qed
  moreover have "index_ok sl (a_index s) L" using V(4) same by (auto intro: index_ok_cong)
  moreover have "space_ok sl (a_classes s) (a_extents s) L H" using V(5) by (rule space_ok_cong) (use same in auto)
  moreover have "pins_ok sl (a_extents s) L" using V(6) by (rule pins_ok_cong) (use same in auto)
  moreover have "prot_ok sl (a_classes s) (a_extents s) (a_protected_bytes s) (a_protected_slots s) L"
    using V(7) by (rule prot_ok_cong) (use same in auto)
  moreover have "bytes_ok sl (a_classes s) (a_extents s) (a_used_bytes s) L" using V(8) by (rule bytes_ok_cong) (use same in auto)
  moreover have "metas_ok sl (a_activity_seq s) L" using V(9) by (rule metas_ok_cong) (use same in auto)
  moreover have "L \<subseteq> {..<length sl}" using inv len by (auto simp: inv_at_def)
  ultimately show ?thesis using inv cap by (simp add: inv_at_def)
qed

lemma inv_at_free_head [simp]: "inv_at (s\<lparr>a_free_slot_meta_head := h\<rparr>) L H = inv_at s L H"
  by (simp add: inv_at_def)

lemma chain_mem: "chain nx h xs \<Longrightarrow> h \<noteq> kNoSlot \<Longrightarrow> \<exists>ys. xs = h # ys \<and> chain nx (nx h) ys"
  by (cases xs) auto

lemma acquire_ok:
  assumes inv: "inv_moving s H" and e: "e < length (a_extents s)" "e_cls (a_extents s ! e) = Some c" and x: "(e, x) \<in> H"
    and acq: "AcquireSlotMetaLocked s = (i, s1)"
  defines "L \<equiv> live_set (a_slots s)"
  shows "inv_at s1 L H" "i \<notin> L" "i < length (a_slots s1)" "i \<noteq> kNoSlot" "a_slots s1 ! i = empty_meta"
    "free_metas (a_slots s1) (a_free_slot_meta_head s1) (insert i L)" "\<And>j. j \<in> L \<Longrightarrow> a_slots s1 ! j = a_slots s ! j"
    "live_set (a_slots s1) = L" "\<exists>sl h. s1 = s\<lparr>a_slots := sl, a_free_slot_meta_head := h\<rparr>"
proof -
  have at: "inv_at s L H" and fm: "free_metas (a_slots s) (a_free_slot_meta_head s) L" using inv by (auto simp: inv_moving_def L_def)
  obtain xs where xs: "chain (\<lambda>i. m_free_next (a_slots s ! i)) (a_free_slot_meta_head s) xs" "distinct xs"
    "set xs = {..<length (a_slots s)} - L" using fm by (auto simp: free_metas_def)
  have cap: "length (a_slots s) \<le> o_num_extents (a_opt s) * (o_extent_bytes (a_opt s) div o_align (a_opt s))"
    "o_num_extents (a_opt s) * (o_extent_bytes (a_opt s) div o_align (a_opt s)) < kNoSlot"
    using at by (auto simp: inv_at_def geometry_def)
  have L: "L \<subseteq> {..<length (a_slots s)}" by (auto simp: L_def live_set_def)
  have "inv_at s1 L H \<and> i \<notin> L \<and> i < length (a_slots s1) \<and> i \<noteq> kNoSlot \<and> a_slots s1 ! i = empty_meta \<and>
    free_metas (a_slots s1) (a_free_slot_meta_head s1) (insert i L) \<and> (\<forall>j\<in>L. a_slots s1 ! j = a_slots s ! j) \<and>
    live_set (a_slots s1) = L \<and> (\<exists>sl h. s1 = s\<lparr>a_slots := sl, a_free_slot_meta_head := h\<rparr>)"
  proof (cases "a_free_slot_meta_head s = kNoSlot")
    case True
    then have "xs = []" using xs(1) by (cases xs) auto
    then have full: "L = {..<length (a_slots s)}" using xs(3) L by auto
    have room: "length (a_slots s) < o_num_extents (a_opt s) * (o_extent_bytes (a_opt s) div o_align (a_opt s))"
      using residents_below_capacity [OF at e x] by (simp add: full)
    have "kNoSlot < 2 ^ 32" by (simp add: kNoSlot_def UINT32_MAX_def)
    then have "length (a_slots s) mod 2 ^ 32 = length (a_slots s)" using room cap by simp
    then have a: "i = length (a_slots s)" "s1 = s\<lparr>a_slots := a_slots s @ [empty_meta]\<rparr>"
      using acq True by (simp_all add: AcquireSlotMetaLocked_def)
    have "inv_at s1 L H" unfolding a(2) by (rule inv_at_slots [OF at]) (use room full in \<open>auto simp: nth_append\<close>)
    moreover have "live_set (a_slots s1) = L"
      by (auto simp: a(2) L_def live_set_def nth_append empty_meta_def less_Suc_eq)
    moreover have "free_metas (a_slots s1) (a_free_slot_meta_head s1) (insert i L)"
      using True full by (auto simp: a free_metas_def lessThan_Suc intro!: exI [of _ "[]"])
    moreover have "s1 = s\<lparr>a_slots := a_slots s @ [empty_meta], a_free_slot_meta_head := a_free_slot_meta_head s\<rparr>" by (simp add: a(2))
    moreover have "i \<notin> L" "i < length (a_slots s1)" "i \<noteq> kNoSlot" "a_slots s1 ! i = empty_meta" "\<forall>j\<in>L. a_slots s1 ! j = a_slots s ! j"
      using room cap full by (auto simp: a nth_append)
    ultimately show ?thesis by blast
  next
    case False
    then obtain ys where ys: "xs = a_free_slot_meta_head s # ys"
      "chain (\<lambda>i. m_free_next (a_slots s ! i)) (m_free_next (a_slots s ! a_free_slot_meta_head s)) ys"
      using chain_mem [OF xs(1)] by blast
    have a: "i = a_free_slot_meta_head s"
      "s1 = s\<lparr>a_free_slot_meta_head := m_free_next (a_slots s ! i), a_slots := (a_slots s)[i := empty_meta]\<rparr>"
      using acq False by (auto simp: AcquireSlotMetaLocked_def Let_def)
    have i: "i < length (a_slots s)" "i \<notin> L" "i \<notin> set ys" using xs(2,3) ys(1) a(1) by auto
    have "inv_at (s\<lparr>a_slots := (a_slots s)[i := empty_meta]\<rparr>) L H"
      by (rule inv_at_slots [OF at]) (use i cap in \<open>auto simp: nth_list_upd\<close>)
    moreover have "s1 = (s\<lparr>a_slots := (a_slots s)[i := empty_meta]\<rparr>)\<lparr>a_free_slot_meta_head := m_free_next (a_slots s ! i)\<rparr>"
      by (simp add: a(2))
    ultimately have "inv_at s1 L H" "\<exists>sl h. s1 = s\<lparr>a_slots := sl, a_free_slot_meta_head := h\<rparr>" by (simp only: inv_at_free_head, blast)
    moreover have "i \<notin> L" "i < length (a_slots s1)" "i \<noteq> kNoSlot" "a_slots s1 ! i = empty_meta" "\<forall>j\<in>L. a_slots s1 ! j = a_slots s ! j"
      using i False by (auto simp: a nth_list_upd)
    moreover have "live_set (a_slots s1) = L"
      using i by (auto simp: a(2) L_def live_set_def nth_list_upd empty_meta_def split: if_splits)
    moreover have "free_metas (a_slots s1) (a_free_slot_meta_head s1) (insert i L)"
    proof -
      have "chain (\<lambda>j. m_free_next (a_slots s1 ! j)) (m_free_next (a_slots s ! i)) ys"
        using ys(2) i(3) unfolding a(1) [symmetric]
        by (subst chain_cong [of _ _ "\<lambda>j. m_free_next (a_slots s ! j)"]) (auto simp: a(2) nth_list_upd)
      moreover have "set ys = {..<length (a_slots s)} - insert i L" using xs(2,3) ys(1) a(1) by auto
      ultimately show ?thesis using xs(2) ys(1) by (auto simp: free_metas_def a(2))
    qed
    ultimately show ?thesis by blast
  qed
  then show "inv_at s1 L H" "i \<notin> L" "i < length (a_slots s1)" "i \<noteq> kNoSlot" "a_slots s1 ! i = empty_meta"
    "free_metas (a_slots s1) (a_free_slot_meta_head s1) (insert i L)" "\<And>j. j \<in> L \<Longrightarrow> a_slots s1 ! j = a_slots s ! j"
    "live_set (a_slots s1) = L" "\<exists>sl h. s1 = s\<lparr>a_slots := sl, a_free_slot_meta_head := h\<rparr>" by blast+
qed

subsection \<open>Joining the rings\<close>

lemma class_rings_link:
  assumes cr: "class_rings sl cs L" and i: "i \<notin> L" "i < length sl" "i \<noteq> kNoSlot" and c: "c = ref_cls (m_ref (sl ! i))" "c < length cs"
    and fresh: "c_hand (cs ! c) = kNoSlot \<Longrightarrow> m_class_next (sl ! i) = kNoSlot \<and> m_class_prev (sl ! i) = kNoSlot"
    and L: "kNoSlot \<notin> L" "finite L" and len: "length cs' = length cs"
    and same: "\<And>d. d < length cs \<Longrightarrow> d \<noteq> c \<Longrightarrow> c_ring_head (cs' ! d) = c_ring_head (cs ! d) \<and>
      c_hand (cs' ! d) = c_hand (cs ! d) \<and> c_resident_count (cs' ! d) = c_resident_count (cs ! d)"
    and sl': "sl' = (if c_hand (cs ! c) = kNoSlot then sl else lb_class sl (c_hand (cs ! c)) i)"
    and head: "c_ring_head (cs' ! c) = (if c_hand (cs ! c) = kNoSlot then i
      else link_before_head m_class_prev sl (c_hand (cs ! c)) i (c_ring_head (cs ! c)))"
    and hand: "c_hand (cs' ! c) = (if c_hand (cs ! c) = kNoSlot then i else c_hand (cs ! c))"
    and count: "c_resident_count (cs' ! c) = c_resident_count (cs ! c) + 1"
  shows "class_rings sl' cs' (insert i L)"
  unfolding class_rings_def
proof (intro allI impI)
  fix d assume "d < length cs'"
  then have d: "d < length cs" by (simp add: len)
  let ?S = "in_cls sl L"
  have ref: "m_ref (sl' ! j) = m_ref (sl ! j)" for j by (simp add: sl')
  have ic: "in_cls sl' (insert i L) d = (if d = c then insert i (?S d) else ?S d)" using c(1) by (auto simp: in_cls_def ref)
  have rc: "ring m_class_next m_class_prev sl (c_ring_head (cs ! d)) (c_hand (cs ! d)) (?S d)"
    "c_resident_count (cs ! d) = card (?S d)" if "d < length cs" for d
    using cr that by (auto simp: class_rings_def)
  have iS: "i \<notin> ?S d" for d using i(1) by (simp add: in_cls_def)
  show "ring m_class_next m_class_prev sl' (c_ring_head (cs' ! d)) (c_hand (cs' ! d)) (in_cls sl' (insert i L) d) \<and>
      c_resident_count (cs' ! d) = card (in_cls sl' (insert i L) d)"
  proof (cases "d = c")
    case True
    have "ring m_class_next m_class_prev sl' (c_ring_head (cs' ! c)) (c_hand (cs' ! c)) (insert i (?S c))"
    proof (cases "c_hand (cs ! c) = kNoSlot")
      case True
      then show ?thesis using class_ring.ring_first [OF _ i(2,3), of "c_ring_head (cs ! c)" "?S c"] rc(1) [OF c(2)] fresh
        by (simp add: sl' head hand)
    next
      case False
      then show ?thesis using class_ring.ring_link [OF rc(1) [OF c(2)] False i(2,3) iS] by (simp add: sl' head hand)
    qed
    moreover have "finite (?S c)" using L(2) by (simp add: in_cls_def)
    ultimately show ?thesis unfolding ic using True rc(2) [OF c(2)] iS count by simp
  next
    case False
    have "sl' ! x = sl ! x" if "x \<in> ?S d" for x
    proof (cases "c_hand (cs ! c) = kNoSlot")
      case hand: False
      have "x \<notin> ?S c" "x \<noteq> i" "x \<noteq> kNoSlot" using that False L(1) i(1) by (auto simp: in_cls_def)
      then show ?thesis using class_ring.ring_link_outside [OF rc(1) [OF c(2)] hand] by (simp add: sl' hand)
    qed (simp add: sl')
    moreover have "length sl' = length sl" by (simp add: sl')
    ultimately have "ring m_class_next m_class_prev sl' (c_ring_head (cs ! d)) (c_hand (cs ! d)) (?S d)"
      using rc(1) [OF d] by (subst ring_cong [of _ sl]) auto
    then show ?thesis using False rc(2) [OF d] same [OF d False] by (simp add: ic)
  qed
qed

lemma extent_lists_link:
  assumes el: "extent_lists sl es L" and i: "i \<notin> L" "i < length sl" "i \<noteq> kNoSlot" and e: "e = ref_extent (m_ref (sl ! i))" "e < length es"
    and fresh: "m_extent_prev (sl ! i) = kNoSlot" "m_access_seq (sl ! i) = 0"
    and L: "kNoSlot \<notin> L" "finite L" and len: "length es' = length es"
    and same: "\<And>d. d < length es \<Longrightarrow> d \<noteq> e \<Longrightarrow> e_resident_head (es' ! d) = e_resident_head (es ! d) \<and>
      e_resident_count (es' ! d) = e_resident_count (es ! d)"
    and acc: "\<And>d. d < length es \<Longrightarrow> e_access_seq_sum (es' ! d) = e_access_seq_sum (es ! d)"
    and new: "e_resident_head (es' ! e) = i" "e_resident_count (es' ! e) = e_resident_count (es ! e) + 1"
  shows "extent_lists (pf_extent sl (e_resident_head (es ! e)) i) es' (insert i L)"
  unfolding extent_lists_def
proof (intro allI impI)
  fix d assume "d < length es'"
  then have d: "d < length es" by (simp add: len)
  let ?sl = "pf_extent sl (e_resident_head (es ! e)) i" and ?A = "at_ext sl L"
  have ae: "at_ext ?sl (insert i L) d = (if d = e then insert i (?A d) else ?A d)" using e(1) by (auto simp: at_ext_def)
  have el': "\<exists>xs. linked m_extent_next m_extent_prev sl (e_resident_head (es ! d)) xs \<and> set xs = ?A d"
    "e_resident_count (es ! d) = card (?A d)" "e_access_seq_sum (es ! d) = (\<Sum>i\<in>?A d. m_access_seq (sl ! i))" if "d < length es" for d
    using el that by (auto simp: extent_lists_def)
  obtain xs where xs: "linked m_extent_next m_extent_prev sl (e_resident_head (es ! e)) xs" "set xs = ?A e"
    using el'(1) [OF e(2)] by blast
  have iA: "i \<notin> ?A d" "finite (?A d)" for d using i(1) L(2) by (auto simp: at_ext_def)
  show "(\<exists>xs. linked m_extent_next m_extent_prev ?sl (e_resident_head (es' ! d)) xs \<and> set xs = at_ext ?sl (insert i L) d) \<and>
      e_resident_count (es' ! d) = card (at_ext ?sl (insert i L) d) \<and>
      e_access_seq_sum (es' ! d) = (\<Sum>j\<in>at_ext ?sl (insert i L) d. m_access_seq (?sl ! j))"
  proof (cases "d = e")
    case True
    have "linked m_extent_next m_extent_prev ?sl i (i # xs)"
      using extent_list.push_front [OF xs(1) i(2,3)] iA(1) xs(2) fresh(1) by simp
    moreover have "set (i # xs) = insert i (?A e)" using xs(2) by simp
    ultimately show ?thesis using True new el'(2,3) [OF e(2)] acc [OF d] iA fresh(2) unfolding ae by auto
  next
    case False
    obtain ys where ys: "linked m_extent_next m_extent_prev sl (e_resident_head (es ! d)) ys" "set ys = ?A d"
      using el'(1) [OF d] by blast
    have out: "?sl ! x = sl ! x" if "x \<in> set ys" for x
      by (rule extent_list.push_front_outside [OF xs(1)])
        (use that False i(1) L(1) xs(2) ys(2) in \<open>auto simp: at_ext_def\<close>)
    have "linked m_extent_next m_extent_prev ?sl (e_resident_head (es ! d)) ys"
      using ys(1) out by (subst linked_cong [of _ sl]) auto
    then show ?thesis using False d ys(2) el'(2,3) [OF d] same [OF d False] acc [OF d] by (auto simp: ae)
  qed
qed

definition join_class :: "SlotMeta list \<Rightarrow> nat \<Rightarrow> nat \<Rightarrow> SlotMeta list" where
  "join_class sl hand i = (if hand = kNoSlot then sl else lb_class sl hand i)"

definition join_global :: "SlotMeta list \<Rightarrow> nat \<Rightarrow> nat \<Rightarrow> SlotMeta list" where
  "join_global sl hand i = (if hand = kNoSlot then sl else lb_global sl hand i)"

lemma join_length [simp]: "length (join_class sl h i) = length sl" "length (join_global sl h i) = length sl"
  by (simp_all add: join_class_def join_global_def)

lemma link_resident_state:
  fixes s :: "'w SlabAllocator"
  defines "r i \<equiv> m_ref (a_slots s ! i)"
  shows "a_slots (LinkResidentLocked i s) =
      pf_extent (join_global (join_class (a_slots s) (c_hand (a_classes s ! ref_cls (r i))) i) (a_global_hand s) i)
        (e_resident_head (a_extents s ! ref_extent (r i))) i"
    "a_classes (LinkResidentLocked i s) = upd_nth (a_classes s) (ref_cls (r i))
       (\<lambda>C. C\<lparr>c_ring_head := (if c_hand C = kNoSlot then i else link_before_head m_class_prev (a_slots s) (c_hand C) i (c_ring_head C)),
             c_hand := (if c_hand C = kNoSlot then i else c_hand C), c_resident_count := c_resident_count C + 1\<rparr>)"
    "a_extents (LinkResidentLocked i s) = upd_nth (a_extents s) (ref_extent (r i))
       (\<lambda>E. E\<lparr>e_resident_head := i, e_resident_count := e_resident_count E + 1\<rparr>)"
    "a_global_ring_head (LinkResidentLocked i s) = (if a_global_hand s = kNoSlot then i else
       link_before_head m_global_prev (join_class (a_slots s) (c_hand (a_classes s ! ref_cls (r i))) i) (a_global_hand s) i (a_global_ring_head s))"
    "a_global_hand (LinkResidentLocked i s) = (if a_global_hand s = kNoSlot then i else a_global_hand s)"
proof -
  have c: "a_classes (LinkBeforeGlobalHandLocked i t) = a_classes t" "a_extents (LinkBeforeGlobalHandLocked i t) = a_extents t"
    "a_slots (LinkBeforeGlobalHandLocked i t) = join_global (a_slots t) (a_global_hand t) i"
    "a_global_ring_head (LinkBeforeGlobalHandLocked i t) = (if a_global_hand t = kNoSlot then i
       else link_before_head m_global_prev (a_slots t) (a_global_hand t) i (a_global_ring_head t))"
    "a_global_hand (LinkBeforeGlobalHandLocked i t) = (if a_global_hand t = kNoSlot then i else a_global_hand t)" for t :: "'w SlabAllocator"
    by (simp_all add: LinkBeforeGlobalHandLocked_def join_global_def)
  have g: "a_slots (LinkBeforeHandLocked i s) = join_class (a_slots s) (c_hand (a_classes s ! ref_cls (r i))) i"
    "a_global_hand (LinkBeforeHandLocked i s) = a_global_hand s" "a_global_ring_head (LinkBeforeHandLocked i s) = a_global_ring_head s"
    "a_extents (LinkBeforeHandLocked i s) = a_extents s"
    "a_classes (LinkBeforeHandLocked i s) = upd_nth (a_classes s) (ref_cls (r i))
       (\<lambda>C. C\<lparr>c_ring_head := (if c_hand C = kNoSlot then i else link_before_head m_class_prev (a_slots s) (c_hand C) i (c_ring_head C)),
             c_hand := (if c_hand C = kNoSlot then i else c_hand C)\<rparr>)"
    by (simp_all add: LinkBeforeHandLocked_def join_class_def r_def Let_def upd_nth_def)
  have ref: "m_ref (join_class sl h k ! j) = m_ref (sl ! j)" "m_ref (join_global sl h k ! j) = m_ref (sl ! j)" for sl h k j
    by (simp_all add: join_class_def join_global_def)
  show "a_slots (LinkResidentLocked i s) =
      pf_extent (join_global (join_class (a_slots s) (c_hand (a_classes s ! ref_cls (r i))) i) (a_global_hand s) i)
        (e_resident_head (a_extents s ! ref_extent (r i))) i"
    "a_extents (LinkResidentLocked i s) = upd_nth (a_extents s) (ref_extent (r i))
       (\<lambda>E. E\<lparr>e_resident_head := i, e_resident_count := e_resident_count E + 1\<rparr>)"
    "a_global_ring_head (LinkResidentLocked i s) = (if a_global_hand s = kNoSlot then i else
       link_before_head m_global_prev (join_class (a_slots s) (c_hand (a_classes s ! ref_cls (r i))) i) (a_global_hand s) i (a_global_ring_head s))"
    "a_global_hand (LinkResidentLocked i s) = (if a_global_hand s = kNoSlot then i else a_global_hand s)"
    by (simp_all add: LinkResidentLocked_def link_extent_def Let_def c g ref r_def)
  show "a_classes (LinkResidentLocked i s) = upd_nth (a_classes s) (ref_cls (r i))
       (\<lambda>C. C\<lparr>c_ring_head := (if c_hand C = kNoSlot then i else link_before_head m_class_prev (a_slots s) (c_hand C) i (c_ring_head C)),
             c_hand := (if c_hand C = kNoSlot then i else c_hand C), c_resident_count := c_resident_count C + 1\<rparr>)"
    by (cases "ref_cls (r i) < length (a_classes s)")
      (simp_all add: LinkResidentLocked_def link_extent_def Let_def c g r_def upd_nth_def list_update_beyond)
qed

lemma link_resident_links:
  assumes inv: "inv_at s0 L H" and s: "s = s0\<lparr>a_index := ix\<rparr>" and i: "i \<notin> L" "i < length (a_slots s)" "i \<noteq> kNoSlot"
    and fresh: "m_class_next (a_slots s ! i) = kNoSlot" "m_class_prev (a_slots s ! i) = kNoSlot"
      "m_global_next (a_slots s ! i) = kNoSlot" "m_global_prev (a_slots s ! i) = kNoSlot"
      "m_extent_prev (a_slots s ! i) = kNoSlot" "m_access_seq (a_slots s ! i) = 0"
    and r: "ref_cls (m_ref (a_slots s ! i)) < length (a_classes s)" "ref_extent (m_ref (a_slots s ! i)) < length (a_extents s)"
  defines "t \<equiv> LinkResidentLocked i s"
  shows "class_rings (a_slots t) (a_classes t) (insert i L)"
    "ring m_global_next m_global_prev (a_slots t) (a_global_ring_head t) (a_global_hand t) (insert i L)"
    "extent_lists (a_slots t) (a_extents t) (insert i L)"
proof -
  let ?sl = "a_slots s" and ?c = "ref_cls (m_ref (a_slots s ! i))" and ?e = "ref_extent (m_ref (a_slots s ! i))"
  let ?s1 = "join_class ?sl (c_hand (a_classes s ! ?c)) i" and ?g = "a_global_hand s"
  let ?s2 = "join_global ?s1 ?g i"
  note T = link_resident_state [of i s, folded t_def]
  have V: "class_rings ?sl (a_classes s) L" "ring m_global_next m_global_prev ?sl (a_global_ring_head s) ?g L"
    "extent_lists ?sl (a_extents s) L" "finite L"
    using inv finite_subset by (auto simp: inv_at_def s)
  have no: "kNoSlot \<notin> L" using no_slot_notin [OF inv] .
  have s1: "length ?s1 = length ?sl" "m_ref (?s1 ! j) = m_ref (?sl ! j)" "m_global_next (?s1 ! j) = m_global_next (?sl ! j)"
    "m_global_prev (?s1 ! j) = m_global_prev (?sl ! j)" "m_extent_next (?s1 ! j) = m_extent_next (?sl ! j)"
    "m_extent_prev (?s1 ! j) = m_extent_prev (?sl ! j)" "m_access_seq (?s1 ! j) = m_access_seq (?sl ! j)" for j
    by (simp_all add: join_class_def)
  have s2: "length ?s2 = length ?sl" "m_ref (?s2 ! j) = m_ref (?sl ! j)" "m_class_next (?s2 ! j) = m_class_next (?s1 ! j)"
    "m_class_prev (?s2 ! j) = m_class_prev (?s1 ! j)" "m_extent_next (?s2 ! j) = m_extent_next (?sl ! j)"
    "m_extent_prev (?s2 ! j) = m_extent_prev (?sl ! j)" "m_access_seq (?s2 ! j) = m_access_seq (?sl ! j)" for j
    using s1 by (simp_all add: join_global_def)
  have "class_rings ?s1 (a_classes t) (insert i L)"
    by (rule class_rings_link [OF V(1) i refl r(1) _ no V(4)])
      (use r(1) fresh in \<open>auto simp: T(2) nth_upd join_class_def\<close>)
  then show "class_rings (a_slots t) (a_classes t) (insert i L)"
    by (rule class_rings_cong) (simp_all add: T(1) s1 s2)
  have "ring m_global_next m_global_prev ?s1 (a_global_ring_head s) ?g L"
    using V(2) by (subst ring_cong [of _ ?sl]) (simp_all add: s1)
  then have "ring m_global_next m_global_prev ?s2 (a_global_ring_head t) (a_global_hand t) (insert i L)"
    using global_ring.ring_first [of ?s1 "a_global_ring_head s" L i] global_ring.ring_link [of ?s1 "a_global_ring_head s" ?g L i]
      i fresh(3,4) s1 by (cases "?g = kNoSlot") (auto simp: T(4,5) join_global_def)
  then show "ring m_global_next m_global_prev (a_slots t) (a_global_ring_head t) (a_global_hand t) (insert i L)"
    by (subst ring_cong [of _ ?s2]) (simp_all add: T(1))
  have "extent_lists ?s2 (a_extents s) L" using V(3) by (rule extent_lists_cong) (simp_all add: s2)
  then have "extent_lists (pf_extent ?s2 (e_resident_head (a_extents s ! ref_extent (m_ref (?s2 ! i)))) i) (a_extents t) (insert i L)"
    by (rule extent_lists_link [OF _ i(1) _ i(3) refl])
      (use i(2) r(2) fresh(5,6) no V(4) in \<open>auto simp: T(3) s2 nth_upd\<close>)
  then show "extent_lists (a_slots t) (a_extents t) (insert i L)" by (simp add: T(1) s2)
qed

subsection \<open>Charging the accounts\<close>

lemma sum_at_insert:
  fixes f :: "nat \<Rightarrow> nat"
  assumes "finite L" "i \<notin> L"
  shows "(\<Sum>j\<in>at_ext sl (insert i L) e. f j) = (\<Sum>j\<in>at_ext sl L e. f j) + (if ref_extent (m_ref (sl ! i)) = e then f i else 0)"
    "(\<Sum>j\<in>in_cls sl (insert i L) c. f j) = (\<Sum>j\<in>in_cls sl L c. f j) + (if ref_cls (m_ref (sl ! i)) = c then f i else 0)"
    "card (at_ext sl (insert i L) e) = card (at_ext sl L e) + (if ref_extent (m_ref (sl ! i)) = e then 1 else 0)"
proof -
  have "finite (at_ext sl L e)" "finite (in_cls sl L c)" "i \<notin> at_ext sl L e" "i \<notin> in_cls sl L c"
    using assms by (auto simp: at_ext_def in_cls_def)
  then show "(\<Sum>j\<in>at_ext sl (insert i L) e. f j) = (\<Sum>j\<in>at_ext sl L e. f j) + (if ref_extent (m_ref (sl ! i)) = e then f i else 0)"
    "(\<Sum>j\<in>in_cls sl (insert i L) c. f j) = (\<Sum>j\<in>in_cls sl L c. f j) + (if ref_cls (m_ref (sl ! i)) = c then f i else 0)"
    "card (at_ext sl (insert i L) e) = card (at_ext sl L e) + (if ref_extent (m_ref (sl ! i)) = e then 1 else 0)"
    by (simp_all add: at_ext_insert)
qed

lemma space_ok_insert:
  assumes sp: "space_ok sl cs es L H" and L: "finite L" "i \<notin> L"
    and r: "e = ref_extent (m_ref (sl ! i))" "c = ref_cls (m_ref (sl ! i))" "x = ref_slot (m_ref (sl ! i))"
    and e: "e < length es" "e_cls (es ! e) = Some c" and H: "(e, x) \<in> H"
    and size: "ref_slot_size (m_ref (sl ! i)) = c_slot_size (cs ! c)" "ref_offset (m_ref (sl ! i)) = x * c_slot_size (cs ! c)"
    and cs: "length cs' = length cs" "\<And>d. c_slot_size (cs' ! d) = c_slot_size (cs ! d)"
      "\<And>d. c_slots_per_extent (cs' ! d) = c_slots_per_extent (cs ! d)" "\<And>d. frees (cs' ! d) = frees (cs ! d)"
    and es: "length es' = length es" "\<And>d. e_cls (es' ! d) = e_cls (es ! d)" "\<And>d. e_total_slots (es' ! d) = e_total_slots (es ! d)"
      "\<And>d. e_free_slots (es' ! d) = (if d = e then e_free_slots (es ! e) - 1 else e_free_slots (es ! d))"
  shows "space_ok sl cs' es' (insert i L) (H - {(e, x)})"
  unfolding space_ok_def
proof (intro conjI ballI allI impI)
  fix j assume "j \<in> insert i L"
  then show "let r = m_ref (sl ! j) in ref_extent r < length es' \<and> e_cls (es' ! ref_extent r) = Some (ref_cls r) \<and>
      ref_slot_size r = c_slot_size (cs' ! ref_cls r) \<and> ref_offset r = ref_slot r * ref_slot_size r"
    using space_okD [OF sp, of j] e size by (auto simp: Let_def cs es simp flip: r)
next
  fix d b assume d0: "d < length es'" "e_cls (es' ! d) = Some b"
  then have d: "d < length es" "e_cls (es ! d) = Some b" by (simp_all add: es)
  note X = space_ok_extent [OF sp d]
  have ae: "at_ext sl (insert i L) d = (if d = e then insert i (at_ext sl L d) else at_ext sl L d)" using r(1) by (auto simp: at_ext_insert)
  have iA: "i \<notin> at_ext sl L d" "finite (at_ext sl L d)" using L by (auto simp: at_ext_def)
  let ?f = "\<lambda>i. ref_slot (m_ref (sl ! i))"
  have used: "?f ` at_ext sl (insert i L) d = (if d = e then insert x (?f ` at_ext sl L d) else ?f ` at_ext sl L d)"
    using r(3) by (simp add: ae)
  have moving: "{y. (d, y) \<in> H - {(e, x)}} = (if d = e then {y. (d, y) \<in> H} - {x} else {y. (d, y) \<in> H})" by auto
  have xH: "d = e \<Longrightarrow> x \<in> {y. (d, y) \<in> H}" using H by simp
  have fx: "d = e \<Longrightarrow> x \<notin> ?f ` at_ext sl L d" "d = e \<Longrightarrow> x \<notin> frees (cs ! b) d" using X(6,7) xH by blast+
  show "b < length cs'" "e_total_slots (es' ! d) = c_slots_per_extent (cs' ! b)" using X(1,2) by (simp_all add: cs es)
  have "?f ` at_ext sl (insert i L) d \<subseteq> {..<c_slots_per_extent (cs ! b)}"
    unfolding used using X(8) xH by (cases "d = e") auto
  from card_mono [OF _ this] have "card (?f ` at_ext sl (insert i L) d) \<le> c_slots_per_extent (cs ! b)" by simp
  moreover show inj: "inj_on ?f (at_ext sl (insert i L) d)" using X(4) fx(1) r(3) iA by (auto simp: ae)
  ultimately have "card (at_ext sl (insert i L) d) \<le> e_total_slots (es ! d)" using X(2) card_image [OF inj] by simp
  then show "e_free_slots (es' ! d) + card (at_ext sl (insert i L) d) = e_total_slots (es' ! d)"
    using X(3) iA by (auto simp: es ae)
  show "let free = frees (cs' ! b) d; used = ?f ` at_ext sl (insert i L) d; moving = {y. (d, y) \<in> H - {(e, x)}}
      in free \<inter> used = {} \<and> free \<inter> moving = {} \<and> used \<inter> moving = {} \<and>
         free \<union> used \<union> moving = {..<c_slots_per_extent (cs' ! b)}"
    unfolding Let_def used moving cs(3,4) using X(5-8) xH fx by (cases "d = e") auto
qed

text \<open>The common core of \<^verbatim>\<open>Put\<close> and \<^verbatim>\<open>RestoreBulk\<close>: link a filled-in entry and charge its bytes.\<close>

definition enroll :: "nat \<Rightarrow> 'w SlabAllocator \<Rightarrow> 'w SlabAllocator" where
  "enroll i s =
     (let m = a_slots s ! i; r = m_ref m; t = LinkResidentLocked i s
      in t\<lparr>a_classes := upd_nth (a_classes t) (ref_cls r) (\<lambda>C. C\<lparr>c_useful_bytes := c_useful_bytes C + m_useful_bytes m\<rparr>),
           a_extents := upd_nth (a_extents t) (ref_extent r) (\<lambda>E. E\<lparr>e_free_slots := e_free_slots E - 1,
             e_useful_bytes := e_useful_bytes E + m_useful_bytes m\<rparr>),
           a_used_bytes := a_used_bytes t + ref_slot_size r\<rparr>)"

definition fresh_meta :: "SlotMeta \<Rightarrow> bool" where
  "fresh_meta m \<longleftrightarrow> m_class_next m = kNoSlot \<and> m_class_prev m = kNoSlot \<and> m_global_next m = kNoSlot \<and> m_global_prev m = kNoSlot \<and>
     m_extent_prev m = kNoSlot \<and> m_access_seq m = 0 \<and> m_refs m = 0 \<and> m_retain_until m = 0 \<and> \<not> m_remove_pending m"

lemma link_resident_frame [simp]:
  "a_opt (LinkResidentLocked i s) = a_opt s" "a_index (LinkResidentLocked i s) = a_index s"
  "a_unbound (LinkResidentLocked i s) = a_unbound s" "a_used_bytes (LinkResidentLocked i s) = a_used_bytes s"
  "a_protected_bytes (LinkResidentLocked i s) = a_protected_bytes s" "a_protected_slots (LinkResidentLocked i s) = a_protected_slots s"
  "a_activity_seq (LinkResidentLocked i s) = a_activity_seq s" "a_free_slot_meta_head (LinkResidentLocked i s) = a_free_slot_meta_head s"
  "a_retain (LinkResidentLocked i s) = a_retain s" "a_wheel (LinkResidentLocked i s) = a_wheel s"
  "a_wheel_tick (LinkResidentLocked i s) = a_wheel_tick s" "a_retain_now_s (LinkResidentLocked i s) = a_retain_now_s s"
  "a_put_seq (LinkResidentLocked i s) = a_put_seq s" "length (a_classes (LinkResidentLocked i s)) = length (a_classes s)"
  "length (a_extents (LinkResidentLocked i s)) = length (a_extents s)"
  by (simp_all add: LinkResidentLocked_def link_extent_def LinkBeforeHandLocked_def LinkBeforeGlobalHandLocked_def Let_def)

lemma link_resident_sel [simp]:
  "m_key (a_slots (LinkResidentLocked i s) ! j) = m_key (a_slots s ! j)" "m_ref (a_slots (LinkResidentLocked i s) ! j) = m_ref (a_slots s ! j)"
  "m_useful_bytes (a_slots (LinkResidentLocked i s) ! j) = m_useful_bytes (a_slots s ! j)"
  "m_refs (a_slots (LinkResidentLocked i s) ! j) = m_refs (a_slots s ! j)"
  "m_access_seq (a_slots (LinkResidentLocked i s) ! j) = m_access_seq (a_slots s ! j)"
  "m_retain_until (a_slots (LinkResidentLocked i s) ! j) = m_retain_until (a_slots s ! j)"
  "m_retain_ttl_s (a_slots (LinkResidentLocked i s) ! j) = m_retain_ttl_s (a_slots s ! j)"
  "m_remove_pending (a_slots (LinkResidentLocked i s) ! j) = m_remove_pending (a_slots s ! j)"
  "m_free_next (a_slots (LinkResidentLocked i s) ! j) = m_free_next (a_slots s ! j)"
  "m_live (a_slots (LinkResidentLocked i s) ! j) = m_live (a_slots s ! j)"
  "m_referenced (a_slots (LinkResidentLocked i s) ! j) = m_referenced (a_slots s ! j)"
  "length (a_slots (LinkResidentLocked i s)) = length (a_slots s)"
  by (simp_all add: link_resident_state join_class_def join_global_def)

lemma enroll_inv:
  assumes inv: "inv_at s0 L H" and s: "s = s0\<lparr>a_index := ix\<rparr>" and ix: "index_ok (a_slots s) ix (insert i L)"
    and i: "i \<notin> L" "i < length (a_slots s)" "i \<noteq> kNoSlot" and fresh: "fresh_meta (a_slots s ! i)"
    and r: "r = m_ref (a_slots s ! i)" "e = ref_extent r" "c = ref_cls r" "x = ref_slot r"
    and e: "e < length (a_extents s)" "e_cls (a_extents s ! e) = Some c" and H: "(e, x) \<in> H"
    and size: "ref_slot_size r = c_slot_size (a_classes s ! c)" "ref_offset r = x * c_slot_size (a_classes s ! c)"
      "m_useful_bytes (a_slots s ! i) \<le> ref_slot_size r"
  shows "inv_at (enroll i s) (insert i L) (H - {(e, x)})"
proof -
  let ?t = "enroll i s" and ?sl = "a_slots s" and ?m = "a_slots s ! i"
  have V: "geometry (a_opt s) (a_classes s) (length (a_extents s))" "pools_ok (a_classes s) (a_extents s)"
    "space_ok ?sl (a_classes s) (a_extents s) L H" "pins_ok ?sl (a_extents s) L"
    "prot_ok ?sl (a_classes s) (a_extents s) (a_protected_bytes s) (a_protected_slots s) L"
    "bytes_ok ?sl (a_classes s) (a_extents s) (a_used_bytes s) L" "binding_ok (a_classes s) (a_extents s) (a_unbound s)"
    "metas_ok ?sl (a_activity_seq s) L" "L \<subseteq> {..<length ?sl}" "finite L"
    "length ?sl \<le> o_num_extents (a_opt s) * (o_extent_bytes (a_opt s) div o_align (a_opt s))"
    using inv finite_subset by (auto simp: inv_at_def s)
  have c: "c < length (a_classes s)" using space_ok_extent(1) [OF V(3) e] .
  note F = fresh [unfolded fresh_meta_def]
  note T = link_resident_state [of i s, folded r(1), folded r(2,3)]
  have st: "a_slots ?t = a_slots (LinkResidentLocked i s)" "a_opt ?t = a_opt s" "a_index ?t = ix" "a_unbound ?t = a_unbound s"
    "a_protected_bytes ?t = a_protected_bytes s" "a_protected_slots ?t = a_protected_slots s" "a_activity_seq ?t = a_activity_seq s"
    "a_used_bytes ?t = a_used_bytes s + ref_slot_size r" "a_global_ring_head ?t = a_global_ring_head (LinkResidentLocked i s)"
    "a_global_hand ?t = a_global_hand (LinkResidentLocked i s)" "length (a_classes ?t) = length (a_classes s)"
    "length (a_extents ?t) = length (a_extents s)"
    by (simp_all add: enroll_def Let_def r s T)
  have cls: "a_classes ?t ! d = (let C = a_classes (LinkResidentLocked i s) ! d in if d = c then C\<lparr>c_useful_bytes := c_useful_bytes C + m_useful_bytes ?m\<rparr> else C)"
    "a_extents ?t ! d = (let E = a_extents (LinkResidentLocked i s) ! d in if d = e then
       E\<lparr>e_free_slots := e_free_slots E - 1, e_useful_bytes := e_useful_bytes E + m_useful_bytes ?m\<rparr> else E)" for d
    using c e(1) by (auto simp: enroll_def Let_def nth_upd T simp flip: r)
  note K = link_resident_links [OF inv s i, folded r(1), folded r(2,3)]
  have K': "class_rings (a_slots (LinkResidentLocked i s)) (a_classes (LinkResidentLocked i s)) (insert i L)"
    "ring m_global_next m_global_prev (a_slots ?t) (a_global_ring_head ?t) (a_global_hand ?t) (insert i L)"
    "extent_lists (a_slots (LinkResidentLocked i s)) (a_extents (LinkResidentLocked i s)) (insert i L)"
    using K F c e(1) by (simp_all add: st)
  have ae: "at_ext (a_slots (LinkResidentLocked i s)) A d = at_ext ?sl A d" "in_cls (a_slots (LinkResidentLocked i s)) A d = in_cls ?sl A d" for A d
    by (simp_all add: at_ext_def in_cls_def)
  have "class_rings (a_slots ?t) (a_classes ?t) (insert i L)"
    using K'(1) by (rule class_rings_cong) (simp_all add: st T(2,3) cls Let_def)
  moreover have "extent_lists (a_slots ?t) (a_extents ?t) (insert i L)"
    using K'(3) by (rule extent_lists_cong) (simp_all add: st T(2,3) cls Let_def)
  moreover have "geometry (a_opt s) (a_classes ?t) (length (a_extents s))"
    using V(1) by (rule geometry_cong) (simp_all add: st cls Let_def T(2,3) nth_upd)
  moreover have "pools_ok (a_classes ?t) (a_extents ?t)"
    using V(2) by (rule pools_ok_cong) (simp_all add: st cls Let_def T(2,3) nth_upd)
  moreover have "space_ok (a_slots ?t) (a_classes ?t) (a_extents ?t) (insert i L) (H - {(e, x)})"
  proof -
    have "space_ok (a_slots ?t) (a_classes s) (a_extents s) L H" using V(3) by (rule space_ok_cong) (simp_all add: st)
    then show ?thesis
      by (rule space_ok_insert [OF _ V(10) i(1) _ _ _ e H]) (use r size in \<open>simp_all add: st cls Let_def T(2,3) nth_upd\<close>)
  qed
  moreover have "pins_ok (a_slots ?t) (a_extents ?t) (insert i L)"
    using V(4,10) i(1) F by (simp add: pins_ok_def st ae cls Let_def T(2,3) nth_upd sum_at_insert)
  moreover have "prot_ok (a_slots ?t) (a_classes ?t) (a_extents ?t) (a_protected_bytes ?t) (a_protected_slots ?t) (insert i L)"
    using V(5,10) i(1) F by (auto simp: prot_ok_def st ae cls Let_def T(2,3) nth_upd sum_at_insert cong: if_cong simp del: sum_of_bool_eq)
  moreover have "bytes_ok (a_slots ?t) (a_classes ?t) (a_extents ?t) (a_used_bytes ?t) (insert i L)"
    using V(6,10) i(1) r by (auto simp add: bytes_ok_def st ae cls Let_def T(2,3) nth_upd sum_at_insert)
  moreover have "binding_ok (a_classes ?t) (a_extents ?t) (a_unbound s)"
    using V(7) by (rule binding_ok_cong) (simp_all add: st cls Let_def T(2,3) nth_upd)
  moreover have "metas_ok (a_slots ?t) (a_activity_seq s) (insert i L)"
    using V(8) F size(3) r(1) by (auto simp: metas_ok_def st)
  moreover have "index_ok (a_slots ?t) ix (insert i L)" using ix by (rule index_ok_cong) (simp add: st)
  ultimately show ?thesis using V(9,11) i(2) K'(2) by (simp add: inv_at_def st)
qed

subsection \<open>Admission\<close>

definition place :: "'w SlabAllocator \<Rightarrow> nat \<Rightarrow> nat \<Rightarrow> nat \<Rightarrow> SlotRef" where
  "place s c e x = \<lparr>ref_cls = c, ref_extent = e, ref_slot = x, ref_slot_size = c_slot_size (a_classes s ! c),
     ref_offset = x * c_slot_size (a_classes s ! c)\<rparr>"

definition fresh_resident :: "SlotRef \<Rightarrow> nat \<Rightarrow> resident" where
  "fresh_resident r n = \<lparr>r_ref = r, r_len = n, r_refs = 0, r_until = 0, r_ttl = 0, r_pending = False\<rparr>"

lemma index_ok_insert:
  assumes ok: "index_ok sl ix L" and k: "Find ix k = None" and i: "i \<notin> L" "m_key (sl' ! i) = k" and same: "\<And>j. j \<in> L \<Longrightarrow> m_key (sl' ! j) = m_key (sl ! j)"
  shows "fst (Insert ix k i)" "index_ok sl' (snd (Insert ix k i)) (insert i L)"
proof -
  have inv: "index_inv ix" and F: "\<And>k j. Find ix k = Some j \<longleftrightarrow> j \<in> L \<and> m_key (sl ! j) = k" using ok by (auto simp: index_ok_def)
  show "fst (Insert ix k i)" using fki.insert_fresh [OF inv] k by blast
  have "m_key (sl ! j) \<noteq> k" if "j \<in> L" for j using F [of k j] k that by auto
  then show "index_ok sl' (snd (Insert ix k i)) (insert i L)"
    using fki.inv_insert [OF inv] F i same by (auto simp: index_ok_def fki.find_insert [OF inv])
qed

lemma enroll_frame [simp]:
  "a_slots (enroll i s) = a_slots (LinkResidentLocked i s)" "a_index (enroll i s) = a_index s" "a_free_slot_meta_head (enroll i s) = a_free_slot_meta_head s"
  "a_activity_seq (enroll i s) = a_activity_seq s" "a_put_seq (enroll i s) = a_put_seq s"
  by (simp_all add: enroll_def Let_def)

lemma stable_enroll: "stable s (enroll i s)"
  by (simp add: stable_def enroll_def Let_def link_resident_state nth_upd)

lemma admit_ok:
  fixes s :: "'w SlabAllocator"
  assumes inv: "inv_moving s H" and x: "(e, x) \<in> H" and e: "e < length (a_extents s)" "e_cls (a_extents s ! e) = Some c"
    and k: "residents s k = None" and n: "n \<le> c_slot_size (a_classes s ! c)" and acq: "AcquireSlotMetaLocked s = (i, s1)"
    and s2: "s2 = (upd_slot i (\<lambda>m. m\<lparr>m_ref := place s c e x, m_useful_bytes := n, m_key := k, m_live := True\<rparr>) s1)\<lparr>a_put_seq := p\<rparr>"
    and ins: "Insert (a_index s2) k i = (ok, ix)"
  defines "t \<equiv> enroll i (s2\<lparr>a_index := ix\<rparr>)" and "L \<equiv> live_set (a_slots s)"
  shows "ok" "inv_moving t (H - {(e, x)})" "live_set (a_slots t) = insert i L" "i \<notin> L" "i < length (a_slots t)"
    "residents t = (residents s)(k \<mapsto> fresh_resident (place s c e x) n)" "stable s t"
    "a_activity_seq t = a_activity_seq s" "m_access_seq (a_slots t ! i) = 0" "m_ref (a_slots t ! i) = place s c e x"
    "Find (a_index t) k = Some i" "m_key (a_slots t ! i) = k"
proof -
  note A = acquire_ok [OF inv e x acq, folded L_def]
  obtain sl h where s1: "s1 = s\<lparr>a_slots := sl, a_free_slot_meta_head := h\<rparr>" using A(9) by blast
  let ?f = "\<lambda>m. m\<lparr>m_ref := place s c e x, m_useful_bytes := n, m_key := k, m_live := True\<rparr>"
  have m: "a_slots s2 ! i = empty_meta\<lparr>m_ref := place s c e x, m_useful_bytes := n, m_key := k, m_live := True\<rparr>"
    "length (a_slots s2) = length (a_slots s1)" "\<And>j. j \<noteq> i \<Longrightarrow> a_slots s2 ! j = a_slots s1 ! j"
    using A(3,5) by (simp_all add: s2)
  have at2: "inv_at s2 L H"
  proof -
    have "inv_at (s1\<lparr>a_slots := upd_nth (a_slots s1) i ?f\<rparr>) L H"
      by (rule inv_at_slots [OF A(1)]) (use A(1,2) in \<open>auto simp: inv_at_def nth_upd\<close>)
    then show ?thesis by (simp add: s2)
  qed
  have ix2: "index_ok (a_slots s2) (a_index s2) L" using at2 by (simp add: inv_at_def)
  have aix: "a_index s2 = a_index s" by (simp add: s2 s1)
  have none: "Find (a_index s2) k = None" using k by (simp add: aix residents_def)
  have iok: "ok" "index_ok (a_slots s2) ix (insert i L)"
    using index_ok_insert [OF ix2 none A(2), of "a_slots s2"] ins m(1) by simp_all
  show "ok" by (fact iok(1))
  have T: "inv_at t (insert i L) (H - {(e, x)})" unfolding t_def
    by (rule enroll_inv [OF at2 refl, where r = "place s c e x" and c = c])
      (use iok A x e n m in \<open>simp_all add: place_def fresh_meta_def empty_meta_def s2 s1\<close>)
  show L: "live_set (a_slots t) = insert i L"
  proof -
    have "live_set (a_slots t) = live_set (a_slots s2)" by (simp add: t_def live_set_def)
    also have "\<dots> = insert i (live_set (a_slots s1))"
    proof (rule set_eqI)
      show "j \<in> live_set (a_slots s2) \<longleftrightarrow> j \<in> insert i (live_set (a_slots s1))" for j
        using A(3) m(1,2) m(3) [of j] by (cases "j = i") (simp_all add: live_set_def)
    qed
    finally show ?thesis using A(8) by simp
  qed
  have "free_metas (a_slots t) (a_free_slot_meta_head t) (insert i L)"
  proof -
    obtain xs where xs: "chain (\<lambda>j. m_free_next (a_slots s1 ! j)) (a_free_slot_meta_head s1) xs" "distinct xs"
      "set xs = {..<length (a_slots s1)} - insert i L" using A(6) by (auto simp: free_metas_def)
    have "chain (\<lambda>j. m_free_next (a_slots t ! j)) (a_free_slot_meta_head s1) xs"
      using xs(1,3) m(3) by (subst chain_cong [of _ _ "\<lambda>j. m_free_next (a_slots s1 ! j)"]) (auto simp: t_def)
    then show ?thesis using xs(2,3) m(2) by (auto simp: free_metas_def t_def s2)
  qed
  with T L show inv_t: "inv_moving t (H - {(e, x)})" by (simp add: inv_moving_def)
  show "i \<notin> L" "i < length (a_slots t)" using A(2,3) m(2) by (simp_all add: t_def)
  show "stable s t" using stable_enroll [of "s2\<lparr>a_index := ix\<rparr>" i] by (simp add: t_def stable_def s2 s1)
  show "a_activity_seq t = a_activity_seq s" by (simp add: t_def s2 s1)
  show "m_access_seq (a_slots t ! i) = 0" "m_ref (a_slots t ! i) = place s c e x" "m_key (a_slots t ! i) = k"
    using m(1) by (simp_all add: t_def empty_meta_def)
  have F: "Find (a_index t) = (Find (a_index s))(k \<mapsto> i)"
    using fki.find_insert [of "a_index s2" k i] ix2 ins by (simp add: t_def aix index_ok_def)
  then show "Find (a_index t) k = Some i" by simp
  show "residents t = (residents s)(k \<mapsto> fresh_resident (place s c e x) n)"
  proof (rule ext)
    fix k'
    have "abs_meta (a_slots t ! i) = fresh_resident (place s c e x) n"
      using m(1) by (simp add: t_def abs_meta_def fresh_resident_def empty_meta_def)
    moreover have "abs_meta (a_slots t ! j) = abs_meta (a_slots s ! j)" if "j \<in> L" for j
    proof -
      have "a_slots s2 ! j = a_slots s ! j" using that A(2) A(7) [OF that] m(3) [of j] by metis
      then show ?thesis by (simp add: t_def abs_meta_def)
    qed
    moreover have "Find (a_index s) k' = Some j \<Longrightarrow> j \<in> L" for j using inv_moving_index(2) [OF inv] by (simp add: L_def)
    ultimately show "residents t k' = ((residents s)(k \<mapsto> fresh_resident (place s c e x) n)) k'"
      by (cases "Find (a_index s) k'") (auto simp: residents_def F)
  qed
qed

end
