(* ===== verification/Slab_Put.thy ===== *)
theory Slab_Put
  imports Slab_Install
begin

text \<open>
  \<^verbatim>\<open>Put\<close>: the search for a slot ends after at most two rounds, evicts only residents that are
  neither pinned nor protected, and a placement is installed as the new resident of its key.
\<close>

subsection \<open>Installing the new resident\<close>

lemma install_resident_ok:
  assumes inv: "inv_moving s {(e, x)}" and e: "e < length (a_extents s)" "e_cls (a_extents s ! e) = Some c"
    and k: "residents s k = None" and n: "n \<le> c_slot_size (a_classes s ! c)"
    and r: "install_resident k n c (e, x) s = (out, s')"
  shows "slab_inv s'" "residents s' = (residents s)(k \<mapsto> fresh_resident (place s c e x) n)" "stable s s'"
    "\<exists>i. out = Some (place s c e x, i) \<and> Find (a_index s') k = Some i"
proof -
  obtain i s1 where acq: "AcquireSlotMetaLocked s = (i, s1)" by fastforce
  have cls: "a_classes s1 = a_classes s"
    using acq by (auto simp: AcquireSlotMetaLocked_def Let_def split: if_splits)
  define s2 where "s2 = (upd_slot i (\<lambda>m. m\<lparr>m_ref := place s c e x, m_useful_bytes := n, m_key := k, m_live := True\<rparr>) s1)
    \<lparr>a_put_seq := a_put_seq s1 + 1\<rparr>"
  obtain ok ix where ins: "Insert (a_index s2) k i = (ok, ix)" by fastforce
  define s3 where "s3 = LinkResidentLocked i (s2\<lparr>a_index := ix\<rparr>)"
  define t where "t = enroll i (s2\<lparr>a_index := ix\<rparr>)"
  note A = admit_ok [OF inv _ e k n acq s2_def ins, folded t_def, simplified]
  define u where "u = s3\<lparr>a_classes := upd_nth (a_classes s3) c (\<lambda>C. C\<lparr>c_puts := c_puts C + 1, c_useful_bytes := c_useful_bytes C + n\<rparr>),
    a_extents := upd_nth (a_extents s3) e (\<lambda>E. E\<lparr>e_free_slots := e_free_slots E - 1, e_useful_bytes := e_useful_bytes E + n,
      e_youngest_seq := max (e_youngest_seq E) (a_put_seq s2), e_access_seq_sum := e_access_seq_sum E + a_activity_seq s3\<rparr>),
    a_slots := upd_nth (a_slots s3) i (\<lambda>m. m\<lparr>m_access_seq := a_activity_seq s3\<rparr>),
    a_used_bytes := a_used_bytes s3 + c_slot_size (a_classes s ! c)\<rparr>"
  have out: "out = Some (place s c e x, i)" "s' = u"
  proof -
    have "fst (install_resident k n c (e, x) s) = Some (place s c e x, i)" "snd (install_resident k n c (e, x) s) = u"
      using A(1) ins unfolding install_resident_def acq
      by (simp_all add: s2_def s3_def u_def place_def cls Let_def)
    with r show "out = Some (place s c e x, i)" "s' = u" by simp_all
  qed
  have m: "m_ref (a_slots s2 ! i) = place s c e x" "m_useful_bytes (a_slots s2 ! i) = n"
    using A(5) by (simp_all add: t_def s2_def)
  have t: "a_slots t = a_slots s3" "a_classes t = upd_nth (a_classes s3) c (\<lambda>C. C\<lparr>c_useful_bytes := c_useful_bytes C + n\<rparr>)"
    "a_extents t = upd_nth (a_extents s3) e (\<lambda>E. E\<lparr>e_free_slots := e_free_slots E - 1, e_useful_bytes := e_useful_bytes E + n\<rparr>)"
    "a_used_bytes t = a_used_bytes s3 + c_slot_size (a_classes s ! c)"
    "u = t\<lparr>a_classes := a_classes u, a_extents := a_extents u, a_slots := a_slots u\<rparr>"
    using m by (simp_all add: t_def enroll_def Let_def s3_def u_def place_def)
  have act: "a_activity_seq s3 = a_activity_seq t" "a_free_slot_meta_head s3 = a_free_slot_meta_head t" by (simp_all add: t_def s3_def)
  let ?L = "live_set (a_slots t)"
  have at: "inv_at t ?L {}" and fm: "free_metas (a_slots t) (a_free_slot_meta_head t) ?L" using A(2) by (auto simp: inv_moving_def)
  have V: "extent_lists (a_slots t) (a_extents t) ?L" "pins_ok (a_slots t) (a_extents t) ?L"
    "prot_ok (a_slots t) (a_classes t) (a_extents t) (a_protected_bytes t) (a_protected_slots t) ?L"
    "metas_ok (a_slots t) (a_activity_seq t) ?L" using at by (auto simp: inv_at_def)
  have ui: "m_access_seq (a_slots u ! j) = (if j = i then a_activity_seq t else m_access_seq (a_slots t ! j))" for j
    using A(5) by (simp add: u_def t nth_upd act)
  have acc: "e_access_seq_sum (a_extents u ! d) = (\<Sum>j\<in>at_ext (a_slots t) ?L d. m_access_seq (a_slots u ! j))"
    if d: "d < length (a_extents t)" for d
  proof -
    have mem: "i \<in> at_ext (a_slots t) ?L d \<longleftrightarrow> d = e" using A(3,10) by (auto simp: at_ext_def place_def)
    have fin: "finite (at_ext (a_slots t) ?L d)" by (simp add: at_ext_def live_set_def)
    have "(\<Sum>j\<in>at_ext (a_slots t) ?L d. m_access_seq (a_slots u ! j)) + (if d = e then 0 else 0) =
        (\<Sum>j\<in>at_ext (a_slots t) ?L d. m_access_seq (a_slots t ! j)) + (if d = e then a_activity_seq t else 0)"
      using sum_change_one [OF fin, of i "\<lambda>j. m_access_seq (a_slots u ! j)" "\<lambda>j. m_access_seq (a_slots t ! j)"] A(9)
      unfolding mem by (cases "d = e") (simp_all add: ui)
    moreover have "e_access_seq_sum (a_extents u ! d) = e_access_seq_sum (a_extents t ! d) + (if d = e then a_activity_seq t else 0)"
      using d by (simp add: u_def t(3) nth_upd act)
    moreover have "e_access_seq_sum (a_extents t ! d) = (\<Sum>j\<in>at_ext (a_slots t) ?L d. m_access_seq (a_slots t ! j))"
      using V(1) d by (simp add: extent_lists_def)
    ultimately show ?thesis by simp
  qed
  have iu: "inv_at u ?L {}"
  proof (rule inv_at_books [OF at])
    show "pins_ok (a_slots u) (a_extents u) ?L" using V(2) by (rule pins_ok_cong) (auto simp: u_def t nth_upd)
    show "prot_ok (a_slots u) (a_classes u) (a_extents u) (a_protected_bytes u) (a_protected_slots u) ?L"
      by (subst t(5), subst t(5)) (use V(3) in \<open>simp, rule prot_ok_cong, auto simp: u_def t nth_upd\<close>)
    show "metas_ok (a_slots u) (a_activity_seq u) ?L" using V(4) by (auto simp: metas_ok_def u_def t nth_upd act)
  qed (use acc t in \<open>auto simp: u_def nth_upd same_links_def same_class_def same_extent_def\<close>)
  have "live_set (a_slots u) = ?L" by (simp add: u_def t(1) live_set_upd)
  moreover have "free_metas (a_slots u) (a_free_slot_meta_head u) (live_set (a_slots u))"
    using fm free_metas_upd [of "\<lambda>m. m\<lparr>m_access_seq := a_activity_seq s3\<rparr>" "a_slots s3" i] by (simp add: u_def t act)
  ultimately show "slab_inv s'" using iu by (simp add: slab_inv_def inv_moving_def out)
  have "residents u = residents t" by (rule residents_eqI) (simp_all add: u_def t_def s3_def nth_upd abs_meta_def)
  then show "residents s' = (residents s)(k \<mapsto> fresh_resident (place s c e x) n)" using A(6) out by simp
  have "stable t u" by (simp add: stable_def u_def t nth_upd) (simp add: t_def s3_def enroll_def Let_def)
  then show "stable s s'" using A(7) stable_trans out by blast
  show "\<exists>i. out = Some (place s c e x, i) \<and> Find (a_index s') k = Some i" using A(11) by (simp add: out u_def t_def s3_def)
qed

subsection \<open>Eviction supplies a slot\<close>

lemma FreeSlotLocked_some_free:
  assumes c: "ref_cls (m_ref (a_slots s ! i)) = c" "c < length (a_classes s)" and rr: "c_ext_rr (a_classes s ! c) = []"
  shows "some_free (FreeSlotLocked i s) c"
proof -
  note F = free_mid_class [of s i, unfolded c(1), OF c(2)]
  have "\<not> length (c_ext_rr (a_classes (free_mid i s) ! c)) > kStripeWays" using F(2) rr by (simp add: kStripeWays_def)
  then have "FreeSlotLocked i s = free_mid i s" using c(1) by (simp add: FreeSlotLocked_mid Let_def)
  then show ?thesis using F(1) by (auto simp: some_free_def intro!: exI [of _ "ref_extent (m_ref (a_slots s ! i))"])
qed

lemma EvictOneFrom_progress:
  assumes inv: "slab_inv s" and c: "c < length (a_classes s)" and r: "EvictOneFrom c s ev = (ok, s', ev')"
  shows "ok \<Longrightarrow> \<not> some_free s c \<Longrightarrow> some_free s' c"
    "\<not> ok \<Longrightarrow> on_slot_evict (a_opt s) = None \<Longrightarrow> i \<in> in_cls (a_slots s) (live_set (a_slots s)) c \<Longrightarrow> \<not> free_entry s i"
proof -
  have im: "inv_moving s {}" using inv by (simp add: slab_inv_def)
  let ?S = "in_cls (a_slots s) (live_set (a_slots s)) c"
  have victim: "\<exists>v\<in>?S. \<exists>t. scan_same c s t \<and> evict_slot v t ev = (ok, s', ev')" if i: "\<exists>i\<in>?S. free_entry s i"
  proof -
    have "c_resident_count (a_classes s ! c) \<noteq> 0" using i resident_count_pos [OF im c] by blast
    then obtain ys where ys: "sweep s c ys" "set ys = ?S" "length ys = c_resident_count (a_classes s ! c)"
      using sweep_exists [OF im c] by blast
    obtain v where v: "clock_victim s ys = Some v" using i clock_victim_None [of s ys] ys(2) by fastforce
    then have "v \<in> ?S" using clock_victim_Some ys(2) by blast
    then show ?thesis using EvictOneFrom_victim [OF im c ys v r] by blast
  qed
  show "some_free s' c" if ok: "ok" "\<not> some_free s c"
  proof -
    have "\<exists>i\<in>?S. free_entry s i" using EvictOneFrom_blocked [OF im c _ r] ok(1) by blast
    from victim [OF this] obtain v t where v: "v \<in> ?S" "scan_same c s t" "evict_slot v t ev = (ok, s', ev')" by blast
    obtain w where s': "s' = (FreeSlotLocked v (t\<lparr>a_world := w\<rparr>))\<lparr>a_evictions := a_evictions (FreeSlotLocked v (t\<lparr>a_world := w\<rparr>)) + 1\<rparr>"
      using v(3) ok(1) by (auto simp: evict_slot_def Let_def split: prod.splits if_splits dest!: call_slot_evict_world)
    have "some_free (FreeSlotLocked v (t\<lparr>a_world := w\<rparr>)) c"
      by (rule FreeSlotLocked_some_free) (use v(1,2) c ok(2) PopFree_some(2) [OF im c] in \<open>auto simp: scan_same_def in_cls_def\<close>)
    then show ?thesis by (simp add: s' some_free_def)
  qed
  show "\<not> free_entry s i" if i: "\<not> ok" "on_slot_evict (a_opt s) = None" "i \<in> ?S"
  proof
    assume "free_entry s i"
    with victim i(3) obtain v t where "scan_same c s t" "evict_slot v t ev = (ok, s', ev')" by blast
    then show False using evict_slot_outcome(2) [of v t ev ok s' ev'] i by (simp add: scan_same_def)
  qed
qed

subsection \<open>The search for a slot\<close>

text \<open>The part of a round after a failed pop: whether to try again, and the state after it.\<close>

definition put_refill :: "nat \<Rightarrow> 'w SlabAllocator \<Rightarrow> BlockKey list \<Rightarrow> bool \<times> 'w SlabAllocator \<times> BlockKey list" where
  "put_refill c s1 ev =
     (case (if c_bound_extents (a_classes s1 ! c) < kStripeWays then StealExtentFor c kStripeWays s1 ev else (kUnavailable, s1, ev)) of
        (grow, s2, ev2) \<Rightarrow>
          if grow = kBound then (True, s2, ev2)
          else if grow = kPersistenceError then (False, s2, ev2)
          else (case StealColdExtentFor c s2 ev2 of
            (cold, s3, ev3) \<Rightarrow>
              if cold = kBound then (True, s3, ev3)
              else if cold = kPersistenceError then (False, s3, ev3)
              else (case EvictOneFrom c s3 ev3 of
                (ok, s4, ev4) \<Rightarrow>
                  if ok then (True, s4, ev4)
                  else (case StealExtentFor c 0 s4 ev4 of (steal, s5, ev5) \<Rightarrow> (steal = kBound, s5, ev5)))))"

lemma put_loop_round:
  "put_loop c s ev =
     (case bind_stripes c s of (bind, s1) \<Rightarrow>
        if bind = kPersistenceError then Some (None, s1, ev)
        else (case PopFreeLocked (a_classes s1 ! c) of
          (Some placement, C) \<Rightarrow> Some (Some placement, upd_class c (\<lambda>_. C) s1, ev)
        | (None, _) \<Rightarrow>
            (case put_refill c s1 ev of (again, s2, ev2) \<Rightarrow> if again then put_loop c s2 ev2 else Some (None, s2, ev2))))"
proof -
  obtain bind s1 where b: "bind_stripes c s = (bind, s1)" by fastforce
  obtain p C where p: "PopFreeLocked (a_classes s1 ! c) = (p, C)" by fastforce
  obtain grow s2 ev2 where g: "(if c_bound_extents (a_classes s1 ! c) < kStripeWays then StealExtentFor c kStripeWays s1 ev
    else (kUnavailable, s1, ev)) = (grow, s2, ev2)" by (rule prod_cases3)
  obtain cold s3 ev3 where d: "StealColdExtentFor c s2 ev2 = (cold, s3, ev3)" by (rule prod_cases3)
  obtain ok s4 ev4 where e: "EvictOneFrom c s3 ev3 = (ok, s4, ev4)" by (rule prod_cases3)
  obtain steal s5 ev5 where f: "StealExtentFor c 0 s4 ev4 = (steal, s5, ev5)" by (rule prod_cases3)
  show ?thesis
    unfolding put_loop.simps [of c s ev] put_refill_def b p g d e f prod.case
    by (cases p; cases grow; cases cold; cases ok; cases steal)
      (simp_all only: option.case if_True if_False simp_thms prod.case ExtentBindResult.distinct)
qed

text \<open>No slot can be found for class \<open>c\<close>: every resident of the class and, in every extent of
  another class, some resident is pinned or protected.\<close>

definition jammed :: "nat \<Rightarrow> 'w SlabAllocator \<Rightarrow> bool" where
  "jammed c s \<longleftrightarrow> (\<forall>k r. residents s k = Some r \<longrightarrow> ref_cls (r_ref r) = c \<longrightarrow> \<not> evictable r) \<and>
     (\<forall>e<length (a_extents s). \<forall>d. e_cls (a_extents s ! e) = Some d \<longrightarrow> d \<noteq> c \<longrightarrow> held_extent s e)"

lemma EvictOneFrom_refused:
  assumes inv: "slab_inv s" and c: "c < length (a_classes s)" and r: "EvictOneFrom c s ev = (False, s', ev')"
  shows "slab_inv s'" "evicts s s' ev ev" "ev' = ev" "residents s' = residents s"
    "on_slot_evict (a_opt s) = None \<Longrightarrow> residents s k = Some q \<Longrightarrow> ref_cls (r_ref q) = c \<Longrightarrow> \<not> evictable q"
proof -
  have im: "inv_moving s {}" using inv by (simp add: slab_inv_def)
  note E = EvictOneFrom_correct [OF im c r]
  show ev: "ev' = ev" using E(2,3) by (auto simp: evicts_def)
  show "slab_inv s'" "evicts s s' ev ev" "residents s' = residents s" using E(1,2) evicts_nothing by (auto simp: ev slab_inv_def)
  assume q: "on_slot_evict (a_opt s) = None" "residents s k = Some q" "ref_cls (r_ref q) = c"
  then obtain i where i: "Find (a_index s) k = Some i" "q = abs_meta (a_slots s ! i)" by (auto simp: residents_def)
  then have "i \<in> in_cls (a_slots s) (live_set (a_slots s)) c"
    using inv_moving_index(2) [OF im] q(3) by (auto simp: in_cls_def abs_meta_def)
  then have "\<not> free_entry s i" using EvictOneFrom_progress(2) [OF inv c r _ q(1)] by blast
  then show "\<not> evictable q" by (simp add: i(2) evictable_def abs_meta_def free_entry_def)
qed

lemma put_refill_ok:
  assumes inv: "slab_inv s" and c: "c < length (a_classes s)" and none: "\<not> some_free s c" and r: "put_refill c s ev = (again, s', ev')"
  shows "slab_inv s' \<and> evicts s s' ev ev' \<and> (again \<longrightarrow> some_free s' c) \<and> (\<not> again \<longrightarrow> ev' = ev) \<and>
    (\<not> again \<longrightarrow> on_extent_bind (a_opt s) = None \<longrightarrow> on_slot_evict (a_opt s) = None \<longrightarrow> jammed c s')"
proof -
  obtain grow s2 ev2 where g: "(if c_bound_extents (a_classes s ! c) < kStripeWays then StealExtentFor c kStripeWays s ev
    else (kUnavailable, s, ev)) = (grow, s2, ev2)" by (rule prod_cases3)
  have G: "steal_ok c s ev (grow, s2, ev2)"
    using StealExtentFor_ok [OF inv, of c ev kStripeWays] steal_ok_unavailable [OF inv, of c ev] g by (auto split: if_splits)
  show ?thesis
  proof (cases grow)
    case kUnavailable
    then have s2: "s2 = s" "ev2 = ev" using G by (auto simp: steal_ok_def)
    obtain cold s3 ev3 where d: "StealColdExtentFor c s ev = (cold, s3, ev3)" by (rule prod_cases3)
    have D: "steal_ok c s ev (cold, s3, ev3)" using StealColdExtentFor_ok [OF inv, of c ev] d by simp
    show ?thesis
    proof (cases cold)
      case cold: kUnavailable
      then have s3: "s3 = s" "ev3 = ev" using D by (auto simp: steal_ok_def)
      obtain ok s4 ev4 where e: "EvictOneFrom c s ev = (ok, s4, ev4)" by (rule prod_cases3)
      show ?thesis
      proof (cases ok)
        case True
        then have "again" "s' = s4" "ev' = ev4" using r g d e kUnavailable cold s2 s3 by (simp_all add: put_refill_def)
        moreover have "inv_moving s {}" using inv by (simp add: slab_inv_def)
        ultimately show ?thesis
          using EvictOneFrom_correct [OF _ c e] EvictOneFrom_progress(1) [OF inv c e True none] by (auto simp: slab_inv_def)
      next
        case False
        note E = EvictOneFrom_refused [OF inv c e [unfolded eq_False [THEN iffD2, OF False]]]
        obtain steal s5 ev5 where f: "StealExtentFor c 0 s4 ev4 = (steal, s5, ev5)" by (rule prod_cases3)
        have F: "steal_ok c s4 ev (steal, s5, ev5)" using StealExtentFor_ok [OF E(1), of c ev 0] f E(3) by simp
        have res: "again = (steal = kBound)" "s' = s5" "ev' = ev5"
          using r g d e f kUnavailable cold s2 s3 False by (simp_all add: put_refill_def)
        have st: "c < length (a_classes s4)" "a_opt s4 = a_opt s" using E(2) c by (auto simp: evicts_def stable_def)
        have jam: "jammed c s5" if "steal = kUnavailable" "on_slot_evict (a_opt s) = None"
        proof -
          have "s5 = s4" using F that(1) by (simp add: steal_ok_def)
          then show ?thesis
            using StealExtentFor_unavailable [OF E(1) st(1), of ev4 s5 ev5] f that E(4,5) by (auto simp: jammed_def)
        qed
        show ?thesis using F jam evicts_trans [OF E(2)] st(2) unfolding res by (cases steal) (auto simp: steal_ok_def)
      qed
    qed (use r g d s2 kUnavailable D in \<open>auto simp: put_refill_def steal_ok_def\<close>)
  qed (use r g G in \<open>auto simp: put_refill_def steal_ok_def\<close>)
qed

lemma bind_ok_evicts: "bind_ok c s s' \<Longrightarrow> evicts s s' ev ev"
  by (auto simp: bind_ok_def intro: evicts_same)

lemma bind_stripes_dry:
  assumes inv: "slab_inv s" and c: "c < length (a_classes s)" and b: "bind_stripes c s = (res, s1)"
    and dry: "\<not> some_free s1 c" "res \<noteq> kPersistenceError"
  shows "s1 = s" "a_unbound s = 0" "\<not> some_free s c"
proof -
  have im: "inv_moving s {}" using inv by (simp add: slab_inv_def)
  show nf: "\<not> some_free s c" using bind_stripes_ok [OF inv c b] dry(1) by (auto simp: bind_ok_def)
  then have "length (c_ext_rr (a_classes s ! c)) < kStripeWays" using PopFree_some(2) [OF im c] by (simp add: kStripeWays_def)
  obtain r1 t where t: "BindFreeExtent c s = (r1, t)" by fastforce
  note B = BindFreeExtent_ok [OF inv c t]
  have u: "bind_stripes c s = (if r1 = kBound then bind_stripes c t else (r1, t))"
    using \<open>length _ < kStripeWays\<close> t by (subst bind_stripes.simps) simp
  have "r1 \<noteq> kBound"
  proof
    assume "r1 = kBound"
    then have "bind_stripes c t = (res, s1)" "some_free t c" using u b B(2) by simp_all
    moreover have "slab_inv t" "c < length (a_classes t)" using B(1) c by (auto simp: bind_ok_def stable_def)
    ultimately show False using bind_stripes_ok [of t c res s1] dry(1) by (auto simp: bind_ok_def)
  qed
  then have "r1 = kUnavailable" "s1 = t" using u b dry(2) by (cases r1; simp)+
  then show "s1 = s" "a_unbound s = 0" using B(3) by simp_all
qed

definition put_found :: "nat \<Rightarrow> 'w SlabAllocator \<Rightarrow> BlockKey list \<Rightarrow> (nat \<times> nat) option \<times> 'w SlabAllocator \<times> BlockKey list \<Rightarrow> bool" where
  "put_found c s ev res \<longleftrightarrow> (case res of (out, s', ev') \<Rightarrow> evicts s s' ev ev' \<and>
     (case out of
        Some (e, x) \<Rightarrow> inv_moving s' {(e, x)} \<and> e < length (a_extents s') \<and> e_cls (a_extents s' ! e) = Some c
      | None \<Rightarrow> slab_inv s'))"

lemma pop_found:
  assumes inv: "slab_inv s" and c: "c < length (a_classes s)" and p: "PopFreeLocked (a_classes s ! c) = (Some p, C)"
  shows "put_found c s ev (Some p, upd_class c (\<lambda>_. C) s, ev)"
proof -
  obtain e x where ex: "p = (e, x)" by fastforce
  have "inv_moving s {}" using inv by (simp add: slab_inv_def)
  note P = PopFree_moving [OF this c p [unfolded ex]]
  show ?thesis using P evicts_same [OF P(4,5)] by (simp add: put_found_def ex)
qed

lemma put_found_trans: "evicts s t e0 e1 \<Longrightarrow> put_found c t e1 res \<Longrightarrow> put_found c s e0 res"
  using evicts_trans by (auto simp: put_found_def split: prod.splits option.splits)

lemma put_loop_free:
  assumes inv: "slab_inv s" and c: "c < length (a_classes s)" and free: "some_free s c"
  shows "\<exists>res. put_loop c s ev = Some res \<and> put_found c s ev res \<and> (on_extent_bind (a_opt s) = None \<longrightarrow> fst res \<noteq> None)"
proof -
  obtain bind s1 where b: "bind_stripes c s = (bind, s1)" by fastforce
  note B = bind_stripes_ok [OF inv c b]
  have s1: "slab_inv s1" "c < length (a_classes s1)" "some_free s1 c" "inv_moving s1 {}"
    using B free c by (auto simp: bind_ok_def stable_def slab_inv_def)
  then obtain p C where p: "PopFreeLocked (a_classes s1 ! c) = (Some p, C)" using PopFree_some(1) by blast
  have e: "evicts s s1 ev ev" using B bind_ok_evicts by blast
  show ?thesis
  proof (cases "bind = kPersistenceError")
    case True
    then show ?thesis using b B s1(1) e by (subst put_loop_round) (auto simp: put_found_def)
  next
    case False
    then show ?thesis using b p put_found_trans [OF e pop_found [OF s1(1,2) p]] by (subst put_loop_round) simp
  qed
qed

text \<open>The search always ends: a second round finds the slot the first one supplied.\<close>

lemma put_loop_ends:
  assumes inv: "slab_inv s" and c: "c < length (a_classes s)"
  shows "\<exists>res. put_loop c s ev = Some res \<and> put_found c s ev res \<and>
    (fst res = None \<longrightarrow> on_extent_bind (a_opt s) = None \<longrightarrow> on_slot_evict (a_opt s) = None \<longrightarrow>
       a_unbound s = 0 \<and> \<not> some_free s c \<and> jammed c (fst (snd res)) \<and> snd (snd res) = ev)"
proof -
  obtain bind s1 where b: "bind_stripes c s = (bind, s1)" by fastforce
  note B = bind_stripes_ok [OF inv c b]
  have s1: "slab_inv s1" "c < length (a_classes s1)" "inv_moving s1 {}" "a_opt s1 = a_opt s"
    using B c by (auto simp: bind_ok_def stable_def slab_inv_def)
  have e: "evicts s s1 ev ev" using B bind_ok_evicts by blast
  show ?thesis
  proof (cases "bind = kPersistenceError")
    case True
    then show ?thesis using b B s1(1) e by (subst put_loop_round) (auto simp: put_found_def)
  next
    case nb: False
    show ?thesis
    proof (cases "some_free s1 c")
      case True
      then obtain p C where p: "PopFreeLocked (a_classes s1 ! c) = (Some p, C)" using PopFree_some(1) [OF s1(3,2)] by blast
      then show ?thesis using b nb put_found_trans [OF e pop_found [OF s1(1,2) p]] by (subst put_loop_round) simp
    next
      case False
      then obtain C where p: "PopFreeLocked (a_classes s1 ! c) = (None, C)"
        using PopFree_some(1) [OF s1(3,2)] by (metis option.exhaust surj_pair)
      obtain again s2 ev2 where r: "put_refill c s1 ev = (again, s2, ev2)" by (rule prod_cases3)
      note R = put_refill_ok [OF s1(1,2) False r] and D = bind_stripes_dry [OF inv c b False nb]
      have round: "put_loop c s ev = (if again then put_loop c s2 ev2 else Some (None, s2, ev2))"
        using b nb p r by (subst put_loop_round) simp
      have E: "evicts s s2 ev ev2" using R evicts_trans [OF e] by blast
      have o: "c < length (a_classes s2)" "a_opt s2 = a_opt s" using E c by (auto simp: evicts_def stable_def)
      show ?thesis
      proof (cases again)
        case True
        then show ?thesis using put_loop_free [OF _ o(1), of ev2] R o(2) put_found_trans [OF E] unfolding round by auto
      next
        case no: False
        then show ?thesis using R D E s1(4) unfolding round by (auto simp: put_found_def)
      qed
    qed
  qed
qed


subsection \<open>The class of a value\<close>

text \<open>The class found for an aligned length has slots that hold the value.\<close>

lemma ClassForLen_fits:
  assumes inv: "inv_moving s H" and n: "len \<le> UINT32_MAX" and al: "AlignUp len (o_align (a_opt s)) \<noteq> 0"
    and c: "ClassForLen s (AlignUp len (o_align (a_opt s))) < length (a_classes s)"
  shows "len \<le> c_slot_size (a_classes s ! ClassForLen s (AlignUp len (o_align (a_opt s))))"
proof -
  let ?a = "AlignUp len (o_align (a_opt s))" and ?c = "ClassForLen s (AlignUp len (o_align (a_opt s)))"
  have z: "c_slot_size (a_classes s ! ?c) = canonical_loop (a_opt s) ?a (o_align (a_opt s))"
    using c find_class_props(3) [of "a_classes s" _ 0]
    by (auto simp: ClassForLen_def ClassForExactSize_def CanonicalSlotSize_def split: if_splits)
  note g = class_geometry [OF inv c]
  have "?a < 2 ^ 32 + max (o_align (a_opt s)) 1" using AlignUp_ge(2) [OF al] n by (simp add: UINT32_MAX_def)
  moreover have "?a mod 2 ^ 32 = ?a - 2 ^ 32" if "2 ^ 32 \<le> ?a" "?a < 2 * 2 ^ 32"
    using that by (simp add: le_mod_geq)
  ultimately have "?a \<le> c_slot_size (a_classes s ! ?c)"
    using canonical_loop_ge [of "o_align (a_opt s)" "a_opt s" ?a] g max_aligned_bounds(2) [of "a_opt s"] unfolding z by fastforce
  then show ?thesis using AlignUp_ge(1) [OF al] by simp
qed

subsection \<open>Put\<close>

text \<open>Changing fields of one entry that no account reads.\<close>

lemma inv_moving_slot:
  assumes inv: "inv_moving s H"
    and f: "same_links (a_slots s ! i) (f (a_slots s ! i))" "\<And>m. m_live (f m) = m_live m" "\<And>m. m_free_next (f m) = m_free_next m"
      "m_refs (f (a_slots s ! i)) = m_refs (a_slots s ! i)" "m_access_seq (f (a_slots s ! i)) = m_access_seq (a_slots s ! i)"
      "(m_retain_until (f (a_slots s ! i)) = 0) = (m_retain_until (a_slots s ! i) = 0)"
      "m_remove_pending (f (a_slots s ! i)) \<Longrightarrow> m_remove_pending (a_slots s ! i) \<or> m_refs (a_slots s ! i) > 0"
  shows "inv_moving (upd_slot i f s) H"
proof -
  let ?L = "live_set (a_slots s)" and ?s = "upd_slot i f s"
  have at: "inv_at s ?L H" and fm: "free_metas (a_slots s) (a_free_slot_meta_head s) ?L" using inv by (auto simp: inv_moving_def)
  have V: "extent_lists (a_slots s) (a_extents s) ?L" "pins_ok (a_slots s) (a_extents s) ?L"
    "prot_ok (a_slots s) (a_classes s) (a_extents s) (a_protected_bytes s) (a_protected_slots s) ?L"
    "metas_ok (a_slots s) (a_activity_seq s) ?L" using at by (auto simp: inv_at_def)
  have "inv_at ?s ?L H"
  proof (rule inv_at_books [OF at])
    show "pins_ok (a_slots ?s) (a_extents ?s) ?L" using V(2) by (rule pins_ok_cong) (use f in \<open>auto simp: nth_upd same_links_def\<close>)
    show "prot_ok (a_slots ?s) (a_classes ?s) (a_extents ?s) (a_protected_bytes ?s) (a_protected_slots ?s) ?L"
      by (simp, rule prot_ok_cong [OF V(3)]) (use f in \<open>auto simp: nth_upd same_links_def\<close>)
    show "metas_ok (a_slots ?s) (a_activity_seq ?s) ?L" using V(4) f by (auto simp: metas_ok_def nth_upd same_links_def)
    show "e_access_seq_sum (a_extents ?s ! e) = (\<Sum>i\<in>at_ext (a_slots s) ?L e. m_access_seq (a_slots ?s ! i))"
      if "e < length (a_extents s)" for e
      using V(1) that f(5) by (auto simp: extent_lists_def nth_upd intro!: sum.cong)
    show "same_links (a_slots s ! j) (a_slots ?s ! j)" for j using f(1) by (auto simp: nth_upd same_links_def)
  qed (simp_all add: same_class_def same_extent_def)
  then show ?thesis using fm f(2,3) free_metas_upd [of f "a_slots s" i]
    by (simp add: inv_moving_def live_set_upd)
qed

lemma inv_moving_activity:
  assumes "inv_moving s H" "a_activity_seq s \<le> n"
  shows "inv_moving (s\<lparr>a_activity_seq := n\<rparr>) H"
  using assms metas_ok_cong [of "a_slots s" "a_activity_seq s" _ n] by (simp add: inv_moving_def inv_at_def)

lemma residents_frame [simp]:
  "residents (s\<lparr>a_activity_seq := n\<rparr>) = residents s" "stable s (s\<lparr>a_activity_seq := n\<rparr>)"
  by (auto simp: residents_def stable_def)

lemma Put_resident:
  assumes inv: "slab_inv s" and r: "residents s k = Some r"
  shows "\<exists>out s'. Put k len s = Some (out, s', []) \<and> slab_inv s' \<and> stable s s' \<and> residents s' = residents s \<and>
    map_option fst out = (if r_pending r then None else Some (r_ref r))"
proof -
  let ?s = "s\<lparr>a_activity_seq := a_activity_seq s + 1\<rparr>"
  obtain i where i: "Find (a_index s) k = Some i" "r = abs_meta (a_slots s ! i)" using r by (auto simp: residents_def)
  have s: "inv_moving ?s {}" using inv by (simp add: slab_inv_def inv_moving_activity)
  show ?thesis
  proof (cases "m_remove_pending (a_slots s ! i)")
    case True
    then show ?thesis using i s by (simp add: Put_def abs_meta_def slab_inv_def)
  next
    case False
    let ?t = "upd_slot i (\<lambda>m. m\<lparr>m_referenced := True\<rparr>) ?s"
    have "inv_moving ?t {}" by (rule inv_moving_slot [OF s]) (auto simp: same_links_def)
    moreover have "stable s ?t" by (simp add: stable_def)
    moreover have "residents ?t = residents s" by (rule residents_eqI) (auto simp: nth_upd abs_meta_def)
    ultimately show ?thesis using i False by (simp add: Put_def abs_meta_def slab_inv_def)
  qed
qed

text \<open>A key that is not resident: the outcome of the search decides.\<close>

definition put_done :: "BlockKey \<Rightarrow> nat \<Rightarrow> 'w SlabAllocator \<Rightarrow> (SlotRef \<times> nat) option \<times> 'w SlabAllocator \<times> BlockKey list \<Rightarrow> bool" where
  "put_done k len s res \<longleftrightarrow> (case res of (out, s', ev) \<Rightarrow> slab_inv s' \<and> stable s s' \<and> distinct ev \<and>
     (\<forall>v\<in>set ev. \<exists>r. residents s v = Some r \<and> evictable r) \<and>
     (case out of
        None \<Rightarrow> residents s' = residents s |` (- set ev)
      | Some (r, i) \<Rightarrow> residents s' = (residents s |` (- set ev))(k \<mapsto> fresh_resident r len) \<and> len \<le> ref_slot_size r \<and>
          Find (a_index s') k = Some i))"

lemma put_done_same: "slab_inv s' \<Longrightarrow> stable s s' \<Longrightarrow> residents s' = residents s \<Longrightarrow> put_done k len s (None, s', [])"
  by (simp add: put_done_def restrict_map_def)

lemma put_install:
  assumes k: "residents s k = None" and f: "put_found c s [] (Some (e, x), s1, ev)" and n: "n \<le> c_slot_size (a_classes s ! c)"
    and r: "install_resident k n c (e, x) s1 = (out, s2)"
  shows "put_done k n s (out, s2, ev)" "out \<noteq> None"
proof -
  have E: "evicts s s1 [] ev" "inv_moving s1 {(e, x)}" "e < length (a_extents s1)" "e_cls (a_extents s1 ! e) = Some c"
    using f by (auto simp: put_found_def)
  have s1: "residents s1 = residents s |` (- set ev)" "stable s s1" "distinct ev"
    "\<forall>v\<in>set ev. \<exists>r. residents s v = Some r \<and> evictable r" using E(1) by (auto simp: evicts_def)
  have n1: "n \<le> c_slot_size (a_classes s1 ! c)" "residents s1 k = None" using n s1(2) k by (auto simp: stable_def s1(1) restrict_map_def)
  note I = install_resident_ok [OF E(2-4) n1(2,1) r]
  then show "put_done k n s (out, s2, ev)" "out \<noteq> None"
    using s1 n1 stable_trans [OF s1(2) I(3)] by (auto simp: put_done_def place_def)
qed

lemma Put_absent:
  assumes inv: "slab_inv s" and k: "residents s k = None"
  shows "\<exists>res. Put k len s = Some res \<and> put_done k len s res \<and>
    (fst res = None \<longrightarrow> on_extent_bind (a_opt s) = None \<longrightarrow> on_slot_evict (a_opt s) = None \<longrightarrow>
       0 < len \<longrightarrow> len \<le> UINT32_MAX \<longrightarrow> AlignUp len (o_align (a_opt s)) \<noteq> 0 \<longrightarrow> AlignUp len (o_align (a_opt s)) \<le> o_extent_bytes (a_opt s) \<longrightarrow>
       (let c = ClassForLen s (AlignUp len (o_align (a_opt s)))
        in c < length (a_classes s) \<longrightarrow> a_unbound s = 0 \<and> \<not> some_free s c \<and> jammed c (fst (snd res)) \<and> snd (snd res) = []))"
proof -
  let ?s = "s\<lparr>a_activity_seq := a_activity_seq s + 1\<rparr>" and ?a = "AlignUp len (o_align (a_opt s))"
  let ?c = "ClassForLen s ?a"
  have s: "slab_inv ?s" "inv_moving ?s {}" using inv by (simp_all add: slab_inv_def inv_moving_activity)
  have F: "Find (a_index s) k = None" using k by (simp add: residents_def)
  have c: "ClassForLen ?s a = ClassForLen s a" for a by (simp add: ClassForLen_def ClassForExactSize_def)
  have st: "put_done k len s res" if "put_done k len ?s res" for res
    using that by (auto simp: put_done_def stable_def split: prod.splits option.splits)
  let ?bad = "len = 0 \<or> len > o_extent_bytes (a_opt s) \<or> len > UINT32_MAX \<or> ?a = 0 \<or> ?a > o_extent_bytes (a_opt s) \<or> ?c \<ge> length (a_classes s)"
  show ?thesis
  proof (cases ?bad)
    case True
    then have "Put k len s = Some (None, ?s, [])" using F c by (auto simp: Put_def Let_def)
    moreover have "put_done k len s (None, ?s, [])" using s by (intro put_done_same) simp_all
    moreover have "?a \<noteq> 0 \<Longrightarrow> len \<le> ?a" by (rule AlignUp_ge(1))
    ultimately show ?thesis using True by (auto simp: Let_def)
  next
    case False
    then have fit: "len \<le> c_slot_size (a_classes ?s ! ?c)" using ClassForLen_fits [OF s(2), of len] c by simp
    obtain out s1 ev where L: "put_loop ?c ?s [] = Some (out, s1, ev)" "put_found ?c ?s [] (out, s1, ev)"
      "out = None \<longrightarrow> on_extent_bind (a_opt s) = None \<longrightarrow> on_slot_evict (a_opt s) = None \<longrightarrow>
       a_unbound s = 0 \<and> \<not> some_free s ?c \<and> jammed ?c s1 \<and> ev = []"
      using put_loop_ends [OF s(1), of ?c "[]"] False by (auto simp: some_free_def)
    show ?thesis
    proof (cases out)
      case None
      then have "Put k len s = Some (None, s1, ev)" using F c False L(1) by (auto simp: Put_def Let_def)
      moreover have "put_done k len ?s (None, s1, ev)" using L(2) None by (auto simp: put_done_def put_found_def evicts_def)
      ultimately show ?thesis using L(3) None st by auto
    next
      case (Some p)
      obtain e x where p: "p = (e, x)" by fastforce
      obtain res s2 where r: "install_resident k len ?c (e, x) s1 = (res, s2)" by fastforce
      have "Put k len s = Some (res, s2, ev)" using F c False L(1) Some p r by (auto simp: Put_def Let_def)
      moreover have "put_done k len ?s (res, s2, ev)" "res \<noteq> None"
        using put_install [OF _ L(2) [unfolded Some p] fit r] k by simp_all
      ultimately show ?thesis using st by auto
    qed
  qed
qed

end
