(* ===== verification/Slab_Access.thy ===== *)
theory Slab_Access
  imports Slab_Put
begin

text \<open>
  Reads, pins and removal. A touch moves the entry behind the hands of both rings and updates the
  heat and recency accounts; a pin keeps a resident in place; a removal is immediate for an
  unpinned resident and deferred to the last unpin otherwise. Every operation keeps the invariant
  and acts on the abstract content exactly as stated.
\<close>

subsection \<open>Moving an entry behind the hand of its ring\<close>

lemma ring_singleton:
  assumes r: "ring gn gp slots head hand S" and i: "S = {i}"
  shows "gn (slots ! i) = kNoSlot" "hand = head"
proof -
  obtain xs where xs: "linked gn gp slots head xs" "set xs = {i}" "hand_ok hand xs" using r i by (auto simp: ring_def)
  have "distinct xs" using xs(1) by (simp add: linked_def)
  with xs(2) have "xs = [i]" by (cases xs; cases "tl xs") auto
  with xs show "gn (slots ! i) = kNoSlot" "hand = head" using linked_parts(2,3) [of gn gp slots head "[]" i "[]"]
    by (auto simp: hand_ok_def)
qed

text \<open>The fields that the ring moves leave alone.\<close>

definition same_books :: "SlotMeta \<Rightarrow> SlotMeta \<Rightarrow> bool" where
  "same_books m m' \<longleftrightarrow> m_key m' = m_key m \<and> m_ref m' = m_ref m \<and> m_useful_bytes m' = m_useful_bytes m \<and>
     m_extent_next m' = m_extent_next m \<and> m_extent_prev m' = m_extent_prev m \<and> m_access_seq m' = m_access_seq m \<and>
     m_refs m' = m_refs m \<and> m_retain_until m' = m_retain_until m \<and> m_remove_pending m' = m_remove_pending m \<and>
     m_live m' = m_live m \<and> m_free_next m' = m_free_next m \<and> m_retain_ttl_s m' = m_retain_ttl_s m \<and>
     m_referenced m' = m_referenced m \<and> m_read_touches m' = m_read_touches m"

definition same_pool :: "Class \<Rightarrow> Class \<Rightarrow> bool" where
  "same_pool C C' \<longleftrightarrow> c_slot_size C' = c_slot_size C \<and> c_slots_per_extent C' = c_slots_per_extent C \<and>
     pool_ok C' = pool_ok C \<and> frees C' = frees C \<and> c_protected_slots C' = c_protected_slots C \<and>
     c_useful_bytes C' = c_useful_bytes C \<and> c_bound_extents C' = c_bound_extents C \<and> c_resident_count C' = c_resident_count C"

lemma same_books_trans: "same_books l m \<Longrightarrow> same_books m n \<Longrightarrow> same_books l n"
  by (simp add: same_books_def)

lemma inv_at_rings:
  assumes inv: "inv_at s L H"
    and st: "a_opt s' = a_opt s" "a_index s' = a_index s" "a_extents s' = a_extents s" "a_unbound s' = a_unbound s"
      "a_used_bytes s' = a_used_bytes s" "a_protected_bytes s' = a_protected_bytes s" "a_protected_slots s' = a_protected_slots s"
      "a_activity_seq s' = a_activity_seq s"
    and len: "length (a_slots s') = length (a_slots s)" "length (a_classes s') = length (a_classes s)"
    and sl: "\<And>i. same_books (a_slots s ! i) (a_slots s' ! i)"
    and cs: "\<And>c. same_pool (a_classes s ! c) (a_classes s' ! c)"
    and cr: "class_rings (a_slots s') (a_classes s') L"
    and gr: "ring m_global_next m_global_prev (a_slots s') (a_global_ring_head s') (a_global_hand s') L"
  shows "inv_at s' L H"
proof -
  have V: "geometry (a_opt s) (a_classes s) (length (a_extents s))" "extent_lists (a_slots s) (a_extents s) L"
    "index_ok (a_slots s) (a_index s) L" "pools_ok (a_classes s) (a_extents s)"
    "space_ok (a_slots s) (a_classes s) (a_extents s) L H" "pins_ok (a_slots s) (a_extents s) L"
    "prot_ok (a_slots s) (a_classes s) (a_extents s) (a_protected_bytes s) (a_protected_slots s) L"
    "bytes_ok (a_slots s) (a_classes s) (a_extents s) (a_used_bytes s) L"
    "binding_ok (a_classes s) (a_extents s) (a_unbound s)" "metas_ok (a_slots s) (a_activity_seq s) L"
    using inv by (auto simp: inv_at_def)
  note C = cs [unfolded same_pool_def]
  note S = sl [unfolded same_books_def]
  have "geometry (a_opt s) (a_classes s') (length (a_extents s))" by (rule geometry_cong [OF V(1) len(2)]) (simp add: C)
  moreover have "extent_lists (a_slots s') (a_extents s) L" by (rule extent_lists_cong [OF V(2) len(1)]) (simp_all add: S)
  moreover have "index_ok (a_slots s') (a_index s) L" by (rule index_ok_cong [OF V(3)]) (simp add: S)
  moreover have "pools_ok (a_classes s') (a_extents s)" by (rule pools_ok_cong [OF V(4) len(2)]) (simp_all add: C)
  moreover have "space_ok (a_slots s') (a_classes s') (a_extents s) L H" by (rule space_ok_cong [OF V(5) len(2)]) (simp_all add: C S)
  moreover have "pins_ok (a_slots s') (a_extents s) L" by (rule pins_ok_cong [OF V(6)]) (simp_all add: S)
  moreover have "prot_ok (a_slots s') (a_classes s') (a_extents s) (a_protected_bytes s) (a_protected_slots s) L"
    by (rule prot_ok_cong [OF V(7) len(2)]) (simp_all add: C S)
  moreover have "bytes_ok (a_slots s') (a_classes s') (a_extents s) (a_used_bytes s) L"
    by (rule bytes_ok_cong [OF V(8) len(2)]) (simp_all add: C S)
  moreover have "binding_ok (a_classes s') (a_extents s) (a_unbound s)" by (rule binding_ok_cong [OF V(9) len(2)]) (simp_all add: C)
  moreover have "metas_ok (a_slots s') (a_activity_seq s) L" by (rule metas_ok_cong [OF V(10)]) (simp_all add: S)
  ultimately show ?thesis using inv cr gr st len by (simp add: inv_at_def)
qed

definition behind_hand :: "nat \<Rightarrow> 'w SlabAllocator \<Rightarrow> bool" where
  "behind_hand i s \<longleftrightarrow> (let meta = a_slots s ! i; C = a_classes s ! ref_cls (m_ref meta)
     in m_class_next meta = c_hand C \<or> (m_class_next meta = kNoSlot \<and> c_hand C = c_ring_head C))"

definition behind_global_hand :: "nat \<Rightarrow> 'w SlabAllocator \<Rightarrow> bool" where
  "behind_global_hand i s \<longleftrightarrow> (let meta = a_slots s ! i
     in m_global_next meta = a_global_hand s \<or> (m_global_next meta = kNoSlot \<and> a_global_hand s = a_global_ring_head s))"

definition relink_class :: "nat \<Rightarrow> 'w SlabAllocator \<Rightarrow> 'w SlabAllocator" where
  "relink_class i s = LinkBeforeHandLocked i (unlink_class i s)"

definition relink_global :: "nat \<Rightarrow> 'w SlabAllocator \<Rightarrow> 'w SlabAllocator" where
  "relink_global i s = LinkBeforeGlobalHandLocked i (unlink_global i s)"

lemma relink_class_frame [simp]:
  "a_opt (relink_class i s) = a_opt s" "a_index (relink_class i s) = a_index s" "a_extents (relink_class i s) = a_extents s"
  "a_unbound (relink_class i s) = a_unbound s" "a_used_bytes (relink_class i s) = a_used_bytes s"
  "a_protected_bytes (relink_class i s) = a_protected_bytes s" "a_protected_slots (relink_class i s) = a_protected_slots s"
  "a_activity_seq (relink_class i s) = a_activity_seq s" "length (a_slots (relink_class i s)) = length (a_slots s)"
  "length (a_classes (relink_class i s)) = length (a_classes s)" "a_free_slot_meta_head (relink_class i s) = a_free_slot_meta_head s"
  "a_global_ring_head (relink_class i s) = a_global_ring_head s" "a_global_hand (relink_class i s) = a_global_hand s"
  "m_global_next (a_slots (relink_class i s) ! j) = m_global_next (a_slots s ! j)"
  "m_global_prev (a_slots (relink_class i s) ! j) = m_global_prev (a_slots s ! j)"
  "same_books (a_slots s ! j) (a_slots (relink_class i s) ! j)"
  "stable s (relink_class i s)"
  by (simp_all add: relink_class_def LinkBeforeHandLocked_def unlink_class_def Let_def same_books_def stable_def nth_upd)

lemma relink_global_frame [simp]:
  "a_opt (relink_global i s) = a_opt s" "a_index (relink_global i s) = a_index s" "a_extents (relink_global i s) = a_extents s"
  "a_unbound (relink_global i s) = a_unbound s" "a_used_bytes (relink_global i s) = a_used_bytes s"
  "a_protected_bytes (relink_global i s) = a_protected_bytes s" "a_protected_slots (relink_global i s) = a_protected_slots s"
  "a_activity_seq (relink_global i s) = a_activity_seq s" "length (a_slots (relink_global i s)) = length (a_slots s)"
  "a_classes (relink_global i s) = a_classes s" "a_free_slot_meta_head (relink_global i s) = a_free_slot_meta_head s"
  "m_class_next (a_slots (relink_global i s) ! j) = m_class_next (a_slots s ! j)"
  "m_class_prev (a_slots (relink_global i s) ! j) = m_class_prev (a_slots s ! j)"
  "same_books (a_slots s ! j) (a_slots (relink_global i s) ! j)"
  "stable s (relink_global i s)"
  by (simp_all add: relink_global_def LinkBeforeGlobalHandLocked_def unlink_global_def Let_def same_books_def stable_def)

lemmas relink_books = relink_class_frame(16) [unfolded same_books_def] relink_global_frame(14) [unfolded same_books_def]

lemma relink_global_inv:
  assumes inv: "inv_at s L H" and i: "i \<in> L" and b: "\<not> behind_global_hand i s"
  shows "inv_at (relink_global i s) L H"
proof -
  note E = inv_at_entry [OF inv i]
  have R: "ring m_global_next m_global_prev (a_slots s) (a_global_ring_head s) (a_global_hand s) L"
    and cr: "class_rings (a_slots s) (a_classes s) L" using inv by (auto simp: inv_at_def)
  have "L \<noteq> {i}" using ring_singleton [OF R, of i] b by (auto simp: behind_global_hand_def Let_def)
  with i have ne: "L - {i} \<noteq> {}" by blast
  note U = global_ring.ring_unlink [OF R i]
  have hand: "a_global_hand (unlink_global i s) \<noteq> kNoSlot"
    using ring_empty_iff [OF U] ne by (simp add: unlink_global_def Let_def)
  have "ring m_global_next m_global_prev (a_slots (relink_global i s)) (a_global_ring_head (relink_global i s))
      (a_global_hand (relink_global i s)) (insert i (L - {i}))"
    using global_ring.ring_link [OF U, of i] hand E(1,2)
    by (simp add: relink_global_def LinkBeforeGlobalHandLocked_def unlink_global_def Let_def)
  then have "ring m_global_next m_global_prev (a_slots (relink_global i s)) (a_global_ring_head (relink_global i s))
      (a_global_hand (relink_global i s)) L" using i by (simp add: insert_absorb)
  moreover have "class_rings (a_slots (relink_global i s)) (a_classes (relink_global i s)) L"
    by (rule class_rings_cong [OF cr]) (simp_all add: relink_books)
  ultimately show ?thesis by (intro inv_at_rings [OF inv]) (simp_all add: same_pool_def)
qed

lemma relink_class_inv:
  assumes inv: "inv_at s L H" and i: "i \<in> L" and b: "\<not> behind_hand i s"
  shows "inv_at (relink_class i s) L H"
proof -
  note E = inv_at_entry [OF inv i]
  define c where "c = ref_cls (m_ref (a_slots s ! i))"
  let ?C = "a_classes s ! c" and ?S = "in_cls (a_slots s) L" and ?s = "relink_class i s" and ?u = "unlink_class i s"
  have c: "c < length (a_classes s)" using E(5) by (simp add: c_def)
  have iS: "i \<in> ?S c" using i by (simp add: in_cls_def c_def)
  have gr: "ring m_global_next m_global_prev (a_slots s) (a_global_ring_head s) (a_global_hand s) L"
    and cr: "\<And>d. d < length (a_classes s) \<Longrightarrow>
      ring m_class_next m_class_prev (a_slots s) (c_ring_head (a_classes s ! d)) (c_hand (a_classes s ! d)) (?S d) \<and>
      c_resident_count (a_classes s ! d) = card (?S d)" using inv by (auto simp: inv_at_def class_rings_def)
  have R: "ring m_class_next m_class_prev (a_slots s) (c_ring_head ?C) (c_hand ?C) (?S c)" using cr [OF c] by simp
  have "?S c \<noteq> {i}" using ring_singleton [OF R, of i] b by (auto simp: behind_hand_def Let_def c_def)
  with iS have ne: "?S c - {i} \<noteq> {}" by blast
  note U = class_ring.ring_unlink [OF R iS]
  have uc: "c_ring_head (a_classes ?u ! c) = unlink_head m_class_next m_class_prev (a_slots s) i (c_ring_head ?C)"
    "c_hand (a_classes ?u ! c) = (if c_hand ?C = i then cyc_next (m_class_next (a_slots s ! i))
        (unlink_head m_class_next m_class_prev (a_slots s) i (c_ring_head ?C)) else c_hand ?C)"
    "a_slots ?u = ul_class (a_slots s) i"
    using c by (simp_all add: unlink_class_def Let_def nth_upd c_def)
  have U': "ring m_class_next m_class_prev (a_slots ?u) (c_ring_head (a_classes ?u ! c)) (c_hand (a_classes ?u ! c)) (?S c - {i})"
    using U uc by simp
  have hand: "c_hand (a_classes ?u ! c) \<noteq> kNoSlot" using ring_empty_iff [OF U'] ne by blast
  have rc: "ref_cls (m_ref (a_slots ?u ! i)) = c" "length (a_classes ?u) = length (a_classes s)"
    "length (a_slots ?u) = length (a_slots s)" by (simp_all add: unlink_class_def Let_def c_def)
  have rs: "a_slots ?s = lb_class (a_slots ?u) (c_hand (a_classes ?u ! c)) i"
    "c_ring_head (a_classes ?s ! c) = link_before_head m_class_prev (a_slots ?u) (c_hand (a_classes ?u ! c)) i (c_ring_head (a_classes ?u ! c))"
    "c_hand (a_classes ?s ! c) = c_hand (a_classes ?u ! c)"
    "\<And>d. d \<noteq> c \<Longrightarrow> a_classes ?s ! d = a_classes s ! d"
    using hand c rc by (simp_all add: relink_class_def LinkBeforeHandLocked_def Let_def nth_upd unlink_class_def c_def)
  have K: "ring m_class_next m_class_prev (a_slots ?s) (c_ring_head (a_classes ?s ! c)) (c_hand (a_classes ?s ! c)) (?S c)"
    using class_ring.ring_link [OF U' hand, of i] E(1,2) iS by (simp add: rs rc insert_absorb)
  have S: "in_cls (a_slots ?s) L d = ?S d" for d by (rule in_cls_cong) (simp add: relink_books)
  have cls: "same_pool (a_classes s ! d) (a_classes ?s ! d)" for d
    by (simp add: same_pool_def relink_class_def LinkBeforeHandLocked_def Let_def nth_upd unlink_class_def)
  have "class_rings (a_slots ?s) (a_classes ?s) L"
    unfolding class_rings_def S
  proof (intro allI impI conjI)
    fix d assume "d < length (a_classes ?s)"
    then have d: "d < length (a_classes s)" by simp
    show "c_resident_count (a_classes ?s ! d) = card (?S d)" using cr [OF d] cls [of d] by (simp add: same_pool_def)
    show "ring m_class_next m_class_prev (a_slots ?s) (c_ring_head (a_classes ?s ! d)) (c_hand (a_classes ?s ! d)) (?S d)"
    proof (cases "d = c")
      case False
      have "a_slots ?s ! x = a_slots s ! x" if "x \<in> ?S d" for x
      proof -
        have x: "x \<notin> ?S c" "x \<noteq> i" "x \<noteq> kNoSlot" using that False no_slot_notin [OF inv] by (auto simp: in_cls_def c_def)
        have "a_slots ?s ! x = a_slots ?u ! x" unfolding rs(1)
          by (rule class_ring.ring_link_outside [OF U' hand]) (use x in auto)
        also have "\<dots> = a_slots s ! x" unfolding uc(3) by (rule class_ring.ring_unlink_outside [OF R iS x(1,3)])
        finally show ?thesis .
      qed
      then have "ring m_class_next m_class_prev (a_slots ?s) (c_ring_head (a_classes s ! d)) (c_hand (a_classes s ! d)) (?S d)"
        using cr [OF d] ring_cong [of "a_slots ?s" "a_slots s" "?S d"] by simp
      then show ?thesis by (simp only: rs(4) [OF False])
    qed (use K in simp)
  qed
  moreover have "ring m_global_next m_global_prev (a_slots ?s) (a_global_ring_head ?s) (a_global_hand ?s) L"
    using gr by (subst ring_cong [of _ "a_slots s"]) auto
  ultimately show ?thesis using cls by (intro inv_at_rings [OF inv]) auto
qed

subsection \<open>Touch\<close>

definition touch_mark :: "nat \<Rightarrow> 'w SlabAllocator \<Rightarrow> 'w SlabAllocator" where
  "touch_mark i s = upd_slot i (\<lambda>m. m\<lparr>m_referenced := True, m_read_touches := m_read_touches m + 1\<rparr>)
     (s\<lparr>a_activity_seq := a_activity_seq s + 1\<rparr>)"

definition touch_move :: "nat \<Rightarrow> 'w SlabAllocator \<Rightarrow> 'w SlabAllocator" where
  "touch_move i s = (let t = (if behind_hand i s then s else relink_class i s)
     in if behind_global_hand i t then t else relink_global i t)"

definition touch_heat :: "nat \<Rightarrow> SlotMeta \<Rightarrow> 'w SlabAllocator \<Rightarrow> 'w SlabAllocator" where
  "touch_heat i meta s3 =
     (let s4 = upd_class (ref_cls (m_ref meta)) (\<lambda>C. C\<lparr>c_read_heat := DecayedHeat s3 (c_read_heat C) (c_heat_seq C) + kReadHeatUnit,
                 c_heat_seq := a_activity_seq s3, c_read_touches := c_read_touches C + 1\<rparr>) s3;
          s5 = upd_extent (ref_extent (m_ref meta)) (\<lambda>E. E\<lparr>e_read_heat := ExtentHeatLocked s4 E + kReadHeatUnit,
                 e_heat_seq := a_activity_seq s4,
                 e_access_seq_sum := e_access_seq_sum E + (a_activity_seq s4 - m_access_seq meta)\<rparr>) s4
      in upd_slot i (\<lambda>m. m\<lparr>m_access_seq := a_activity_seq s5\<rparr>) s5)"

lemma touch_move_frame [simp]:
  "a_opt (touch_move i s) = a_opt s" "a_index (touch_move i s) = a_index s" "a_extents (touch_move i s) = a_extents s"
  "a_activity_seq (touch_move i s) = a_activity_seq s" "length (a_slots (touch_move i s)) = length (a_slots s)"
  "length (a_classes (touch_move i s)) = length (a_classes s)" "a_free_slot_meta_head (touch_move i s) = a_free_slot_meta_head s"
  "same_books (a_slots s ! j) (a_slots (touch_move i s) ! j)" "stable s (touch_move i s)"
  by (auto simp: touch_move_def Let_def same_books_def relink_books intro: stable_trans [OF relink_class_frame(17) relink_global_frame(15)])

lemmas touch_move_books = touch_move_frame(8) [unfolded same_books_def]

lemma TouchLocked_steps:
  "TouchLocked i s = touch_heat i (a_slots (touch_mark i s) ! i) (touch_move i (touch_mark i s))"
proof -
  define s1 where "s1 = touch_mark i s"
  define meta where "meta = a_slots s1 ! i"
  define s2 where "s2 = (if behind_hand i s1 then s1 else relink_class i s1)"
  define s3 where "s3 = (if behind_global_hand i s2 then s2 else relink_global i s2)"
  have "m_global_next (a_slots s2 ! i) = m_global_next meta" by (simp add: s2_def meta_def)
  then have g: "behind_global_hand i s2 \<longleftrightarrow> m_global_next meta = a_global_hand s2 \<or>
      (m_global_next meta = kNoSlot \<and> a_global_hand s2 = a_global_ring_head s2)"
    by (simp add: behind_global_hand_def Let_def)
  have b: "behind_hand i s1 \<longleftrightarrow> m_class_next meta = c_hand (a_classes s1 ! ref_cls (m_ref meta)) \<or>
      (m_class_next meta = kNoSlot \<and> c_hand (a_classes s1 ! ref_cls (m_ref meta)) = c_ring_head (a_classes s1 ! ref_cls (m_ref meta)))"
    by (simp add: behind_hand_def Let_def meta_def)
  have "TouchLocked i s = touch_heat i meta s3"
    unfolding TouchLocked_def touch_mark_def [symmetric] s1_def [symmetric]
    unfolding Let_def [of s1] unfolding meta_def [symmetric] unfolding Let_def [of meta]
    unfolding Let_def [of "ref_cls (m_ref meta)"] Let_def [of "ref_extent (m_ref meta)"]
      Let_def [of "a_classes s1 ! ref_cls (m_ref meta)"]
    unfolding b [symmetric] Let_def [of "behind_hand i s1"] relink_class_def [symmetric]
    unfolding s2_def [symmetric] unfolding Let_def [of s2] unfolding g [symmetric] Let_def [of "behind_global_hand i s2"]
      relink_global_def [symmetric]
    unfolding s3_def [symmetric] unfolding Let_def [of s3] touch_heat_def ..
  moreover have "s3 = touch_move i s1" by (simp add: touch_move_def s3_def s2_def Let_def)
  ultimately show ?thesis by (simp add: s1_def meta_def)
qed

lemma touch_heat_frame [simp]:
  "a_opt (touch_heat i m s) = a_opt s" "a_index (touch_heat i m s) = a_index s"
  "a_activity_seq (touch_heat i m s) = a_activity_seq s" "length (a_slots (touch_heat i m s)) = length (a_slots s)"
  "a_slots (touch_heat i m s) = upd_nth (a_slots s) i (\<lambda>m. m\<lparr>m_access_seq := a_activity_seq s\<rparr>)"
  "stable s (touch_heat i m s)"
  by (simp_all add: touch_heat_def Let_def stable_def nth_upd)

lemma touch_heat_inv:
  assumes inv: "inv_at s L H" and i: "i \<in> L" and m: "m_ref m = m_ref (a_slots s ! i)" "m_access_seq m = m_access_seq (a_slots s ! i)"
  shows "inv_at (touch_heat i m s) L H" (is "inv_at ?s L H")
proof -
  note E = inv_at_entry [OF inv i]
  let ?e = "ref_extent (m_ref (a_slots s ! i))"
  have V: "extent_lists (a_slots s) (a_extents s) L" "pins_ok (a_slots s) (a_extents s) L"
    "prot_ok (a_slots s) (a_classes s) (a_extents s) (a_protected_bytes s) (a_protected_slots s) L"
    "metas_ok (a_slots s) (a_activity_seq s) L" using inv by (auto simp: inv_at_def)
  have le: "m_access_seq (a_slots s ! i) \<le> a_activity_seq s" using V(4) i by (auto simp: metas_ok_def)
  have xs: "e_access_seq_sum (a_extents ?s ! e) = e_access_seq_sum (a_extents s ! e) +
      (if e = ?e then a_activity_seq s - m_access_seq (a_slots s ! i) else 0)" for e
    using E(4) m by (simp add: touch_heat_def Let_def nth_upd)
  show ?thesis
  proof (rule inv_at_books [OF inv])
    show "pins_ok (a_slots ?s) (a_extents ?s) L"
      by (rule pins_ok_cong [OF V(2)]) (simp_all add: touch_heat_def Let_def nth_upd)
    show "prot_ok (a_slots ?s) (a_classes ?s) (a_extents ?s) (a_protected_bytes ?s) (a_protected_slots ?s) L"
      by (simp add: touch_heat_def Let_def, rule prot_ok_cong [OF V(3)]) (simp_all add: nth_upd)
    show "metas_ok (a_slots ?s) (a_activity_seq ?s) L" using V(4) by (auto simp: metas_ok_def nth_upd)
    fix e assume e: "e < length (a_extents s)"
    have fin: "finite (at_ext (a_slots s) L e)" using E(3) by (simp add: at_ext_def)
    have mem: "i \<in> at_ext (a_slots s) L e \<longleftrightarrow> e = ?e" using i by (auto simp: at_ext_def)
    show "e_access_seq_sum (a_extents ?s ! e) = (\<Sum>j\<in>at_ext (a_slots s) L e. m_access_seq (a_slots ?s ! j))"
      using sum_change_one [OF fin, of i "\<lambda>j. m_access_seq (a_slots ?s ! j)" "\<lambda>j. m_access_seq (a_slots s ! j)"] V(1) e le E(1)
      unfolding xs mem by (auto simp: extent_lists_def nth_upd)
  qed (simp_all add: touch_heat_def Let_def nth_upd same_links_def same_class_def same_extent_def)
qed

lemma TouchLocked_ok:
  assumes inv: "slab_inv s" and i: "i \<in> live_set (a_slots s)"
  shows "slab_inv (TouchLocked i s)" "residents (TouchLocked i s) = residents s" "stable s (TouchLocked i s)"
    "a_index (TouchLocked i s) = a_index s" "abs_meta (a_slots (TouchLocked i s) ! j) = abs_meta (a_slots s ! j)"
    "live_set (a_slots (TouchLocked i s)) = live_set (a_slots s)"
    "m_referenced (a_slots (TouchLocked i s) ! i)" "m_access_seq (a_slots (TouchLocked i s) ! i) = a_activity_seq s + 1"
proof -
  define s1 where "s1 = touch_mark i s"
  define s2 where "s2 = touch_move i s1"
  let ?s = "TouchLocked i s"
  have T: "?s = touch_heat i (a_slots s1 ! i) s2" by (simp add: TouchLocked_steps s1_def s2_def)
  have il: "i < length (a_slots s)" using i by (simp add: live_set_def)
  have B: "m_live (a_slots s1 ! j) = m_live (a_slots s ! j) \<and> m_free_next (a_slots s1 ! j) = m_free_next (a_slots s ! j) \<and>
      abs_meta (a_slots s1 ! j) = abs_meta (a_slots s ! j)" "length (a_slots s1) = length (a_slots s)"
      "a_index s1 = a_index s" "a_activity_seq s1 = a_activity_seq s + 1" "m_referenced (a_slots s1 ! i)" "stable s s1" for j
    using il by (simp_all add: s1_def touch_mark_def nth_upd abs_meta_def stable_def)
  have S: "m_live (a_slots ?s ! j) = m_live (a_slots s ! j) \<and> m_free_next (a_slots ?s ! j) = m_free_next (a_slots s ! j)"
    and A: "abs_meta (a_slots ?s ! j) = abs_meta (a_slots s ! j)" for j
    using B(1) [of j] B(1) [of i] by (simp_all add: T nth_upd s2_def touch_move_books abs_meta_def)
  show L: "live_set (a_slots ?s) = live_set (a_slots s)" using S B(2) by (simp add: live_set_def T s2_def)
  show "abs_meta (a_slots ?s ! j) = abs_meta (a_slots s ! j)" by (rule A)
  show ix: "a_index ?s = a_index s" using B(3) by (simp add: T s2_def)
  show "residents ?s = residents s" using ix A by (intro residents_eqI) auto
  show "stable s ?s" using stable_trans [OF B(6) stable_trans [OF touch_move_frame(9) touch_heat_frame(6)]] by (simp add: T s2_def)
  show "m_referenced (a_slots ?s ! i)" "m_access_seq (a_slots ?s ! i) = a_activity_seq s + 1"
    using B(2,4,5) il by (simp_all add: T s2_def touch_move_books)
  let ?L = "live_set (a_slots s)"
  have I1: "inv_at s1 ?L {}"
  proof -
    have "inv_moving (s\<lparr>a_activity_seq := a_activity_seq s + 1\<rparr>) {}" using inv by (simp add: slab_inv_def inv_moving_activity)
    then have "inv_moving s1 {}" unfolding s1_def touch_mark_def by (rule inv_moving_slot) (auto simp: same_links_def)
    moreover have "live_set (a_slots s1) = ?L" using B(1,2) by (simp add: live_set_def)
    ultimately show ?thesis by (simp add: inv_moving_def)
  qed
  have I2: "inv_at s2 ?L {}" unfolding s2_def touch_move_def Let_def
    using I1 relink_class_inv [OF I1 i] relink_global_inv i by (auto split: if_splits)
  have "inv_at ?s ?L {}" unfolding T by (rule touch_heat_inv [OF I2 i]) (simp_all add: s2_def touch_move_books)
  moreover have "free_metas (a_slots ?s) (a_free_slot_meta_head ?s) ?L"
  proof -
    have "(\<lambda>j. m_free_next (a_slots ?s ! j)) = (\<lambda>j. m_free_next (a_slots s ! j))" using S by auto
    moreover have "length (a_slots ?s) = length (a_slots s)" "a_free_slot_meta_head ?s = a_free_slot_meta_head s"
      using B(2) by (simp_all add: T s2_def touch_heat_def Let_def) (simp add: s1_def touch_mark_def)
    ultimately show ?thesis using inv by (simp add: slab_inv_def inv_moving_def free_metas_def)
  qed
  ultimately show "slab_inv ?s" using L by (simp add: slab_inv_def inv_moving_def)
qed

end
