(* ===== verification/Slab_Pins.thy ===== *)
theory Slab_Pins
  imports Slab_Access
begin

text \<open>
  Pins and removal. A pin keeps a resident in place, whatever the pressure; \<^verbatim>\<open>Remove\<close> frees an
  unpinned resident at once and marks a pinned one, which then disappears with its last pin. The
  lemmas give the exact effect of every operation on the abstract content.
\<close>

subsection \<open>Freeing does not depend on the removal mark\<close>

lemma upd_nth_commute: "(\<And>x. f (g x) = g (f x)) \<Longrightarrow> upd_nth (upd_nth xs i f) j g = upd_nth (upd_nth xs j g) i f"
  by (rule nth_equalityI) (auto simp: nth_upd)

lemma unlink_links_commute:
  assumes "\<And>m. gn (f m) = gn m" "\<And>m. gp (f m) = gp m" "\<And>n m. sn n (f m) = f (sn n m)" "\<And>n m. sp n (f m) = f (sp n m)"
  shows "unlink_links gn gp sn sp (upd_nth sl i f) i = upd_nth (unlink_links gn gp sn sp sl i) i f"
proof -
  have g: "gn (upd_nth sl i f ! i) = gn (sl ! i)" "gp (upd_nth sl i f ! i) = gp (sl ! i)" using assms by (simp_all add: nth_upd)
  have c: "upd_nth (upd_nth xs i f) p (sn n) = upd_nth (upd_nth xs p (sn n)) i f"
    "upd_nth (upd_nth xs i f) p (sp n) = upd_nth (upd_nth xs p (sp n)) i f" for xs p n
    using assms by (auto intro!: upd_nth_commute)
  show ?thesis unfolding unlink_links_def g Let_def by (simp add: c)
qed

lemma unlink_head_upd: "(\<And>m. gn (f m) = gn m) \<Longrightarrow> (\<And>m. gp (f m) = gp m) \<Longrightarrow>
    unlink_head gn gp (upd_nth sl i f) j h = unlink_head gn gp sl j h"
  by (simp add: unlink_head_def nth_upd)

abbreviation set_pending :: "bool \<Rightarrow> SlotMeta \<Rightarrow> SlotMeta" where
  "set_pending b m \<equiv> m\<lparr>m_remove_pending := b\<rparr>"

lemma unlink_pending:
  "unlink_class i (upd_slot i (set_pending b) s) = upd_slot i (set_pending b) (unlink_class i s)"
  "unlink_global i (upd_slot i (set_pending b) s) = upd_slot i (set_pending b) (unlink_global i s)"
  "unlink_extent i (upd_slot i (set_pending b) s) = upd_slot i (set_pending b) (unlink_extent i s)"
  by (simp_all add: unlink_class_def unlink_global_def unlink_extent_def Let_def nth_upd unlink_links_commute unlink_head_upd cong: if_cong)

lemma free_unlink_pending: "free_unlink i (upd_slot i (set_pending b) s) = upd_slot i (set_pending b) (free_unlink i s)"
proof -
  have "m_ref (a_slots (upd_slot i (set_pending b) s) ! i) = m_ref (a_slots s ! i)" by (simp add: nth_upd)
  moreover have "upd_class c g (upd_slot i (set_pending b) t) = upd_slot i (set_pending b) (upd_class c g t)"
    for c g and t :: "'a SlabAllocator" by simp
  ultimately show ?thesis unfolding free_unlink_def unlink_pending Let_def by (simp only: unlink_pending)
qed

lemma free_core_pending: "free_core i (upd_slot i (set_pending b) s) = free_core i s"
proof -
  have over: "(upd_nth sl i f)[i := x] = sl[i := x]" for sl :: "SlotMeta list" and f x by (simp add: upd_nth_def)
  have "m_refs (set_pending b m) = m_refs m" "m_ref (set_pending b m) = m_ref m" "m_key (set_pending b m) = m_key m"
    "m_useful_bytes (set_pending b m) = m_useful_bytes m" for m by simp_all
  then show ?thesis
    unfolding free_core_def free_unlink_pending
    by (simp add: free_recycle_def free_return_def free_forget_def Let_def nth_upd over)
qed

lemma FreeSlotLocked_pending: "FreeSlotLocked i (upd_slot i (set_pending b) s) = FreeSlotLocked i s"
proof -
  let ?s = "upd_slot i (set_pending b) s"
  have m: "m_ref (a_slots ?s ! i) = m_ref (a_slots s ! i)" "m_retain_until (a_slots ?s ! i) = m_retain_until (a_slots s ! i)"
    by (simp_all add: nth_upd)
  have u: "UnprotectLocked i ?s = upd_slot i (set_pending b) (UnprotectLocked i s)"
  proof -
    have c: "upd_nth (upd_nth xs i (set_pending b)) i (m_retain_until_update (\<lambda>_. 0)) =
        upd_nth (upd_nth xs i (m_retain_until_update (\<lambda>_. 0))) i (set_pending b)" for xs
      by (rule upd_nth_commute) simp
    show ?thesis by (simp add: UnprotectLocked_def Let_def nth_upd c)
  qed
  have "free_mid i ?s = free_mid i s"
    unfolding free_mid_def m by (simp only: u free_core_pending if_distrib [of "free_core i"])
  then show ?thesis unfolding FreeSlotLocked_mid m by simp
qed

subsection \<open>The pin account\<close>

lemma pins_ok_set:
  assumes ok: "pins_ok sl es L" and L: "finite L" "i \<in> L"
    and sl': "\<And>j. m_ref (sl' ! j) = m_ref (sl ! j)" "\<And>j. j \<noteq> i \<Longrightarrow> m_refs (sl' ! j) = m_refs (sl ! j)"
    and len: "length es' = length es"
    and es: "\<And>e. e < length es \<Longrightarrow>
      e_pinned (es' ! e) + (if e = ref_extent (m_ref (sl ! i)) then of_bool (m_refs (sl ! i) > 0) else 0) =
      e_pinned (es ! e) + (if e = ref_extent (m_ref (sl ! i)) then of_bool (m_refs (sl' ! i) > 0) else 0)"
  shows "pins_ok sl' es' L"
proof -
  let ?f = "\<lambda>j. of_bool (m_refs (sl ! j) > 0) :: nat" and ?f' = "\<lambda>j. of_bool (m_refs (sl' ! j) > 0) :: nat"
  have ae: "at_ext sl' L e = at_ext sl L e" for e by (auto simp: at_ext_def sl'(1))
  have mem: "i \<in> at_ext sl L e \<longleftrightarrow> e = ref_extent (m_ref (sl ! i))" for e using L(2) by (auto simp: at_ext_def)
  have fin: "finite (at_ext sl L e)" for e using L(1) by (simp add: at_ext_def)
  have "e_pinned (es' ! e) = sum ?f' (at_ext sl L e)" if e: "e < length es" for e
  proof -
    have "sum ?f' (at_ext sl L e) + (if e = ref_extent (m_ref (sl ! i)) then ?f i else 0) =
        sum ?f (at_ext sl L e) + (if e = ref_extent (m_ref (sl ! i)) then ?f' i else 0)"
      unfolding mem [symmetric] using sl'(2) by (intro sum_change_one [OF fin]) simp
    moreover have "e_pinned (es ! e) = sum ?f (at_ext sl L e)" using ok e unfolding pins_ok_def by blast
    ultimately show ?thesis using es [OF e] by linarith
  qed
  then show ?thesis unfolding pins_ok_def ae len by blast
qed

text \<open>Changing the number of pins of a resident together with the account of its extent.\<close>

definition set_pins :: "nat \<Rightarrow> nat \<Rightarrow> bool \<Rightarrow> 'w SlabAllocator \<Rightarrow> 'w SlabAllocator" where
  "set_pins i n p s = s\<lparr>a_slots := upd_nth (a_slots s) i (\<lambda>m. m\<lparr>m_refs := n, m_remove_pending := p\<rparr>),
     a_extents := upd_nth (a_extents s) (ref_extent (m_ref (a_slots s ! i)))
       (\<lambda>E. E\<lparr>e_pinned := e_pinned E + of_bool (n > 0) - of_bool (m_refs (a_slots s ! i) > 0)\<rparr>)\<rparr>"

lemma set_pins_inv:
  assumes inv: "inv_moving s H" and i: "i \<in> live_set (a_slots s)" and p: "p \<Longrightarrow> n > 0"
  shows "inv_moving (set_pins i n p s) H" "live_set (a_slots (set_pins i n p s)) = live_set (a_slots s)"
    "residents (set_pins i n p s) = (residents s)(m_key (a_slots s ! i) \<mapsto> (abs_meta (a_slots s ! i))\<lparr>r_refs := n, r_pending := p\<rparr>)"
    "stable s (set_pins i n p s)"
proof -
  let ?L = "live_set (a_slots s)" and ?s = "set_pins i n p s"
  have at: "inv_at s ?L H" and fm: "free_metas (a_slots s) (a_free_slot_meta_head s) ?L" using inv by (auto simp: inv_moving_def)
  have V: "extent_lists (a_slots s) (a_extents s) ?L" "pins_ok (a_slots s) (a_extents s) ?L"
    "prot_ok (a_slots s) (a_classes s) (a_extents s) (a_protected_bytes s) (a_protected_slots s) ?L"
    "metas_ok (a_slots s) (a_activity_seq s) ?L" using at by (auto simp: inv_at_def)
  note E = inv_at_entry [OF at i]
  let ?e = "ref_extent (m_ref (a_slots s ! i))"
  have "(\<Sum>j\<in>at_ext (a_slots s) ?L ?e. of_bool (m_refs (a_slots s ! j) > 0)) = e_pinned (a_extents s ! ?e)"
    using V(2) E(4) unfolding pins_ok_def by metis
  then have pos: "of_bool (m_refs (a_slots s ! i) > 0) \<le> e_pinned (a_extents s ! ?e)"
    using member_sum_le(1) [OF E(3) i, of "\<lambda>j. of_bool (m_refs (a_slots s ! j) > 0)" "a_slots s"] by (simp only:)
  have f: "a_classes ?s = a_classes s" "a_protected_bytes ?s = a_protected_bytes s" "a_protected_slots ?s = a_protected_slots s"
    by (simp_all add: set_pins_def)
  have "inv_at ?s ?L H"
  proof (rule inv_at_books [OF at])
    show "pins_ok (a_slots ?s) (a_extents ?s) ?L"
      by (rule pins_ok_set [OF V(2) E(3) i]) (use pos E(1,4) in \<open>auto simp: set_pins_def nth_upd\<close>)
    show "prot_ok (a_slots ?s) (a_classes ?s) (a_extents ?s) (a_protected_bytes ?s) (a_protected_slots ?s) ?L"
      unfolding f by (rule prot_ok_cong [OF V(3)]) (simp_all add: set_pins_def nth_upd)
    show "metas_ok (a_slots ?s) (a_activity_seq ?s) ?L" using V(4) p by (auto simp: set_pins_def metas_ok_def nth_upd)
    show "e_access_seq_sum (a_extents ?s ! e) = (\<Sum>i\<in>at_ext (a_slots s) ?L e. m_access_seq (a_slots ?s ! i))"
      if "e < length (a_extents s)" for e
      using V(1) that by (auto simp: set_pins_def extent_lists_def nth_upd intro!: sum.cong)
  qed (simp_all add: set_pins_def nth_upd same_links_def same_class_def same_extent_def)
  moreover show L: "live_set (a_slots ?s) = ?L" by (simp add: set_pins_def live_set_upd)
  moreover have "free_metas (a_slots ?s) (a_free_slot_meta_head ?s) (live_set (a_slots ?s))"
    using fm free_metas_upd [of "\<lambda>m. m\<lparr>m_refs := n, m_remove_pending := p\<rparr>" "a_slots s" i] by (simp add: set_pins_def)
  ultimately show "inv_moving ?s H" by (simp add: inv_moving_def)
  show "stable s ?s" by (simp add: set_pins_def stable_def)
  have F: "Find (a_index s) k = Some j \<longleftrightarrow> j \<in> ?L \<and> m_key (a_slots s ! j) = k" for j k using inv_moving_index [OF inv] by simp
  show "residents ?s = (residents s)(m_key (a_slots s ! i) \<mapsto> (abs_meta (a_slots s ! i))\<lparr>r_refs := n, r_pending := p\<rparr>)"
  proof
    fix k
    show "residents ?s k = ((residents s)(m_key (a_slots s ! i) \<mapsto> (abs_meta (a_slots s ! i))\<lparr>r_refs := n, r_pending := p\<rparr>)) k"
    proof (cases "k = m_key (a_slots s ! i)")
      case True
      then have "Find (a_index s) k = Some i" using F i by simp
      with True E(1) show ?thesis by (simp add: residents_def set_pins_def abs_meta_def)
    next
      case False
      then have "Find (a_index s) k \<noteq> Some i" using F by simp
      with False show ?thesis by (cases "Find (a_index s) k") (auto simp: residents_def set_pins_def)
    qed
  qed
qed

lemma add_pin_set: "add_pin i s = set_pins i (m_refs (a_slots s ! i) + 1) (m_remove_pending (a_slots s ! i)) s"
proof -
  have sl: "upd_nth (a_slots s) i (\<lambda>m. m\<lparr>m_refs := Suc (m_refs m)\<rparr>) =
      upd_nth (a_slots s) i (\<lambda>m. m\<lparr>m_refs := Suc (m_refs (a_slots s ! i)), m_remove_pending := m_remove_pending (a_slots s ! i)\<rparr>)"
    by (simp add: upd_nth_def)
  have id: "upd_nth es e (\<lambda>E. E) = es" for es :: "ExtentMeta list" and e by (simp add: upd_nth_def)
  show ?thesis by (cases "m_refs (a_slots s ! i) = 0") (simp_all add: add_pin_def set_pins_def Let_def sl id)
qed

lemma drop_pin_set:
  assumes i: "i < length (a_slots s)" and n: "m_refs (a_slots s ! i) > 0"
  shows "drop_pin i s = (if m_refs (a_slots s ! i) = 1 \<and> m_remove_pending (a_slots s ! i) then FreeSlotLocked i (set_pins i 0 False s)
    else set_pins i (m_refs (a_slots s ! i) - 1) (m_remove_pending (a_slots s ! i)) s)"
proof -
  let ?m = "a_slots s ! i" and ?e = "ref_extent (m_ref (a_slots s ! i))"
  define s1 where "s1 = upd_slot i (\<lambda>m. m\<lparr>m_refs := m_refs m - 1\<rparr>) s"
  define s2 where "s2 = upd_extent ?e (\<lambda>E. if e_pinned E > 0 then E\<lparr>e_pinned := e_pinned E - 1\<rparr> else E) s1"
  have m1: "a_slots s1 ! i = ?m\<lparr>m_refs := m_refs ?m - 1\<rparr>" using i by (simp add: s1_def)
  have dp: "drop_pin i s = (if m_refs ?m - 1 = 0 then if m_remove_pending ?m then FreeSlotLocked i s2 else s2 else s1)"
    unfolding drop_pin_def s1_def [symmetric] Let_def [of s1] unfolding m1 by (simp add: s2_def Let_def)
  have sl: "upd_nth (a_slots s) i (\<lambda>m. m\<lparr>m_refs := m_refs m - 1\<rparr>) =
      upd_nth (a_slots s) i (\<lambda>m. m\<lparr>m_refs := m_refs ?m - 1, m_remove_pending := m_remove_pending ?m\<rparr>)"
    by (simp add: upd_nth_def)
  have id: "upd_nth es e (\<lambda>E. E) = es" for es :: "ExtentMeta list" and e by (simp add: upd_nth_def)
  have dec: "(\<lambda>E. if e_pinned E > 0 then E\<lparr>e_pinned := e_pinned E - 1\<rparr> else E) = (\<lambda>E. E\<lparr>e_pinned := e_pinned E - 1\<rparr>)" by auto
  have s2: "s2 = set_pins i 0 (m_remove_pending ?m) s" if "m_refs ?m = 1"
    using that n sl by (simp add: s2_def s1_def set_pins_def dec)
  have pend: "set_pins i 0 True s = upd_slot i (set_pending True) (set_pins i 0 False s)"
    using i by (simp add: set_pins_def upd_nth_def)
  show ?thesis
  proof (cases "m_refs ?m = 1")
    case True
    then show ?thesis using s2 by (simp add: dp pend FreeSlotLocked_pending)
  next
    case False
    then have "s1 = set_pins i (m_refs ?m - 1) (m_remove_pending ?m) s" using n sl by (simp add: s1_def set_pins_def id)
    then show ?thesis using False n by (simp add: dp)
  qed
qed

subsection \<open>The operations\<close>

text \<open>A resident key, its entry and its abstract record.\<close>

lemma resident_entry:
  assumes "slab_inv s" "Find (a_index s) k = Some i"
  shows "i \<in> live_set (a_slots s)" "m_key (a_slots s ! i) = k" "i < length (a_slots s)" "residents s k = Some (abs_meta (a_slots s ! i))"
    "i \<noteq> kNoSlot"
  using assms inv_moving_index(2) [of s "{}" k i] inv_at_entry(2) [of s "live_set (a_slots s)" "{}" i]
  by (auto simp: slab_inv_def live_set_def residents_def inv_moving_def)

lemma add_pin_ok:
  assumes inv: "slab_inv s" and i: "Find (a_index s) k = Some i"
  shows "slab_inv (add_pin i s)" "stable s (add_pin i s)"
    "residents (add_pin i s) = (residents s)(k \<mapsto> (abs_meta (a_slots s ! i))\<lparr>r_refs := m_refs (a_slots s ! i) + 1\<rparr>)"
    "m_ref (a_slots (add_pin i s) ! i) = m_ref (a_slots s ! i)"
  using set_pins_inv [of s "{}" i "m_remove_pending (a_slots s ! i)" "m_refs (a_slots s ! i) + 1"] resident_entry [OF inv i] inv
  by (auto simp: add_pin_set slab_inv_def abs_meta_def) (auto simp: set_pins_def nth_upd)

lemma drop_pin_ok:
  assumes inv: "slab_inv s" and i: "Find (a_index s) k = Some i" and n: "m_refs (a_slots s ! i) > 0"
  shows "slab_inv (drop_pin i s)" "stable s (drop_pin i s)"
    "residents (drop_pin i s) = (residents s)(k := if m_refs (a_slots s ! i) = 1 \<and> m_remove_pending (a_slots s ! i) then None
       else Some ((abs_meta (a_slots s ! i))\<lparr>r_refs := m_refs (a_slots s ! i) - 1\<rparr>))"
proof -
  let ?m = "a_slots s ! i"
  note R = resident_entry [OF inv i]
  have s: "inv_moving s {}" using inv by (simp add: slab_inv_def)
  have "slab_inv (drop_pin i s) \<and> stable s (drop_pin i s) \<and>
    residents (drop_pin i s) = (residents s)(k := if m_refs ?m = 1 \<and> m_remove_pending ?m then None
       else Some ((abs_meta ?m)\<lparr>r_refs := m_refs ?m - 1\<rparr>))"
  proof (cases "m_refs ?m = 1 \<and> m_remove_pending ?m")
    case True
    let ?t = "set_pins i 0 False s"
    note S = set_pins_inv [OF s R(1), of False 0, simplified]
    have "i \<in> live_set (a_slots ?t)" "m_key (a_slots ?t ! i) = k" using S(2) R(1-3) by (simp_all, simp add: set_pins_def nth_upd)
    note F = FreeSlotLocked_inv [OF S(1) this(1)] this(2)
    have "drop_pin i s = FreeSlotLocked i ?t" using drop_pin_set [OF R(3) n] True by simp
    then show ?thesis using F(1,3,4,6) S(3,4) R(2) True stable_trans by (auto simp: slab_inv_def)
  next
    case False
    have p: "m_refs ?m - 1 > 0" if "m_remove_pending ?m" using that n False by simp
    note S = set_pins_inv [OF s R(1), of "m_remove_pending ?m", OF p]
    have "drop_pin i s = set_pins i (m_refs ?m - 1) (m_remove_pending ?m) s" unfolding drop_pin_set [OF R(3) n] by (simp only: False if_False)
    then show ?thesis using S R(2) False by (auto simp: slab_inv_def abs_meta_def)
  qed
  then show "slab_inv (drop_pin i s)" "stable s (drop_pin i s)"
    "residents (drop_pin i s) = (residents s)(k := if m_refs ?m = 1 \<and> m_remove_pending ?m then None
       else Some ((abs_meta ?m)\<lparr>r_refs := m_refs ?m - 1\<rparr>))" by auto
qed

text \<open>What a lookup of a key sees of the abstract content.\<close>

definition visible :: "resident option \<Rightarrow> SlotRef option" where
  "visible r = (case r of None \<Rightarrow> None | Some r \<Rightarrow> if r_pending r then None else Some (r_ref r))"

lemma Contains_visible: "Contains k s \<longleftrightarrow> visible (residents s k) \<noteq> None"
  by (auto simp: Contains_def visible_def residents_def abs_meta_def split: option.split)

lemma Get_ok:
  assumes inv: "slab_inv s"
  shows "fst (Get k s) = visible (residents s k)" "slab_inv (snd (Get k s))" "stable s (snd (Get k s))"
    "residents (snd (Get k s)) = residents s"
proof -
  have "fst (Get k s) = visible (residents s k) \<and> slab_inv (snd (Get k s)) \<and> stable s (snd (Get k s)) \<and> residents (snd (Get k s)) = residents s"
  proof (cases "Find (a_index s) k")
    case (Some i)
    note R = resident_entry [OF inv Some]
    note T = TouchLocked_ok [OF inv R(1)]
    have "m_ref (a_slots (TouchLocked i s) ! i) = m_ref (a_slots s ! i)" using T(5) [of i] by (simp add: abs_meta_def)
    then show ?thesis using Some R(4) T(1-3) inv by (simp add: Get_def visible_def abs_meta_def Let_def)
  qed (use inv in \<open>simp add: Get_def visible_def residents_def\<close>)
  then show "fst (Get k s) = visible (residents s k)" "slab_inv (snd (Get k s))" "stable s (snd (Get k s))"
    "residents (snd (Get k s)) = residents s" by auto
qed

definition pin_effect :: "BlockKey \<Rightarrow> 'w SlabAllocator \<Rightarrow> 'w SlabAllocator \<Rightarrow> bool" where
  "pin_effect k s s' \<longleftrightarrow> slab_inv s' \<and> stable s s' \<and> residents s' = (case residents s k of
     Some r \<Rightarrow> if r_pending r then residents s else (residents s)(k \<mapsto> r\<lparr>r_refs := r_refs r + 1\<rparr>)
   | None \<Rightarrow> residents s)"

lemma GetAndPin_ok:
  assumes inv: "slab_inv s"
  shows "fst (GetAndPin k s) = visible (residents s k)" "pin_effect k s (snd (GetAndPin k s))"
proof -
  have "fst (GetAndPin k s) = visible (residents s k) \<and> pin_effect k s (snd (GetAndPin k s))"
  proof (cases "Find (a_index s) k")
    case (Some i)
    note R = resident_entry [OF inv Some]
    note T = TouchLocked_ok [OF inv R(1)]
    have "Find (a_index (TouchLocked i s)) k = Some i" using T(4) Some by simp
    note A = add_pin_ok [OF T(1) this]
    have "abs_meta (a_slots (TouchLocked i s) ! i) = abs_meta (a_slots s ! i)" by (rule T(5))
    moreover from this have "m_ref (a_slots (TouchLocked i s) ! i) = m_ref (a_slots s ! i)" "m_refs (a_slots (TouchLocked i s) ! i) = m_refs (a_slots s ! i)"
      by (simp_all add: abs_meta_def)
    ultimately show ?thesis using Some R(4) T(2) A stable_trans [OF T(3) A(2)] inv
      by (simp add: GetAndPin_def visible_def pin_effect_def Let_def abs_meta_def)
  qed (use inv in \<open>simp add: GetAndPin_def visible_def pin_effect_def residents_def\<close>)
  then show "fst (GetAndPin k s) = visible (residents s k)" "pin_effect k s (snd (GetAndPin k s))" by auto
qed

lemma Pin_ok:
  assumes inv: "slab_inv s"
  shows "fst (Pin k s) \<longleftrightarrow> visible (residents s k) \<noteq> None" "pin_effect k s (snd (Pin k s))"
proof -
  have "(fst (Pin k s) \<longleftrightarrow> visible (residents s k) \<noteq> None) \<and> pin_effect k s (snd (Pin k s))"
  proof (cases "Find (a_index s) k")
    case (Some i)
    note R = resident_entry [OF inv Some] and A = add_pin_ok [OF inv Some]
    then show ?thesis using Some inv by (simp add: Pin_def visible_def pin_effect_def abs_meta_def)
  qed (use inv in \<open>simp add: Pin_def visible_def pin_effect_def residents_def\<close>)
  then show "fst (Pin k s) \<longleftrightarrow> visible (residents s k) \<noteq> None" "pin_effect k s (snd (Pin k s))" by auto
qed

text \<open>The last unpin of a key whose removal was deferred removes it.\<close>

definition unpin_effect :: "BlockKey \<Rightarrow> 'w SlabAllocator \<Rightarrow> 'w SlabAllocator \<Rightarrow> bool" where
  "unpin_effect k s s' \<longleftrightarrow> slab_inv s' \<and> stable s s' \<and> residents s' = (case residents s k of
     Some r \<Rightarrow> if r_refs r = 0 then residents s
       else if r_refs r = 1 \<and> r_pending r then (residents s)(k := None)
       else (residents s)(k \<mapsto> r\<lparr>r_refs := r_refs r - 1\<rparr>)
   | None \<Rightarrow> residents s)"

lemma Unpin_ok:
  assumes inv: "slab_inv s"
  shows "fst (Unpin k s) \<longleftrightarrow> (\<exists>r. residents s k = Some r \<and> r_refs r > 0)" "unpin_effect k s (snd (Unpin k s))"
proof -
  have "(fst (Unpin k s) \<longleftrightarrow> (\<exists>r. residents s k = Some r \<and> r_refs r > 0)) \<and> unpin_effect k s (snd (Unpin k s))"
  proof (cases "Find (a_index s) k")
    case (Some i)
    note R = resident_entry [OF inv Some]
    show ?thesis
    proof (cases "m_refs (a_slots s ! i) = 0")
      case True
      then show ?thesis using Some R inv by (simp add: Unpin_def unpin_effect_def abs_meta_def)
    next
      case False
      then show ?thesis using Some R drop_pin_ok [OF inv Some] by (simp add: Unpin_def unpin_effect_def abs_meta_def)
    qed
  qed (use inv in \<open>simp add: Unpin_def unpin_effect_def residents_def\<close>)
  then show "fst (Unpin k s) \<longleftrightarrow> (\<exists>r. residents s k = Some r \<and> r_refs r > 0)" "unpin_effect k s (snd (Unpin k s))" by auto
qed

definition remove_effect :: "BlockKey \<Rightarrow> 'w SlabAllocator \<Rightarrow> RemoveResult \<Rightarrow> 'w SlabAllocator \<Rightarrow> bool" where
  "remove_effect k s out s' \<longleftrightarrow> slab_inv s' \<and> stable s s' \<and> (case residents s k of
     None \<Rightarrow> out = kRemoveNotFound \<and> residents s' = residents s
   | Some r \<Rightarrow> if r_refs r > 0 then out = kDeferred \<and> residents s' = (residents s)(k \<mapsto> r\<lparr>r_pending := True\<rparr>)
       else out = kRemoved \<and> residents s' = (residents s)(k := None))"

lemma Remove_ok:
  assumes inv: "slab_inv s"
  shows "remove_effect k s (fst (Remove k s)) (snd (Remove k s))"
proof (cases "Find (a_index s) k")
  case (Some i)
  note R = resident_entry [OF inv Some]
  have s: "inv_moving s {}" using inv by (simp add: slab_inv_def)
  show ?thesis
  proof (cases "m_refs (a_slots s ! i) > 0")
    case True
    let ?f = "\<lambda>m. m\<lparr>m_remove_pending := True, m_referenced := False\<rparr>"
    have "inv_moving (upd_slot i ?f s) {}" using True by (intro inv_moving_slot [OF s]) (auto simp: same_links_def)
    moreover have "residents (upd_slot i ?f s) = (residents s)(k \<mapsto> (abs_meta (a_slots s ! i))\<lparr>r_pending := True\<rparr>)"
    proof
      fix k'
      have "Find (a_index s) k' \<noteq> Some i" if "k' \<noteq> k" using that R(2) inv_moving_index(2) [OF s] by auto
      then show "residents (upd_slot i ?f s) k' = ((residents s)(k \<mapsto> (abs_meta (a_slots s ! i))\<lparr>r_pending := True\<rparr>)) k'"
        using Some R(3) by (cases "Find (a_index s) k'") (auto simp: residents_def abs_meta_def)
    qed
    moreover have "stable s (upd_slot i ?f s)" by (simp add: stable_def)
    ultimately show ?thesis using Some R(4) True by (simp add: Remove_def remove_effect_def slab_inv_def abs_meta_def)
  next
    case False
    then show ?thesis using Some R FreeSlotLocked_inv [OF s R(1)] by (simp add: Remove_def remove_effect_def slab_inv_def abs_meta_def)
  qed
qed (use inv in \<open>simp add: Remove_def remove_effect_def residents_def\<close>)

text \<open>A handle works exactly like the key while it still names the entry of that key.\<close>

lemma handle_names:
  assumes inv: "slab_inv s"
  shows "SlotHandle_valid h \<and> h < length (a_slots s) \<and> m_live (a_slots s ! h) \<and> m_key (a_slots s ! h) = k \<longleftrightarrow>
    Find (a_index s) k = Some h"
proof -
  have "Find (a_index s) k = Some h \<longleftrightarrow> h \<in> live_set (a_slots s) \<and> m_key (a_slots s ! h) = k"
    using inv inv_moving_index(2) by (auto simp: slab_inv_def)
  moreover have "SlotHandle_valid h" if "Find (a_index s) k = Some h"
    using resident_entry(5) [OF inv that] by (simp add: SlotHandle_valid_def kNoSlot_def)
  ultimately show ?thesis by (auto simp: live_set_def)
qed

lemma PinHandle_Pin:
  assumes inv: "slab_inv s"
  shows "PinHandle k h s = (if Find (a_index s) k = Some h then Pin k s else (False, s))"
  using handle_names [OF inv, of h k] by (auto simp: PinHandle_def Pin_def Let_def)

lemma UnpinHandle_Unpin:
  assumes inv: "slab_inv s"
  shows "UnpinHandle k h s = (if Find (a_index s) k = Some h then Unpin k s else (False, s))"
  using handle_names [OF inv, of h k] by (auto simp: UnpinHandle_def Unpin_def Let_def)

end
