(* ===== verification/Slab_Retain.thy ===== *)
theory Slab_Retain
  imports Slab_Pins
begin

text \<open>
  Retention: \<^verbatim>\<open>Retain\<close> grants a protection within the byte budget and the class share, never
  shortens one, and \<^verbatim>\<open>ExpireRetention\<close> drains the timer wheel. The retention invariant says that
  every protection is scheduled in the bucket of its deadline and that the wheel has not passed it;
  so a protection is never dropped before its deadline and does not outlive it by more than one
  tick.
\<close>

subsection \<open>The retention invariant\<close>

definition scheduled :: "'w SlabAllocator \<Rightarrow> BlockKey \<Rightarrow> nat \<Rightarrow> bool" where
  "scheduled s k u \<longleftrightarrow> a_wheel s \<noteq> [] \<and>
     \<lparr>we_key = k, we_until = u\<rparr> \<in> set (a_wheel s ! ((u div kWheelTickS) mod length (a_wheel s)))"

definition protects :: "'w SlabAllocator \<Rightarrow> BlockKey \<Rightarrow> nat \<Rightarrow> bool" where
  "protects s k u \<longleftrightarrow> u \<noteq> 0 \<and> (\<exists>r. residents s k = Some r \<and> r_until r = u)"

definition clock_ok :: "'w SlabAllocator \<Rightarrow> bool" where
  "clock_ok s \<longleftrightarrow> a_retain_now_s s \<le> UINT32_MAX \<and> (ro_enabled (a_retain s) \<longrightarrow> a_wheel s \<noteq> []) \<and>
     (a_wheel s \<noteq> [] \<longrightarrow> kWheelTickS \<le> a_retain_now_s s \<and> a_wheel_tick s < a_retain_now_s s div kWheelTickS)"

text \<open>No wheel entry has the deadline 0, which marks an unprotected resident.\<close>

definition wheel_pos :: "'w SlabAllocator \<Rightarrow> bool" where
  "wheel_pos s \<longleftrightarrow> (\<forall>b\<in>set (a_wheel s). \<forall>e\<in>set b. we_until e \<noteq> 0)"

definition retain_inv :: "'w SlabAllocator \<Rightarrow> bool" where
  "retain_inv s \<longleftrightarrow> clock_ok s \<and> wheel_pos s \<and>
     (\<forall>k u. protects s k u \<longrightarrow> u \<le> UINT32_MAX \<and> a_wheel_tick s < u div kWheelTickS \<and> scheduled s k u)"

lemma protects_upto:
  "protects s k u \<Longrightarrow> retain_inv s \<Longrightarrow> u \<le> UINT32_MAX \<and> a_wheel_tick s < u div kWheelTickS \<and> scheduled s k u"
  by (simp add: retain_inv_def)

text \<open>An operation that leaves the wheel alone and protects nothing new.\<close>

lemma retain_inv_stable:
  assumes "retain_inv s" "stable s s'" "\<And>k u. protects s' k u \<Longrightarrow> protects s k u"
  shows "retain_inv s'"
proof -
  have w: "clock_ok s' = clock_ok s" "wheel_pos s' = wheel_pos s" "a_wheel_tick s' = a_wheel_tick s" "\<And>k u. scheduled s' k u = scheduled s k u"
    using assms(2) by (simp_all add: clock_ok_def wheel_pos_def scheduled_def stable_def)
  show ?thesis using assms(1,3) unfolding retain_inv_def w by blast
qed

lemma protects_residents: "residents s' = residents s \<Longrightarrow> protects s' k u = protects s k u"
  by (simp add: protects_def)

subsection \<open>Granting a protection\<close>

lemma protect_moving:
  assumes inv: "inv_moving s H" and i: "i \<in> live_set (a_slots s)" and u: "m_retain_until (a_slots s ! i) = 0" and t: "t \<noteq> 0"
  shows "inv_moving (upd_slot i (\<lambda>m. m\<lparr>m_retain_until := t\<rparr>) (ProtectLocked i s)) H"
proof -
  have sl: "a_slots (ProtectLocked i s) = a_slots s" "a_free_slot_meta_head (ProtectLocked i s) = a_free_slot_meta_head s"
    by (simp_all add: ProtectLocked_def Let_def)
  show ?thesis using inv protect_inv [of s "live_set (a_slots s)" H i t] i u t
      free_metas_upd [of "\<lambda>m. m\<lparr>m_retain_until := t\<rparr>" "a_slots s" i]
    by (simp add: inv_moving_def sl live_set_upd)
qed

text \<open>The state of a granted protection: the deadline, the time to live and the schedule.\<close>

definition granted :: "nat \<Rightarrow> nat \<Rightarrow> nat \<Rightarrow> 'w SlabAllocator \<Rightarrow> 'w SlabAllocator" where
  "granted i eff u s =
     (let meta = a_slots s ! i; was_protected = (m_retain_until meta \<noteq> 0);
          s1 = (if \<not> was_protected then ProtectLocked i s else s);
          s2 = upd_slot i (\<lambda>m. m\<lparr>m_retain_ttl_s := eff\<rparr>) s1
      in if u \<noteq> m_retain_until meta \<or> \<not> was_protected
         then PushWheelLocked (m_key meta) u (upd_slot i (\<lambda>m. m\<lparr>m_retain_until := u\<rparr>) s2) else s2)"

lemma inv_moving_wheel [simp]:
  "inv_moving (PushWheelLocked k u s) H = inv_moving s H" "a_slots (PushWheelLocked k u s) = a_slots s"
  "a_index (PushWheelLocked k u s) = a_index s" "residents (PushWheelLocked k u s) = residents s"
  "a_retain (PushWheelLocked k u s) = a_retain s" "a_wheel_tick (PushWheelLocked k u s) = a_wheel_tick s"
  "a_retain_now_s (PushWheelLocked k u s) = a_retain_now_s s" "length (a_wheel (PushWheelLocked k u s)) = length (a_wheel s)"
  "a_protected_bytes (PushWheelLocked k u s) = a_protected_bytes s" "a_opt (PushWheelLocked k u s) = a_opt s"
  by (auto simp: PushWheelLocked_def inv_moving_def residents_def)

lemma granted_slots:
  "a_slots (granted i eff u s) = upd_nth (a_slots s) i (\<lambda>m. m\<lparr>m_retain_ttl_s := eff, m_retain_until := u\<rparr>)"
proof -
  have "upd_nth xs i (\<lambda>m. m\<lparr>m_retain_ttl_s := eff\<rparr>) = upd_nth xs i (\<lambda>m. m\<lparr>m_retain_ttl_s := eff, m_retain_until := u\<rparr>)"
    if "m_retain_until (xs ! i) = u" for xs unfolding that [symmetric] by (simp add: upd_nth_def)
  moreover have "upd_nth (upd_nth xs i (\<lambda>m. m\<lparr>m_retain_ttl_s := eff\<rparr>)) i (\<lambda>m. m\<lparr>m_retain_until := u\<rparr>) =
      upd_nth xs i (\<lambda>m. m\<lparr>m_retain_ttl_s := eff, m_retain_until := u\<rparr>)" for xs
    by (rule nth_equalityI) (auto simp: nth_upd)
  ultimately show ?thesis by (auto simp: granted_def ProtectLocked_def Let_def)
qed

lemma granted_frame [simp]:
  "a_index (granted i eff u s) = a_index s" "a_opt (granted i eff u s) = a_opt s" "a_retain (granted i eff u s) = a_retain s"
  "a_wheel_tick (granted i eff u s) = a_wheel_tick s" "a_retain_now_s (granted i eff u s) = a_retain_now_s s"
  "length (a_wheel (granted i eff u s)) = length (a_wheel s)"
  "a_protected_bytes (granted i eff u s) = a_protected_bytes s +
     (if m_retain_until (a_slots s ! i) = 0 then ref_slot_size (m_ref (a_slots s ! i)) else 0)"
  by (simp_all add: granted_def ProtectLocked_def Let_def)

lemma granted_inv:
  assumes inv: "inv_moving s H" and i: "i \<in> live_set (a_slots s)" and u: "u \<noteq> 0"
  shows "inv_moving (granted i eff u s) H"
proof (cases "m_retain_until (a_slots s ! i) = 0")
  case True
  let ?p = "ProtectLocked i s"
  have sl: "upd_nth (upd_nth xs i (\<lambda>m. m\<lparr>m_retain_ttl_s := eff\<rparr>)) i (\<lambda>m. m\<lparr>m_retain_until := u\<rparr>) =
      upd_nth (upd_nth xs i (\<lambda>m. m\<lparr>m_retain_until := u\<rparr>)) i (\<lambda>m. m\<lparr>m_retain_ttl_s := eff\<rparr>)" for xs
    by (rule upd_nth_commute) simp
  have "inv_moving (upd_slot i (\<lambda>m. m\<lparr>m_retain_ttl_s := eff\<rparr>) (upd_slot i (\<lambda>m. m\<lparr>m_retain_until := u\<rparr>) ?p)) H"
    by (rule inv_moving_slot [OF protect_moving [OF inv i True u]]) (auto simp: same_links_def)
  then show ?thesis using True by (simp add: granted_def Let_def sl)
next
  case False
  have "inv_moving (upd_slot i (\<lambda>m. m\<lparr>m_retain_ttl_s := eff, m_retain_until := u\<rparr>) s) H"
    using False u by (intro inv_moving_slot [OF inv]) (auto simp: same_links_def)
  moreover have "a_classes (granted i eff u s) = a_classes s" "a_extents (granted i eff u s) = a_extents s"
    using False by (simp_all add: granted_def PushWheelLocked_def Let_def)
  moreover have "inv_moving (granted i eff u s) H = inv_moving (upd_slot i (\<lambda>m. m\<lparr>m_retain_ttl_s := eff, m_retain_until := u\<rparr>) s) H"
    using False granted_slots [of i eff u s]
    by (auto simp: inv_moving_def inv_at_def granted_def PushWheelLocked_def Let_def)
  ultimately show ?thesis by simp
qed

lemma granted_residents:
  assumes inv: "slab_inv s" and i: "Find (a_index s) k = Some i"
  shows "residents (granted i eff u s) = (residents s)(k \<mapsto> (abs_meta (a_slots s ! i))\<lparr>r_until := u, r_ttl := eff\<rparr>)"
proof
  fix k'
  note R = resident_entry [OF inv i]
  have "Find (a_index s) k' \<noteq> Some i" if "k' \<noteq> k" using that R(2) inv inv_moving_index(2) [of s "{}" k' i] by (auto simp: slab_inv_def)
  then show "residents (granted i eff u s) k' = ((residents s)(k \<mapsto> (abs_meta (a_slots s ! i))\<lparr>r_until := u, r_ttl := eff\<rparr>)) k'"
    using i R(3) by (cases "Find (a_index s) k'") (auto simp: residents_def granted_slots abs_meta_def)
qed

lemma upd_nth_Nil [simp]: "upd_nth xs i f = [] \<longleftrightarrow> xs = []"
  by (simp add: upd_nth_def)

lemma scheduled_push:
  "scheduled s k' u' \<Longrightarrow> scheduled (PushWheelLocked k u s) k' u'" "a_wheel s \<noteq> [] \<Longrightarrow> scheduled (PushWheelLocked k u s) k u"
  by (auto simp: scheduled_def PushWheelLocked_def nth_upd)

lemma wheel_pos_push: "wheel_pos s \<Longrightarrow> u \<noteq> 0 \<Longrightarrow> wheel_pos (PushWheelLocked k u s)"
  by (auto simp: wheel_pos_def PushWheelLocked_def upd_nth_def dest!: set_update_subset_insert [THEN subsetD])
    (metis length_greater_0_conv mod_less_divisor nth_mem)

lemma granted_wheel:
  "a_wheel (granted i eff u s) = (if u \<noteq> m_retain_until (a_slots s ! i) \<or> m_retain_until (a_slots s ! i) = 0
     then a_wheel (PushWheelLocked (m_key (a_slots s ! i)) u s) else a_wheel s)"
  by (simp add: granted_def ProtectLocked_def PushWheelLocked_def Let_def)

lemma scheduled_cong: "a_wheel s' = a_wheel s \<Longrightarrow> scheduled s' k u = scheduled s k u"
  by (simp add: scheduled_def)

lemma granted_scheduled:
  assumes inv: "slab_inv s" and ret: "retain_inv s" and i: "Find (a_index s) k = Some i" and w: "a_wheel s \<noteq> []"
    and p: "protects (granted i eff u s) k' u'"
  shows "scheduled (granted i eff u s) k' u'" "k' \<noteq> k \<Longrightarrow> protects s k' u'" "k' = k \<Longrightarrow> u' = u"
proof -
  note R = resident_entry [OF inv i] and G = granted_residents [OF inv i, of eff u]
  show other: "protects s k' u'" if "k' \<noteq> k" using p that by (simp add: protects_def G)
  show same: "u' = u" if "k' = k" using p that by (simp add: protects_def G)
  have keep: "scheduled (granted i eff u s) k' u'" if "scheduled s k' u'"
    using scheduled_push(1) [OF that] that granted_wheel [of i eff u s] scheduled_cong by (metis (full_types))
  show "scheduled (granted i eff u s) k' u'"
  proof (cases "k' = k \<and> (u \<noteq> m_retain_until (a_slots s ! i) \<or> m_retain_until (a_slots s ! i) = 0)")
    case True
    then show ?thesis using same R(2) scheduled_push(2) [OF w, of k u] granted_wheel [of i eff u s] scheduled_cong by metis
  next
    case False
    then have "protects s k' u'" using other same R(4) p by (cases "k' = k") (auto simp: protects_def abs_meta_def)
    then show ?thesis using keep protects_upto [OF _ ret] by blast
  qed
qed

lemma retain_grant_eq:
  assumes i: "i < length (a_slots s)" and u: "u = max (m_retain_until (a_slots s ! i)) (min (a_retain_now_s s + eff) UINT32_MAX) mod 2 ^ 32"
  shows "\<exists>code persist f. retain_grant i stored eff s out =
    (out\<lparr>out_code := code, out_persist := persist, out_until := u, out_ttl_s := eff\<rparr>,
     count_result code (upd_slot i f (granted i eff u s))) \<and>
    (f = (\<lambda>m. m) \<or> f = (\<lambda>m. m\<lparr>m_retain_persisted_until := m_retain_until m\<rparr>)) \<and>
    (code = kProtectedNew \<longleftrightarrow> m_retain_until (a_slots s ! i) = 0) \<and> code \<in> {kProtectedNew, kUpgraded, kRefreshed, kUnchanged}"
proof -
  define meta where "meta = a_slots s ! i"
  define code where "code = (if \<not> m_retain_until meta \<noteq> 0 then kProtectedNew else if eff > stored then kUpgraded
    else if u > m_retain_until meta then kRefreshed else kUnchanged)"
  define s1 where "s1 = (if \<not> m_retain_until meta \<noteq> 0 then ProtectLocked i s else s)"
  define s2 where "s2 = upd_slot i (\<lambda>m. m\<lparr>m_retain_ttl_s := eff\<rparr>) s1"
  define s3 where "s3 = (if u \<noteq> m_retain_until meta \<or> \<not> m_retain_until meta \<noteq> 0
    then PushWheelLocked (m_key meta) u (upd_slot i (\<lambda>m. m\<lparr>m_retain_until := u\<rparr>) s2) else s2)"
  define floor where "floor = max (ro_persist_min_delta_s (a_retain s)) (eff div 4)"
  define meta3 where "meta3 = a_slots s3 ! i"
  define persist where "persist = (code = kProtectedNew \<or> code = kUpgraded \<or> m_retain_until meta3 \<ge>
    (m_retain_persisted_until meta3 + floor) mod 2 ^ 32)"
  have g: "s3 = granted i eff u s" unfolding s3_def s2_def s1_def meta_def granted_def Let_def ..
  have "m_retain_until meta3 = u" using i by (simp add: g meta3_def granted_slots)
  then have "retain_grant i stored eff s out =
    (out\<lparr>out_code := code, out_persist := persist, out_until := u, out_ttl_s := eff\<rparr>,
     count_result code (if persist then upd_slot i (\<lambda>m. m\<lparr>m_retain_persisted_until := m_retain_until m\<rparr>) s3 else s3))"
    unfolding retain_grant_def meta_def [symmetric] Let_def [of meta] Let_def [of "m_retain_until meta \<noteq> 0"] Let_def [of "a_retain_now_s s + eff"]
    unfolding u [folded meta_def, symmetric] Let_def [of u] unfolding code_def [symmetric] Let_def [of code]
    unfolding s1_def [symmetric] Let_def [of s1] unfolding s2_def [symmetric] Let_def [of s2]
    unfolding s3_def [symmetric] Let_def [of s3] unfolding floor_def [symmetric] Let_def [of floor]
    unfolding meta3_def [symmetric] Let_def [of meta3] unfolding persist_def [symmetric] Let_def by simp
  moreover have "upd_slot i (\<lambda>m. m) s3 = s3" by (simp add: upd_nth_def)
  moreover have "code \<in> {kProtectedNew, kUpgraded, kRefreshed, kUnchanged}" "code = kProtectedNew \<longleftrightarrow> m_retain_until meta = 0"
    by (auto simp: code_def)
  ultimately show ?thesis by (intro exI [of _ code] exI [of _ persist] exI
    [of _ "if persist then (\<lambda>m. m\<lparr>m_retain_persisted_until := m_retain_until m\<rparr>) else (\<lambda>m. m)"]) (auto simp: g meta_def)
qed

subsection \<open>Retain\<close>

lemma count_result_frame [simp]:
  "slab_inv (count_result c s) = slab_inv s" "residents (count_result c s) = residents s" "a_retain (count_result c s) = a_retain s"
  "a_protected_bytes (count_result c s) = a_protected_bytes s" "a_retain_now_s (count_result c s) = a_retain_now_s s"
  "retain_inv (count_result c s) = retain_inv s" "a_opt (count_result c s) = a_opt s"
  by (auto simp: count_result_def slab_inv_def inv_moving_def residents_def retain_inv_def clock_ok_def wheel_pos_def protects_def scheduled_def)

abbreviation set_now :: "nat \<Rightarrow> 'w SlabAllocator \<Rightarrow> 'w SlabAllocator" where
  "set_now now_s s \<equiv> (if now_s > a_retain_now_s s then s\<lparr>a_retain_now_s := now_s\<rparr> else s)"

lemma set_now_frame [simp]:
  "slab_inv (set_now n s) = slab_inv s" "residents (set_now n s) = residents s" "a_retain (set_now n s) = a_retain s"
  "a_protected_bytes (set_now n s) = a_protected_bytes s" "a_index (set_now n s) = a_index s" "a_slots (set_now n s) = a_slots s"
  "a_wheel (set_now n s) = a_wheel s" "a_wheel_tick (set_now n s) = a_wheel_tick s"
  "a_retain_now_s (set_now n s) = max n (a_retain_now_s s)"
  by (auto simp: slab_inv_def inv_moving_def residents_def)

lemma set_now_inv:
  assumes "retain_inv s" "n \<le> UINT32_MAX"
  shows "retain_inv (set_now n s)"
proof -
  have w: "wheel_pos (set_now n s) = wheel_pos s" "scheduled (set_now n s) k u = scheduled s k u" "protects (set_now n s) k u = protects s k u"
    "a_wheel_tick (set_now n s) = a_wheel_tick s" for k u
    by (simp_all add: wheel_pos_def scheduled_def protects_def residents_def)
  have "clock_ok (set_now n s)"
    using assms div_le_mono [of "a_retain_now_s s" "max n (a_retain_now_s s)" kWheelTickS] by (auto simp: retain_inv_def clock_ok_def)
  then show ?thesis using assms(1) unfolding retain_inv_def w by blast
qed

text \<open>The time to live a call asks for: the stored one, or the larger of the stored and the requested one.\<close>

definition retain_ttl :: "nat \<Rightarrow> RetainMode \<Rightarrow> 'w SlabAllocator \<Rightarrow> resident \<Rightarrow> nat" where
  "retain_ttl ttl mode s r = (let stored = min (r_ttl r) (ro_max_ttl_s (a_retain s))
     in if mode = kRefresh then stored else max stored (min ttl (ro_max_ttl_s (a_retain s))))"

definition retain_done :: "BlockKey \<Rightarrow> nat \<Rightarrow> RetainMode \<Rightarrow> nat \<Rightarrow> 'w SlabAllocator \<Rightarrow> RetainOutcome \<Rightarrow> 'w SlabAllocator \<Rightarrow> bool" where
  "retain_done k ttl mode now s out s' \<longleftrightarrow> slab_inv s' \<and> retain_inv s' \<and> a_retain s' = a_retain s \<and> a_opt s' = a_opt s \<and>
     (if out_code out \<in> {kProtectedNew, kRefreshed, kUpgraded, kUnchanged}
      then \<exists>r. residents s k = Some r \<and> \<not> r_pending r \<and> ro_enabled (a_retain s) \<and> out_ref out = r_ref r \<and>
        out_until out = max (r_until r) (min (max now (a_retain_now_s s) + retain_ttl ttl mode s r) UINT32_MAX) \<and>
        residents s' = (residents s)(k \<mapsto> r\<lparr>r_until := out_until out, r_ttl := retain_ttl ttl mode s r\<rparr>) \<and>
        (out_code out = kProtectedNew \<longleftrightarrow> r_until r = 0) \<and>
        a_protected_bytes s' = a_protected_bytes s + (if r_until r = 0 then ref_slot_size (r_ref r) else 0) \<and>
        (r_until r = 0 \<longrightarrow> a_protected_bytes s' \<le> ro_budget_bytes (a_retain s))
      else residents s' = residents s \<and> a_protected_bytes s' = a_protected_bytes s \<and>
        (out_code out = kMiss \<longleftrightarrow> visible (residents s k) = None))"

lemma TouchLocked_protected [simp]: "a_protected_bytes (TouchLocked i s) = a_protected_bytes s"
proof -
  have "a_protected_bytes (touch_heat i m t) = a_protected_bytes t" "a_protected_bytes (touch_move i t) = a_protected_bytes t" for m and t :: "'a SlabAllocator"
    by (simp_all add: touch_heat_def touch_move_def Let_def)
  then show ?thesis by (simp add: TouchLocked_steps touch_mark_def)
qed

lemma granted_retain_inv:
  assumes inv: "slab_inv s" and ret: "retain_inv s" and i: "Find (a_index s) k = Some i" and w: "a_wheel s \<noteq> []"
    and u: "a_retain_now_s s \<le> u" "u \<le> UINT32_MAX" "u \<noteq> 0" and q: "quiet f" "\<And>m. m_retain_ttl_s (f m) = m_retain_ttl_s m"
  shows "retain_inv (upd_slot i f (granted i eff u s))"
proof -
  let ?g = "granted i eff u s" and ?t = "upd_slot i f (granted i eff u s)"
  have "a_wheel_tick s < a_retain_now_s s div kWheelTickS" using ret w by (auto simp: retain_inv_def clock_ok_def)
  then have tick: "a_wheel_tick s < u div kWheelTickS" using u(1) div_le_mono [of _ u kWheelTickS] by (meson less_le_trans)
  have "u' \<le> UINT32_MAX \<and> a_wheel_tick s < u' div kWheelTickS \<and> scheduled ?g k' u'" if p: "protects ?t k' u'" for k' u'
  proof -
    have "protects ?g k' u'" using p residents_quiet [OF q, of ?g i] by (simp add: protects_def)
    from granted_scheduled [OF inv ret i w this] show ?thesis
      using u(2) tick protects_upto [OF _ ret, of k' u'] by (cases "k' = k") auto
  qed
  moreover have "scheduled ?t k' u' = scheduled ?g k' u'" for k' u' by (simp add: scheduled_def)
  moreover have "wheel_pos ?t" using ret wheel_pos_push [OF _ u(3), of s] granted_wheel [of i eff u s]
    by (auto simp: retain_inv_def wheel_pos_def split: if_splits)
  moreover have "a_wheel ?g \<noteq> []" using w granted_frame(6) [of i eff u s] by (metis length_0_conv)
  ultimately show ?thesis using ret w by (simp add: retain_inv_def clock_ok_def)
qed

lemma retain_grant_done:
  assumes inv: "slab_inv s" and ret: "retain_inv s" and i: "Find (a_index s) k = Some i" and eff: "0 < eff" and w: "a_wheel s \<noteq> []"
  defines "u \<equiv> max (m_retain_until (a_slots s ! i)) (min (a_retain_now_s s + eff) UINT32_MAX)"
  shows "\<exists>code persist t. retain_grant i stored eff s out =
    (out\<lparr>out_code := code, out_persist := persist, out_until := u, out_ttl_s := eff\<rparr>, t) \<and> slab_inv t \<and> retain_inv t \<and>
    a_retain t = a_retain s \<and> a_opt t = a_opt s \<and>
    residents t = (residents s)(k \<mapsto> (abs_meta (a_slots s ! i))\<lparr>r_until := u, r_ttl := eff\<rparr>) \<and>
    a_protected_bytes t = a_protected_bytes s + (if m_retain_until (a_slots s ! i) = 0 then ref_slot_size (m_ref (a_slots s ! i)) else 0) \<and>
    (code = kProtectedNew \<longleftrightarrow> m_retain_until (a_slots s ! i) = 0) \<and> code \<in> {kProtectedNew, kUpgraded, kRefreshed, kUnchanged}"
proof -
  note R = resident_entry [OF inv i]
  let ?m = "a_slots s ! i"
  have now: "0 < a_retain_now_s s" "a_retain_now_s s \<le> UINT32_MAX" "a_wheel_tick s < a_retain_now_s s div kWheelTickS"
    using ret w by (auto simp: retain_inv_def clock_ok_def kWheelTickS_def)
  have mu: "m_retain_until ?m \<le> UINT32_MAX"
  proof (cases "m_retain_until ?m = 0")
    case False
    then have "protects s k (m_retain_until ?m)" using R(4) by (simp add: protects_def abs_meta_def)
    then show ?thesis using protects_upto [OF _ ret] by blast
  qed simp
  have u: "a_retain_now_s s \<le> u" "u \<le> UINT32_MAX" "u \<noteq> 0" "u mod 2 ^ 32 = u"
    using now mu by (auto simp: u_def UINT32_MAX_def)
  have um: "u = max (m_retain_until ?m) (min (a_retain_now_s s + eff) UINT32_MAX) mod 2 ^ 32" using u(4) by (simp add: u_def)
  obtain code persist f where G: "retain_grant i stored eff s out =
     (out\<lparr>out_code := code, out_persist := persist, out_until := u, out_ttl_s := eff\<rparr>, count_result code (upd_slot i f (granted i eff u s)))"
    "f = (\<lambda>m. m) \<or> f = (\<lambda>m. m\<lparr>m_retain_persisted_until := m_retain_until m\<rparr>)"
    "code = kProtectedNew \<longleftrightarrow> m_retain_until ?m = 0" "code \<in> {kProtectedNew, kUpgraded, kRefreshed, kUnchanged}"
    using retain_grant_eq [OF R(3) um] by blast
  let ?g = "granted i eff u s" and ?t = "upd_slot i f (granted i eff u s)"
  have q: "quiet f" "\<And>m. m_retain_ttl_s (f m) = m_retain_ttl_s m" using G(2) by (auto simp: quiet_def same_links_def)
  have "slab_inv ?t" using inv_moving_quiet(1) [OF granted_inv [OF _ R(1) u(3)] q(1)] inv by (simp add: slab_inv_def)
  moreover have rt: "residents ?t = (residents s)(k \<mapsto> (abs_meta ?m)\<lparr>r_until := u, r_ttl := eff\<rparr>)"
    by (rule trans [OF residents_quiet [OF q] granted_residents [OF inv i]])
  moreover have "retain_inv ?t" by (rule granted_retain_inv [OF inv ret i w u(1-3) q])
  ultimately show ?thesis using G by (intro exI [of _ code] exI [of _ persist] exI [of _ "count_result code ?t"]) simp
qed

lemma Retain_ok:
  assumes inv: "slab_inv s" and ret: "retain_inv s" and now: "now \<le> UINT32_MAX"
  shows "retain_done k ttl mode now s (fst (Retain k ttl mode now s)) (snd (Retain k ttl mode now s))"
proof -
  define t where "t = set_now now s"
  have t: "slab_inv t" "retain_inv t" "residents t = residents s" "a_retain t = a_retain s" "a_opt t = a_opt s"
    "a_protected_bytes t = a_protected_bytes s" "a_retain_now_s t = max now (a_retain_now_s s)"
    using inv set_now_inv [OF ret now] unfolding t_def by (simp_all split: if_split)
  have keep: "retain_done k ttl mode now s out (count_result c t')"
    if "out_code out = c" "slab_inv t'" "retain_inv t'" "residents t' = residents s" "a_retain t' = a_retain s" "a_opt t' = a_opt s"
      "a_protected_bytes t' = a_protected_bytes s" "c \<in> {kMiss, kHitUnprotected, kDenied}"
      "c = kMiss \<longleftrightarrow> visible (residents s k) = None" for out c t'
    using that by (auto simp: retain_done_def)
  show ?thesis
  proof (cases "Find (a_index t) k")
    case None
    then have "Retain k ttl mode now s = (empty_outcome\<lparr>out_code := kMiss\<rparr>, count_result kMiss t)"
      unfolding Retain_def t_def [symmetric] Let_def [of t] by simp
    moreover have "residents s k = None" using None t(3) by (metis residents_def option.map_disc_iff)
    ultimately show ?thesis using t by (simp add: keep visible_def)
  next
    case (Some i)
    note R = resident_entry [OF t(1) Some]
    have rk: "residents s k = Some (abs_meta (a_slots t ! i))" using R(4) t(3) by simp
    show ?thesis
    proof (cases "m_remove_pending (a_slots t ! i) \<or> \<not> ro_enabled (a_retain t)")
      case True
      then have "Retain k ttl mode now s = (if m_remove_pending (a_slots t ! i) then (empty_outcome\<lparr>out_code := kMiss\<rparr>, count_result kMiss t)
          else (empty_outcome\<lparr>out_code := kHitUnprotected\<rparr>, count_result kHitUnprotected t))"
        using Some unfolding Retain_def t_def [symmetric] Let_def [of t] by auto
      then show ?thesis using t rk by (simp add: keep visible_def abs_meta_def)
    next
      case False
      define t1 where "t1 = (if mode = kRefresh then TouchLocked i t else t)"
      note T = TouchLocked_ok [OF t(1) R(1)]
      have t1: "slab_inv t1" "residents t1 = residents s" "a_opt t1 = a_opt s" "a_retain t1 = a_retain s" "stable t t1"
        "a_protected_bytes t1 = a_protected_bytes s" "Find (a_index t1) k = Some i" "abs_meta (a_slots t1 ! i) = abs_meta (a_slots t ! i)"
        using T t Some by (auto simp: t1_def stable_def)
      have ret1: "retain_inv t1" using retain_inv_stable [OF t(2) t1(5)] t1(2) t(3) by (simp add: protects_def)
      let ?m = "a_slots t1 ! i" and ?r = "abs_meta (a_slots t ! i)"
      define stored where "stored = min (m_retain_ttl_s ?m) (ro_max_ttl_s (a_retain t1))"
      define eff where "eff = (if mode = kRefresh then stored else max stored (min ttl (ro_max_ttl_s (a_retain t1))))"
      have eff: "eff = retain_ttl ttl mode s ?r" using t1(4,8) by (simp add: eff_def stored_def retain_ttl_def abs_meta_def)
      have en: "ro_enabled (a_retain s)" "\<not> r_pending ?r" using False t by (simp_all add: abs_meta_def)
      have w: "a_wheel t1 \<noteq> []" using ret1 t1(4) en by (simp add: retain_inv_def clock_ok_def)
      have nw: "a_retain_now_s t1 = max now (a_retain_now_s s)" using t1(5) t(7) by (simp add: stable_def)
      let ?deny = "m_retain_until ?m = 0 \<and> (a_protected_bytes t1 + ref_slot_size (m_ref ?m) > ro_budget_bytes (a_retain t1) \<or>
          c_protected_slots (a_classes t1 ! ref_cls (m_ref ?m)) + 1 > ClassProtectCapLocked t1 (a_classes t1 ! ref_cls (m_ref ?m)))"
      have eq: "Retain k ttl mode now s = (if eff = 0 then (empty_outcome\<lparr>out_ref := m_ref ?m, out_code := kHitUnprotected\<rparr>, count_result kHitUnprotected t1)
          else if ?deny then (empty_outcome\<lparr>out_ref := m_ref ?m, out_code := kDenied, out_ttl_s := m_retain_ttl_s ?m\<rparr>, count_result kDenied t1)
          else retain_grant i stored eff t1 (empty_outcome\<lparr>out_ref := m_ref ?m\<rparr>))"
        using False unfolding Retain_def t_def [symmetric] Let_def [of t] unfolding Some option.case
        unfolding t1_def [symmetric] Let_def [of t1] Let_def [of ?m] Let_def [of "empty_outcome\<lparr>out_ref := m_ref ?m\<rparr>"]
        unfolding stored_def [symmetric] Let_def [of stored] Let_def [of "min ttl (ro_max_ttl_s (a_retain t1))"]
        unfolding eff_def [symmetric] Let_def [of eff] Let_def [of "a_classes t1 ! ref_cls (m_ref ?m)"] by simp
      have vis: "visible (residents s k) \<noteq> None" using rk en by (simp add: visible_def)
      show ?thesis
      proof (cases "eff = 0 \<or> ?deny")
        case True
        then show ?thesis unfolding eq by (cases "eff = 0") (simp_all add: keep t1(1-4,6) ret1 vis)
      next
        case False
        then have nd: "eff \<noteq> 0" "\<not> ?deny" by simp_all
        then have e0: "0 < eff" by simp
        obtain code persist t2 where G: "retain_grant i stored eff t1 (empty_outcome\<lparr>out_ref := m_ref ?m\<rparr>) =
            (empty_outcome\<lparr>out_ref := m_ref ?m, out_code := code, out_persist := persist,
              out_until := max (m_retain_until ?m) (min (a_retain_now_s t1 + eff) UINT32_MAX), out_ttl_s := eff\<rparr>, t2)"
          "slab_inv t2" "retain_inv t2" "a_retain t2 = a_retain t1" "a_opt t2 = a_opt t1"
          "residents t2 = (residents t1)(k \<mapsto> (abs_meta ?m)\<lparr>r_until := max (m_retain_until ?m) (min (a_retain_now_s t1 + eff) UINT32_MAX), r_ttl := eff\<rparr>)"
          "a_protected_bytes t2 = a_protected_bytes t1 + (if m_retain_until ?m = 0 then ref_slot_size (m_ref ?m) else 0)"
          "code = kProtectedNew \<longleftrightarrow> m_retain_until ?m = 0" "code \<in> {kProtectedNew, kUpgraded, kRefreshed, kUnchanged}"
          using retain_grant_done [OF t1(1) ret1 t1(7) e0 w, of stored "empty_outcome\<lparr>out_ref := m_ref ?m\<rparr>"] apply (elim exE conjE)
          apply (rule that)
          apply assumption+
          done
        have m: "m_ref ?m = r_ref ?r" "m_retain_until ?m = r_until ?r" using t1(8) by (simp_all add: abs_meta_def)
        have "Retain k ttl mode now s = (empty_outcome\<lparr>out_ref := m_ref ?m, out_code := code, out_persist := persist,
              out_until := max (m_retain_until ?m) (min (a_retain_now_s t1 + eff) UINT32_MAX), out_ttl_s := eff\<rparr>, t2)"
          unfolding eq if_not_P [OF nd(1)] if_not_P [OF nd(2)] by (rule G(1))
        then show ?thesis using G(2-9) rk en t1 nd unfolding retain_done_def m nw eff by auto
      qed
    qed
  qed
qed

subsection \<open>Expiry\<close>

text \<open>Clearing the protection of one resident.\<close>

lemma unprotect_ok:
  assumes inv: "slab_inv s" and i: "Find (a_index s) k = Some i" and u: "m_retain_until (a_slots s ! i) \<noteq> 0"
  defines "s' \<equiv> upd_slot i (\<lambda>m. m\<lparr>m_referenced := False\<rparr>) (UnprotectLocked i s)"
  shows "slab_inv s'" "stable s s'" "residents s' = (residents s)(k \<mapsto> (abs_meta (a_slots s ! i))\<lparr>r_until := 0\<rparr>)" "a_index s' = a_index s"
proof -
  note R = resident_entry [OF inv i]
  let ?L = "live_set (a_slots s)"
  have at: "inv_at s ?L {}" "free_metas (a_slots s) (a_free_slot_meta_head s) ?L" using inv by (auto simp: slab_inv_def inv_moving_def)
  have "inv_moving (UnprotectLocked i s) {}"
    using unprotect_inv [OF at(1) R(1) u] at(2) free_metas_upd [of "\<lambda>m. m\<lparr>m_retain_until := 0\<rparr>" "a_slots s" i]
    by (simp add: inv_moving_def unprotect_slots live_set_upd)
  then show "slab_inv s'" unfolding s'_def slab_inv_def by (rule inv_moving_quiet(1)) (simp add: quiet_def same_links_def)
  show "stable s s'" using stable_unprotect [of s i] by (simp add: s'_def stable_def)
  show "a_index s' = a_index s" by (simp add: s'_def)
  show "residents s' = (residents s)(k \<mapsto> (abs_meta (a_slots s ! i))\<lparr>r_until := 0\<rparr>)"
  proof
    fix k'
    have "Find (a_index s) k' \<noteq> Some i" if "k' \<noteq> k" using that R(2) inv inv_moving_index(2) [of s "{}" k' i] by (auto simp: slab_inv_def)
    then show "residents s' k' = ((residents s)(k \<mapsto> (abs_meta (a_slots s ! i))\<lparr>r_until := 0\<rparr>)) k'"
      using i R(3) by (cases "Find (a_index s) k'") (auto simp: residents_def s'_def unprotect_slots abs_meta_def)
  qed
qed

text \<open>The protections that a list of wheel entries ends at time \<open>now\<close>.\<close>

definition expired :: "nat \<Rightarrow> WheelEntry set \<Rightarrow> BlockKey \<Rightarrow> resident \<Rightarrow> bool" where
  "expired now W k r \<longleftrightarrow> r_until r \<noteq> 0 \<and> r_until r \<le> now \<and> \<lparr>we_key = k, we_until = r_until r\<rparr> \<in> W"

definition expire_map :: "nat \<Rightarrow> WheelEntry set \<Rightarrow> (BlockKey \<rightharpoonup> resident) \<Rightarrow> BlockKey \<rightharpoonup> resident" where
  "expire_map now W m k = (case m k of None \<Rightarrow> None | Some r \<Rightarrow> Some (if expired now W k r then r\<lparr>r_until := 0\<rparr> else r))"

lemma expire_map_union: "expire_map now V (expire_map now W m) = expire_map now (W \<union> V) m"
  by (rule ext) (auto simp: expire_map_def expired_def split: option.split)

lemma expire_map_idle:
  assumes "\<And>e. e \<in> W \<Longrightarrow> we_until e > now"
  shows "expire_map now W m = m"
proof
  fix k
  have "\<not> expired now W k r" for r using assms [of "\<lparr>we_key = k, we_until = r_until r\<rparr>"] by (auto simp: expired_def)
  then show "expire_map now W m k = m k" by (simp add: expire_map_def split: option.split)
qed

lemma expire_map_empty [simp]: "expire_map now {} m = m"
  by (rule expire_map_idle) simp

lemma stable_expiry_counters [simp]:
  "stable s (s\<lparr>a_wheel_entries := n\<rparr>)" "residents (s\<lparr>a_wheel_entries := n\<rparr>) = residents s" "slab_inv (s\<lparr>a_wheel_entries := n\<rparr>) = slab_inv s"
  "stable s (s\<lparr>a_retain_expired := n\<rparr>)" "residents (s\<lparr>a_retain_expired := n\<rparr>) = residents s" "slab_inv (s\<lparr>a_retain_expired := n\<rparr>) = slab_inv s"
  "residents (s\<lparr>a_wheel_tick := n\<rparr>) = residents s" "slab_inv (s\<lparr>a_wheel_tick := n\<rparr>) = slab_inv s"
  "residents (s\<lparr>a_wheel := w\<rparr>) = residents s" "slab_inv (s\<lparr>a_wheel := w\<rparr>) = slab_inv s"
  by (auto simp: stable_def residents_def slab_inv_def inv_moving_def)

lemma expire_entry_ok:
  assumes inv: "slab_inv s" and e: "we_until e \<noteq> 0" and r: "expire_entry now e (n, keep, s) = (n', keep', s')"
  shows "slab_inv s'" "stable s s'" "keep' = keep @ (if we_until e > now then [e] else [])" "residents s' = expire_map now {e} (residents s)"
proof -
  obtain k u where ku: "e = \<lparr>we_key = k, we_until = u\<rparr>" by (cases e) simp
  let ?t = "s\<lparr>a_wheel_entries := a_wheel_entries s - 1\<rparr>"
  have other: "expire_map now {e} m = m" if "\<And>r. m k = Some r \<Longrightarrow> r_until r = u \<Longrightarrow> u > now" for m
    using that by (intro ext) (auto simp: expire_map_def expired_def ku split: option.split)
  have "slab_inv s' \<and> stable s s' \<and> keep' = keep @ (if u > now then [e] else []) \<and> residents s' = expire_map now {e} (residents s)"
  proof (cases "u > now")
    case True
    then show ?thesis using r inv other [of "residents s"] by (auto simp: expire_entry_def ku)
  next
    case due: False
    show ?thesis
    proof (cases "\<exists>i. Find (a_index s) k = Some i \<and> m_retain_until (a_slots s ! i) = u")
      case True
      then obtain i where i: "Find (a_index s) k = Some i" "m_retain_until (a_slots s ! i) = u" by blast
      note R = resident_entry [OF inv i(1)]
      have "slab_inv ?t" "Find (a_index ?t) k = Some i" "m_retain_until (a_slots ?t ! i) \<noteq> 0" using inv i e ku by simp_all
      note U = unprotect_ok [OF this]
      let ?v = "upd_slot i (\<lambda>m. m\<lparr>m_referenced := False\<rparr>) (UnprotectLocked i ?t)"
      have "m_live (a_slots s ! i)" using R(1) by (simp add: live_set_def)
      then have s': "s' = ?v\<lparr>a_retain_expired := a_retain_expired ?v + 1\<rparr>" "keep' = keep"
        using r due i unfolding expire_entry_def ku by (simp_all add: Let_def)
      have "residents s' = (residents s)(k \<mapsto> (abs_meta (a_slots s ! i))\<lparr>r_until := 0\<rparr>)" using U(3) by (simp add: s')
      also have "\<dots> = expire_map now {e} (residents s)"
        using R(4) i(2) due e by (intro ext) (auto simp: expire_map_def expired_def ku abs_meta_def split: option.split)
      finally show ?thesis using U(1,2) due s' stable_trans [of s ?v] by (simp add: stable_def)
    next
      case False
      then have s': "s' = ?t" "keep' = keep"
        using r due unfolding expire_entry_def ku by (auto simp: Let_def split: option.splits if_splits)
      have "expire_map now {e} (residents s) = residents s" using False by (intro other) (auto simp: residents_def abs_meta_def)
      then show ?thesis using inv due by (simp add: s')
    qed
  qed
  then show "slab_inv s'" "stable s s'" "keep' = keep @ (if we_until e > now then [e] else [])" "residents s' = expire_map now {e} (residents s)"
    by (simp_all add: ku)
qed

lemma expire_bucket_ok:
  assumes "slab_inv s" "\<And>e. e \<in> set es \<Longrightarrow> we_until e \<noteq> 0" "fold (expire_entry now) es (n, keep, s) = (n', keep', s')"
  shows "slab_inv s' \<and> stable s s' \<and> keep' = keep @ filter (\<lambda>e. we_until e > now) es \<and> residents s' = expire_map now (set es) (residents s)"
  using assms
proof (induction es arbitrary: n keep s)
  case (Cons e es)
  obtain n1 keep1 s1 where e: "expire_entry now e (n, keep, s) = (n1, keep1, s1)" by (metis prod_cases3)
  note E = expire_entry_ok [OF Cons.prems(1) _ e]
  have "fold (expire_entry now) es (n1, keep1, s1) = (n', keep', s')" using Cons.prems(3) e by simp
  from Cons.IH [OF E(1) _ this] show ?case
    using E Cons.prems(2) stable_trans expire_map_union [of now "set es" "{e}"] by auto
qed simp

definition visited :: "'w SlabAllocator \<Rightarrow> nat \<Rightarrow> WheelEntry set" where
  "visited s n = (\<Union>t\<in>{a_wheel_tick s<..a_wheel_tick s + n}. set (a_wheel s ! (t mod length (a_wheel s))))"

definition ticks_done :: "nat \<Rightarrow> nat \<Rightarrow> 'w SlabAllocator \<Rightarrow> 'w SlabAllocator \<Rightarrow> bool" where
  "ticks_done now n s s' \<longleftrightarrow> slab_inv s' \<and> wheel_pos s' \<and> residents s' = expire_map now (visited s n) (residents s) \<and>
     a_wheel_tick s' = a_wheel_tick s + n \<and> length (a_wheel s') = length (a_wheel s) \<and> a_retain s' = a_retain s \<and>
     a_retain_now_s s' = a_retain_now_s s \<and> a_opt s' = a_opt s \<and>
     (\<forall>b<length (a_wheel s). set (a_wheel s' ! b) \<subseteq> set (a_wheel s ! b) \<and>
        (\<forall>e\<in>set (a_wheel s ! b). e \<in> set (a_wheel s' ! b) \<or> (we_until e \<le> now \<and> e \<in> visited s n)))"

lemma visited_Suc:
  "visited s (Suc n) = set (a_wheel s ! (Suc (a_wheel_tick s) mod length (a_wheel s))) \<union> visited (s\<lparr>a_wheel_tick := a_wheel_tick s + 1\<rparr>) n"
proof -
  have "{a_wheel_tick s<..a_wheel_tick s + Suc n} = insert (Suc (a_wheel_tick s)) {Suc (a_wheel_tick s)<..Suc (a_wheel_tick s) + n}" by auto
  then show ?thesis by (simp add: visited_def)
qed

lemma expire_tick_step:
  assumes inv: "slab_inv s" and pos: "wheel_pos s" and w: "a_wheel s \<noteq> []"
    and b: "b = (a_wheel_tick s + 1) mod length (a_wheel s)"
    and f: "fold (expire_entry now) (a_wheel s ! b) (c, [], s\<lparr>a_wheel_tick := a_wheel_tick s + 1\<rparr>) = (c1, keep, s1)"
  shows "slab_inv s1" "residents s1 = expire_map now (set (a_wheel s ! b)) (residents s)" "keep = filter (\<lambda>e. we_until e > now) (a_wheel s ! b)"
    "stable (s\<lparr>a_wheel_tick := a_wheel_tick s + 1\<rparr>) s1" "wheel_pos (s1\<lparr>a_wheel := (a_wheel s1)[b := keep]\<rparr>)"
proof -
  have bl: "b < length (a_wheel s)" using w by (simp add: b)
  have e0: "we_until e \<noteq> 0" if "e \<in> set (a_wheel s ! b)" for e using pos that bl by (auto simp: wheel_pos_def)
  note B = expire_bucket_ok [OF _ e0 f] inv
  then show "slab_inv s1" "residents s1 = expire_map now (set (a_wheel s ! b)) (residents s)" "keep = filter (\<lambda>e. we_until e > now) (a_wheel s ! b)"
    "stable (s\<lparr>a_wheel_tick := a_wheel_tick s + 1\<rparr>) s1" by simp_all
  moreover have "a_wheel s1 = a_wheel s" using \<open>stable _ s1\<close> by (simp add: stable_def)
  ultimately show "wheel_pos (s1\<lparr>a_wheel := (a_wheel s1)[b := keep]\<rparr>)"
    using pos e0 by (auto simp: wheel_pos_def dest!: set_update_subset_insert [THEN subsetD])
qed

lemma expire_ticks_ok:
  assumes "slab_inv s" "wheel_pos s" "a_wheel s \<noteq> []" "expire_ticks n now c s = (c', s')"
  shows "ticks_done now n s s'"
  using assms
proof (induction n arbitrary: c s)
  case 0
  then show ?case by (auto simp: ticks_done_def visited_def)
next
  case (Suc n)
  note inv = Suc.prems(1) and pos = Suc.prems(2) and w = Suc.prems(3)
  let ?t = "s\<lparr>a_wheel_tick := a_wheel_tick s + 1\<rparr>"
  define b where "b = (a_wheel_tick s + 1) mod length (a_wheel s)"
  obtain c1 keep s1 where f: "fold (expire_entry now) (a_wheel s ! b) (c, [], ?t) = (c1, keep, s1)" by (metis prod_cases3)
  note S = expire_tick_step [OF inv pos w b_def f]
  let ?u = "s1\<lparr>a_wheel := (a_wheel s1)[b := keep]\<rparr>"
  have bl: "b < length (a_wheel s)" using w by (simp add: b_def)
  have st: "a_wheel s1 = a_wheel s" "a_wheel_tick s1 = a_wheel_tick s + 1" "a_retain s1 = a_retain s" "a_retain_now_s s1 = a_retain_now_s s"
    "a_opt s1 = a_opt s" using S(4) by (simp_all add: stable_def)
  have "expire_ticks n now c1 ?u = (c', s')" using Suc.prems(4) f by (simp add: b_def Let_def)
  then have D: "ticks_done now n ?u s'" using Suc.IH [of ?u c1] S(1,5) w st by simp
  have nb: "a_wheel ?u ! d = (if d = b then keep else a_wheel s ! d)" if "d < length (a_wheel s)" for d using that st by simp
  have V: "visited ?u n \<subseteq> visited s (Suc n)" "visited s (Suc n) = set (a_wheel s ! b) \<union> visited ?u n"
  proof -
    have sub: "set (a_wheel ?u ! d) \<subseteq> set (a_wheel s ! d)" "set (a_wheel s ! d) \<subseteq> set (a_wheel s ! b) \<union> set (a_wheel ?u ! d)"
      if "d < length (a_wheel s)" for d using nb [OF that] S(3) by auto
    have len: "t mod length (a_wheel s) < length (a_wheel s)" for t using w by simp
    have "visited ?u n \<subseteq> visited ?t n" "visited ?t n \<subseteq> set (a_wheel s ! b) \<union> visited ?u n"
      using sub [OF len] st by (simp_all add: visited_def) blast+
    then show "visited ?u n \<subseteq> visited s (Suc n)" "visited s (Suc n) = set (a_wheel s ! b) \<union> visited ?u n"
      unfolding visited_Suc by (auto simp: b_def)
  qed
  have res: "residents s' = expire_map now (visited s (Suc n)) (residents s)"
    using D S(2) expire_map_union unfolding V(2) by (simp add: ticks_done_def)
  have "set (a_wheel s' ! d) \<subseteq> set (a_wheel s ! d) \<and>
      (\<forall>e\<in>set (a_wheel s ! d). e \<in> set (a_wheel s' ! d) \<or> (we_until e \<le> now \<and> e \<in> visited s (Suc n)))" if d: "d < length (a_wheel s)" for d
  proof -
    have D': "set (a_wheel s' ! d) \<subseteq> set (a_wheel ?u ! d)" "\<And>e. e \<in> set (a_wheel ?u ! d) \<Longrightarrow>
        e \<in> set (a_wheel s' ! d) \<or> (we_until e \<le> now \<and> e \<in> visited ?u n)"
      using D d st unfolding ticks_done_def by auto
    show ?thesis
    proof (cases "d = b")
      case True
      have "set (a_wheel ?u ! d) = {e \<in> set (a_wheel s ! d). we_until e > now}" using nb [OF d] True S(3) by simp
      then show ?thesis using D' V True by auto
    next
      case False
      then show ?thesis using D' V nb [OF d] by auto
    qed
  qed
  then show ?case using D res st unfolding ticks_done_def by simp
qed

lemma tick_bounds: "kWheelTickS \<le> n \<Longrightarrow> 1 \<le> n div kWheelTickS"
  by (simp add: kWheelTickS_def div_greater_zero_iff)

lemma mod_interval_all:
  fixes n :: nat
  assumes "b < n"
  shows "\<exists>t\<in>{a<..a + n}. t mod n = b"
proof -
  let ?t = "Suc a + (b + n - Suc a mod n) mod n"
  have n: "0 < n" using assms by simp
  have "?t mod n = (Suc a mod n + (b + n - Suc a mod n)) mod n" by (metis mod_add_left_eq mod_add_right_eq)
  also have "\<dots> = (b + n) mod n" using mod_less_divisor [OF n, of "Suc a"] by simp
  finally have "?t mod n = b" using assms by simp
  moreover have "?t \<in> {a<..a + n}" using mod_less_divisor [OF n, of "b + n - Suc a mod n"] by auto
  ultimately show ?thesis by blast
qed

definition expire_done :: "nat \<Rightarrow> 'w SlabAllocator \<Rightarrow> 'w SlabAllocator \<Rightarrow> bool" where
  "expire_done now s s' \<longleftrightarrow> slab_inv s' \<and> retain_inv s' \<and> a_retain s' = a_retain s \<and> a_opt s' = a_opt s \<and>
     a_retain_now_s s' = max now (a_retain_now_s s) \<and>
     (\<exists>W. residents s' = expire_map (a_retain_now_s s') W (residents s)) \<and>
     (\<forall>k u. protects s' k u \<longrightarrow> a_retain_now_s s' div kWheelTickS \<le> u div kWheelTickS)"

text \<open>A drained wheel still holds an entry for every protection it has not ended.\<close>

lemma ticks_retain_inv:
  assumes clock: "kWheelTickS \<le> a_retain_now_s s" "a_retain_now_s s \<le> UINT32_MAX" and w: "a_wheel s \<noteq> []"
    and sched: "\<And>k u. protects s k u \<Longrightarrow> u \<le> UINT32_MAX \<and> scheduled s k u"
    and D: "ticks_done (a_retain_now_s s) n s s'"
    and tgt: "a_wheel_tick s + n < a_retain_now_s s div kWheelTickS"
    and late: "\<And>k u. protects s' k u \<Longrightarrow> a_wheel_tick s + n < u div kWheelTickS"
  shows "retain_inv s'"
proof -
  have f: "wheel_pos s'" "a_wheel_tick s' = a_wheel_tick s + n" "length (a_wheel s') = length (a_wheel s)" "a_retain s' = a_retain s"
    "a_retain_now_s s' = a_retain_now_s s" and res: "residents s' = expire_map (a_retain_now_s s) (visited s n) (residents s)"
    using D by (auto simp: ticks_done_def)
  have w': "a_wheel s' \<noteq> []" using w f(3) by (metis length_0_conv)
  have "clock_ok s'" using clock f tgt w' by (auto simp: clock_ok_def)
  moreover have "u \<le> UINT32_MAX \<and> a_wheel_tick s' < u div kWheelTickS \<and> scheduled s' k u" if p: "protects s' k u" for k u
  proof -
    obtain r where r: "residents s k = Some r" "\<not> expired (a_retain_now_s s) (visited s n) k r" "r_until r = u" "u \<noteq> 0"
      using p unfolding protects_def res by (auto simp: expire_map_def split: option.splits if_splits)
    then have "protects s k u" by (simp add: protects_def)
    note P = sched [OF this]
    let ?b = "(u div kWheelTickS) mod length (a_wheel s)"
    have "?b < length (a_wheel s)" using w by simp
    then have "\<lparr>we_key = k, we_until = u\<rparr> \<in> set (a_wheel s' ! ?b)"
      using D P r unfolding ticks_done_def scheduled_def expired_def by fastforce
    then show ?thesis using P late [OF p] f w' by (simp add: scheduled_def)
  qed
  ultimately show ?thesis using f(1) by (simp add: retain_inv_def)
qed

lemma ExpireRetention_ok:
  assumes inv: "slab_inv s" and ret: "retain_inv s" and now: "now \<le> UINT32_MAX"
  shows "expire_done now s (snd (ExpireRetention now s))"
proof -
  define t where "t = set_now now s"
  have t: "slab_inv t" "retain_inv t" "residents t = residents s" "a_retain t = a_retain s" "a_opt t = a_opt s"
    "a_retain_now_s t = max now (a_retain_now_s s)"
    using inv set_now_inv [OF ret now] unfolding t_def by (simp_all split: if_split)
  define target where "target = (if a_retain_now_s t div kWheelTickS = 0 then 0 else a_retain_now_s t div kWheelTickS - 1)"
  have c: "clock_ok t" "wheel_pos t" "a_wheel t \<noteq> [] \<Longrightarrow> Suc target = a_retain_now_s t div kWheelTickS"
    using t(2) tick_bounds [of "a_retain_now_s t"] by (auto simp: retain_inv_def target_def clock_ok_def)
  have eq: "ExpireRetention now s = (if a_wheel t = [] then (0, t) else if target \<le> a_wheel_tick t then (0, t)
      else (let t1 = (if target - a_wheel_tick t > length (a_wheel t) then t\<lparr>a_wheel_tick := target - length (a_wheel t)\<rparr> else t)
            in expire_ticks (target - a_wheel_tick t1) (a_retain_now_s t) 0 t1))"
    unfolding ExpireRetention_def t_def [symmetric] Let_def [of t] Let_def [of "a_retain_now_s t"] target_def [symmetric] Let_def [of target] ..
  have quiet: "expire_done now s t" if q: "\<And>k u. protects t k u \<Longrightarrow> a_wheel t \<noteq> [] \<and> target < u div kWheelTickS"
  proof -
    have "a_retain_now_s t div kWheelTickS \<le> u div kWheelTickS" if "protects t k u" for k u
      using q [OF that] c(3) by (simp add: Suc_le_eq [symmetric])
    then show ?thesis using t unfolding expire_done_def by (intro conjI exI [of _ "{}"]) auto
  qed
  show ?thesis
  proof (cases "a_wheel t = [] \<or> target \<le> a_wheel_tick t")
    case True
    then have "expire_done now s t"
      by (intro quiet) (use protects_upto [OF _ t(2)] in \<open>auto simp: scheduled_def dest: le_less_trans\<close>)
    then show ?thesis using True by (auto simp: eq)
  next
    case False
    note c = c(1,2) c(3) [OF False [unfolded de_Morgan_disj, THEN conjunct1]]
    define t1 where "t1 = (if target - a_wheel_tick t > length (a_wheel t) then t\<lparr>a_wheel_tick := target - length (a_wheel t)\<rparr> else t)"
    have t1: "slab_inv t1" "wheel_pos t1" "a_wheel t1 = a_wheel t" "residents t1 = residents t" "a_retain_now_s t1 = a_retain_now_s t"
      "a_retain t1 = a_retain t" "a_opt t1 = a_opt t" using t(1) c(2) by (auto simp: t1_def wheel_pos_def)
    let ?n = "target - a_wheel_tick t1"
    have tick: "a_wheel_tick t1 + ?n = target" using False by (auto simp: t1_def)
    obtain m s' where E: "expire_ticks ?n (a_retain_now_s t) 0 t1 = (m, s')" by fastforce
    then have s': "snd (ExpireRetention now s) = s'" using False unfolding eq t1_def [symmetric] Let_def [of t1] by simp
    have D: "ticks_done (a_retain_now_s t) ?n t1 s'" using expire_ticks_ok [OF t1(1,2) _ E] False t1(3) by simp
    have P: "protects t k u" if "protects s' k u" for k u
      using that D t1(4) by (auto simp: ticks_done_def protects_def expire_map_def split: option.splits if_splits)
    have late: "target < u div kWheelTickS" if p: "protects s' k u" for k u
    proof (rule ccontr)
      assume "\<not> target < u div kWheelTickS"
      then have u: "u div kWheelTickS \<le> target" by simp
      have "u < Suc target * kWheelTickS" using u by (simp add: kWheelTickS_def)
      also have "\<dots> \<le> a_retain_now_s t" unfolding c(3) by simp
      finally have due: "u \<le> a_retain_now_s t" by simp
      note Q = protects_upto [OF P [OF p] t(2)]
      have "\<exists>j\<in>{a_wheel_tick t1<..target}. j mod length (a_wheel t) = (u div kWheelTickS) mod length (a_wheel t)"
      proof (cases "target - a_wheel_tick t > length (a_wheel t)")
        case True
        then have "{a_wheel_tick t1<..target} = {a_wheel_tick t1<..a_wheel_tick t1 + length (a_wheel t)}" by (auto simp: t1_def)
        then show ?thesis using mod_interval_all [of "(u div kWheelTickS) mod length (a_wheel t)" "length (a_wheel t)" "a_wheel_tick t1"] False by simp
      next
        case False
        then show ?thesis using Q u by (intro bexI [of _ "u div kWheelTickS"]) (auto simp: t1_def)
      qed
      then obtain j where j: "j \<in> {a_wheel_tick t1<..target}" "j mod length (a_wheel t1) = (u div kWheelTickS) mod length (a_wheel t)"
        using t1(3) by auto
      then have "\<lparr>we_key = k, we_until = u\<rparr> \<in> visited t1 ?n" using Q t1(3) unfolding visited_def tick scheduled_def
        by (intro UN_I [OF j(1)]) (simp only: j(2))
      then show False using p D due t1(4) by (auto simp: ticks_done_def protects_def expire_map_def expired_def split: option.splits if_splits)
    qed
    have "retain_inv s'"
    proof (rule ticks_retain_inv)
      show "ticks_done (a_retain_now_s t1) ?n t1 s'" using D t1(5) by simp
      show "u \<le> UINT32_MAX \<and> scheduled t1 k u" if "protects t1 k u" for k u
        using protects_upto [OF _ t(2), of k u] that t1(3,4) by (simp add: protects_def scheduled_def)
    qed (use False t1(3,5) c late tick in \<open>auto simp: clock_ok_def\<close>)
    moreover have "slab_inv s'" "a_retain s' = a_retain s" "a_opt s' = a_opt s" "a_retain_now_s s' = a_retain_now_s t"
      "residents s' = expire_map (a_retain_now_s t) (visited t1 ?n) (residents s)" using D t1 t by (simp_all add: ticks_done_def)
    moreover have "a_retain_now_s t div kWheelTickS \<le> u div kWheelTickS" if "protects s' k u" for k u
      using late [OF that] c(3) by linarith
    ultimately show ?thesis using t(6) unfolding s' expire_done_def by auto
  qed
qed

end
