(* ===== verification/Slab_Restore.thy ===== *)
theory Slab_Restore
  imports Slab_Retain
begin

text \<open>
  Rebuilding the allocator from persisted placements: \<^verbatim>\<open>RestoreBulk\<close> validates the whole batch
  before it changes anything. A batch that passes is restored completely, so the call either
  leaves the allocator as it was or adds exactly the listed residents at the listed slots.
\<close>

subsection \<open>One placement\<close>

text \<open>The slot of a batch entry can be taken: its extent is unbound, or bound to its class with the slot free.\<close>

definition takeable :: "'w SlabAllocator \<Rightarrow> nat \<Rightarrow> nat \<Rightarrow> nat \<Rightarrow> bool" where
  "takeable s c e x \<longleftrightarrow> c < length (a_classes s) \<and> e < length (a_extents s) \<and> x < c_slots_per_extent (a_classes s ! c) \<and>
     (case e_cls (a_extents s ! e) of None \<Rightarrow> True | Some d \<Rightarrow> d = c \<and> x \<in> frees (a_classes s ! c) e)"

definition prepare :: "nat \<Rightarrow> nat \<Rightarrow> 'w SlabAllocator \<Rightarrow> 'w SlabAllocator" where
  "prepare c e s = (if e_cls (a_extents s ! e) = None then bind_extent c e s else s)"

lemma prepare_ok:
  assumes inv: "inv_moving s {}" and t: "takeable s c e x"
  shows "inv_moving (prepare c e s) {}" "residents (prepare c e s) = residents s" "stable s (prepare c e s)"
    "x \<in> frees (a_classes (prepare c e s) ! c) e" "a_index (prepare c e s) = a_index s"
    "\<And>c' e' x'. takeable s c' e' x' \<Longrightarrow> (e' = e \<Longrightarrow> c' = c) \<Longrightarrow> takeable (prepare c e s) c' e' x'"
proof -
  have c: "c < length (a_classes s)" "e < length (a_extents s)" "x < c_slots_per_extent (a_classes s ! c)" using t by (auto simp: takeable_def)
  have "inv_moving (prepare c e s) {} \<and> residents (prepare c e s) = residents s \<and> stable s (prepare c e s) \<and>
    x \<in> frees (a_classes (prepare c e s) ! c) e \<and> a_index (prepare c e s) = a_index s \<and>
    (\<forall>c' e' x'. takeable s c' e' x' \<longrightarrow> (e' = e \<longrightarrow> c' = c) \<longrightarrow> takeable (prepare c e s) c' e' x')"
  proof (cases "e_cls (a_extents s ! e)")
    case None
    note B = bind_moving [OF inv c(2) None c(1)]
    have spe: "c_slots_per_extent (a_classes (bind_extent c e s) ! d) = c_slots_per_extent (a_classes s ! d)" for d
      by (simp add: bind_extent_def Let_def nth_upd)
    have cls: "e_cls (a_extents (bind_extent c e s) ! f) = (if f = e then Some c else e_cls (a_extents s ! f))" if "f < length (a_extents s)" for f
      using that by (simp add: bind_extent_def Let_def nth_list_update)
    have T: "takeable (bind_extent c e s) c' e' x'" if p: "takeable s c' e' x'" "e' = e \<longrightarrow> c' = c" for c' e' x'
    proof -
      have l: "c' < length (a_classes s)" "e' < length (a_extents s)" "x' < c_slots_per_extent (a_classes s ! c')" using p(1) by (auto simp: takeable_def)
      have "e' \<noteq> e \<Longrightarrow> frees (a_classes (bind_extent c e s) ! c') e' = frees (a_classes s ! c') e'"
        using B(3,4) by (cases "c' = c") auto
      then show ?thesis using p l B(3) cls [OF l(2)] spe by (cases "e' = e") (auto simp: takeable_def split: option.splits)
    qed
    show ?thesis using B(1-3) None c(3) stable_bind T by (simp add: prepare_def)
  next
    case (Some d)
    then show ?thesis using inv t by (auto simp: prepare_def takeable_def)
  qed
  then show "inv_moving (prepare c e s) {}" "residents (prepare c e s) = residents s" "stable s (prepare c e s)"
    "x \<in> frees (a_classes (prepare c e s) ! c) e" "a_index (prepare c e s) = a_index s"
    "\<And>c' e' x'. takeable s c' e' x' \<Longrightarrow> (e' = e \<Longrightarrow> c' = c) \<Longrightarrow> takeable (prepare c e s) c' e' x'" by blast+
qed

lemma take_ok:
  assumes inv: "inv_moving s {}" and c: "c < length (a_classes s)" and x: "x \<in> frees (a_classes s ! c) e"
  obtains C where "TakeFreeSlotLocked e x (a_classes s ! c) = (True, C)" "inv_moving (upd_class c (\<lambda>_. C) s) {(e, x)}"
    "e < length (a_extents s)" "e_cls (a_extents s ! e) = Some c" "residents (upd_class c (\<lambda>_. C) s) = residents s"
    "stable s (upd_class c (\<lambda>_. C) s)"
    "\<And>c' e' x'. takeable s c' e' x' \<Longrightarrow> (e', x') \<noteq> (e, x) \<Longrightarrow> takeable (upd_class c (\<lambda>_. C) s) c' e' x'"
proof -
  have "pools_ok (a_classes s) (a_extents s)" using inv by (simp add: inv_moving_def inv_at_def)
  then have "pool_ok (a_classes s ! c)" using c pools_okD(1) by blast
  then obtain C where C: "TakeFreeSlotLocked e x (a_classes s ! c) = (True, C)" "pool_ok C"
    "frees C = (frees (a_classes s ! c))(e := frees (a_classes s ! c) e - {x})" using take_pool [OF _ x] by blast
  note B = take_class_books [OF C(1)]
  note M = take_moving [OF inv c x C(2,3) B]
  have "c_slots_per_extent C = c_slots_per_extent (a_classes s ! c)" using B(1) by (simp add: same_class_books_def)
  then have "takeable (upd_class c (\<lambda>_. C) s) c' e' x'" if "takeable s c' e' x'" "(e', x') \<noteq> (e, x)" for c' e' x'
    using that c C(3) by (auto simp: takeable_def nth_upd split: option.splits)
  then show ?thesis using that C(1) M by blast
qed

subsection \<open>The persisted protection\<close>

definition restored :: "'w SlabAllocator \<Rightarrow> RestoreEntry \<Rightarrow> resident \<Rightarrow> resident" where
  "restored s entry r =
     (let ttl = min (re_retain_ttl_s entry) (ro_max_ttl_s (a_retain s))
      in if \<not> ro_enabled (a_retain s) then r
         else if re_retain_until entry > a_retain_now_s s \<and> re_retain_ttl_s entry \<noteq> 0
         then r\<lparr>r_until := min (re_retain_until entry) (a_retain_now_s s + ttl), r_ttl := ttl\<rparr>
         else r\<lparr>r_ttl := ttl\<rparr>)"

lemma takeable_cong:
  assumes "length (a_classes t) = length (a_classes s)" "length (a_extents t) = length (a_extents s)"
    "\<And>c. frees (a_classes t ! c) = frees (a_classes s ! c) \<and> c_slots_per_extent (a_classes t ! c) = c_slots_per_extent (a_classes s ! c)"
    "\<And>e. e_cls (a_extents t ! e) = e_cls (a_extents s ! e)"
  shows "takeable t = takeable s"
  by (intro ext) (simp add: takeable_def assms split: option.split)

definition same_setup :: "'w SlabAllocator \<Rightarrow> 'w SlabAllocator \<Rightarrow> bool" where
  "same_setup s s' \<longleftrightarrow> a_opt s' = a_opt s \<and> a_retain s' = a_retain s \<and> a_retain_now_s s' = a_retain_now_s s \<and>
     length (a_classes s') = length (a_classes s) \<and> length (a_extents s') = length (a_extents s) \<and>
     (\<forall>c. c_slot_size (a_classes s' ! c) = c_slot_size (a_classes s ! c))"

lemma same_setup_stable: "stable s s' \<Longrightarrow> same_setup s s'"
  by (simp add: stable_def same_setup_def)

lemma same_setup_trans: "same_setup s t \<Longrightarrow> same_setup t u \<Longrightarrow> same_setup s u"
  by (simp add: same_setup_def)

lemma restore_retention_ok:
  assumes inv: "slab_inv s" and ret: "retain_inv s" and i: "Find (a_index s) k = Some i" and u0: "m_retain_until (a_slots s ! i) = 0"
    and k: "re_key entry = k" and ty: "re_retain_until entry \<le> UINT32_MAX" and en: "ro_enabled (a_retain s) \<Longrightarrow> 0 < ro_max_ttl_s (a_retain s)"
  defines "s' \<equiv> restore_retention entry i s"
  shows "slab_inv s' \<and> retain_inv s' \<and> same_setup s s' \<and> takeable s' = takeable s \<and>
    residents s' = (residents s)(k \<mapsto> restored s entry (abs_meta (a_slots s ! i)))"
proof -
  note R = resident_entry [OF inv i]
  have s: "inv_moving s {}" using inv by (simp add: slab_inv_def)
  define ttl where "ttl = min (re_retain_ttl_s entry) (ro_max_ttl_s (a_retain s))"
  consider (off) "\<not> ro_enabled (a_retain s)"
    | (on) "ro_enabled (a_retain s)" "re_retain_until entry > a_retain_now_s s" "re_retain_ttl_s entry \<noteq> 0"
    | (past) "ro_enabled (a_retain s)" "\<not> (re_retain_until entry > a_retain_now_s s \<and> re_retain_ttl_s entry \<noteq> 0)" by blast
  then show ?thesis
  proof cases
    case off
    then show ?thesis using inv ret R(4) by (simp add: s'_def restore_retention_def restored_def same_setup_def fun_upd_idem)
  next
    case past
    let ?f = "\<lambda>m. m\<lparr>m_retain_ttl_s := ttl\<rparr>"
    have e: "s' = upd_slot i ?f s" unfolding s'_def restore_retention_def ttl_def if_not_P [OF past(2)] using past(1) by simp
    have "quiet ?f" by (simp add: quiet_def same_links_def)
    then have "slab_inv s'" using inv_moving_quiet(1) [OF s] by (simp add: e slab_inv_def)
    moreover have res: "residents s' = (residents s)(k \<mapsto> (abs_meta (a_slots s ! i))\<lparr>r_ttl := ttl\<rparr>)"
    proof
      fix k'
      have "Find (a_index s) k' \<noteq> Some i" if "k' \<noteq> k" using that R(2) inv_moving_index(2) [OF s, of k' i] by auto
      then show "residents s' k' = ((residents s)(k \<mapsto> (abs_meta (a_slots s ! i))\<lparr>r_ttl := ttl\<rparr>)) k'"
        using i R(3) by (cases "Find (a_index s) k'") (auto simp: residents_def e abs_meta_def)
    qed
    moreover have st: "stable s s'" by (simp add: e stable_def)
    moreover have "retain_inv s'" using R(4) u0
      by (intro retain_inv_stable [OF ret st]) (auto simp: protects_def res abs_meta_def split: if_splits)
    moreover have "takeable s' = takeable s" by (rule takeable_cong) (simp_all add: e)
    ultimately show ?thesis using past same_setup_stable by (auto simp: restored_def ttl_def Let_def)
  next
    case on
    define u where "u = min (re_retain_until entry) (a_retain_now_s s + ttl)"
    have w: "a_wheel s \<noteq> []" using ret on(1) by (simp add: retain_inv_def clock_ok_def)
    have u: "a_retain_now_s s \<le> u" "u \<le> UINT32_MAX" "u \<noteq> 0" "u mod 2 ^ 32 = u"
      using on ty en by (auto simp: u_def ttl_def UINT32_MAX_def)
    let ?f = "\<lambda>m. m\<lparr>m_retain_persisted_until := u\<rparr>" and ?g = "granted i ttl u s"
    let ?h = "\<lambda>m. m\<lparr>m_retain_ttl_s := ttl, m_retain_until := u, m_retain_persisted_until := u\<rparr>"
    let ?p = "PushWheelLocked k u (ProtectLocked i s)"
    have e: "s' = upd_slot i ?f ?g"
    proof -
      have sl: "upd_nth (upd_nth (upd_nth xs i (\<lambda>m. m\<lparr>m_retain_ttl_s := ttl\<rparr>)) i (\<lambda>m. m\<lparr>m_retain_until := u\<rparr>)) i ?f = upd_nth xs i ?h" for xs
        by (rule nth_equalityI) (auto simp: nth_upd)
      have "s' = PushWheelLocked k u (ProtectLocked i (upd_slot i ?h s))"
        using on u(4) unfolding s'_def restore_retention_def ttl_def [symmetric] Let_def [of ttl] u_def [symmetric] by (simp add: k)
      also have "\<dots> = upd_slot i ?h ?p" by (simp add: ProtectLocked_def PushWheelLocked_def Let_def R(3))
      also have "?g = upd_slot i (\<lambda>m. m\<lparr>m_retain_until := u\<rparr>) (upd_slot i (\<lambda>m. m\<lparr>m_retain_ttl_s := ttl\<rparr>) ?p)"
        using u0 R(2) by (simp add: granted_def ProtectLocked_def PushWheelLocked_def Let_def)
      then have "upd_slot i ?h ?p = upd_slot i ?f ?g" by (simp add: sl)
      finally show ?thesis .
    qed
    have q: "quiet ?f" "\<And>m. m_retain_ttl_s (?f m) = m_retain_ttl_s m" by (simp_all add: quiet_def same_links_def)
    have "slab_inv s'" using inv_moving_quiet(1) [OF granted_inv [OF s R(1) u(3)] q(1)] by (simp add: slab_inv_def e)
    moreover have "retain_inv s'" unfolding e by (rule granted_retain_inv [OF inv ret i w u(1-3) q])
    moreover have "residents s' = (residents s)(k \<mapsto> (abs_meta (a_slots s ! i))\<lparr>r_until := u, r_ttl := ttl\<rparr>)"
      unfolding e by (rule trans [OF residents_quiet [OF q] granted_residents [OF inv i]])
    moreover have "same_setup s s'" "takeable s' = takeable s" unfolding e
      by (auto simp: same_setup_def granted_def ProtectLocked_def PushWheelLocked_def Let_def nth_upd intro!: takeable_cong)
    ultimately show ?thesis using on by (simp add: restored_def ttl_def u_def Let_def)
  qed
qed

subsection \<open>One entry\<close>

abbreviation re_class :: "'w SlabAllocator \<Rightarrow> RestoreEntry \<Rightarrow> nat" where
  "re_class s entry \<equiv> ClassForExactSize s (re_slot_size entry)"

definition re_ready :: "'w SlabAllocator \<Rightarrow> RestoreEntry \<Rightarrow> bool" where
  "re_ready s entry \<longleftrightarrow> takeable s (re_class s entry) (re_extent entry) (re_slot entry) \<and>
     c_slot_size (a_classes s ! re_class s entry) = re_slot_size entry \<and> re_value_bytes entry \<le> re_slot_size entry \<and>
     residents s (re_key entry) = None"

text \<open>The resident an entry stands for.\<close>

definition re_resident :: "'w SlabAllocator \<Rightarrow> RestoreEntry \<Rightarrow> resident" where
  "re_resident s entry = restored s entry
     (fresh_resident (place s (re_class s entry) (re_extent entry) (re_slot entry)) (re_value_bytes entry))"

lemma enroll_takeable: "takeable (enroll i s) = takeable s"
  by (rule takeable_cong) (simp_all add: enroll_def Let_def link_resident_state(2,3) nth_upd)

lemma find_class_cong: "map c_slot_size cs' = map c_slot_size cs \<Longrightarrow> find_class cs' z n = find_class cs z n"
proof (induction cs arbitrary: cs' n)
  case (Cons C cs)
  then obtain D ds where "cs' = D # ds" "c_slot_size D = c_slot_size C" "map c_slot_size ds = map c_slot_size cs" by (cases cs') auto
  with Cons.IH [of ds "n + 1"] show ?case by simp
qed simp

lemma same_setup_class:
  assumes "same_setup s s'"
  shows "ClassForExactSize s' z = ClassForExactSize s z" "place s' c e x = place s c e x" "restored s' entry r = restored s entry r"
proof -
  have "map c_slot_size (a_classes s') = map c_slot_size (a_classes s)" using assms by (intro nth_equalityI) (auto simp: same_setup_def)
  then show "ClassForExactSize s' z = ClassForExactSize s z" unfolding ClassForExactSize_def by (rule find_class_cong)
  show "place s' c e x = place s c e x" "restored s' entry r = restored s entry r"
    using assms by (simp_all add: place_def restored_def same_setup_def Let_def)
qed

lemma acquire_frame:
  assumes "AcquireSlotMetaLocked s = (i, s1)"
  shows "a_classes s1 = a_classes s" "a_extents s1 = a_extents s" "a_put_seq s1 = a_put_seq s"
  using assms by (auto simp: AcquireSlotMetaLocked_def Let_def split: if_splits)

lemma restore_resident_ok:
  assumes inv: "inv_moving s {(e, x)}" and e: "e < length (a_extents s)" "e_cls (a_extents s ! e) = Some c"
    and entry: "re_extent entry = e" "re_slot entry = x" "c_slot_size (a_classes s ! c) = re_slot_size entry"
      "re_value_bytes entry \<le> re_slot_size entry" "residents s (re_key entry) = None" "re_retain_until entry \<le> UINT32_MAX"
    and ret: "retain_inv s" and en: "ro_enabled (a_retain s) \<Longrightarrow> 0 < ro_max_ttl_s (a_retain s)"
    and r: "restore_resident entry c s = (ok, s')"
  shows "ok \<and> slab_inv s' \<and> retain_inv s' \<and> same_setup s s' \<and> takeable s' = takeable s \<and>
    residents s' = (residents s)(re_key entry \<mapsto> restored s entry (fresh_resident (place s c e x) (re_value_bytes entry)))"
proof -
  let ?n = "re_value_bytes entry" and ?k = "re_key entry"
  obtain i s1 where acq: "AcquireSlotMetaLocked s = (i, s1)" by fastforce
  define s2 where "s2 = (upd_slot i (\<lambda>m. m\<lparr>m_ref := place s c e x, m_useful_bytes := ?n, m_key := ?k, m_live := True\<rparr>) s1)\<lparr>a_put_seq := a_put_seq s1\<rparr>"
  obtain ins ix where ix: "Insert (a_index s2) ?k i = (ins, ix)" by fastforce
  define t where "t = enroll i (s2\<lparr>a_index := ix\<rparr>)"
  have n: "?n \<le> c_slot_size (a_classes s ! c)" using entry by simp
  note A = admit_ok [OF inv _ e entry(5) n acq s2_def ix, folded t_def, simplified]
  have s2: "s2 = upd_slot i (\<lambda>m. m\<lparr>m_ref := place s c e x, m_useful_bytes := ?n, m_key := ?k, m_live := True\<rparr>) s1" by (simp add: s2_def)
  have m: "m_ref (a_slots s2 ! i) = place s c e x" "m_useful_bytes (a_slots s2 ! i) = ?n"
    using A(5) by (simp_all add: t_def s2_def)
  have pl: "\<lparr>ref_cls = c, ref_extent = re_extent entry, ref_slot = re_slot entry, ref_slot_size = re_slot_size entry,
      ref_offset = re_slot entry * re_slot_size entry\<rparr> = place s c e x" using entry by (simp add: place_def)
  have t6: "t = (upd_class c (\<lambda>C. C\<lparr>c_useful_bytes := c_useful_bytes C + ?n\<rparr>)
      (upd_extent e (\<lambda>E. E\<lparr>e_free_slots := e_free_slots E - 1, e_useful_bytes := e_useful_bytes E + ?n\<rparr>)
        (LinkResidentLocked i (s2\<lparr>a_index := ix\<rparr>))))\<lparr>a_used_bytes := a_used_bytes (LinkResidentLocked i (s2\<lparr>a_index := ix\<rparr>)) + re_slot_size entry\<rparr>"
    using m entry by (simp add: t_def enroll_def Let_def place_def)
  have rr: "restore_resident entry c s = (True, restore_retention entry i t)"
    unfolding restore_resident_def acq Let_def [of "re_slot_size entry"] Let_def [of "(i, s1)"] prod.case
    unfolding pl Let_def [of "place s c e x"] unfolding s2 [symmetric] Let_def [of s2] unfolding ix
    using A(1) by (simp add: t6 Let_def entry)
  have ti: "slab_inv t" using A(2) by (simp add: slab_inv_def)
  have st: "stable s t" by (fact A(7))
  have ab: "abs_meta (a_slots t ! i) = fresh_resident (place s c e x) ?n"
    using resident_entry(4) [OF ti A(11)] A(6) by simp
  then have u0: "m_retain_until (a_slots t ! i) = 0" by (simp add: abs_meta_def fresh_resident_def)
  have rt: "retain_inv t"
    by (rule retain_inv_stable [OF ret st]) (auto simp: protects_def A(6) fresh_resident_def split: if_splits)
  have tk: "takeable t = takeable s"
    unfolding t_def enroll_takeable using acquire_frame [OF acq] by (intro takeable_cong) (simp_all add: s2_def)
  have "ro_enabled (a_retain t) \<Longrightarrow> 0 < ro_max_ttl_s (a_retain t)" using st en by (simp add: stable_def)
  note K = restore_retention_ok [OF ti rt A(11) u0 refl entry(6) this]
  have ss: "same_setup s t" by (rule same_setup_stable [OF st])
  show ?thesis using K r unfolding rr using tk ab A(6) same_setup_trans [OF ss] same_setup_class(3) [OF ss] by auto
qed

lemma restore_one_ok:
  assumes inv: "slab_inv s" and ret: "retain_inv s" and en: "ro_enabled (a_retain s) \<Longrightarrow> 0 < ro_max_ttl_s (a_retain s)"
    and rd: "re_ready s entry" and ty: "re_retain_until entry \<le> UINT32_MAX" and r: "restore_one entry s = (ok, s')"
  shows "ok" "slab_inv s'" "retain_inv s'" "same_setup s s'" "residents s' = (residents s)(re_key entry \<mapsto> re_resident s entry)"
    "\<And>other. re_ready s other \<Longrightarrow> re_key other \<noteq> re_key entry \<Longrightarrow> (re_extent other, re_slot other) \<noteq> (re_extent entry, re_slot entry) \<Longrightarrow>
       (re_extent other = re_extent entry \<Longrightarrow> re_slot_size other = re_slot_size entry) \<Longrightarrow> re_ready s' other"
proof -
  let ?c = "re_class s entry" and ?e = "re_extent entry" and ?x = "re_slot entry"
  have s: "inv_moving s {}" using inv by (simp add: slab_inv_def)
  have tk: "takeable s ?c ?e ?x" and sz: "c_slot_size (a_classes s ! ?c) = re_slot_size entry"
    and vb: "re_value_bytes entry \<le> re_slot_size entry" and k: "residents s (re_key entry) = None" using rd by (auto simp: re_ready_def)
  have c: "?c < length (a_classes s)" "?e < length (a_extents s)" "c_slots_per_extent (a_classes s ! ?c) \<noteq> 0" using tk by (auto simp: takeable_def)
  note P = prepare_ok [OF s tk]
  define p where "p = prepare ?c ?e s"
  have pc: "?c < length (a_classes p)" using P(3) c by (simp add: p_def stable_def)
  obtain C where C: "TakeFreeSlotLocked ?e ?x (a_classes p ! ?c) = (True, C)" "inv_moving (upd_class ?c (\<lambda>_. C) p) {(?e, ?x)}"
    "?e < length (a_extents p)" "e_cls (a_extents p ! ?e) = Some ?c" "residents (upd_class ?c (\<lambda>_. C) p) = residents p"
    "stable p (upd_class ?c (\<lambda>_. C) p)"
    "\<And>c' e' x'. takeable p c' e' x' \<Longrightarrow> (e', x') \<noteq> (?e, ?x) \<Longrightarrow> takeable (upd_class ?c (\<lambda>_. C) p) c' e' x'"
    using take_ok [OF P(1) _ P(4)] pc unfolding p_def by blast
  let ?q = "upd_class ?c (\<lambda>_. C) p"
  have st: "stable s ?q" using stable_trans [OF P(3)] C(6) by (simp add: p_def)
  have "restore_one entry s = restore_resident entry ?c ?q"
    using C(1) c tk by (auto simp: restore_one_def BindExtentLocked_def prepare_def p_def takeable_def Let_def)
  with r have rr: "restore_resident entry ?c ?q = (ok, s')" by simp
  have qr: "residents ?q = residents s" using C(5) P(2) by (simp add: p_def)
  have rq: "retain_inv ?q" by (rule retain_inv_stable [OF ret st]) (simp only: protects_residents [OF qr])
  have qs: "c_slot_size (a_classes ?q ! ?c) = re_slot_size entry" "a_retain ?q = a_retain s" using st sz by (simp_all add: stable_def)
  have K: "ok \<and> slab_inv s' \<and> retain_inv s' \<and> same_setup ?q s' \<and> takeable s' = takeable ?q \<and>
    residents s' = (residents ?q)(re_key entry \<mapsto> restored ?q entry (fresh_resident (place ?q ?c ?e ?x) (re_value_bytes entry)))"
    by (rule restore_resident_ok [OF C(2) _ _ refl refl qs(1) vb _ ty rq _ rr]) (use C(3,4) qr k en qs(2) in simp_all)
  note ss = same_setup_stable [OF st]
  show "ok" "slab_inv s'" "retain_inv s'" using K by auto
  show ss': "same_setup s s'" using K same_setup_trans [OF ss] by blast
  show res: "residents s' = (residents s)(re_key entry \<mapsto> re_resident s entry)"
    using K same_setup_class [OF ss] P(2) by (simp add: re_resident_def p_def)
  fix other assume o: "re_ready s other" "re_key other \<noteq> re_key entry" "(re_extent other, re_slot other) \<noteq> (?e, ?x)"
    "re_extent other = ?e \<Longrightarrow> re_slot_size other = re_slot_size entry"
  have "takeable s (re_class s other) (re_extent other) (re_slot other)" using o(1) by (simp add: re_ready_def)
  then have "takeable s' (re_class s other) (re_extent other) (re_slot other)"
    using P(6) C(7) o(3,4) K unfolding p_def by (metis (no_types, lifting))
  then show "re_ready s' other" using o(1,2) ss' by (simp add: re_ready_def same_setup_class [OF ss'] res same_setup_def)
qed

subsection \<open>A batch\<close>

definition re_compatible :: "RestoreEntry list \<Rightarrow> bool" where
  "re_compatible es \<longleftrightarrow> distinct (map re_key es) \<and> distinct (map (\<lambda>e. (re_extent e, re_slot e)) es) \<and>
     (\<forall>a\<in>set es. \<forall>b\<in>set es. re_extent a = re_extent b \<longrightarrow> re_slot_size a = re_slot_size b)"

definition re_map :: "'w SlabAllocator \<Rightarrow> RestoreEntry list \<Rightarrow> BlockKey \<rightharpoonup> resident" where
  "re_map s es = map_of (map (\<lambda>e. (re_key e, re_resident s e)) es)"

lemma restore_all_ok:
  assumes "slab_inv s" "retain_inv s" "ro_enabled (a_retain s) \<Longrightarrow> 0 < ro_max_ttl_s (a_retain s)"
    "\<forall>e\<in>set es. re_ready s e" "\<forall>e\<in>set es. re_retain_until e \<le> UINT32_MAX" "re_compatible es" "restore_all es s = (ok, s')"
  shows "ok \<and> slab_inv s' \<and> retain_inv s' \<and> same_setup s s' \<and> residents s' = residents s ++ re_map s es"
  using assms
proof (induction es arbitrary: s)
  case Nil
  then show ?case by (simp add: same_setup_def re_map_def)
next
  case (Cons a es)
  obtain ok1 s1 where a: "restore_one a s = (ok1, s1)" by fastforce
  note O = restore_one_ok [OF Cons.prems(1,2,3) _ _ a]
  have rd: "re_ready s a" "re_retain_until a \<le> UINT32_MAX" using Cons.prems(4,5) by auto
  note O = O [OF _ rd]
  have rest: "\<forall>e\<in>set es. re_ready s1 e"
  proof
    fix e assume e: "e \<in> set es"
    note D = Cons.prems(6) [unfolded re_compatible_def]
    have "re_key a \<notin> re_key ` set es" "(re_extent a, re_slot a) \<notin> (\<lambda>e. (re_extent e, re_slot e)) ` set es"
      using D [THEN conjunct1] D [THEN conjunct2, THEN conjunct1] by simp_all
    moreover have "re_extent e = re_extent a \<Longrightarrow> re_slot_size e = re_slot_size a"
      using D [THEN conjunct2, THEN conjunct2] e by (meson list.set_intros)
    moreover from calculation(1,2) have "re_key e \<noteq> re_key a" "(re_extent e, re_slot e) \<noteq> (re_extent a, re_slot a)"
      using imageI [OF e, of re_key] imageI [OF e, of "\<lambda>e. (re_extent e, re_slot e)"] by fastforce+
    moreover have "re_ready s e" using Cons.prems(4) e by simp
    ultimately show "re_ready s1 e" using O(6) by blast
  qed
  have ra: "restore_all es s1 = (ok, s')" using Cons.prems(7) a O(1) by simp
  have en: "ro_enabled (a_retain s1) \<Longrightarrow> 0 < ro_max_ttl_s (a_retain s1)" using O(4) Cons.prems(3) by (simp add: same_setup_def)
  have I: "ok \<and> slab_inv s' \<and> retain_inv s' \<and> same_setup s1 s' \<and> residents s' = residents s1 ++ re_map s1 es"
  proof (rule Cons.IH [OF O(2,3) en rest _ _ ra])
    show "\<forall>e\<in>set es. re_retain_until e \<le> UINT32_MAX" using Cons.prems(5) by simp
    show "re_compatible es" using Cons.prems(6) unfolding re_compatible_def
      by (simp only: list.map distinct.simps) (meson list.set_intros(2))
  qed
  have "re_map s1 es = re_map s es" unfolding re_map_def using same_setup_class [OF O(4)] by (simp add: re_resident_def)
  moreover have "re_key a \<notin> dom (re_map s es)" using Cons.prems(6) [unfolded re_compatible_def, THEN conjunct1]
    by (simp add: re_map_def dom_map_of_conv_image_fst image_image)
  ultimately have "residents s' = residents s ++ re_map s (a # es)"
    using I O(5) by (auto simp: re_map_def map_add_upd_left)
  then show ?case using I same_setup_trans [OF O(4)] by blast
qed

text \<open>What the validation loop establishes.\<close>

lemma sorted_adjacent_distinct:
  assumes "inj f" "sorted (map f xs)" "\<not> adjacent_find xs"
  shows "distinct xs"
  using assms(2,3)
proof (induction xs rule: adjacent_find.induct)
  case (1 x y ys)
  have d: "distinct (y # ys)" using 1 by simp
  have "f x \<noteq> f z" if "z \<in> set ys" for z
  proof -
    have "f x < f y" using 1(2,3) assms(1) by (auto simp: inj_eq le_less)
    moreover have "f y \<le> f z" using 1(2) that by auto
    ultimately show ?thesis by simp
  qed
  then show ?case using d 1(3) by auto
qed simp_all

lemma key_order_inj: "inj key_order"
  by (rule injI) (simp add: key_order_def)

definition check_entry :: "'w SlabAllocator \<Rightarrow> RestoreEntry \<Rightarrow> bool" where
  "check_entry s entry \<longleftrightarrow> re_slot_size entry \<noteq> 0 \<and> re_extent entry < length (a_extents s) \<and>
     re_value_bytes entry \<le> re_slot_size entry \<and> re_class s entry \<noteq> length (a_classes s) \<and>
     re_slot entry < o_extent_bytes (a_opt s) div re_slot_size entry \<and> Find (a_index s) (re_key entry) = None \<and>
     (\<forall>c. e_cls (a_extents s ! re_extent entry) = Some c \<longrightarrow> c_slot_size (a_classes s ! c) = re_slot_size entry \<and>
        re_slot entry \<in> frees (a_classes s ! c) (re_extent entry))"

abbreviation re_place :: "RestoreEntry \<Rightarrow> nat" where
  "re_place entry \<equiv> push_bit 32 (re_extent entry) OR re_slot entry"

lemma restore_check_Cons:
  assumes "restore_check s placements batch (a # es)"
  obtains b where "b = (if batch (re_extent a) = None then batch(re_extent a \<mapsto> re_slot_size a) else batch)"
    "restore_check s (insert (re_place a) placements) b es" "check_entry s a" "re_place a \<notin> placements" "b (re_extent a) = Some (re_slot_size a)"
proof -
  let ?b = "if batch (re_extent a) = None then batch(re_extent a \<mapsto> re_slot_size a) else batch"
  have "restore_check s (insert (re_place a) placements) ?b es \<and> check_entry s a \<and> re_place a \<notin> placements \<and> ?b (re_extent a) = Some (re_slot_size a)"
    using assms unfolding restore_check.simps Let_def
    by (auto simp: check_entry_def frees_def free_of_def not_le split: if_split_asm option.split_asm)
  then show ?thesis using that by blast
qed

lemma restore_check_sound:
  "restore_check s placements batch es \<Longrightarrow> (\<forall>e\<in>set es. check_entry s e) \<and> distinct (map re_place es) \<and>
     re_place ` set es \<inter> placements = {} \<and>
     (\<forall>a\<in>set es. \<forall>z. batch (re_extent a) = Some z \<longrightarrow> re_slot_size a = z) \<and>
     (\<forall>a\<in>set es. \<forall>b\<in>set es. re_extent a = re_extent b \<longrightarrow> re_slot_size a = re_slot_size b)"
proof (induction es arbitrary: placements batch)
  case (Cons a es)
  obtain b where b: "b = (if batch (re_extent a) = None then batch(re_extent a \<mapsto> re_slot_size a) else batch)"
    "restore_check s (insert (re_place a) placements) b es" "check_entry s a" "re_place a \<notin> placements" "b (re_extent a) = Some (re_slot_size a)"
    using restore_check_Cons [OF Cons.prems] by blast
  note I = Cons.IH [OF b(2)]
  have same: "re_slot_size e = re_slot_size a" if "e \<in> set es" "re_extent e = re_extent a" for e using I that b(5) by auto
  have old: "re_slot_size e = z" if "e \<in> set (a # es)" "batch (re_extent e) = Some z" for e z
  proof -
    have "b (re_extent e) = Some z" using that(2) b(1) by auto
    then show ?thesis using I that(1) b(5) by (metis option.inject set_ConsD)
  qed
  show ?case
  proof (intro conjI)
    show "\<forall>e\<in>set (a # es). check_entry s e" "distinct (map re_place (a # es))" "re_place ` set (a # es) \<inter> placements = {}"
      using I b(3,4) by auto
    show "\<forall>e\<in>set (a # es). \<forall>z. batch (re_extent e) = Some z \<longrightarrow> re_slot_size e = z" using old by blast
    show "\<forall>e\<in>set (a # es). \<forall>f\<in>set (a # es). re_extent e = re_extent f \<longrightarrow> re_slot_size e = re_slot_size f"
    proof (intro ballI impI)
      fix e f assume "e \<in> set (a # es)" "f \<in> set (a # es)" "re_extent e = re_extent f"
      then show "re_slot_size e = re_slot_size f" using same I by (metis set_ConsD)
    qed
  qed
qed simp

lemma check_entry_ready:
  assumes inv: "slab_inv s" and ch: "check_entry s entry"
  shows "re_ready s entry"
proof -
  let ?c = "re_class s entry"
  have s: "inv_moving s {}" using inv by (simp add: slab_inv_def)
  have g: "geometry (a_opt s) (a_classes s) (length (a_extents s))" and sp: "space_ok (a_slots s) (a_classes s) (a_extents s) (live_set (a_slots s)) {}"
    using s by (auto simp: inv_moving_def inv_at_def)
  have c: "?c < length (a_classes s)" "c_slot_size (a_classes s ! ?c) = re_slot_size entry"
    using ch find_class_props(2,3) [of "a_classes s" "re_slot_size entry" 0] by (auto simp: check_entry_def ClassForExactSize_def)
  note G = class_geometry [OF s c(1)]
  have x: "re_slot entry < c_slots_per_extent (a_classes s ! ?c)" using ch G(3) c(2) by (simp add: check_entry_def)
  have d: "d = ?c" if "e_cls (a_extents s ! re_extent entry) = Some d" for d
  proof -
    have "d < length (a_classes s)" using sp ch that by (auto simp: space_ok_def check_entry_def)
    moreover have "c_slot_size (a_classes s ! d) = c_slot_size (a_classes s ! ?c)" using ch that c(2) by (simp add: check_entry_def)
    ultimately show ?thesis using g c(1) by (auto simp: geometry_def distinct_conv_nth)
  qed
  have "Find (a_index s) (re_key entry) = None" using ch by (simp add: check_entry_def)
  then have "residents s (re_key entry) = None" by (simp add: residents_def)
  then show "re_ready s entry" using ch c x d by (auto simp: re_ready_def takeable_def check_entry_def split: option.split)
qed

lemma RestoreBulk_ok:
  assumes inv: "slab_inv s" and ret: "retain_inv s" and en: "ro_enabled (a_retain s) \<Longrightarrow> 0 < ro_max_ttl_s (a_retain s)"
    and ty: "\<forall>e\<in>set es. re_retain_until e \<le> UINT32_MAX" and r: "RestoreBulk es s = (ok, s')"
  shows "slab_inv s' \<and> retain_inv s' \<and> same_setup s s' \<and>
    ok = (restore_check s {} Map.empty es \<and> \<not> adjacent_find (sort_key key_order (map re_key es))) \<and>
    (if ok then distinct (map re_key es) \<and> residents s' = residents s ++ re_map s es \<and> dom (re_map s es) \<inter> dom (residents s) = {} else s' = s)"
proof -
  consider (empty) "es = []" | (bad) "es \<noteq> []" "\<not> (restore_check s {} Map.empty es \<and> \<not> adjacent_find (sort_key key_order (map re_key es)))"
    | (good) "es \<noteq> []" "restore_check s {} Map.empty es" "\<not> adjacent_find (sort_key key_order (map re_key es))" by blast
  then show ?thesis
  proof cases
    case empty
    then show ?thesis using inv ret r by (auto simp: RestoreBulk_def same_setup_def re_map_def)
  next
    case bad
    then show ?thesis using inv ret r by (auto simp: RestoreBulk_def same_setup_def split: if_splits)
  next
    case good
    note C = restore_check_sound [OF good(2)]
    have rd: "\<forall>e\<in>set es. re_ready s e" using C check_entry_ready [OF inv] by blast
    have dk: "distinct (map re_key es)"
      using sorted_adjacent_distinct [OF key_order_inj _ good(3)] by simp
    have dp: "distinct (map (\<lambda>e. (re_extent e, re_slot e)) es)"
    proof -
      have "distinct es" "inj_on re_place (set es)" using C by (simp_all add: distinct_map)
      moreover have "inj_on (\<lambda>e. (re_extent e, re_slot e)) (set es)"
        using \<open>inj_on re_place (set es)\<close> unfolding inj_on_def by (metis prod.inject)
      ultimately show ?thesis by (simp add: distinct_map)
    qed
    have comp: "re_compatible es" unfolding re_compatible_def using C dk dp by blast
    let ?t = "s\<lparr>a_index := Reserve (a_index s) (fi_size (a_index s) + length es)\<rparr>"
    have F: "Find (a_index ?t) = Find (a_index s)" "index_inv (a_index ?t)"
      using inv inv_moving_index(1) [of s "{}"] fki.find_reserve fki.inv_reserve by (auto simp: slab_inv_def)
    have t: "slab_inv ?t" "residents ?t = residents s" "same_setup s ?t"
      using inv F by (auto simp: slab_inv_def inv_moving_def inv_at_def index_ok_def residents_def same_setup_def)
    have "stable s ?t" by (simp add: stable_def)
    then have rt: "retain_inv ?t" by (rule retain_inv_stable [OF ret]) (simp only: protects_residents [OF t(2)])
    have rd': "\<forall>e\<in>set es. re_ready ?t e"
      using rd t(2) takeable_cong [of ?t s] by (simp add: re_ready_def same_setup_class [OF t(3)])
    have "restore_all es ?t = (ok, s')" using good r by (simp add: RestoreBulk_def)
    from restore_all_ok [OF t(1) rt _ rd' ty comp this]
    have K: "ok" "slab_inv s'" "retain_inv s'" "same_setup ?t s'" "residents s' = residents s ++ re_map ?t es" using en t(2) by auto
    have "re_map ?t es = re_map s es" using same_setup_class [OF t(3)] by (simp add: re_map_def re_resident_def)
    moreover have "dom (re_map s es) \<inter> dom (residents s) = {}" using rd by (auto simp: re_map_def dom_map_of_conv_image_fst re_ready_def)
    ultimately show ?thesis using K dk good same_setup_trans [OF t(3)] by auto
  qed
qed

end
