(* ===== verification/Slab_Machine.thy ===== *)
theory Slab_Machine
  imports Slab_Restore
begin

text \<open>
  The allocator as a state machine: every public operation that changes its state is one step. The
  constructor establishes the invariant, every step returns and keeps it, and every step refines a
  step of an abstract cache that only knows the resident keys: it evicts unpinned and unprotected
  residents, inserts, pins, unpins, removes, protects, expires and restores.
\<close>

subsection \<open>The constructor\<close>

lemma build_classes_geometry:
  assumes al: "0 < o_align opt" "0 < n" and cap: "n * (o_extent_bytes opt div o_align opt) < kNoSlot" and n: "n = o_num_extents opt"
  shows "geometry opt (build_classes opt (o_align opt)) n"
    "\<forall>C\<in>set (build_classes opt (o_align opt)). \<exists>z y. C = new_class z y"
proof -
  have "geometry opt (build_classes opt (o_align opt)) n \<and> (\<forall>C\<in>set (build_classes opt (o_align opt)). \<exists>z y. C = new_class z y)"
  proof (cases "o_align opt \<le> max_aligned opt")
    case True
    then have "on_chain opt (o_align opt)" using al by (simp add: on_chain_def)
    note L = build_classes_lattice [OF al(1) this]
    have one: "o_extent_bytes opt div o_align opt < 2 ^ 32"
      using cap al(2) le_less_trans [of "o_extent_bytes opt div o_align opt" "n * (o_extent_bytes opt div o_align opt)" kNoSlot]
      by (simp add: kNoSlot_def UINT32_MAX_def)
    have spe: "c_slots_per_extent C = o_extent_bytes opt div c_slot_size C" if "C \<in> set (build_classes opt (o_align opt))" for C
    proof -
      have C: "o_align opt \<le> c_slot_size C" "C = class_of_size opt (c_slot_size C)" using L that by auto
      have "o_extent_bytes opt div c_slot_size C \<le> o_extent_bytes opt div o_align opt" using C(1) al(1) by (rule div_le_mono2 [rotated])
      then have "(o_extent_bytes opt div c_slot_size C) mod 2 ^ 32 = o_extent_bytes opt div c_slot_size C" using one by simp
      then show ?thesis by (subst C(2)) (simp add: class_of_size_def new_class_def)
    qed
    have "distinct (map c_slot_size (build_classes opt (o_align opt)))" using L strict_sorted_iff by blast
    moreover have "\<exists>z y. C = new_class z y" if "C \<in> set (build_classes opt (o_align opt))" for C
      using L that unfolding class_of_size_def by metis
    ultimately show ?thesis using L spe al cap n by (simp add: geometry_def)
  next
    case False
    then have "build_classes opt (o_align opt) = []" by (subst build_classes.simps) simp
    then show ?thesis using al cap n by (simp add: geometry_def)
  qed
  then show "geometry opt (build_classes opt (o_align opt)) n"
    "\<forall>C\<in>set (build_classes opt (o_align opt)). \<exists>z y. C = new_class z y" by auto
qed

definition fits_index :: "'w Options \<Rightarrow> bool" where
  "fits_index opt \<longleftrightarrow> o_num_extents (normalize_options opt) *
     (o_extent_bytes (normalize_options opt) div o_align (normalize_options opt)) < kNoSlot"

lemma new_allocator_inv:
  assumes "fits_index opt"
  shows "slab_inv (new_allocator opt env w)" "residents (new_allocator opt env w) = Map.empty" "retain_inv (new_allocator opt env w)"
proof -
  let ?o = "normalize_options opt" and ?s = "new_allocator opt env w"
  let ?cs = "build_classes ?o (o_align ?o)"
  have al: "0 < o_align ?o" "0 < o_num_extents ?o" by (rule normalize_options_props)+
  have cap: "o_num_extents ?o * (o_extent_bytes ?o div o_align ?o) < kNoSlot" using assms by (simp add: fits_index_def)
  note G = build_classes_geometry [OF al cap refl]
  have C: "c_ring_head (?cs ! c) = kNoSlot \<and> c_hand (?cs ! c) = kNoSlot \<and> c_resident_count (?cs ! c) = 0 \<and> c_protected_slots (?cs ! c) = 0 \<and>
      c_useful_bytes (?cs ! c) = 0 \<and> c_bound_extents (?cs ! c) = 0 \<and> pool_ok (?cs ! c) \<and> frees (?cs ! c) e = {}" if c: "c < length ?cs" for c e
  proof -
    obtain z y where "?cs ! c = new_class z y" using G(2) nth_mem [OF c] by blast
    then show ?thesis by (simp add: new_class_def pool_ok_def frees_def free_of_def)
  qed
  have f: "a_opt ?s = ?o" "a_classes ?s = ?cs" "a_extents ?s = replicate (o_num_extents ?o) empty_extent" "a_slots ?s = []"
    "a_free_slot_meta_head ?s = kNoSlot" "a_global_ring_head ?s = kNoSlot" "a_global_hand ?s = kNoSlot" "a_index ?s = empty_index"
    "a_unbound ?s = o_num_extents ?o" "a_used_bytes ?s = 0" "a_protected_bytes ?s = 0" "a_protected_slots ?s = 0"
    "a_retain ?s = default_retain" "a_wheel ?s = []" "a_retain_now_s ?s = 0"
    by (simp_all add: new_allocator_def Let_def)
  have none: "live_set [] = {}" "at_ext sl {} e = {}" "in_cls sl {} c = {}" for sl e c by (auto simp: live_set_def at_ext_def in_cls_def)
  have r: "ring gn gp [] kNoSlot kNoSlot {}" "linked gn gp [] kNoSlot []" for gn gp :: "SlotMeta \<Rightarrow> nat"
    by (auto simp: ring_def linked_def hand_ok_def intro!: exI [of _ "[]"])
  have "inv_at ?s {} {}"
    unfolding inv_at_def f
  proof (intro conjI)
    show "geometry ?o ?cs (length (replicate (o_num_extents ?o) empty_extent))" using G(1) by simp
    show "class_rings [] ?cs {}" using C r by (simp add: class_rings_def none)
    show "extent_lists [] (replicate (o_num_extents ?o) empty_extent) {}"
      using r(2) by (auto simp: extent_lists_def none empty_extent_def intro!: exI [of _ "[]"])
    show "index_ok [] empty_index {}" using fki.inv_empty fki.find_empty by (simp add: index_ok_def)
    show "pools_ok ?cs (replicate (o_num_extents ?o) empty_extent)" using C by (simp add: pools_ok_def)
    show "binding_ok ?cs (replicate (o_num_extents ?o) empty_extent) (o_num_extents ?o)"
    proof -
      have "{e. e < o_num_extents ?o \<and> e_cls (replicate (o_num_extents ?o) empty_extent ! e) = None} = {..<o_num_extents ?o}"
        by (auto simp: empty_extent_def)
      moreover have "{e. e < o_num_extents ?o \<and> e_cls (replicate (o_num_extents ?o) empty_extent ! e) = Some c} = {}" for c
        by (auto simp: empty_extent_def)
      ultimately show ?thesis using C by (simp add: binding_ok_def)
    qed
    show "prot_ok [] ?cs (replicate (o_num_extents ?o) empty_extent) 0 0 {}" using C by (simp add: prot_ok_def none empty_extent_def)
    show "bytes_ok [] ?cs (replicate (o_num_extents ?o) empty_extent) 0 {}" using C by (simp add: bytes_ok_def none empty_extent_def)
  qed (use r in \<open>simp_all add: space_ok_def pins_ok_def metas_ok_def none empty_extent_def\<close>)
  moreover have "free_metas [] kNoSlot {}" by (auto simp: free_metas_def intro!: exI [of _ "[]"])
  ultimately show "slab_inv ?s" by (simp add: slab_inv_def inv_moving_def f none)
  show e: "residents ?s = Map.empty" using fki.find_empty by (intro ext) (simp add: residents_def f)
  show "retain_inv ?s" by (simp add: retain_inv_def clock_ok_def wheel_pos_def protects_def e f default_retain_def UINT32_MAX_def)
qed

lemma ConfigureRetention_fresh:
  assumes inv: "slab_inv s" and none: "\<And>k u. \<not> protects s k u" and now: "kWheelTickS \<le> now" "now \<le> UINT32_MAX"
  shows "slab_inv (ConfigureRetention ro now s)" "residents (ConfigureRetention ro now s) = residents s" "retain_inv (ConfigureRetention ro now s)"
    "ro_enabled (a_retain (ConfigureRetention ro now s)) \<Longrightarrow> 0 < ro_max_ttl_s (a_retain (ConfigureRetention ro now s))"
proof -
  let ?s = "ConfigureRetention ro now s"
  have w: "a_wheel ?s = (if ro_enabled (a_retain ?s) then replicate (ro_max_ttl_s (a_retain ?s) div kWheelTickS + 2) [] else [])"
    by (simp add: ConfigureRetention_def Let_def)
  show "slab_inv ?s" using inv by (simp add: ConfigureRetention_def Let_def slab_inv_def inv_moving_def)
  show r: "residents ?s = residents s" by (rule residents_eqI) (simp_all add: ConfigureRetention_def Let_def)
  have "protects ?s k u \<longleftrightarrow> False" for k u using none by (simp add: protects_residents [OF r])
  moreover have "wheel_pos ?s" unfolding wheel_pos_def w by auto
  moreover have "a_retain_now_s ?s = now" "a_wheel_tick ?s = now div kWheelTickS - 1"
    using tick_bounds [OF now(1)] by (simp_all add: ConfigureRetention_def Let_def)
  ultimately show "retain_inv ?s" using now tick_bounds [OF now(1)] w by (auto simp: retain_inv_def clock_ok_def split: if_splits)
  show "ro_enabled (a_retain ?s) \<Longrightarrow> 0 < ro_max_ttl_s (a_retain ?s)"
    by (auto simp: ConfigureRetention_def Let_def split: if_splits)
qed

subsection \<open>Steps\<close>

datatype slab_op = Op_Put BlockKey nat | Op_Get BlockKey | Op_GetAndPin BlockKey | Op_Pin BlockKey | Op_Unpin BlockKey
  | Op_PinHandle BlockKey nat | Op_UnpinHandle BlockKey nat | Op_Remove BlockKey | Op_ReclaimClass nat nat nat
  | Op_EvictColdToTarget nat nat | Op_StealFrom nat nat | Op_Retain BlockKey nat RetainMode nat
  | Op_ExpireRetention nat | Op_RestoreBulk "RestoreEntry list"

fun run_op :: "slab_op \<Rightarrow> 'w SlabAllocator \<Rightarrow> 'w SlabAllocator option" where
  "run_op (Op_Put k len) s = map_option (\<lambda>(out, s', ev). s') (Put k len s)"
| "run_op (Op_Get k) s = Some (snd (Get k s))"
| "run_op (Op_GetAndPin k) s = Some (snd (GetAndPin k s))"
| "run_op (Op_Pin k) s = Some (snd (Pin k s))"
| "run_op (Op_Unpin k) s = Some (snd (Unpin k s))"
| "run_op (Op_PinHandle k h) s = Some (snd (PinHandle k h s))"
| "run_op (Op_UnpinHandle k h) s = Some (snd (UnpinHandle k h s))"
| "run_op (Op_Remove k) s = Some (snd (Remove k s))"
| "run_op (Op_ReclaimClass c target n) s = Some (case ReclaimClass c target n s [] of (r, s', ev) \<Rightarrow> s')"
| "run_op (Op_EvictColdToTarget target n) s = Some (case EvictColdToTarget target n s [] of (r, s', ev) \<Rightarrow> s')"
| "run_op (Op_StealFrom donor target) s = Some (case StealFrom donor target s [] of (ok, s', ev) \<Rightarrow> s')"
| "run_op (Op_Retain k ttl mode now) s = Some (snd (Retain k ttl mode now s))"
| "run_op (Op_ExpireRetention now) s = Some (snd (ExpireRetention now s))"
| "run_op (Op_RestoreBulk es) s = Some (snd (RestoreBulk es s))"

text \<open>The 32-bit times an operation takes.\<close>

fun op_typed :: "slab_op \<Rightarrow> bool" where
  "op_typed (Op_Retain k ttl mode now) \<longleftrightarrow> now \<le> UINT32_MAX"
| "op_typed (Op_ExpireRetention now) \<longleftrightarrow> now \<le> UINT32_MAX"
| "op_typed (Op_RestoreBulk es) \<longleftrightarrow> (\<forall>e\<in>set es. re_retain_until e \<le> UINT32_MAX)"
| "op_typed _ \<longleftrightarrow> True"

definition alloc_inv :: "'w SlabAllocator \<Rightarrow> bool" where
  "alloc_inv s \<longleftrightarrow> slab_inv s \<and> retain_inv s \<and> (ro_enabled (a_retain s) \<longrightarrow> 0 < ro_max_ttl_s (a_retain s))"

text \<open>The abstract cache: a map from keys to residents, changed by one of these steps.\<close>

inductive cache_step :: "slab_op \<Rightarrow> nat \<Rightarrow> (BlockKey \<rightharpoonup> resident) \<Rightarrow> (BlockKey \<rightharpoonup> resident) \<Rightarrow> bool" for opn now m where
  same: "cache_step opn now m m"
| evict: "\<forall>k\<in>V. \<exists>r. m k = Some r \<and> evictable r \<Longrightarrow> cache_step opn now m (m |` (- V))"
| insert: "opn = Op_Put k n \<Longrightarrow> m k = None \<Longrightarrow> \<forall>k\<in>V. \<exists>r. m k = Some r \<and> evictable r \<Longrightarrow> n \<le> ref_slot_size r \<Longrightarrow>
    cache_step opn now m ((m |` (- V))(k \<mapsto> fresh_resident r n))"
| pin: "opn \<in> {Op_Pin k, Op_GetAndPin k, Op_PinHandle k h} \<Longrightarrow> m k = Some r \<Longrightarrow> \<not> r_pending r \<Longrightarrow>
    cache_step opn now m (m(k \<mapsto> r\<lparr>r_refs := r_refs r + 1\<rparr>))"
| unpin: "opn \<in> {Op_Unpin k, Op_UnpinHandle k h} \<Longrightarrow> m k = Some r \<Longrightarrow> 0 < r_refs r \<Longrightarrow>
    cache_step opn now m (m(k := if r_refs r = 1 \<and> r_pending r then None else Some (r\<lparr>r_refs := r_refs r - 1\<rparr>)))"
| mark: "opn = Op_Remove k \<Longrightarrow> m k = Some r \<Longrightarrow> 0 < r_refs r \<Longrightarrow> cache_step opn now m (m(k \<mapsto> r\<lparr>r_pending := True\<rparr>))"
| remove: "opn = Op_Remove k \<Longrightarrow> m k = Some r \<Longrightarrow> r_refs r = 0 \<Longrightarrow> cache_step opn now m (m(k := None))"
| protect: "opn = Op_Retain k ttl mode t \<Longrightarrow> m k = Some r \<Longrightarrow> \<not> r_pending r \<Longrightarrow> r_until r \<le> u \<Longrightarrow>
    cache_step opn now m (m(k \<mapsto> r\<lparr>r_until := u, r_ttl := z\<rparr>))"
| expire: "opn = Op_ExpireRetention t \<Longrightarrow> cache_step opn now m (expire_map (max t now) W m)"
| restore: "opn = Op_RestoreBulk es \<Longrightarrow> dom f = re_key ` set es \<Longrightarrow> dom f \<inter> dom m = {} \<Longrightarrow> cache_step opn now m (m ++ f)"

lemma evicts_step: "evicts s s' [] ev \<Longrightarrow> cache_step opn now (residents s) (residents s')"
  unfolding evicts_def by (auto intro: cache_step.evict)

lemma evicts_retain: "evicts s s' ev ev' \<Longrightarrow> retain_inv s \<Longrightarrow> retain_inv s'"
  by (auto simp: evicts_def protects_def restrict_map_def split: if_splits intro: retain_inv_stable)

lemma alloc_inv_stable:
  assumes "alloc_inv s" "slab_inv s'" "stable s s'" "\<And>k u. protects s' k u \<Longrightarrow> protects s k u"
  shows "alloc_inv s'"
  using assms retain_inv_stable by (auto simp: alloc_inv_def stable_def)

lemma alloc_invD:
  assumes "alloc_inv s"
  shows "slab_inv s" "retain_inv s" "ro_enabled (a_retain s) \<Longrightarrow> 0 < ro_max_ttl_s (a_retain s)"
  using assms by (auto simp: alloc_inv_def)

definition step_ok :: "slab_op \<Rightarrow> 'w SlabAllocator \<Rightarrow> 'w SlabAllocator \<Rightarrow> bool" where
  "step_ok opn s s' \<longleftrightarrow> alloc_inv s' \<and> a_opt s' = a_opt s \<and> a_retain s' = a_retain s \<and>
     cache_step opn (a_retain_now_s s) (residents s) (residents s')"

lemma step_evicts:
  assumes "alloc_inv s" "slab_inv s'" "evicts s s' [] ev"
  shows "step_ok opn s s'"
  using assms evicts_step [OF assms(3)] evicts_retain [OF assms(3)] by (auto simp: step_ok_def alloc_inv_def evicts_def stable_def)

lemma step_put:
  assumes inv: "alloc_inv s"
  shows "\<exists>s'. run_op (Op_Put k len) s = Some s' \<and> step_ok (Op_Put k len) s s'"
proof (cases "residents s k")
  case (Some r)
  from Put_resident [OF _ this, of len] inv obtain out s' where P: "Put k len s = Some (out, s', [])" "slab_inv s'" "stable s s'"
    "residents s' = residents s" by (auto simp: alloc_inv_def)
  then show ?thesis using alloc_inv_stable [OF inv P(2,3)] cache_step.same
    by (auto simp: step_ok_def protects_def stable_def)
next
  case None
  from Put_absent [OF _ this, of len] inv obtain out s' ev where P: "Put k len s = Some (out, s', ev)" "put_done k len s (out, s', ev)"
    by (auto simp: alloc_inv_def)
  have D: "slab_inv s'" "stable s s'" "\<forall>v\<in>set ev. \<exists>r. residents s v = Some r \<and> evictable r"
    and R: "case out of None \<Rightarrow> residents s' = residents s |` (- set ev)
      | Some (r, i) \<Rightarrow> residents s' = (residents s |` (- set ev))(k \<mapsto> fresh_resident r len) \<and> len \<le> ref_slot_size r \<and> Find (a_index s') k = Some i"
    using P(2) by (auto simp: put_done_def)
  have "protects s k' u" if "protects s' k' u" for k' u
    using that R by (auto simp: protects_def fresh_resident_def restrict_map_def split: option.splits if_splits)
  then have "alloc_inv s'" using alloc_inv_stable [OF inv D(1,2)] by blast
  moreover have "cache_step (Op_Put k len) (a_retain_now_s s) (residents s) (residents s')"
    using R D(3) None cache_step.evict [of "set ev"] cache_step.insert [OF refl None D(3)] by (auto split: option.splits)
  ultimately show ?thesis using P(1) D(2) by (auto simp: step_ok_def stable_def)
qed

lemma step_pin:
  assumes inv: "alloc_inv s" and e: "pin_effect k s s'" and o: "opn \<in> {Op_Pin k, Op_GetAndPin k, Op_PinHandle k h}"
  shows "step_ok opn s s'"
proof -
  have D: "slab_inv s'" "stable s s'" using e by (auto simp: pin_effect_def)
  have "protects s k' u" if "protects s' k' u" for k' u
    using that e by (auto simp: protects_def pin_effect_def split: option.splits if_splits)
  then have "alloc_inv s'" using alloc_inv_stable [OF inv D] by blast
  moreover have "cache_step opn now (residents s) (residents s')" for now
    using e o cache_step.same [of opn now "residents s"] cache_step.pin [OF o, of "residents s"]
    by (auto simp: pin_effect_def split: option.splits if_splits)
  ultimately show ?thesis using D(2) by (simp add: step_ok_def stable_def)
qed

lemma step_unpin:
  assumes inv: "alloc_inv s" and e: "unpin_effect k s s'" and o: "opn \<in> {Op_Unpin k, Op_UnpinHandle k h}"
  shows "step_ok opn s s'"
proof -
  have D: "slab_inv s'" "stable s s'" using e by (auto simp: unpin_effect_def)
  have "protects s k' u" if "protects s' k' u" for k' u
    using that e by (auto simp: protects_def unpin_effect_def split: option.splits if_splits)
  then have "alloc_inv s'" using alloc_inv_stable [OF inv D] by blast
  moreover have "cache_step opn now (residents s) (residents s')" for now
    using e cache_step.same [of opn now "residents s"] cache_step.unpin [OF o, of "residents s" _ now]
    by (cases "residents s k") (auto simp: unpin_effect_def split: if_splits)
  ultimately show ?thesis using D(2) by (simp add: step_ok_def stable_def)
qed

lemma step_remove:
  assumes inv: "alloc_inv s"
  shows "step_ok (Op_Remove k) s (snd (Remove k s))"
proof -
  let ?s = "snd (Remove k s)"
  have e: "remove_effect k s (fst (Remove k s)) ?s" by (rule Remove_ok [OF alloc_invD(1) [OF inv]])
  have D: "slab_inv ?s" "stable s ?s" using e by (auto simp: remove_effect_def)
  have "protects s k' u" if "protects ?s k' u" for k' u
    using that e by (auto simp: protects_def remove_effect_def split: option.splits if_splits)
  then have "alloc_inv ?s" using alloc_inv_stable [OF inv D] by blast
  moreover have "cache_step (Op_Remove k) now (residents s) (residents ?s)" for now
    using e by (cases "residents s k") (auto simp: remove_effect_def split: if_splits
        intro: cache_step.same cache_step.mark [OF refl] cache_step.remove [OF refl])
  ultimately show ?thesis using D(2) by (simp add: step_ok_def stable_def)
qed

lemma step_same:
  assumes inv: "alloc_inv s" and D: "slab_inv s'" "stable s s'" "residents s' = residents s"
  shows "step_ok opn s s'"
  using alloc_inv_stable [OF inv D(1,2)] D cache_step.same by (auto simp: step_ok_def protects_def stable_def)

lemma step_retain:
  assumes inv: "alloc_inv s" and now: "now \<le> UINT32_MAX"
  shows "step_ok (Op_Retain k ttl mode now) s (snd (Retain k ttl mode now s))"
proof -
  let ?out = "fst (Retain k ttl mode now s)" and ?s = "snd (Retain k ttl mode now s)"
  have e: "retain_done k ttl mode now s ?out ?s" by (rule Retain_ok [OF alloc_invD(1,2) [OF inv] now])
  have "alloc_inv ?s" using e inv by (simp add: retain_done_def alloc_inv_def)
  moreover have "cache_step (Op_Retain k ttl mode now) t (residents s) (residents ?s)" for t
  proof (cases "out_code ?out \<in> {kProtectedNew, kRefreshed, kUpgraded, kUnchanged}")
    case True
    obtain r where r: "residents s k = Some r" "\<not> r_pending r"
      "out_until ?out = max (r_until r) (min (max now (a_retain_now_s s) + retain_ttl ttl mode s r) UINT32_MAX)"
      "residents ?s = (residents s)(k \<mapsto> r\<lparr>r_until := out_until ?out, r_ttl := retain_ttl ttl mode s r\<rparr>)"
      using e unfolding retain_done_def if_P [OF True] by blast
    have "r_until r \<le> out_until ?out" using r(3) by simp
    then show ?thesis unfolding r(4) using r(1,2) by (intro cache_step.protect) simp_all
  next
    case False
    have "residents ?s = residents s" using e unfolding retain_done_def if_not_P [OF False] by blast
    then show ?thesis by (simp add: cache_step.same)
  qed
  ultimately show ?thesis using e by (simp add: step_ok_def retain_done_def)
qed

lemma step_expire:
  assumes inv: "alloc_inv s" and now: "now \<le> UINT32_MAX"
  shows "step_ok (Op_ExpireRetention now) s (snd (ExpireRetention now s))"
proof -
  let ?s = "snd (ExpireRetention now s)"
  have e: "expire_done now s ?s" by (rule ExpireRetention_ok [OF alloc_invD(1,2) [OF inv] now])
  then obtain W where "residents ?s = expire_map (max now (a_retain_now_s s)) W (residents s)" by (auto simp: expire_done_def)
  then show ?thesis using e inv cache_step.expire [OF refl] by (simp add: step_ok_def expire_done_def alloc_inv_def)
qed

lemma step_restore:
  assumes inv: "alloc_inv s" and ty: "\<forall>e\<in>set es. re_retain_until e \<le> UINT32_MAX"
  shows "step_ok (Op_RestoreBulk es) s (snd (RestoreBulk es s))"
proof -
  obtain ok s' where r: "RestoreBulk es s = (ok, s')" by fastforce
  have K: "slab_inv s' \<and> retain_inv s' \<and> same_setup s s' \<and>
    ok = (restore_check s {} Map.empty es \<and> \<not> adjacent_find (sort_key key_order (map re_key es))) \<and>
    (if ok then distinct (map re_key es) \<and> residents s' = residents s ++ re_map s es \<and> dom (re_map s es) \<inter> dom (residents s) = {} else s' = s)"
    by (rule RestoreBulk_ok [OF alloc_invD [OF inv] ty r])
  have "cache_step (Op_RestoreBulk es) now (residents s) (residents s')" for now
  proof (cases ok)
    case True
    have "dom (re_map s es) = re_key ` set es" by (simp add: re_map_def dom_map_of_conv_image_fst image_image)
    then show ?thesis using K True cache_step.restore [OF refl] by simp
  qed (use K cache_step.same in auto)
  then show ?thesis using K inv r by (simp add: step_ok_def alloc_inv_def same_setup_def)
qed

theorem run_op_ok:
  assumes inv: "alloc_inv s" and ty: "op_typed opn"
  shows "\<exists>s'. run_op opn s = Some s' \<and> step_ok opn s s'"
proof -
  have i: "slab_inv s" using inv by (simp add: alloc_inv_def)
  show ?thesis
  proof (cases opn)
    case (Op_Put k n)
    then show ?thesis using step_put [OF inv] by simp
  next
    case (Op_Get k)
    then show ?thesis using step_same [OF inv Get_ok(2-4) [OF i]] by simp
  next
    case (Op_GetAndPin k)
    then show ?thesis using step_pin [OF inv GetAndPin_ok(2) [OF i]] by simp
  next
    case (Op_Pin k)
    then show ?thesis using step_pin [OF inv Pin_ok(2) [OF i]] by simp
  next
    case (Op_Unpin k)
    then show ?thesis using step_unpin [OF inv Unpin_ok(2) [OF i]] by simp
  next
    case (Op_PinHandle k h)
    then show ?thesis using step_pin [OF inv Pin_ok(2) [OF i], of "Op_PinHandle k h" k h] step_same [OF inv i] PinHandle_Pin [OF i, of k h] by auto
  next
    case (Op_UnpinHandle k h)
    then show ?thesis using step_unpin [OF inv Unpin_ok(2) [OF i], of "Op_UnpinHandle k h" k h] step_same [OF inv i] UnpinHandle_Unpin [OF i, of k h] by auto
  next
    case (Op_Remove k)
    then show ?thesis using step_remove [OF inv] by simp
  next
    case (Op_ReclaimClass c t n)
    obtain r s' ev where "ReclaimClass c t n s [] = (r, s', ev)" by (metis prod_cases3)
    then show ?thesis using ReclaimClass_ok [OF i] step_evicts [OF inv] Op_ReclaimClass by fastforce
  next
    case (Op_EvictColdToTarget t n)
    obtain r s' ev where "EvictColdToTarget t n s [] = (r, s', ev)" by (metis prod_cases3)
    then show ?thesis using EvictColdToTarget_ok [OF i] step_evicts [OF inv] Op_EvictColdToTarget by fastforce
  next
    case (Op_StealFrom d t)
    obtain ok s' ev where "StealFrom d t s [] = (ok, s', ev)" by (metis prod_cases3)
    moreover from StealFrom_ok [OF i this] have "slab_inv s'" "evicts s s' [] ev" by (auto simp: steal_ok_def)
    ultimately show ?thesis using step_evicts [OF inv] Op_StealFrom by simp
  next
    case (Op_Retain k ttl mode now)
    then show ?thesis using step_retain [OF inv] ty by simp
  next
    case (Op_ExpireRetention now)
    then show ?thesis using step_expire [OF inv] ty by simp
  next
    case (Op_RestoreBulk es)
    then show ?thesis using step_restore [OF inv] ty by simp
  qed
qed

subsection \<open>Reachable states\<close>

text \<open>
  The states of an allocator in use: constructed, retention configured before the first resident
  exists, then any sequence of operations.
\<close>

inductive reachable :: "'w SlabAllocator \<Rightarrow> bool" where
  created: "fits_index opt \<Longrightarrow> reachable (new_allocator opt env w)"
| configured: "fits_index opt \<Longrightarrow> kWheelTickS \<le> now \<Longrightarrow> now \<le> UINT32_MAX \<Longrightarrow>
    reachable (ConfigureRetention ro now (new_allocator opt env w))"
| step: "reachable s \<Longrightarrow> op_typed opn \<Longrightarrow> run_op opn s = Some s' \<Longrightarrow> reachable s'"

lemma reachable_inv: "reachable s \<Longrightarrow> alloc_inv s"
proof (induction rule: reachable.induct)
  case (created opt env w)
  then show ?case using new_allocator_inv [OF created, of env w] by (simp add: alloc_inv_def new_allocator_def Let_def default_retain_def)
next
  case (configured opt now ro env w)
  note N = new_allocator_inv [OF configured(1), of env w]
  have "\<not> protects (new_allocator opt env w) k u" for k u using N(2) by (simp add: protects_def)
  from ConfigureRetention_fresh [OF N(1) this configured(2,3)] show ?case by (simp add: alloc_inv_def)
next
  case (step s opn s')
  then show ?case using run_op_ok [OF step.IH step.hyps(2)] by (auto simp: step_ok_def)
qed

subsection \<open>What a reachable state guarantees\<close>

text \<open>The bytes of a placement lie in its extent, and two residents never share a byte.\<close>

lemma resident_place:
  assumes inv: "slab_inv s" and r: "residents s k = Some r"
  shows "ref_extent (r_ref r) < length (a_extents s)" "ref_offset (r_ref r) + ref_slot_size (r_ref r) \<le> o_extent_bytes (a_opt s)"
    "r_len r \<le> ref_slot_size (r_ref r)" "ref_offset (r_ref r) = ref_slot (r_ref r) * ref_slot_size (r_ref r)" "0 < ref_slot_size (r_ref r)"
    "r_pending r \<longrightarrow> 0 < r_refs r"
proof -
  obtain i where i: "Find (a_index s) k = Some i" "r = abs_meta (a_slots s ! i)" using r by (auto simp: residents_def)
  note R = resident_entry [OF inv i(1)]
  let ?L = "live_set (a_slots s)" and ?r = "m_ref (a_slots s ! i)"
  have at: "inv_at s ?L {}" and mv: "inv_moving s {}" using inv by (auto simp: slab_inv_def inv_moving_def)
  have sp: "space_ok (a_slots s) (a_classes s) (a_extents s) ?L {}" and mo: "metas_ok (a_slots s) (a_activity_seq s) ?L"
    using at by (auto simp: inv_at_def)
  note D = space_okD [OF sp R(1)]
  note E = inv_at_entry [OF at R(1)]
  note G = class_geometry [OF mv E(5)]
  have rs: "r_ref r = ?r" "r_len r = m_useful_bytes (a_slots s ! i)" "r_pending r = m_remove_pending (a_slots s ! i)" "r_refs r = m_refs (a_slots s ! i)"
    using i(2) by (simp_all add: abs_meta_def)
  have z: "ref_slot_size ?r = c_slot_size (a_classes s ! ref_cls ?r)" "ref_offset ?r = ref_slot ?r * ref_slot_size ?r"
    using D(4,5) by simp_all
  show "ref_extent (r_ref r) < length (a_extents s)" using E(4) rs by simp
  show "r_len r \<le> ref_slot_size (r_ref r)" "r_pending r \<longrightarrow> 0 < r_refs r" using mo R(1) rs by (auto simp: metas_ok_def)
  show "ref_offset (r_ref r) = ref_slot (r_ref r) * ref_slot_size (r_ref r)" using z rs by simp
  show "0 < ref_slot_size (r_ref r)" using z(1) G(1) rs by simp
  from D(6) have "(ref_slot ?r + 1) * c_slot_size (a_classes s ! ref_cls ?r) \<le> c_slots_per_extent (a_classes s ! ref_cls ?r) * c_slot_size (a_classes s ! ref_cls ?r)"
    by (intro mult_le_mono1) simp
  also have "\<dots> \<le> o_extent_bytes (a_opt s)" unfolding G(3) by simp
  finally show "ref_offset (r_ref r) + ref_slot_size (r_ref r) \<le> o_extent_bytes (a_opt s)" using z rs by (simp add: algebra_simps)
qed

lemma residents_disjoint:
  assumes inv: "slab_inv s" and r: "residents s k = Some r" "residents s k' = Some r'" and k: "k \<noteq> k'"
    and e: "ref_extent (r_ref r) = ref_extent (r_ref r')"
  shows "ref_slot_size (r_ref r) = ref_slot_size (r_ref r')" "ref_slot (r_ref r) \<noteq> ref_slot (r_ref r')"
proof -
  obtain i j where ij: "Find (a_index s) k = Some i" "r = abs_meta (a_slots s ! i)" "Find (a_index s) k' = Some j" "r' = abs_meta (a_slots s ! j)"
    using r by (auto simp: residents_def)
  note R = resident_entry [OF inv ij(1)] and Q = resident_entry [OF inv ij(3)]
  let ?L = "live_set (a_slots s)"
  have at: "inv_at s ?L {}" using inv by (auto simp: slab_inv_def inv_moving_def)
  have sp: "space_ok (a_slots s) (a_classes s) (a_extents s) ?L {}" using at by (auto simp: inv_at_def)
  note E = inv_at_entry [OF at R(1)] and F = inv_at_entry [OF at Q(1)]
  have ex: "ref_extent (m_ref (a_slots s ! i)) = ref_extent (m_ref (a_slots s ! j))" using e ij by (simp add: abs_meta_def)
  then have "ref_cls (m_ref (a_slots s ! i)) = ref_cls (m_ref (a_slots s ! j))" using E(6) F(6) by simp
  then show "ref_slot_size (r_ref r) = ref_slot_size (r_ref r')" using space_okD(4) [OF sp R(1)] space_okD(4) [OF sp Q(1)] ij by (simp add: abs_meta_def)
  have "inj_on (\<lambda>i. ref_slot (m_ref (a_slots s ! i))) (at_ext (a_slots s) ?L (ref_extent (m_ref (a_slots s ! i))))"
    using space_ok_extent(4) [OF sp E(4,6)] .
  moreover have "i \<noteq> j" using k R(2) Q(2) by auto
  moreover have "i \<in> at_ext (a_slots s) ?L (ref_extent (m_ref (a_slots s ! i)))" "j \<in> at_ext (a_slots s) ?L (ref_extent (m_ref (a_slots s ! i)))"
    using R(1) Q(1) ex by (auto simp: at_ext_def)
  ultimately show "ref_slot (r_ref r) \<noteq> ref_slot (r_ref r')" using ij by (auto simp: abs_meta_def dest: inj_onD)
qed

end
