(* ===== verification/Slab_Properties.thy ===== *)
theory Slab_Properties
  imports Slab_Machine
begin

text \<open>
  The guarantees of the slab allocator, stated over the states an allocator in use can reach, and
  a small allocator (one extent of one slot) in a reachable state with a protected and then pinned
  resident, on which each of them is applied.
\<close>

subsection \<open>A sample allocator\<close>

definition sample_opt :: "unit Options" where
  "sample_opt = \<lparr>o_extent_bytes = 4, o_num_extents = 1, o_align = 4, o_max_waste = 0,
     on_extent_bind = None, on_extent_evict = None, on_slot_evict = None\<rparr>"

definition sample_key :: BlockKey where
  "sample_key = \<lparr>digest_hi = 1, digest_lo = 2, tenant_hash = 3\<rparr>"

definition other_key :: BlockKey where
  "other_key = \<lparr>digest_hi = 4, digest_lo = 5, tenant_hash = 6\<rparr>"

definition sample_retain :: RetainOptions where
  "sample_retain = \<lparr>ro_enabled = True, ro_budget_bytes = 100, ro_class_pct = 100, ro_max_ttl_s = 3600, ro_persist_min_delta_s = 60\<rparr>"

definition sample_entry :: RestoreEntry where
  "sample_entry = \<lparr>re_key = sample_key, re_slot_size = 4, re_extent = 0, re_slot = 0, re_value_bytes = 3,
     re_retain_until = 1500, re_retain_ttl_s = 600\<rparr>"

definition sample_empty :: "unit SlabAllocator" where
  "sample_empty = ConfigureRetention sample_retain 1000 (new_allocator sample_opt None ())"

definition sample_kept :: "unit SlabAllocator" where
  "sample_kept = snd (RestoreBulk [sample_entry] sample_empty)"

definition sample_pinned :: "unit SlabAllocator" where
  "sample_pinned = snd (Pin sample_key sample_kept)"

definition sample_resident :: resident where
  "sample_resident = \<lparr>r_ref = \<lparr>ref_cls = 0, ref_extent = 0, ref_slot = 0, ref_slot_size = 4, ref_offset = 0\<rparr>,
     r_len = 3, r_refs = 0, r_until = 1500, r_ttl = 600, r_pending = False\<rparr>"

lemma sample_opt_fits: "fits_index sample_opt" "normalize_options sample_opt = sample_opt"
  by (simp_all add: fits_index_def normalize_options_def sample_opt_def kNoSlot_def UINT32_MAX_def)

lemma sample_classes: "build_classes sample_opt 4 = [new_class 4 1]"
  by (subst build_classes.simps) (simp add: sample_opt_def max_aligned_def class_of_size_def UINT32_MAX_def)

lemma sample_empty_state:
  "a_opt sample_empty = sample_opt" "a_classes sample_empty = [new_class 4 1]" "a_extents sample_empty = [empty_extent]"
  "a_index sample_empty = empty_index" "a_unbound sample_empty = 1" "a_retain sample_empty = sample_retain" "a_retain_now_s sample_empty = 1000"
  using sample_classes sample_opt_fits(2)
  by (simp_all add: sample_empty_def ConfigureRetention_def new_allocator_def Let_def sample_retain_def) (simp_all add: sample_opt_def)

lemma sample_empty_reachable: "reachable sample_empty"
  unfolding sample_empty_def by (rule reachable.configured [OF sample_opt_fits(1)]) (simp_all add: kWheelTickS_def UINT32_MAX_def)

lemma sample_empty_residents: "residents sample_empty = Map.empty"
  by (rule ext) (simp add: residents_def sample_empty_state fki.find_empty)

lemma sample_slot_size: "CanonicalSlotSize sample_opt 4 = 4"
  by (simp add: CanonicalSlotSize_def sample_opt_def UINT32_MAX_def max_aligned_def canonical_loop.simps)

lemma sample_restores: "restore_check sample_empty {} Map.empty [sample_entry]"
  using sample_slot_size
  by (simp add: sample_empty_state sample_entry_def ClassForExactSize_def new_class_def fki.find_empty empty_extent_def)
     (simp add: sample_opt_def)

lemma sample_kept_reachable: "reachable sample_kept" "residents sample_kept = [sample_key \<mapsto> sample_resident]"
proof -
  obtain ok s where r: "RestoreBulk [sample_entry] sample_empty = (ok, s)" by fastforce
  note I = alloc_invD [OF reachable_inv [OF sample_empty_reachable]]
  have ty: "\<forall>e\<in>set [sample_entry]. re_retain_until e \<le> UINT32_MAX" by (simp add: sample_entry_def UINT32_MAX_def)
  have "\<not> adjacent_find (sort_key key_order (map re_key [sample_entry]))" by simp
  then have R: "residents s = [sample_key \<mapsto> re_resident sample_empty sample_entry]"
    using RestoreBulk_ok [OF I ty r] sample_restores
    by (auto simp: sample_empty_residents re_map_def sample_entry_def)
  have "re_resident sample_empty sample_entry = sample_resident"
    by (simp add: re_resident_def restored_def fresh_resident_def place_def  sample_empty_state sample_entry_def sample_retain_def
        sample_resident_def ClassForExactSize_def new_class_def)
  then show "residents sample_kept = [sample_key \<mapsto> sample_resident]" using R r by (simp add: sample_kept_def)
  show "reachable sample_kept"
    using reachable.step [OF sample_empty_reachable, of "Op_RestoreBulk [sample_entry]" sample_kept] ty by (simp add: sample_kept_def)
qed

lemma sample_pinned_reachable: "reachable sample_pinned" "residents sample_pinned = [sample_key \<mapsto> sample_resident\<lparr>r_refs := 1\<rparr>]"
proof -
  show "reachable sample_pinned"
    using reachable.step [OF sample_kept_reachable(1), of "Op_Pin sample_key" sample_pinned] by (simp add: sample_pinned_def)
  have "pin_effect sample_key sample_kept sample_pinned"
    unfolding sample_pinned_def by (rule Pin_ok(2) [OF alloc_invD(1) [OF reachable_inv [OF sample_kept_reachable(1)]]])
  then show "residents sample_pinned = [sample_key \<mapsto> sample_resident\<lparr>r_refs := 1\<rparr>]"
    by (simp add: pin_effect_def sample_kept_reachable(2) sample_resident_def)
qed

lemmas sample_states = sample_kept_reachable sample_pinned_reachable sample_empty_reachable sample_empty_residents

lemma sample_books: "slab_inv sample_kept" "slab_inv sample_pinned" "slab_inv sample_empty"
  using sample_states(1,3,5) reachable_inv alloc_invD(1) by blast+

subsection \<open>The invariant and the abstract cache\<close>

text \<open>
  C4: In every state an allocator in use can reach, its books are in order: the class, global and
  extent rings hold exactly the live metadata entries, the index maps exactly their keys, the free
  pools and the live slots partition every bound extent, and the pin, protection, residency, byte
  and binding counters equal what they count; every protection is scheduled on the timer wheel.
\<close>

theorem SlabAllocator_invariant:
  assumes "reachable s"
  shows "slab_inv s \<and> retain_inv s"
  using alloc_invD [OF reachable_inv [OF assms]] by blast

theorem SlabAllocator_invariant_witness: "slab_inv sample_pinned \<and> retain_inv sample_pinned"
  by (rule SlabAllocator_invariant [OF sample_states(3)])

text \<open>
  C5: Every operation returns from every reachable state, and refines a step of the abstract
  cache: it evicts residents that are neither pinned nor protected, inserts the key it was given,
  pins, unpins, removes or defers a removal, extends a protection, ends protections that are due,
  or restores a batch.
\<close>

theorem SlabAllocator_refines_cache:
  assumes "reachable s" "op_typed opn"
  shows "\<exists>s'. run_op opn s = Some s' \<and> reachable s' \<and> a_opt s' = a_opt s \<and>
    cache_step opn (a_retain_now_s s) (residents s) (residents s')"
proof -
  obtain s' where "run_op opn s = Some s'" "step_ok opn s s'" using run_op_ok [OF reachable_inv [OF assms(1)] assms(2)] by blast
  then show ?thesis using reachable.step [OF assms] by (auto simp: step_ok_def)
qed

theorem SlabAllocator_refines_cache_witness:
  "\<exists>s'. run_op (Op_Put sample_key 3) sample_empty = Some s' \<and> reachable s' \<and> a_opt s' = a_opt sample_empty \<and>
    cache_step (Op_Put sample_key 3) (a_retain_now_s sample_empty) (residents sample_empty) (residents s')"
  by (rule SlabAllocator_refines_cache [OF sample_states(5)]) simp

subsection \<open>Pins and protections\<close>

lemma run_op_cache:
  assumes "reachable s" "op_typed opn" "run_op opn s = Some s'"
  shows "cache_step opn (a_retain_now_s s) (residents s) (residents s')"
  using run_op_ok [OF reachable_inv [OF assms(1)] assms(2)] assms(3) by (auto simp: step_ok_def)

lemma cache_step_pinned:
  assumes "cache_step opn now m m'" "m k = Some r" "0 < r_refs r"
  shows "(\<exists>r'. m' k = Some r' \<and> r_ref r' = r_ref r \<and> r_len r' = r_len r) \<or>
    (\<exists>h. opn \<in> {Op_Unpin k, Op_UnpinHandle k h}) \<and> r_refs r = 1 \<and> r_pending r"
  using assms by (cases rule: cache_step.cases)
    (auto simp: evictable_def restrict_map_def expire_map_def map_add_def split: if_splits option.splits)


text \<open>
  C6: A pinned resident keeps its slot: no operation moves it, shrinks it or gives its slot away,
  except the unpin that releases the last pin of a resident whose removal was requested.
\<close>

theorem pinned_resident_stays:
  assumes s: "reachable s" and ty: "op_typed opn" and r: "residents s k = Some r" "0 < r_refs r" and run: "run_op opn s = Some s'"
  shows "(\<exists>r'. residents s' k = Some r' \<and> r_ref r' = r_ref r \<and> r_len r' = r_len r) \<or>
    (\<exists>h. opn \<in> {Op_Unpin k, Op_UnpinHandle k h}) \<and> r_refs r = 1 \<and> r_pending r"
  by (rule cache_step_pinned [of opn "a_retain_now_s s" "residents s", OF run_op_cache [OF s ty run] r])

theorem pinned_resident_stays_witness:
  "\<exists>s'. run_op (Op_Put other_key 4) sample_pinned = Some s' \<and>
    (\<exists>r'. residents s' sample_key = Some r' \<and> r_ref r' = r_ref sample_resident \<and> r_len r' = r_len sample_resident)"
proof -
  obtain s' where s': "run_op (Op_Put other_key 4) sample_pinned = Some s'"
    using run_op_ok [OF reachable_inv [OF sample_states(3)], of "Op_Put other_key 4"] by auto
  have "residents sample_pinned sample_key = Some (sample_resident\<lparr>r_refs := 1\<rparr>)" by (simp add: sample_states)
  from pinned_resident_stays [OF sample_states(3) _ this _ s']
  have "\<exists>r'. residents s' sample_key = Some r' \<and> r_ref r' = r_ref sample_resident \<and> r_len r' = r_len sample_resident" by simp
  with s' show ?thesis by blast
qed


lemma sample_kept_same: "same_setup sample_empty sample_kept"
proof -
  obtain ok s where r: "RestoreBulk [sample_entry] sample_empty = (ok, s)" by fastforce
  have ty: "\<forall>e\<in>set [sample_entry]. re_retain_until e \<le> UINT32_MAX" by (simp add: sample_entry_def UINT32_MAX_def)
  have "same_setup sample_empty s" using RestoreBulk_ok [OF alloc_invD [OF reachable_inv [OF sample_empty_reachable]] ty r] by blast
  then show ?thesis using r by (simp add: sample_kept_def)
qed

lemma sample_kept_clock: "a_retain_now_s sample_kept = 1000"
  using sample_kept_same by (simp add: same_setup_def sample_empty_state)


subsection \<open>Placements\<close>

text \<open>
  C8: Every resident lies inside its extent and fits its slot, and the byte ranges of two
  residents never overlap: either their extents differ or one ends before the other starts.
\<close>

theorem placements_disjoint:
  assumes s: "reachable s" and r: "residents s k = Some r"
  shows "ref_extent (r_ref r) < length (a_extents s) \<and> ref_offset (r_ref r) + ref_slot_size (r_ref r) \<le> o_extent_bytes (a_opt s) \<and>
    r_len r \<le> ref_slot_size (r_ref r) \<and>
    (\<forall>k' r'. residents s k' = Some r' \<longrightarrow> k' \<noteq> k \<longrightarrow> ref_extent (r_ref r') \<noteq> ref_extent (r_ref r) \<or>
       ref_offset (r_ref r) + ref_slot_size (r_ref r) \<le> ref_offset (r_ref r') \<or>
       ref_offset (r_ref r') + ref_slot_size (r_ref r') \<le> ref_offset (r_ref r))"
proof -
  have inv: "slab_inv s" using reachable_inv [OF s] alloc_invD(1) by blast
  note P = resident_place [OF inv r]
  have "ref_offset (r_ref r) + ref_slot_size (r_ref r) \<le> ref_offset (r_ref q) \<or> ref_offset (r_ref q) + ref_slot_size (r_ref q) \<le> ref_offset (r_ref r)"
    if q: "residents s k' = Some q" "k' \<noteq> k" "ref_extent (r_ref q) = ref_extent (r_ref r)" for k' q
  proof -
    note D = residents_disjoint [OF inv q(1) r q(2,3)]
    have "Suc (ref_slot (r_ref r)) * ref_slot_size (r_ref r) \<le> ref_slot (r_ref q) * ref_slot_size (r_ref r) \<or>
        Suc (ref_slot (r_ref q)) * ref_slot_size (r_ref r) \<le> ref_slot (r_ref r) * ref_slot_size (r_ref r)"
      using D(2) by (metis Suc_leI linorder_neqE_nat mult_le_mono1)
    then show ?thesis using P(4) resident_place(4) [OF inv q(1)] D(1) by (simp add: algebra_simps)
  qed
  then show ?thesis using P by blast
qed

theorem placements_disjoint_witness:
  "ref_offset (r_ref sample_resident) + ref_slot_size (r_ref sample_resident) \<le> o_extent_bytes (a_opt sample_kept)"
  using placements_disjoint [OF sample_states(1), of sample_key sample_resident] by (simp add: sample_states)

text \<open>
  C9: The bytes the allocator counts as used are the slot sizes of its residents, and never
  exceed the capacity of its extents.
\<close>

theorem used_bytes_within_capacity:
  assumes s: "reachable s"
  shows "a_used_bytes s = (\<Sum>k\<in>dom (residents s). ref_slot_size (r_ref (the (residents s k)))) \<and> a_used_bytes s \<le> Capacity s"
proof -
  let ?L = "live_set (a_slots s)" and ?x = "\<lambda>i. ref_extent (m_ref (a_slots s ! i))" and ?n = "length (a_extents s)"
  have inv: "inv_moving s {}" using alloc_invD(1) [OF reachable_inv [OF s]] by (simp add: slab_inv_def)
  then have at: "inv_at s ?L {}" by (simp add: inv_moving_def)
  have sp: "space_ok (a_slots s) (a_classes s) (a_extents s) ?L {}" using at by (auto simp: inv_at_def)
  have fin: "finite ?L" using inv_at_entry(3) [OF at] by (cases "?L = {}") auto
  have one: "(\<Sum>i\<in>at_ext (a_slots s) ?L e. ref_slot_size (m_ref (a_slots s ! i))) \<le> o_extent_bytes (a_opt s)" if e: "e < ?n" for e
  proof (cases "e_cls (a_extents s ! e)")
    case None
    have "at_ext (a_slots s) ?L e = {}" using None inv_at_entry(6) [OF at] by (auto simp: at_ext_def)
    then show ?thesis by simp
  next
    case (Some c)
    note X = space_ok_extent [OF sp e Some] and G = class_geometry [OF inv space_ok_extent(1) [OF sp e Some]]
    have "ref_slot_size (m_ref (a_slots s ! i)) = c_slot_size (a_classes s ! c)" if "i \<in> at_ext (a_slots s) ?L e" for i
      using that space_okD(4) [OF sp] inv_at_entry(6) [OF at] Some by (auto simp: at_ext_def)
    then have "(\<Sum>i\<in>at_ext (a_slots s) ?L e. ref_slot_size (m_ref (a_slots s ! i))) = card (at_ext (a_slots s) ?L e) * c_slot_size (a_classes s ! c)" by simp
    also have "\<dots> \<le> c_slots_per_extent (a_classes s ! c) * c_slot_size (a_classes s ! c)" using X(2,3) by (intro mult_le_mono1) simp
    also have "\<dots> \<le> o_extent_bytes (a_opt s)" unfolding G(3) by simp
    finally show ?thesis .
  qed
  have "a_used_bytes s = (\<Sum>i\<in>?L. ref_slot_size (m_ref (a_slots s ! i)))" using at by (simp add: inv_at_def bytes_ok_def)
  also have "\<dots> = (\<Sum>e<?n. \<Sum>i\<in>{i \<in> ?L. ?x i = e}. ref_slot_size (m_ref (a_slots s ! i)))"
    by (rule sum.group [symmetric]) (use fin inv_at_entry(4) [OF at] in auto)
  also have "\<dots> \<le> (\<Sum>e<?n. o_extent_bytes (a_opt s))" using one by (intro sum_mono) (simp add: at_ext_def)
  also have "\<dots> = Capacity s" using at by (simp add: Capacity_def inv_at_def geometry_def)
  finally show ?thesis using used_bytes_residents [OF inv] by simp
qed

theorem used_bytes_within_capacity_witness: "a_used_bytes sample_kept = 4 \<and> a_used_bytes sample_kept \<le> Capacity sample_kept"
  using used_bytes_within_capacity [OF sample_states(1)] by (simp add: sample_states sample_resident_def)

subsection \<open>Insertion\<close>

text \<open>
  C10: An insertion always returns. A key that is already resident keeps its place, nothing is
  evicted, and its slot is reported unless its removal is pending. Otherwise the keys reported as
  evicted are exactly the ones that leave, all of them unpinned and unprotected; on success the
  new key is resident in a slot it fits, found by the next lookup, and on failure nothing is added.
\<close>

theorem Put_effect:
  assumes s: "reachable s"
  shows "\<exists>out s' ev. Put k len s = Some (out, s', ev) \<and> distinct ev \<and>
    (\<forall>v\<in>set ev. \<exists>r. residents s v = Some r \<and> r_refs r = 0 \<and> r_until r = 0) \<and>
    (case residents s k of
       Some r \<Rightarrow> ev = [] \<and> residents s' = residents s \<and> map_option fst out = visible (Some r)
     | None \<Rightarrow> (case out of
           None \<Rightarrow> residents s' = residents s |` (- set ev)
         | Some (r, i) \<Rightarrow> residents s' = (residents s |` (- set ev))(k \<mapsto> fresh_resident r len) \<and>
             len \<le> ref_slot_size r \<and> Contains k s' \<and> fst (Get k s') = Some r))"
proof -
  have inv: "slab_inv s" using alloc_invD(1) [OF reachable_inv [OF s]] .
  show ?thesis
  proof (cases "residents s k")
    case (Some r)
    from Put_resident [OF inv Some, of len] show ?thesis using Some by (auto simp: visible_def)
  next
    case None
    obtain out s' ev where P: "Put k len s = Some (out, s', ev)" "put_done k len s (out, s', ev)"
      using Put_absent [OF inv None, of len] by (metis prod_cases3)
    have "Contains k s' \<and> fst (Get k s') = Some r" if "out = Some (r, i)" for r i
    proof -
      have "slab_inv s'" "visible (residents s' k) = Some r" using P(2) that by (auto simp: put_done_def visible_def fresh_resident_def)
      then show ?thesis using Get_ok(1) [of s' k] by (simp add: Contains_visible)
    qed
    then show ?thesis using P None by (auto simp: put_done_def evictable_def split: option.splits)
  qed
qed

theorem Put_effect_witness:
  "\<exists>i s'. Put sample_key 2 sample_kept = Some (Some (r_ref sample_resident, i), s', []) \<and> residents s' = residents sample_kept"
  using Put_effect [OF sample_states(1), of sample_key 2] by (auto simp: sample_states sample_resident_def visible_def)

text \<open>
  C11: An allocator without persistence callbacks refuses a value that fits a class only when it
  has to: no extent is unbound, every resident of that class is pinned or protected, and every
  extent bound to another class holds a pinned or protected resident; and then nothing was evicted.
\<close>

theorem Put_refused_only_when_full:
  assumes s: "reachable s" and cb: "on_extent_bind (a_opt s) = None" "on_slot_evict (a_opt s) = None"
    and k: "residents s k = None" and len: "0 < len" "len \<le> UINT32_MAX" "AlignUp len (o_align (a_opt s)) \<noteq> 0"
      "AlignUp len (o_align (a_opt s)) \<le> o_extent_bytes (a_opt s)"
    and c: "c = ClassForLen s (AlignUp len (o_align (a_opt s)))" "c < length (a_classes s)"
    and r: "Put k len s = Some (None, s', ev)"
  shows "a_unbound s = 0 \<and> ev = [] \<and> residents s' = residents s \<and>
    (\<forall>k r. residents s k = Some r \<longrightarrow> ref_cls (r_ref r) = c \<longrightarrow> r_refs r \<noteq> 0 \<or> r_until r \<noteq> 0) \<and>
    (\<forall>e<length (a_extents s'). \<forall>d. e_cls (a_extents s' ! e) = Some d \<longrightarrow> d \<noteq> c \<longrightarrow>
       (\<exists>k r. residents s k = Some r \<and> ref_extent (r_ref r) = e \<and> (r_refs r \<noteq> 0 \<or> r_until r \<noteq> 0)))"
proof -
  have inv: "slab_inv s" using alloc_invD(1) [OF reachable_inv [OF s]] .
  have P: "put_done k len s (None, s', ev)" "a_unbound s = 0" "jammed c s'" "ev = []"
    using Put_absent [OF inv k, of len] r cb len c by (auto simp: Let_def)
  have same: "residents s' = residents s" using P(1,4) by (simp add: put_done_def restrict_map_def)
  show ?thesis using P(2-4) by (simp add: jammed_def held_extent_def evictable_def same)
qed

lemma sample_kept_setup: "a_opt sample_kept = sample_opt" "length (a_classes sample_kept) = 1" "c_slot_size (a_classes sample_kept ! 0) = 4"
    "length (a_extents sample_kept) = 1"
  using sample_kept_same by (simp_all add: same_setup_def sample_empty_state new_class_def)

lemma sample_other: "other_key \<noteq> sample_key" "residents sample_kept other_key = None"
  by (simp_all add: sample_states other_key_def sample_key_def)

lemma sample_full: "\<exists>s' ev. Put other_key 4 sample_kept = Some (None, s', ev)"
proof -
  obtain out s' ev where P: "Put other_key 4 sample_kept = Some (out, s', ev)" "put_done other_key 4 sample_kept (out, s', ev)"
    using Put_absent [OF sample_books(1) sample_other(2), of 4] by (metis prod_cases3)
  have "out = None"
  proof (rule ccontr)
    assume "out \<noteq> None"
    then obtain r i where o: "out = Some (r, i)" by auto
    have inv: "slab_inv s'" and st: "stable sample_kept s'" and R: "residents s' = (residents sample_kept |` (- set ev))(other_key \<mapsto> fresh_resident r 4)"
      and ev: "\<forall>v\<in>set ev. \<exists>r. residents sample_kept v = Some r \<and> evictable r" using P(2) o by (auto simp: put_done_def)
    have "sample_key \<notin> set ev" using bspec [OF ev, of sample_key] by (auto simp: sample_states evictable_def sample_resident_def)
    then have k: "residents s' sample_key = Some sample_resident" "residents s' other_key = Some (fresh_resident r 4)"
      using R sample_other(1) by (auto simp: sample_states)
    have n: "length (a_extents s') = 1" "o_extent_bytes (a_opt s') = 4" using st sample_kept_setup by (simp_all add: stable_def sample_opt_def)
    note A = resident_place [OF inv k(1)] and B = resident_place [OF inv k(2)]
    have "ref_extent (r_ref (fresh_resident r 4)) = ref_extent (r_ref sample_resident)" using A(1) B(1) n(1) by simp
    note D = residents_disjoint [OF inv k(2,1) sample_other(1) this]
    have "ref_slot r \<noteq> 0" "ref_slot_size r = 4" using D by (simp_all add: fresh_resident_def sample_resident_def)
    then show False using B(2,4) n(2) by (simp add: fresh_resident_def)
  qed
  then show ?thesis using P by blast
qed

theorem Put_refused_only_when_full_witness:
  "a_unbound sample_kept = 0 \<and> (\<exists>s'. Put other_key 4 sample_kept = Some (None, s', []) \<and> residents s' = residents sample_kept)"
proof -
  obtain s' ev where r: "Put other_key 4 sample_kept = Some (None, s', ev)" using sample_full by blast
  let ?c = "ClassForLen sample_kept (AlignUp 4 (o_align (a_opt sample_kept)))"
  have a: "AlignUp 4 (o_align (a_opt sample_kept)) = 4" by (simp add: sample_kept_setup sample_opt_def AlignUp_def UINT64_MAX_def)
  have "?c = 0" unfolding a
    using sample_kept_setup sample_slot_size by (cases "a_classes sample_kept") (auto simp: ClassForLen_def ClassForExactSize_def)
  moreover have "on_extent_bind (a_opt sample_kept) = None" "on_slot_evict (a_opt sample_kept) = None" "4 \<le> o_extent_bytes (a_opt sample_kept)"
    by (simp_all add: sample_kept_setup sample_opt_def)
  ultimately show ?thesis
    using Put_refused_only_when_full [OF sample_states(1) _ _ sample_other(2) _ _ _ _ refl _ r] r sample_kept_setup a by (simp add: UINT32_MAX_def)
qed

lemma sample_align: "AlignUp 3 (o_align sample_opt) = 4"
  by (simp add: sample_opt_def AlignUp_def UINT64_MAX_def)

lemma sample_callbacks: "on_extent_bind sample_opt = None" "on_slot_evict sample_opt = None" "o_extent_bytes sample_opt = 4"
  by (simp_all add: sample_opt_def)

lemma sample_put: "\<exists>r i s. Put sample_key 3 sample_empty = Some (Some (r, i), s, []) \<and> reachable s \<and> residents s = [sample_key \<mapsto> fresh_resident r 3]"
proof -
  have k: "residents sample_empty sample_key = None" by (simp add: sample_states)
  obtain out s ev where P: "Put sample_key 3 sample_empty = Some (out, s, ev)" "put_done sample_key 3 sample_empty (out, s, ev)"
    "out = None \<longrightarrow> ClassForLen sample_empty 4 < 1 \<longrightarrow> a_unbound sample_empty = 0"
    using Put_absent [OF sample_books(3) k, of 3, unfolded sample_empty_state sample_align] by (auto simp: sample_callbacks sample_empty_state UINT32_MAX_def)
  have "ClassForLen sample_empty 4 = 0"
    using sample_slot_size by (simp add: ClassForLen_def ClassForExactSize_def sample_empty_state new_class_def)
  then obtain r i where o: "out = Some (r, i)" using P(3) by (auto simp: sample_empty_state)
  have e: "ev = []" using P(2) by (cases ev) (auto simp: put_done_def sample_states)
  have "reachable s" using reachable.step [OF sample_states(5), of "Op_Put sample_key 3" s] P(1) by simp
  moreover have "residents s = [sample_key \<mapsto> fresh_resident r 3]" using P(2) by (simp add: put_done_def o e sample_states restrict_map_def)
  ultimately show ?thesis using P(1) o e by blast
qed

subsection \<open>Removal and eviction\<close>

lemma unpin_pending:
  assumes "slab_inv s" "residents s k = Some r" "r_pending r" "0 < r_refs r"
  shows "slab_inv (snd (Unpin k s)) \<and> residents (snd (Unpin k s)) k = (if r_refs r = 1 then None else Some (r\<lparr>r_refs := r_refs r - 1\<rparr>))"
  using Unpin_ok(2) [OF assms(1), of k] assms(2-4) by (auto simp: unpin_effect_def)

text \<open>
  C12: Removing a pinned key is deferred: the key disappears for lookups at once, it keeps its
  slot through every unpin but the last, and the last unpin frees it.
\<close>

theorem Remove_deferred:
  assumes s: "reachable s" and r: "residents s k = Some r" "0 < r_refs r"
  shows "fst (Remove k s) = kDeferred \<and> fst (Get k (snd (Remove k s))) = None \<and>
    (\<forall>n\<le>r_refs r. residents (((\<lambda>s. snd (Unpin k s)) ^^ n) (snd (Remove k s))) k =
      (if n = r_refs r then None else Some (r\<lparr>r_pending := True, r_refs := r_refs r - n\<rparr>)))"
proof -
  let ?s = "snd (Remove k s)" and ?u = "\<lambda>s. snd (Unpin k s)"
  have inv: "slab_inv s" using alloc_invD(1) [OF reachable_inv [OF s]] .
  have R: "slab_inv ?s" "fst (Remove k s) = kDeferred" "residents ?s k = Some (r\<lparr>r_pending := True\<rparr>)"
    using Remove_ok [OF inv, of k] r by (auto simp: remove_effect_def)
  have "n \<le> r_refs r \<Longrightarrow> slab_inv ((?u ^^ n) ?s) \<and>
    residents ((?u ^^ n) ?s) k = (if n = r_refs r then None else Some (r\<lparr>r_pending := True, r_refs := r_refs r - n\<rparr>))" for n
  proof (induction n)
    case 0
    then show ?case using R r(2) by simp
  next
    case (Suc n)
    then have "slab_inv ((?u ^^ n) ?s)" "residents ((?u ^^ n) ?s) k = Some (r\<lparr>r_pending := True, r_refs := r_refs r - n\<rparr>)" by auto
    from unpin_pending [OF this] Suc.prems show ?case by auto
  qed
  then show ?thesis using R Get_ok(1) [OF R(1), of k] by (simp add: visible_def)
qed

theorem Remove_deferred_witness:
  "fst (Remove sample_key sample_pinned) = kDeferred \<and> fst (Get sample_key (snd (Remove sample_key sample_pinned))) = None \<and>
   residents (snd (Unpin sample_key (snd (Remove sample_key sample_pinned)))) sample_key = None"
proof -
  have "residents sample_pinned sample_key = Some (sample_resident\<lparr>r_refs := 1\<rparr>)" by (simp add: sample_states)
  from Remove_deferred [OF sample_states(3) this] show ?thesis by (auto dest: spec [of _ 1])
qed

text \<open>
  C13: Eviction inside a class follows CLOCK with second chance. Over one lap of the class ring
  starting at the hand, the victim is the first resident that is neither pinned nor protected nor
  marked as referenced; when all evictable residents are marked, the first evictable one. The
  persistence callback, when one is installed, is asked about this victim and no other. The eviction
  is refused, with the residents unchanged, exactly when the class has no evictable resident or the
  callback vetoes the victim.
\<close>

theorem EvictOneFrom_second_chance:
  assumes s: "reachable s" and c: "c < length (a_classes s)" and r: "EvictOneFrom c s ev = (ok, s', ev')"
  shows "\<exists>ys. set ys = in_cls (a_slots s) (live_set (a_slots s)) c \<and> length ys = c_resident_count (a_classes s ! c) \<and>
    (ys \<noteq> [] \<longrightarrow> sweep s c ys) \<and>
    (case clock_victim s ys of
       None \<Rightarrow> \<not> ok
     | Some v \<Rightarrow> ok = (case on_slot_evict (a_opt s) of None \<Rightarrow> True | Some f \<Rightarrow> fst (f (m_ref (a_slots s ! v)) (a_world s))) \<and>
         (ok \<longrightarrow> ev' = ev @ [m_key (a_slots s ! v)] \<and> residents s' = residents s |` (- {m_key (a_slots s ! v)}))) \<and>
    (\<not> ok \<longrightarrow> ev' = ev \<and> residents s' = residents s)"
proof -
  have inv: "slab_inv s" "inv_moving s {}" using alloc_invD(1) [OF reachable_inv [OF s]] by (simp_all add: slab_inv_def)
  note E = EvictOneFrom_correct [OF inv(2) c r]
  have refused: "ev' = ev \<and> residents s' = residents s" if "\<not> ok" using that E(2,3) evicts_nothing by (auto simp: evicts_def)
  show ?thesis
  proof (cases "c_resident_count (a_classes s ! c) = 0")
    case True
    have "c_resident_count (a_classes s ! c) = card (in_cls (a_slots s) (live_set (a_slots s)) c)" "finite (live_set (a_slots s))"
      using inv(2) c by (auto simp: inv_moving_def inv_at_def class_rings_def live_set_def)
    then have "in_cls (a_slots s) (live_set (a_slots s)) c = {}" using True by (simp add: in_cls_def)
    then show ?thesis using r True by (intro exI [of _ "[]"]) (simp add: EvictOneFrom_def clock_victim_def)
  next
    case False
    obtain ys where ys: "sweep s c ys" "set ys = in_cls (a_slots s) (live_set (a_slots s)) c" "length ys = c_resident_count (a_classes s ! c)"
      using sweep_exists [OF inv(2) c False] by blast
    have "case clock_victim s ys of
       None \<Rightarrow> \<not> ok
     | Some v \<Rightarrow> ok = (case on_slot_evict (a_opt s) of None \<Rightarrow> True | Some f \<Rightarrow> fst (f (m_ref (a_slots s ! v)) (a_world s))) \<and>
         (ok \<longrightarrow> ev' = ev @ [m_key (a_slots s ! v)] \<and> residents s' = residents s |` (- {m_key (a_slots s ! v)}))"
    proof (cases "clock_victim s ys")
      case (Some v)
      obtain t where t: "scan_same c s t" "evict_slot v t ev = (ok, s', ev')" using EvictOneFrom_victim [OF inv(2) c ys Some r] by blast
      note O = evict_slot_outcome [OF t(2)]
      have "ok = (case on_slot_evict (a_opt s) of None \<Rightarrow> True | Some f \<Rightarrow> fst (f (m_ref (a_slots s ! v)) (a_world s)))"
        using O(3) t(1) by (simp add: scan_same_def call_slot_evict_def split: option.splits prod.splits)
      moreover have "ev' = ev @ [m_key (a_slots s ! v)]" if ok using O(1) t(1) that by (simp add: scan_same_def)
      ultimately show ?thesis using E(2) Some by (auto simp: evicts_def)
    next
      case None
      then have "\<not> ok" using EvictOneFrom_blocked [OF inv(2) c _ r] ys(2) by (simp add: clock_victim_None)
      then show ?thesis using None by simp
    qed
    then show ?thesis using ys refused by blast
  qed
qed

theorem EvictOneFrom_second_chance_witness:
  "\<exists>(s :: unit SlabAllocator) s'. reachable s \<and> EvictOneFrom 0 s [] = (True, s', [sample_key]) \<and> residents s sample_key \<noteq> None \<and> residents s' sample_key = None"
proof -
  obtain r i s where P: "Put sample_key 3 sample_empty = Some (Some (r, i), s, [])" "reachable s" "residents s = [sample_key \<mapsto> fresh_resident r 3]"
    using sample_put by blast
  have inv: "slab_inv s" "stable sample_empty s"
    using alloc_invD(1) [OF reachable_inv [OF P(2)]] Put_absent [OF sample_books(3), of sample_key 3] P(1) by (auto simp: sample_states put_done_def)
  have n: "length (a_classes s) = 1" "a_opt s = sample_opt" using inv(2) by (simp_all add: stable_def sample_empty_state)
  obtain j where j: "Find (a_index s) sample_key = Some j" "abs_meta (a_slots s ! j) = fresh_resident r 3"
    using fun_cong [OF P(3), of sample_key] by (auto simp: residents_def)
  have "ref_cls (m_ref (a_slots s ! j)) < length (a_classes s)"
    using inv_at_entry(5) [of s "live_set (a_slots s)" "{}" j] resident_entry(1) [OF inv(1) j(1)] inv(1) by (simp add: slab_inv_def inv_moving_def)
  then have m: "j \<in> in_cls (a_slots s) (live_set (a_slots s)) 0" using n resident_entry(1) [OF inv(1) j(1)] by (simp add: in_cls_def)
  have free: "free_entry s j" "m_key (a_slots s ! j) = sample_key"
    using j resident_entry [OF inv(1) j(1)] by (simp_all add: free_entry_def abs_meta_def fresh_resident_def)
  have only: "m_key (a_slots s ! v) = sample_key" if "v \<in> live_set (a_slots s)" for v
  proof -
    have "Find (a_index s) (m_key (a_slots s ! v)) = Some v" using that inv_moving_index(2) [of s "{}"] inv(1) by (simp add: slab_inv_def)
    then have "residents s (m_key (a_slots s ! v)) \<noteq> None" by (simp add: residents_def)
    then show ?thesis using P(3) by (auto split: if_splits)
  qed
  obtain ok s' ev' where r: "EvictOneFrom 0 s [] = (ok, s', ev')" by (rule prod_cases3)
  obtain ys where ys: "set ys = in_cls (a_slots s) (live_set (a_slots s)) 0"
    "case clock_victim s ys of None \<Rightarrow> \<not> ok
       | Some v \<Rightarrow> ok \<and> ev' = [] @ [m_key (a_slots s ! v)] \<and> residents s' = residents s |` (- {m_key (a_slots s ! v)})"
    using EvictOneFrom_second_chance [OF P(2) _ r] n sample_callbacks by (auto split: option.splits)
  obtain v where v: "clock_victim s ys = Some v" using clock_victim_None [of s ys] ys(1) m free(1) by (cases "clock_victim s ys") auto
  then have "v \<in> live_set (a_slots s)" using clock_victim_Some ys(1) by (fastforce simp: in_cls_def)
  from only [OF this] ys(2) v r P(3)
  have "EvictOneFrom 0 s [] = (True, s', [sample_key])" "residents s sample_key \<noteq> None" "residents s' sample_key = None" by auto
  then show ?thesis using P(2) by blast
qed

text \<open>
  C14: The watermark sweep stays within its budget and does not overshoot: it reports exactly the
  residents it evicted, at most the given number, none of them pinned or protected, and once it
  evicted anything the used bytes are less than one extent below the target.
\<close>

theorem EvictColdToTarget_bounds:
  assumes s: "reachable s" and r: "EvictColdToTarget target m s [] = (n, s', ev)"
  shows "n = length ev \<and> n \<le> m \<and> distinct ev \<and> residents s' = residents s |` (- set ev) \<and>
    (\<forall>k\<in>set ev. \<exists>r. residents s k = Some r \<and> r_refs r = 0 \<and> r_until r = 0) \<and>
    (ev \<noteq> [] \<longrightarrow> target < a_used_bytes s' + o_extent_bytes (a_opt s))"
  using EvictColdToTarget_ok [OF alloc_invD(1) [OF reachable_inv [OF s]] r] by (auto simp: evicts_def evictable_def)

theorem EvictColdToTarget_bounds_witness:
  "\<exists>s'. EvictColdToTarget 0 9 sample_kept [] = (0, s', []) \<and> residents s' = residents sample_kept"
proof -
  obtain n s' ev where r: "EvictColdToTarget 0 9 sample_kept [] = (n, s', ev)" by (rule prod_cases3)
  note B = EvictColdToTarget_bounds [OF sample_states(1) r]
  have "ev = []" using B by (cases ev) (auto simp: sample_states sample_resident_def split: if_splits)
  then show ?thesis using B r by (simp add: restrict_map_def)
qed

subsection \<open>Size classes\<close>

text \<open>
  C15: The constructor builds a strictly increasing lattice of slot sizes, from one alignment
  unit to the largest aligned size an extent holds, and every length the extent can hold is served
  by the smallest class whose slots fit it.
\<close>

theorem ClassForLen_smallest:
  assumes al: "o_align (normalize_options opt) \<le> max_aligned (normalize_options opt)" and len: "len \<le> max_aligned (normalize_options opt)"
    and s: "s = new_allocator opt env w"
  shows "sorted_wrt (<) (map c_slot_size (a_classes s)) \<and> ClassForLen s len < length (a_classes s) \<and>
    len \<le> c_slot_size (a_classes s ! ClassForLen s len) \<and>
    (\<forall>d<length (a_classes s). len \<le> c_slot_size (a_classes s ! d) \<longrightarrow>
       c_slot_size (a_classes s ! ClassForLen s len) \<le> c_slot_size (a_classes s ! d))"
proof -
  let ?o = "normalize_options opt"
  have a0: "0 < o_align ?o" by (rule normalize_options_props)
  have f: "a_classes s = build_classes ?o (o_align ?o)" "a_opt s = ?o" by (simp_all add: s new_allocator_def Let_def)
  have ch: "on_chain ?o (o_align ?o)" using al a0 by (simp add: on_chain_def)
  note L = build_classes_lattice [OF a0 ch, folded f(1)]
  let ?z = "CanonicalSlotSize ?o len"
  have z: "?z \<in> c_slot_size ` set (a_classes s)" "len \<le> ?z" "\<forall>z'\<in>c_slot_size ` set (a_classes s). len \<le> z' \<longrightarrow> ?z \<le> z'"
    using L len by (auto simp: CanonicalSlotSize_def Let_def)
  have "ClassForLen s len < length (a_classes s) \<and> c_slot_size (a_classes s ! ClassForLen s len) = ?z"
    using z(1) find_class_props(2-4) [of "a_classes s" ?z 0] by (fastforce simp: ClassForLen_def ClassForExactSize_def f(2))
  then show ?thesis using L z(2,3) by auto
qed

theorem ClassForLen_smallest_witness:
  "3 \<le> c_slot_size (a_classes (new_allocator sample_opt None ()) ! ClassForLen (new_allocator sample_opt None ()) 3)"
proof -
  have "o_align (normalize_options sample_opt) \<le> max_aligned (normalize_options sample_opt)" "3 \<le> max_aligned (normalize_options sample_opt)"
    unfolding sample_opt_fits(2) by (simp_all add: sample_opt_def max_aligned_def UINT32_MAX_def)
  from ClassForLen_smallest [OF this refl, of None "()"] show ?thesis by simp
qed

subsection \<open>Retention\<close>

text \<open>
  C16: Expiry is never early and late by less than one wheel tick. A pass at the given time keeps
  every resident and its place, leaves a deadline in the future alone, and ends every protection
  whose deadline lies in an earlier ten-second tick than the (monotone) clock.
\<close>

theorem ExpireRetention_due:
  assumes s: "reachable s" and now: "now \<le> UINT32_MAX" and r: "residents s k = Some r"
  shows "\<exists>r'. residents (snd (ExpireRetention now s)) k = Some r' \<and> r_ref r' = r_ref r \<and> r_refs r' = r_refs r \<and>
    (max now (a_retain_now_s s) < r_until r \<longrightarrow> r_until r' = r_until r) \<and>
    (r_until r div kWheelTickS < max now (a_retain_now_s s) div kWheelTickS \<longrightarrow> r_until r' = 0)"
proof -
  let ?s = "snd (ExpireRetention now s)"
  have e: "expire_done now s ?s" by (rule ExpireRetention_ok [OF alloc_invD(1,2) [OF reachable_inv [OF s]] now])
  then obtain W where W: "residents ?s = expire_map (max now (a_retain_now_s s)) W (residents s)" by (auto simp: expire_done_def)
  let ?r = "if expired (max now (a_retain_now_s s)) W k r then r\<lparr>r_until := 0\<rparr> else r"
  have q: "residents ?s k = Some ?r" using r by (simp add: W expire_map_def)
  have "max now (a_retain_now_s s) div kWheelTickS \<le> r_until ?r div kWheelTickS" if n: "r_until ?r \<noteq> 0"
  proof -
    have "protects ?s k (r_until ?r)" using n q by (simp add: protects_def)
    then show ?thesis using e unfolding expire_done_def by metis
  qed
  then have "r_until ?r = 0" if "r_until r div kWheelTickS < max now (a_retain_now_s s) div kWheelTickS"
    using that by (cases "expired (max now (a_retain_now_s s)) W k r") (simp, simp only: if_False, meson not_le)
  moreover have "max now (a_retain_now_s s) < r_until r \<Longrightarrow> r_until ?r = r_until r" by (auto simp: expired_def)
  moreover have "r_ref ?r = r_ref r" "r_refs ?r = r_refs r" by simp_all
  ultimately show ?thesis using q by blast
qed

theorem ExpireRetention_due_witness:
  "\<exists>r'. residents (snd (ExpireRetention 1510 sample_kept)) sample_key = Some r' \<and> r_until r' = 0"
proof -
  have "residents sample_kept sample_key = Some sample_resident" by (simp add: sample_states)
  from ExpireRetention_due [OF sample_states(1) _ this, of 1510] show ?thesis
    by (auto simp: sample_kept_clock sample_resident_def UINT32_MAX_def kWheelTickS_def)
qed

text \<open>
  C17: A retention request that is granted moves the deadline of exactly the requested key to the
  later of its old deadline and the clock plus the granted time, never shortening a protection; a
  new protection is charged its slot and stays within the byte budget; a refused request changes no
  resident, and a miss is reported exactly for a key that is absent or pending removal.
\<close>

theorem Retain_outcome:
  assumes s: "reachable s" and now: "now \<le> UINT32_MAX" and r: "Retain k ttl mode now s = (out, s')"
  shows "if out_code out \<in> {kProtectedNew, kRefreshed, kUpgraded, kUnchanged}
    then \<exists>r. residents s k = Some r \<and> \<not> r_pending r \<and> ro_enabled (a_retain s) \<and> out_ref out = r_ref r \<and>
      out_until out = max (r_until r) (min (max now (a_retain_now_s s) + retain_ttl ttl mode s r) UINT32_MAX) \<and>
      residents s' = (residents s)(k \<mapsto> r\<lparr>r_until := out_until out, r_ttl := retain_ttl ttl mode s r\<rparr>) \<and>
      (out_code out = kProtectedNew \<longleftrightarrow> r_until r = 0) \<and>
      a_protected_bytes s' = a_protected_bytes s + (if r_until r = 0 then ref_slot_size (r_ref r) else 0) \<and>
      (r_until r = 0 \<longrightarrow> a_protected_bytes s' \<le> ro_budget_bytes (a_retain s))
    else residents s' = residents s \<and> a_protected_bytes s' = a_protected_bytes s \<and>
      (out_code out = kMiss \<longleftrightarrow> fst (Get k s) = None)"
proof -
  note I = alloc_invD(1,2) [OF reachable_inv [OF s]]
  have "retain_done k ttl mode now s out s'" using Retain_ok [OF I now, of k ttl mode] r by simp
  then show ?thesis unfolding retain_done_def Get_ok(1) [OF I(1)] by blast
qed

theorem Retain_outcome_witness:
  "residents (snd (Retain other_key 60 kSet 1000 sample_kept)) = residents sample_kept \<and>
   out_code (fst (Retain other_key 60 kSet 1000 sample_kept)) = kMiss"
proof -
  have "fst (Get other_key sample_kept) = None" using Get_ok(1) [OF sample_books(1), of other_key] sample_other(2) by (simp add: visible_def)
  then show ?thesis using Retain_outcome [OF sample_states(1), of 1000 other_key 60 kSet] sample_other(2)
    by (cases "Retain other_key 60 kSet 1000 sample_kept") (auto simp: UINT32_MAX_def split: if_splits)
qed

subsection \<open>Restart and handles\<close>

text \<open>
  C18: Rebuilding from persisted metadata is all or nothing. A batch is accepted exactly when
  every entry checks out against the allocator and no key repeats; then its keys are distinct, were
  absent, and are resident at their recorded places; a rejected batch changes nothing at all.
\<close>

theorem RestoreBulk_all_or_nothing:
  assumes s: "reachable s" and ty: "\<forall>e\<in>set es. re_retain_until e \<le> UINT32_MAX" and r: "RestoreBulk es s = (ok, s')"
  shows "if restore_check s {} Map.empty es \<and> \<not> adjacent_find (sort_key key_order (map re_key es))
    then ok \<and> distinct (map re_key es) \<and> re_key ` set es \<inter> dom (residents s) = {} \<and> residents s' = residents s ++ re_map s es
    else \<not> ok \<and> s' = s"
proof -
  have "dom (re_map s es) = re_key ` set es" by (simp add: re_map_def dom_map_of_conv_image_fst image_image)
  moreover have ok: "ok = (restore_check s {} Map.empty es \<and> \<not> adjacent_find (sort_key key_order (map re_key es)))"
    and "if ok then distinct (map re_key es) \<and> residents s' = residents s ++ re_map s es \<and> dom (re_map s es) \<inter> dom (residents s) = {} else s' = s"
    using RestoreBulk_ok [OF alloc_invD [OF reachable_inv [OF s]] ty r] by blast+
  ultimately show ?thesis unfolding ok [symmetric] by (cases ok) simp_all
qed

theorem RestoreBulk_all_or_nothing_witness:
  "RestoreBulk [sample_entry] sample_empty = (True, sample_kept) \<and> RestoreBulk [sample_entry, sample_entry] sample_empty = (False, sample_empty)"
proof -
  obtain ok s ok2 s2 where r: "RestoreBulk [sample_entry] sample_empty = (ok, s)" "RestoreBulk [sample_entry, sample_entry] sample_empty = (ok2, s2)"
    by fastforce
  have ty: "\<forall>e\<in>set [sample_entry]. re_retain_until e \<le> UINT32_MAX" "\<forall>e\<in>set [sample_entry, sample_entry]. re_retain_until e \<le> UINT32_MAX"
    by (simp_all add: sample_entry_def UINT32_MAX_def)
  have "ok" using RestoreBulk_all_or_nothing [OF sample_states(5) ty(1) r(1)] sample_restores by simp
  moreover have "\<not> ok2 \<and> s2 = sample_empty"
    using RestoreBulk_all_or_nothing [OF sample_states(5) ty(2) r(2)] by (auto split: if_splits)
  ultimately show ?thesis using r by (simp add: sample_kept_def)
qed

text \<open>
  Pinning and unpinning through a handle is the same as through the key as long as the handle
  is the key's current one, and does nothing for any other handle: a stale handle can neither pin a
  slot that was reused nor drop somebody else's pin.
\<close>

lemma handles_are_checked:
  assumes s: "reachable s"
  shows "PinHandle k h s = (if Find (a_index s) k = Some h then Pin k s else (False, s)) \<and>
    UnpinHandle k h s = (if Find (a_index s) k = Some h then Unpin k s else (False, s))"
  using PinHandle_Pin UnpinHandle_Unpin alloc_invD(1) [OF reachable_inv [OF s]] by blast

end
