(* ===== verification/Wire.thy ===== *)
theory Wire
  imports Kv_Types
begin

text \<open>
  The native wire format of \<^verbatim>\<open>transport/wire.h\<close>, the legacy control-plane framing of
  \<^verbatim>\<open>transport/wire_legacy.h\<close> and the payload bounds of \<^verbatim>\<open>utils/wire_limits.h\<close>. An encoder that
  fills a fixed-size buffer is the function returning those bytes; a decoder that reports failure
  returns \<open>None\<close>. Exactness lemmas say which frames each decoder accepts.
\<close>

subsection \<open>Reading fixed-width fields\<close>

lemma field_U64: "off + 8 \<le> length p \<Longrightarrow> drop off p = PutU64 (GetU64 p off) @ drop (off + 8) p"
  by (simp add: PutU64_take_drop flip: drop_drop) (metis append_take_drop_id add.commute drop_drop)

lemma field_U32: "off + 4 \<le> length p \<Longrightarrow> drop off p = PutU32 (GetU32 p off) @ drop (off + 4) p"
  by (simp add: PutU32_take_drop flip: drop_drop) (metis append_take_drop_id add.commute drop_drop)

lemma field_U8: "off < length p \<Longrightarrow> drop off p = p ! off # drop (Suc off) p"
  by (rule Cons_nth_drop_Suc [symmetric])

subsection \<open>Requests and responses\<close>

datatype WireOp = kCache | kRange | kExist | kStats | kMembers | kRegister | kHeartbeat | kListMembers
  | kRemove | kListGroups | kClientRegister | kClientHeartbeat | kListClients | kLookup | kListTopology
  | kPullRange | kPullRelease | kLeasePut | kRetain

fun wire_op_byte :: "WireOp \<Rightarrow> u8" where
  "wire_op_byte kCache = 1"
| "wire_op_byte kRange = 2"
| "wire_op_byte kExist = 3"
| "wire_op_byte kStats = 4"
| "wire_op_byte kMembers = 5"
| "wire_op_byte kRegister = 6"
| "wire_op_byte kHeartbeat = 7"
| "wire_op_byte kListMembers = 8"
| "wire_op_byte kRemove = 9"
| "wire_op_byte kListGroups = 10"
| "wire_op_byte kClientRegister = 11"
| "wire_op_byte kClientHeartbeat = 12"
| "wire_op_byte kListClients = 13"
| "wire_op_byte kLookup = 14"
| "wire_op_byte kListTopology = 15"
| "wire_op_byte kPullRange = 16"
| "wire_op_byte kPullRelease = 17"
| "wire_op_byte kLeasePut = 18"
| "wire_op_byte kRetain = 19"

definition kNativeProtoTcp :: u8 where
  "kNativeProtoTcp = 6"

definition kNativeProtoRdmaV2 :: u8 where
  "kNativeProtoRdmaV2 = 8"

definition kMaxFrameLen :: u64 where
  "kMaxFrameLen = push_bit 34 1"

definition kReqPrefix :: nat where
  "kReqPrefix = 1 + 1 + 8 + 8 + 8 + 8 + 8 + 8"

definition kRespPrefix :: nat where
  "kRespPrefix = 1 + 1 + 8 + 8"

definition EncodeReqVersion :: "u8 \<Rightarrow> WireOp \<Rightarrow> BlockKey \<Rightarrow> u64 \<Rightarrow> u64 \<Rightarrow> u64 \<Rightarrow> bytes" where
  "EncodeReqVersion version opc k offset len payload_len =
     [version, wire_op_byte opc] @ PutU64 (tenant_hash k) @ PutU64 (digest_hi k) @ PutU64 (digest_lo k) @
     PutU64 offset @ PutU64 len @ PutU64 payload_len"

definition EncodeReq :: "WireOp \<Rightarrow> BlockKey \<Rightarrow> u64 \<Rightarrow> u64 \<Rightarrow> u64 \<Rightarrow> bytes" where
  "EncodeReq opc k offset len payload_len = EncodeReqVersion kNativeProtoTcp opc k offset len payload_len"

record ReqFields =
  rf_op :: u8
  rf_tenant_hash :: u64
  rf_digest_hi :: u64
  rf_digest_lo :: u64
  rf_offset :: u64
  rf_length :: u64
  rf_payload_len :: u64

definition ReqFields_Key :: "ReqFields \<Rightarrow> BlockKey" where
  "ReqFields_Key o0 = \<lparr>digest_hi = rf_digest_hi o0, digest_lo = rf_digest_lo o0, tenant_hash = rf_tenant_hash o0\<rparr>"

definition DecodeReqVersion :: "bytes \<Rightarrow> u8 \<Rightarrow> u64 \<Rightarrow> ReqFields option" where
  "DecodeReqVersion p expected_version max_payload =
     (if p ! 0 \<noteq> expected_version then None
      else let f = \<lparr>rf_op = p ! 1, rf_tenant_hash = GetU64 p 2, rf_digest_hi = GetU64 p 10, rf_digest_lo = GetU64 p 18,
                    rf_offset = GetU64 p 26, rf_length = GetU64 p 34, rf_payload_len = GetU64 p 42\<rparr>
           in if rf_payload_len f \<le> max_payload then Some f else None)"

definition DecodeReq :: "bytes \<Rightarrow> u64 \<Rightarrow> ReqFields option" where
  "DecodeReq p max_payload = DecodeReqVersion p kNativeProtoTcp max_payload"

definition EncodeRespVersion :: "u8 \<Rightarrow> Status \<Rightarrow> u64 \<Rightarrow> u64 \<Rightarrow> bytes" where
  "EncodeRespVersion version st data_len value_len = [version, status_byte st] @ PutU64 data_len @ PutU64 value_len"

definition EncodeResp :: "Status \<Rightarrow> u64 \<Rightarrow> u64 \<Rightarrow> bytes" where
  "EncodeResp st data_len value_len = EncodeRespVersion kNativeProtoTcp st data_len value_len"

text \<open>\<^verbatim>\<open>static_cast<Status>(raw)\<close>, defined on the bytes the decoder lets through.\<close>

definition status_of_byte :: "u8 \<Rightarrow> Status" where
  "status_of_byte b =
     (if b = 0 then kOk else if b = 1 then kNotFound else if b = 2 then kCacheFull
      else if b = 3 then kQuotaExceeded else if b = 4 then kIOError else kInvalid)"

definition DecodeRespVersion :: "bytes \<Rightarrow> u8 \<Rightarrow> u64 \<Rightarrow> (Status \<times> u64 \<times> u64) option" where
  "DecodeRespVersion p expected_version max_data =
     (if p ! 0 \<noteq> expected_version then None
      else if p ! 1 > status_byte kInvalid then None
      else if GetU64 p 2 > max_data then None
      else Some (status_of_byte (p ! 1), GetU64 p 2, GetU64 p 10))"

definition DecodeResp :: "bytes \<Rightarrow> u64 \<Rightarrow> (Status \<times> u64 \<times> u64) option" where
  "DecodeResp p max_data = DecodeRespVersion p kNativeProtoTcp max_data"

subsection \<open>The retention payload\<close>

definition kRetainHeaderBytes :: nat where
  "kRetainHeaderBytes = 8"

definition kRetainKeyBytes :: nat where
  "kRetainKeyBytes = 16"

definition kRetainTrailerBytes :: nat where
  "kRetainTrailerBytes = 12"

definition kRetainMaxKeys :: nat where
  "kRetainMaxKeys = 1024"

definition kRetainModeSet :: u8 where
  "kRetainModeSet = 0"

definition kRetainModeRefresh :: u8 where
  "kRetainModeRefresh = 1"

record RetainTrailer =
  rt_server_now_s :: u32
  rt_max_ttl_s :: u32
  rt_headroom_pct :: u8

definition RetainPayloadBytes :: "nat \<Rightarrow> nat" where
  "RetainPayloadBytes count = kRetainHeaderBytes + count * kRetainKeyBytes"

definition EncodeRetainPayload :: "u32 \<Rightarrow> u8 \<Rightarrow> BlockKey list \<Rightarrow> bytes" where
  "EncodeRetainPayload ttl_s mode ks =
     PutU32 ttl_s @ [mode, 0, 0, 0] @ concat (map (\<lambda>k. PutU64 (digest_hi k) @ PutU64 (digest_lo k)) ks)"

definition EncodeRetainTrailer :: "RetainTrailer \<Rightarrow> bytes" where
  "EncodeRetainTrailer t = PutU32 (rt_server_now_s t) @ PutU32 (rt_max_ttl_s t) @ [rt_headroom_pct t, 0, 0, 0]"

definition DecodeRetainTrailer :: "bytes \<Rightarrow> RetainTrailer" where
  "DecodeRetainTrailer p = \<lparr>rt_server_now_s = GetU32 p 0, rt_max_ttl_s = GetU32 p 4, rt_headroom_pct = p ! 8\<rparr>"

text \<open>The header checks and the key loop of \<^verbatim>\<open>KvNodeServer::ProcessRetain\<close>.\<close>

definition retain_request :: "u64 \<Rightarrow> u64 \<Rightarrow> bytes \<Rightarrow> (u32 \<times> u8 \<times> BlockKey list) option" where
  "retain_request tenant count payload =
     (if count = 0 \<or> unat count > kRetainMaxKeys \<or> length payload \<noteq> RetainPayloadBytes (unat count) then None
      else if payload ! 4 > kRetainModeRefresh then None
      else Some (GetU32 payload 0, payload ! 4,
             map (\<lambda>i. \<lparr>digest_hi = GetU64 payload (kRetainHeaderBytes + i * kRetainKeyBytes),
                        digest_lo = GetU64 payload (kRetainHeaderBytes + i * kRetainKeyBytes + 8), tenant_hash = tenant\<rparr>)
               [0..<unat count]))"

subsection \<open>The legacy control plane\<close>

definition kNativeProtoLegacyTcp :: u8 where
  "kNativeProtoLegacyTcp = 1"

definition kLegacyReqPrefix :: nat where
  "kLegacyReqPrefix = 1 + 1 + 8 + 4 + 4 + 8 + 8 + 8"

definition kLegacyRespPrefix :: nat where
  "kLegacyRespPrefix = 1 + 1 + 8"

definition EncodeLegacyReq :: "WireOp \<Rightarrow> u64 \<Rightarrow> bytes" where
  "EncodeLegacyReq opc payload_len =
     [kNativeProtoLegacyTcp, wire_op_byte opc] @ PutU64 0 @ PutU32 0 @ PutU32 0 @ PutU64 0 @ PutU64 0 @ PutU64 payload_len"

definition DecodeLegacyReq :: "bytes \<Rightarrow> u64 \<Rightarrow> ReqFields option" where
  "DecodeLegacyReq p max_payload =
     (if p ! 0 \<noteq> kNativeProtoLegacyTcp then None
      else let f = \<lparr>rf_op = p ! 1, rf_tenant_hash = 0, rf_digest_hi = 0, rf_digest_lo = 0,
                    rf_offset = 0, rf_length = 0, rf_payload_len = GetU64 p 34\<rparr>
           in if rf_payload_len f \<le> max_payload then Some f else None)"

fun LegacyStatusByte :: "Status \<Rightarrow> u8" where
  "LegacyStatusByte kOk = 0"
| "LegacyStatusByte kNotFound = 1"
| "LegacyStatusByte kCacheFull = 2"
| "LegacyStatusByte kQuotaExceeded = 3"
| "LegacyStatusByte kIOError = 3"
| "LegacyStatusByte kInvalid = 4"
| "LegacyStatusByte kResourceExhausted = 3"
| "LegacyStatusByte kNoCompatibleRail = 3"

definition EncodeLegacyResp :: "Status \<Rightarrow> u64 \<Rightarrow> bytes" where
  "EncodeLegacyResp st data_len = [kNativeProtoLegacyTcp, LegacyStatusByte st] @ PutU64 data_len"

subsection \<open>Payload bounds\<close>

definition kIoAlign :: nat where
  "kIoAlign = 4096"

definition kPayloadHardCap :: nat where
  "kPayloadHardCap = UINT32_MAX - 2 * kIoAlign"

text \<open>
  \<^verbatim>\<open>strtoull(v, &end, 10)\<close>: leading white space, an optional sign, decimal digits. The result is
  the value, whether \<^verbatim>\<open>errno\<close> was set, and whether no digit was consumed (\<^verbatim>\<open>end == v\<close>).
\<close>

definition is_space :: "char \<Rightarrow> bool" where
  "is_space c \<longleftrightarrow> c \<in> {CHR 0x20, CHR 0x09, CHR 0x0A, CHR 0x0B, CHR 0x0C, CHR 0x0D}"

definition is_digit :: "char \<Rightarrow> bool" where
  "is_digit c \<longleftrightarrow> 48 \<le> (of_char c :: nat) \<and> (of_char c :: nat) \<le> 57"

definition digits_value :: "string \<Rightarrow> nat" where
  "digits_value ds = foldl (\<lambda>acc c. acc * 10 + (of_char c - 48)) 0 ds"

definition strtoull :: "string \<Rightarrow> nat \<times> bool \<times> bool" where
  "strtoull v =
     (let t = dropWhile is_space v;
          neg = (t \<noteq> [] \<and> hd t = CHR ''-'');
          u = (if t \<noteq> [] \<and> hd t \<in> {CHR ''-'', CHR ''+''} then tl t else t);
          ds = takeWhile is_digit u; x = digits_value ds
      in if ds = [] then (0, False, True)
         else if x > UINT64_MAX then (UINT64_MAX, True, False)
         else (if neg \<and> x \<noteq> 0 then UINT64_MAX + 1 - x else x, False, False))"

definition EnvBytes :: "string option \<Rightarrow> nat \<Rightarrow> nat" where
  "EnvBytes v dflt =
     (case v of
        None \<Rightarrow> dflt
      | Some v \<Rightarrow> if v = [] then dflt
          else (case strtoull v of (x, err, none) \<Rightarrow>
                  if err \<or> none \<or> x = 0 then dflt else min x kPayloadHardCap))"

definition ResolveMaxPayload :: "string option \<Rightarrow> nat \<Rightarrow> nat" where
  "ResolveMaxPayload env configured =
     (let n = EnvBytes env (if configured \<noteq> 0 then configured else 64 * 2 ^ 20)
      in if n > kPayloadHardCap then kPayloadHardCap else n)"

definition MaxRequestPayload :: "string option \<Rightarrow> nat \<Rightarrow> nat" where
  "MaxRequestPayload env configured_max_value = ResolveMaxPayload env configured_max_value"

subsection \<open>Exactness of the decoders\<close>

lemma wire_op_byte_inject: "wire_op_byte a = wire_op_byte b \<longleftrightarrow> a = b"
  by (cases a; cases b) simp_all

lemma length_EncodeReqVersion [codec_simps]: "length (EncodeReqVersion v opc k off n m) = kReqPrefix"
  by (simp add: EncodeReqVersion_def kReqPrefix_def)

lemma length_EncodeRespVersion [codec_simps]: "length (EncodeRespVersion v st n m) = kRespPrefix"
  by (simp add: EncodeRespVersion_def kRespPrefix_def)

lemmas get_field = GetU64_def GetU32_def

lemma status_of_byte_inverse:
  assumes "b \<le> status_byte kInvalid"
  shows "status_byte (status_of_byte b) = b"
proof -
  have "unat b \<le> 5" using assms by (simp add: word_le_nat_alt)
  then have "unat b \<in> set [0..<6]" by simp
  from word_in_enum [OF this] show ?thesis by (auto simp: upt_rec status_of_byte_def)
qed

lemma wire_status: "status_byte st \<le> status_byte kInvalid \<Longrightarrow> status_of_byte (status_byte st) = st"
  by (cases st) (auto simp: status_of_byte_def)

lemma DecodeReqVersion_exact:
  assumes "length p = kReqPrefix"
  shows "DecodeReqVersion p v m = Some f \<longleftrightarrow> rf_payload_len f \<le> m \<and>
    p = [v, rf_op f] @ PutU64 (rf_tenant_hash f) @ PutU64 (rf_digest_hi f) @ PutU64 (rf_digest_lo f) @
        PutU64 (rf_offset f) @ PutU64 (rf_length f) @ PutU64 (rf_payload_len f)" (is "?L \<longleftrightarrow> ?R")
proof
  have n: "length p = 50" using assms by (simp add: kReqPrefix_def)
  have "p = p ! 0 # p ! 1 # drop 2 p" using field_U8 [of 0 p] field_U8 [of 1 p] n by (simp add: numeral_2_eq_2)
  also have "drop 2 p = PutU64 (GetU64 p 2) @ drop 10 p" using field_U64 [of 2 p] n by simp
  also have "drop 10 p = PutU64 (GetU64 p 10) @ drop 18 p" using field_U64 [of 10 p] n by simp
  also have "drop 18 p = PutU64 (GetU64 p 18) @ drop 26 p" using field_U64 [of 18 p] n by simp
  also have "drop 26 p = PutU64 (GetU64 p 26) @ drop 34 p" using field_U64 [of 26 p] n by simp
  also have "drop 34 p = PutU64 (GetU64 p 34) @ drop 42 p" using field_U64 [of 34 p] n by simp
  also have "drop 42 p = PutU64 (GetU64 p 42)" using field_U64 [of 42 p] n by simp
  finally have p: "p = [p ! 0, p ! 1] @ PutU64 (GetU64 p 2) @ PutU64 (GetU64 p 10) @ PutU64 (GetU64 p 18) @
      PutU64 (GetU64 p 26) @ PutU64 (GetU64 p 34) @ PutU64 (GetU64 p 42)" by simp
  show ?R if ?L using that by (subst p) (auto simp: DecodeReqVersion_def Let_def split: if_splits)
  show ?L if r: ?R
    using conjunct1 [OF r] unfolding conjunct2 [OF r] DecodeReqVersion_def get_field by (simp add: codec_simps)
qed

lemma DecodeRespVersion_exact:
  assumes "length p = kRespPrefix"
  shows "DecodeRespVersion p v m = Some (st, n, w) \<longleftrightarrow>
    n \<le> m \<and> status_byte st \<le> status_byte kInvalid \<and> p = EncodeRespVersion v st n w" (is "?L \<longleftrightarrow> ?R")
proof
  have l: "length p = 18" using assms by (simp add: kRespPrefix_def)
  have "p = p ! 0 # p ! 1 # drop 2 p" using field_U8 [of 0 p] field_U8 [of 1 p] l by (simp add: numeral_2_eq_2)
  also have "drop 2 p = PutU64 (GetU64 p 2) @ drop 10 p" using field_U64 [of 2 p] l by simp
  also have "drop 10 p = PutU64 (GetU64 p 10)" using field_U64 [of 10 p] l by simp
  finally have p: "p = [p ! 0, p ! 1] @ PutU64 (GetU64 p 2) @ PutU64 (GetU64 p 10)" by simp
  show ?R if ?L
    using that by (subst p) (auto simp: DecodeRespVersion_def EncodeRespVersion_def status_of_byte_inverse not_less split: if_splits)
  show ?L if r: ?R
    using conjunct1 [OF r] conjunct1 [OF conjunct2 [OF r]] unfolding conjunct2 [OF conjunct2 [OF r]] EncodeRespVersion_def DecodeRespVersion_def get_field
    by (simp add: codec_simps wire_status not_less)
qed

lemma retain_keys_field:
  "i < length ks \<Longrightarrow> drop (i * 16) (concat (map (\<lambda>k. PutU64 (digest_hi k) @ PutU64 (digest_lo k)) ks)) =
     PutU64 (digest_hi (ks ! i)) @ PutU64 (digest_lo (ks ! i)) @ concat (map (\<lambda>k. PutU64 (digest_hi k) @ PutU64 (digest_lo k)) (drop (Suc i) ks))"
proof (induction ks arbitrary: i)
  case (Cons k ks)
  then show ?case by (cases i) simp_all
qed simp

lemma length_retain_keys: "length (concat (map (\<lambda>k. PutU64 (digest_hi k) @ PutU64 (digest_lo k)) ks)) = length ks * 16"
  by (induction ks) simp_all

lemma length_EncodeRetainPayload [codec_simps]: "length (EncodeRetainPayload ttl mode ks) = RetainPayloadBytes (length ks)"
  using length_retain_keys [of ks] by (simp add: EncodeRetainPayload_def RetainPayloadBytes_def kRetainHeaderBytes_def kRetainKeyBytes_def)

lemma retain_payload_key:
  assumes "i < length ks"
  shows "GetU64 (EncodeRetainPayload ttl mode ks) (kRetainHeaderBytes + i * kRetainKeyBytes) = digest_hi (ks ! i)"
    "GetU64 (EncodeRetainPayload ttl mode ks) (kRetainHeaderBytes + i * kRetainKeyBytes + 8) = digest_lo (ks ! i)"
proof -
  let ?c = "concat (map (\<lambda>k. PutU64 (digest_hi k) @ PutU64 (digest_lo k)) ks)"
  have "drop 8 (EncodeRetainPayload ttl mode ks) = ?c" by (simp add: EncodeRetainPayload_def)
  moreover have "8 + i * 16 = i * 16 + 8" "8 + i * 16 + 8 = 8 + (i * 16 + 8)" by simp_all
  ultimately have d: "drop (8 + i * 16) (EncodeRetainPayload ttl mode ks) = drop (i * 16) ?c"
    "drop (8 + i * 16 + 8) (EncodeRetainPayload ttl mode ks) = drop 8 (drop (i * 16) ?c)" by (metis drop_drop)+
  show "GetU64 (EncodeRetainPayload ttl mode ks) (kRetainHeaderBytes + i * kRetainKeyBytes) = digest_hi (ks ! i)"
    "GetU64 (EncodeRetainPayload ttl mode ks) (kRetainHeaderBytes + i * kRetainKeyBytes + 8) = digest_lo (ks ! i)"
    unfolding GetU64_def kRetainHeaderBytes_def kRetainKeyBytes_def d retain_keys_field [OF assms] by simp_all
qed

lemma EnvBytes_bound: "0 < dflt \<Longrightarrow> 0 < EnvBytes v dflt \<and> EnvBytes v dflt \<le> max dflt kPayloadHardCap"
  by (auto simp: EnvBytes_def kPayloadHardCap_def kIoAlign_def UINT32_MAX_def split: option.split prod.split)

subsection \<open>Properties\<close>

text \<open>
  C19: The request prefix is decoded exactly: a 50-byte prefix is accepted with the operation and
  fields of a request if and only if it is what the encoder writes for them and the declared
  payload is within the caller's bound; a frame of another epoch is always rejected.
\<close>

theorem request_prefix_exact:
  assumes "length p = kReqPrefix"
  shows "(DecodeReq p m = Some f \<and> rf_op f = wire_op_byte opc) \<longleftrightarrow>
    (p = EncodeReq opc (ReqFields_Key f) (rf_offset f) (rf_length f) (rf_payload_len f) \<and> rf_payload_len f \<le> m \<and> rf_op f = wire_op_byte opc)"
  unfolding DecodeReq_def EncodeReq_def DecodeReqVersion_exact [OF assms] EncodeReqVersion_def ReqFields_Key_def by auto

theorem request_prefix_exact_witness:
  "DecodeReq (EncodeReq kRange \<lparr>digest_hi = 1, digest_lo = 2, tenant_hash = 3\<rparr> 4 5 6) 10 =
     Some \<lparr>rf_op = 2, rf_tenant_hash = 3, rf_digest_hi = 1, rf_digest_lo = 2, rf_offset = 4, rf_length = 5, rf_payload_len = 6\<rparr>"
  using request_prefix_exact [of "EncodeReq kRange \<lparr>digest_hi = 1, digest_lo = 2, tenant_hash = 3\<rparr> 4 5 6" 10
      "\<lparr>rf_op = 2, rf_tenant_hash = 3, rf_digest_hi = 1, rf_digest_lo = 2, rf_offset = 4, rf_length = 5, rf_payload_len = 6\<rparr>" kRange]
  by (simp add: EncodeReq_def length_EncodeReqVersion ReqFields_Key_def)

text \<open>
  C20: The response prefix is decoded exactly: an 18-byte prefix is accepted if and only if it
  is the encoding of a status a peer may send, with a data length within the caller's bound; the
  client-local statuses are rejected.
\<close>

theorem response_prefix_exact:
  assumes "length p = kRespPrefix"
  shows "DecodeResp p m = Some (st, n, w) \<longleftrightarrow>
    p = EncodeResp st n w \<and> n \<le> m \<and> st \<notin> {kResourceExhausted, kNoCompatibleRail}"
  unfolding DecodeResp_def EncodeResp_def DecodeRespVersion_exact [OF assms] by (cases st) auto

theorem response_prefix_exact_witness:
  "DecodeResp (EncodeResp kCacheFull 7 9) 7 = Some (kCacheFull, 7, 9) \<and> DecodeResp (EncodeResp kResourceExhausted 7 9) 7 \<noteq> Some (kResourceExhausted, 7, 9)"
  using response_prefix_exact [of "EncodeResp kCacheFull 7 9" 7 kCacheFull 7 9] response_prefix_exact [of "EncodeResp kResourceExhausted 7 9" 7 kResourceExhausted 7 9]
  by (simp add: EncodeResp_def length_EncodeRespVersion)

text \<open>
  A retention request is understood by the server as the client sent it: parsing the encoded
  body yields the time to live, the mode and the keys, for every batch the protocol allows.
\<close>

lemma retain_request_roundtrip:
  assumes "ks \<noteq> []" "length ks \<le> kRetainMaxKeys" "mode \<le> kRetainModeRefresh" "\<forall>k\<in>set ks. tenant_hash k = tenant"
  shows "retain_request tenant (of_nat (length ks)) (EncodeRetainPayload ttl mode ks) = Some (ttl, mode, ks)"
proof -
  let ?p = "EncodeRetainPayload ttl mode ks"
  have n: "unat (of_nat (length ks) :: u64) = length ks" using assms(2) by (simp add: unat_of_nat kRetainMaxKeys_def)
  then have nz: "(of_nat (length ks) :: u64) \<noteq> 0" using assms(1) by auto
  have h: "GetU32 ?p 0 = ttl" "?p ! 4 = mode" by (simp_all add: EncodeRetainPayload_def GetU32_def nth_append)
  have "map (\<lambda>i. \<lparr>digest_hi = GetU64 ?p (kRetainHeaderBytes + i * kRetainKeyBytes),
      digest_lo = GetU64 ?p (kRetainHeaderBytes + i * kRetainKeyBytes + 8), tenant_hash = tenant\<rparr>) [0..<length ks] = ks"
    using assms(4) by (intro nth_equalityI) (auto simp: retain_payload_key)
  then show ?thesis unfolding retain_request_def n h using nz assms(2,3) by (simp add: length_EncodeRetainPayload not_less)
qed

text \<open>
  Whatever the configuration and the environment say, the payload bound every socket passes
  to the decoder is positive and leaves room for alignment inside a 32-bit length.
\<close>

lemma MaxRequestPayload_bounds:
  "0 < MaxRequestPayload env configured \<and> MaxRequestPayload env configured + 2 * kIoAlign \<le> UINT32_MAX"
  using EnvBytes_bound [of "if configured \<noteq> 0 then configured else 64 * 2 ^ 20" env]
  by (auto simp: MaxRequestPayload_def ResolveMaxPayload_def Let_def kPayloadHardCap_def kIoAlign_def UINT32_MAX_def)

end
