(* ===== verification/Rdma_Protocol.thy ===== *)
theory Rdma_Protocol
  imports Wire
begin

text \<open>
  The RDMA bootstrap frame of \<^verbatim>\<open>transport/dev_frame.h\<close> and the verbs-free codecs and geometry
  checks of \<^verbatim>\<open>transport/rdma_protocol.h\<close>. Device names are byte strings; \<^verbatim>\<open>memcpy\<close> of an integer
  is the host-endian codec of the prelude.
\<close>

subsection \<open>The device frame\<close>

definition kDevNameBytes :: nat where
  "kDevNameBytes = 32"

definition kDevCapsV2Magic :: u32 where
  "kDevCapsV2Magic = 0x32504344"

definition kDevProtoV2 :: u8 where
  "kDevProtoV2 = 2"

definition kDevFrameRequestWriterRetirement :: u64 where
  "kDevFrameRequestWriterRetirement = push_bit 63 1"

definition kDevFrameRequestPullRead :: u64 where
  "kDevFrameRequestPullRead = push_bit 62 1"

definition kDevFrameRequestLeasedPut :: u64 where
  "kDevFrameRequestLeasedPut = push_bit 61 1"

definition kDevFrameRequestDynamicPull :: u64 where
  "kDevFrameRequestDynamicPull = push_bit 60 1"

definition kDevFrameRequestDynamicOnly :: u64 where
  "kDevFrameRequestDynamicOnly = push_bit 59 1"

definition kDevFrameMaxBlockMask :: u64 where
  "kDevFrameMaxBlockMask =
     NOT (kDevFrameRequestWriterRetirement OR kDevFrameRequestPullRead OR kDevFrameRequestLeasedPut OR
          kDevFrameRequestDynamicPull OR kDevFrameRequestDynamicOnly)"

definition kDevFrameCapsTrailerBytes :: nat where
  "kDevFrameCapsTrailerBytes = 1 + 4 + 8 + 1"

definition kMaxDeviceNameBytes :: nat where
  "kMaxDeviceNameBytes = kDevNameBytes - kDevFrameCapsTrailerBytes"

definition DeviceNameFitsFrame :: "bytes \<Rightarrow> bool" where
  "DeviceNameFitsFrame dev \<longleftrightarrow> length dev \<le> kMaxDeviceNameBytes"

text \<open>\<open>poke out i bs\<close> is \<^verbatim>\<open>memcpy(out + i, bs, n)\<close> into a buffer that holds it.\<close>

definition poke :: "bytes \<Rightarrow> nat \<Rightarrow> bytes \<Rightarrow> bytes" where
  "poke out i bs = take i out @ bs @ drop (i + length bs) out"

definition EncodeDevFrame :: "bytes \<Rightarrow> u64 \<Rightarrow> u8 \<Rightarrow> bytes" where
  "EncodeDevFrame dev max_block_bytes protocol_version =
     (let n = (if length dev < kDevNameBytes - 1 then length dev else kDevNameBytes - 1);
          out = poke (replicate kDevNameBytes 0) 0 (take n dev)
      in if protocol_version \<noteq> kDevProtoV2 \<or> max_block_bytes = 0 \<or> n > kMaxDeviceNameBytes then out
         else poke (poke (poke out (n + 1) (PutU32 kDevCapsV2Magic)) (n + 5) (PutU64 max_block_bytes)) (n + 13) [kDevProtoV2])"

definition name_end :: "bytes \<Rightarrow> nat" where
  "name_end frame = length (takeWhile (\<lambda>c. c \<noteq> 0) (take kDevNameBytes frame))"

definition ParseDevFrameCaps :: "bytes \<Rightarrow> u64" where
  "ParseDevFrameCaps frame =
     (let nul = name_end frame
      in if nul + 1 + 4 + 8 + 1 > kDevNameBytes then 0
         else if GetU32 frame (nul + 1) \<noteq> kDevCapsV2Magic \<or> frame ! (nul + 13) \<noteq> kDevProtoV2 then 0
         else GetU64 frame (nul + 5))"

definition ParseDevFrameMaxBlock :: "bytes \<Rightarrow> u64" where
  "ParseDevFrameMaxBlock frame = ParseDevFrameCaps frame AND kDevFrameMaxBlockMask"

definition DevFrameRequestsWriterRetirement :: "bytes \<Rightarrow> bool" where
  "DevFrameRequestsWriterRetirement frame \<longleftrightarrow> ParseDevFrameCaps frame AND kDevFrameRequestWriterRetirement \<noteq> 0"

definition DevFrameRequestsPullRead :: "bytes \<Rightarrow> bool" where
  "DevFrameRequestsPullRead frame \<longleftrightarrow> ParseDevFrameCaps frame AND kDevFrameRequestPullRead \<noteq> 0"

definition DevFrameRequestsLeasedPut :: "bytes \<Rightarrow> bool" where
  "DevFrameRequestsLeasedPut frame \<longleftrightarrow> ParseDevFrameCaps frame AND kDevFrameRequestLeasedPut \<noteq> 0"

definition DevFrameRequestsDynamicPull :: "bytes \<Rightarrow> bool" where
  "DevFrameRequestsDynamicPull frame \<longleftrightarrow> ParseDevFrameCaps frame AND kDevFrameRequestDynamicPull \<noteq> 0"

definition DevFrameRequestsDynamicOnly :: "bytes \<Rightarrow> bool" where
  "DevFrameRequestsDynamicOnly frame \<longleftrightarrow> ParseDevFrameCaps frame AND kDevFrameRequestDynamicOnly \<noteq> 0"

definition ParseDevFrameProtocol :: "bytes \<Rightarrow> u8" where
  "ParseDevFrameProtocol frame = (if ParseDevFrameCaps frame = 0 then 0 else kDevProtoV2)"

subsection \<open>Probe and retirement frames\<close>

definition kV2ProbeDevice :: bytes where
  "kV2ProbeDevice = ascii ''__dfkv_v2__''"

definition kV2ProbeMagic :: u32 where
  "kV2ProbeMagic = 0x33564644"

definition kV2ProbeReplyBytes :: nat where
  "kV2ProbeReplyBytes = 8"

definition kV2ProbeCapWriterRetirement :: u8 where
  "kV2ProbeCapWriterRetirement = push_bit 0 1"

definition kV2ProbeCapPullRead :: u8 where
  "kV2ProbeCapPullRead = push_bit 1 1"

definition kV2ProbeCapLeasedPut :: u8 where
  "kV2ProbeCapLeasedPut = push_bit 2 1"

definition kV2ProbeCapDynamicPull :: u8 where
  "kV2ProbeCapDynamicPull = push_bit 3 1"

definition kV2ProbeCapDynamicOnly :: u8 where
  "kV2ProbeCapDynamicOnly = push_bit 4 1"

definition IsV2Probe :: "bytes \<Rightarrow> bool" where
  "IsV2Probe frame \<longleftrightarrow> take (name_end frame) frame = kV2ProbeDevice \<and> ParseDevFrameProtocol frame = kDevProtoV2"

definition EncodeV2ProbeReply :: "u8 \<Rightarrow> bytes" where
  "EncodeV2ProbeReply capabilities = PutU32 kV2ProbeMagic @ [kDevProtoV2, capabilities, 0, 0]"

definition ParseV2ProbeReply :: "bytes \<Rightarrow> bool" where
  "ParseV2ProbeReply frame \<longleftrightarrow> GetU32 frame 0 = kV2ProbeMagic \<and> frame ! 4 = kDevProtoV2"

definition ParseV2ProbeCapabilities :: "bytes \<Rightarrow> u8" where
  "ParseV2ProbeCapabilities frame = (if ParseV2ProbeReply frame then frame ! 5 else 0)"

definition V2ProbeSupportsWriterRetirement :: "bytes \<Rightarrow> bool" where
  "V2ProbeSupportsWriterRetirement frame \<longleftrightarrow> ParseV2ProbeCapabilities frame AND kV2ProbeCapWriterRetirement \<noteq> 0"

definition V2ProbeSupportsPullRead :: "bytes \<Rightarrow> bool" where
  "V2ProbeSupportsPullRead frame \<longleftrightarrow> ParseV2ProbeCapabilities frame AND kV2ProbeCapPullRead \<noteq> 0"

definition V2ProbeSupportsLeasedPut :: "bytes \<Rightarrow> bool" where
  "V2ProbeSupportsLeasedPut frame \<longleftrightarrow> ParseV2ProbeCapabilities frame AND kV2ProbeCapLeasedPut \<noteq> 0"

definition V2ProbeSupportsDynamicPull :: "bytes \<Rightarrow> bool" where
  "V2ProbeSupportsDynamicPull frame \<longleftrightarrow> ParseV2ProbeCapabilities frame AND kV2ProbeCapDynamicPull \<noteq> 0"

definition V2ProbeSupportsDynamicOnly :: "bytes \<Rightarrow> bool" where
  "V2ProbeSupportsDynamicOnly frame \<longleftrightarrow> ParseV2ProbeCapabilities frame AND kV2ProbeCapDynamicOnly \<noteq> 0"

definition kV2RetireWriterDevice :: bytes where
  "kV2RetireWriterDevice = ascii ''__dfkv_retire__''"

definition kV2RetireProofMagic :: u64 where
  "kV2RetireProofMagic = 0x32524657564b4644"

definition kV2WriterTokenBytes :: nat where
  "kV2WriterTokenBytes = 8"

definition kV2RetireProofBytes :: nat where
  "kV2RetireProofBytes = 16"

definition IsV2RetireWriter :: "bytes \<Rightarrow> bool" where
  "IsV2RetireWriter frame \<longleftrightarrow> take (name_end frame) frame = kV2RetireWriterDevice \<and>
     ParseDevFrameProtocol frame = kDevProtoV2 \<and> ParseDevFrameCaps frame \<noteq> 0"

definition EncodeV2RetireProof :: "u64 \<Rightarrow> bytes" where
  "EncodeV2RetireProof token = PutU64 kV2RetireProofMagic @ PutU64 token"

definition ParseV2RetireProof :: "bytes \<Rightarrow> u64 \<Rightarrow> bool" where
  "ParseV2RetireProof frame token \<longleftrightarrow> GetU64 frame 0 = kV2RetireProofMagic \<and> GetU64 frame 8 = token"

subsection \<open>Slot geometry\<close>

definition kV2ControlResponseMax :: nat where
  "kV2ControlResponseMax = 32 * 2 ^ 10"

definition kV2ControlCap :: nat where
  "kV2ControlCap = kRespPrefix + kV2ControlResponseMax"

definition kV2DataOffset :: u64 where
  "kV2DataOffset = 4096"

definition kV2PutPrefixOffset :: u64 where
  "kV2PutPrefixOffset = kV2DataOffset - of_nat kReqPrefix"

definition rdma_AlignUp :: "u64 \<Rightarrow> u64 \<Rightarrow> u64" where
  "rdma_AlignUp value alignment =
     (if alignment = 0 \<or> alignment AND (alignment - 1) \<noteq> 0 \<or> value > - 1 - (alignment - 1) then 0
      else (value + alignment - 1) AND NOT (alignment - 1))"

definition V2SlotSize :: "u64 \<Rightarrow> u64" where
  "V2SlotSize max_block_bytes =
     (if max_block_bytes > - 1 - kV2DataOffset then 0
      else rdma_AlignUp (kV2DataOffset + max_block_bytes) kV2DataOffset)"

definition V2RecvSegmentFitsOneSlot :: "u64 \<Rightarrow> u64 \<Rightarrow> bool" where
  "V2RecvSegmentFitsOneSlot segment_bytes max_block_bytes \<longleftrightarrow>
     (let slot_size = V2SlotSize max_block_bytes in slot_size \<noteq> 0 \<and> segment_bytes \<ge> slot_size)"

definition V2PutCompletionCoversFrame :: "u32 \<Rightarrow> u64 \<Rightarrow> u64 \<Rightarrow> bool" where
  "V2PutCompletionCoversFrame completion_bytes payload_len slot_size \<longleftrightarrow>
     (if slot_size < kV2PutPrefixOffset + of_nat kReqPrefix then False
      else let frame_cap = slot_size - kV2PutPrefixOffset
           in if payload_len > frame_cap - of_nat kReqPrefix then False
              else ucast completion_bytes = of_nat kReqPrefix + payload_len)"

definition V2PutCompletionIsValid :: "bool \<Rightarrow> bool \<Rightarrow> u32 \<Rightarrow> u64 \<Rightarrow> u64 \<Rightarrow> u64 \<Rightarrow> bool" where
  "V2PutCompletionIsValid is_rdma_write_with_imm has_immediate completion_bytes payload_len logical_payload_cap slot_size \<longleftrightarrow>
     is_rdma_write_with_imm \<and> has_immediate \<and> payload_len \<le> logical_payload_cap \<and>
     V2PutCompletionCoversFrame completion_bytes payload_len slot_size"

subsection \<open>Memory descriptors\<close>

record RecvSegmentInfo =
  si_base_addr :: u64
  si_rkey :: u32
  si_slot_size :: u64

definition kRecvSegmentInfoMagic :: u32 where
  "kRecvSegmentInfoMagic = 0x32475352"

definition kRecvSegmentInfoBytes :: nat where
  "kRecvSegmentInfoBytes = 24"

definition EncodeRecvSegmentInfo :: "RecvSegmentInfo \<Rightarrow> bytes" where
  "EncodeRecvSegmentInfo info = PutU32 kRecvSegmentInfoMagic @ PutU32 (si_rkey info) @ PutU64 (si_base_addr info) @ PutU64 (si_slot_size info)"

definition DecodeRecvSegmentInfo :: "bytes \<Rightarrow> RecvSegmentInfo option" where
  "DecodeRecvSegmentInfo frame =
     (if GetU32 frame 0 \<noteq> kRecvSegmentInfoMagic then None
      else let info = \<lparr>si_base_addr = GetU64 frame 8, si_rkey = GetU32 frame 4, si_slot_size = GetU64 frame 16\<rparr>
           in if si_rkey info \<noteq> 0 \<and> si_base_addr info \<noteq> 0 \<and> si_slot_size info \<ge> kV2DataOffset \<and>
                 si_slot_size info mod kV2DataOffset = 0 \<and> si_base_addr info \<le> - 1 - (si_slot_size info - 1)
              then Some info else None)"

record PullPrepareControl =
  pp_slot_index :: u32
  pp_release_generation :: u64

definition kPullPrepareMagic :: u32 where
  "kPullPrepareMagic = 0x32525050"

definition EncodePullPrepareControl :: "PullPrepareControl \<Rightarrow> bytes" where
  "EncodePullPrepareControl control = PutU32 kPullPrepareMagic @ PutU32 (pp_slot_index control) @ PutU64 (pp_release_generation control)"

definition DecodePullPrepareControl :: "bytes \<Rightarrow> PullPrepareControl option" where
  "DecodePullPrepareControl frame =
     (if GetU32 frame 0 \<noteq> kPullPrepareMagic then None
      else Some \<lparr>pp_slot_index = GetU32 frame 4, pp_release_generation = GetU64 frame 8\<rparr>)"

record DynamicPullReady =
  dp_slot_index :: u32
  dp_slot_generation :: u64
  dp_data_len :: u64
  dp_value_len :: u64
  dp_address :: u64
  dp_rkey :: u32

definition kDynamicPullReadyMagic :: u32 where
  "kDynamicPullReadyMagic = 0x32525044"

definition EncodeDynamicPullReady :: "DynamicPullReady \<Rightarrow> bytes" where
  "EncodeDynamicPullReady v = PutU32 kDynamicPullReadyMagic @ PutU32 (dp_slot_index v) @ PutU64 (dp_slot_generation v) @
     PutU64 (dp_data_len v) @ PutU64 (dp_value_len v) @ PutU64 (dp_address v) @ PutU32 (dp_rkey v) @ PutU32 0"

definition DecodeDynamicPullReady :: "bytes \<Rightarrow> DynamicPullReady option" where
  "DecodeDynamicPullReady frame =
     (if GetU32 frame 0 \<noteq> kDynamicPullReadyMagic \<or> GetU32 frame 44 \<noteq> 0 then None
      else let parsed = \<lparr>dp_slot_index = GetU32 frame 4, dp_slot_generation = GetU64 frame 8, dp_data_len = GetU64 frame 16,
                         dp_value_len = GetU64 frame 24, dp_address = GetU64 frame 32, dp_rkey = GetU32 frame 40\<rparr>
           in if dp_slot_generation parsed = 0 \<or> dp_address parsed = 0 \<or> dp_rkey parsed = 0 \<or>
                 dp_data_len parsed > dp_value_len parsed \<or> dp_data_len parsed > - 1 - dp_address parsed
              then None else Some parsed)"

record LeasePutReady =
  lp_slot :: u32
  lp_generation :: u64
  lp_rkey :: u32
  lp_write_base :: u64
  lp_lease_bytes :: u64

definition kLeasePutReadyMagic :: u32 where
  "kLeasePutReadyMagic = 0x3252534c"

definition EncodeLeasePutReady :: "LeasePutReady \<Rightarrow> bytes" where
  "EncodeLeasePutReady ready = PutU32 kLeasePutReadyMagic @ PutU32 (lp_rkey ready) @ PutU32 (lp_slot ready) @ PutU32 0 @
     PutU64 (lp_write_base ready) @ PutU64 (lp_lease_bytes ready) @ PutU64 (lp_generation ready)"

definition DecodeLeasePutReady :: "bytes \<Rightarrow> LeasePutReady option" where
  "DecodeLeasePutReady frame =
     (if GetU32 frame 0 \<noteq> kLeasePutReadyMagic then None
      else let rkey = GetU32 frame 4; write_base = GetU64 frame 16; lease_bytes = GetU64 frame 24
           in if rkey = 0 \<or> write_base = 0 \<or> lease_bytes < 2 * kV2DataOffset \<or> lease_bytes mod kV2DataOffset \<noteq> 0 \<or>
                 write_base > - 1 - (lease_bytes - 1)
              then None
              else let ready = \<lparr>lp_slot = GetU32 frame 8, lp_generation = GetU64 frame 32, lp_rkey = rkey,
                                lp_write_base = write_base, lp_lease_bytes = lease_bytes\<rparr>
                   in if lp_generation ready \<noteq> 0 then Some ready else None)"

subsection \<open>Readiness\<close>

definition kV2DynamicOnlyReadinessBytes :: nat where
  "kV2DynamicOnlyReadinessBytes = 1 + kRecvSegmentInfoBytes"

definition kV2RetirementReadinessBytes :: nat where
  "kV2RetirementReadinessBytes = kV2DynamicOnlyReadinessBytes + kV2WriterTokenBytes"

definition EncodeV2DynamicOnlyReadiness :: "RecvSegmentInfo \<Rightarrow> bytes" where
  "EncodeV2DynamicOnlyReadiness info = 1 # EncodeRecvSegmentInfo info"

definition DecodeV2DynamicOnlyReadiness :: "bytes \<Rightarrow> RecvSegmentInfo option" where
  "DecodeV2DynamicOnlyReadiness frame =
     (if length frame = kV2DynamicOnlyReadinessBytes \<and> frame ! 0 = 1 then DecodeRecvSegmentInfo (drop 1 frame) else None)"

text \<open>The number of bytes to send is 0 for a missing token, otherwise the whole buffer.\<close>

definition EncodeV2Readiness :: "RecvSegmentInfo \<Rightarrow> u64 \<Rightarrow> bytes option" where
  "EncodeV2Readiness info writer_token =
     (if writer_token = 0 then None else Some (1 # EncodeRecvSegmentInfo info @ PutU64 writer_token))"

definition DecodeV2Readiness :: "bytes \<Rightarrow> (RecvSegmentInfo \<times> u64) option" where
  "DecodeV2Readiness frame =
     (if length frame \<noteq> kV2RetirementReadinessBytes \<or> frame ! 0 \<noteq> 1 then None
      else (case DecodeRecvSegmentInfo (drop 1 frame) of
              None \<Rightarrow> None
            | Some info \<Rightarrow>
                let writer_token = GetU64 frame kV2DynamicOnlyReadinessBytes
                in if writer_token \<noteq> 0 then Some (info, writer_token) else None))"

subsection \<open>Facts\<close>

lemma unat_u64: "unat (w :: u64) < 2 ^ 64"
proof -
  have "unat w < 2 ^ LENGTH(64)" by (rule unsigned_less)
  then show ?thesis by simp
qed

lemma unat_u32: "unat (w :: u32) < 2 ^ 32"
proof -
  have "unat w < 2 ^ LENGTH(32)" by (rule unsigned_less)
  then show ?thesis by simp
qed

lemma poke_append: "poke (xs @ ys) (length xs + i) bs = xs @ poke ys i bs"
  by (simp add: poke_def)

lemma poke_replicate: "i \<le> m \<Longrightarrow> poke (replicate m c) i bs = replicate i c @ bs @ replicate (m - (i + length bs)) c"
  by (simp add: poke_def min_def)

lemma EncodeDevFrame_fits:
  assumes "DeviceNameFitsFrame dev" "mbb \<noteq> 0"
  shows "EncodeDevFrame dev mbb kDevProtoV2 =
    dev @ 0 # PutU32 kDevCapsV2Magic @ PutU64 mbb @ kDevProtoV2 # replicate (kMaxDeviceNameBytes - length dev) 0"
proof -
  let ?m = "PutU32 kDevCapsV2Magic" and ?b = "PutU64 mbb"
  have n: "length dev \<le> 18" using assms(1) by (simp add: DeviceNameFitsFrame_def kMaxDeviceNameBytes_def kDevNameBytes_def kDevFrameCapsTrailerBytes_def)
  have 0: "poke (replicate 32 0) 0 dev = dev @ replicate (32 - length dev) 0" by (simp add: poke_replicate)
  have 1: "poke (dev @ replicate (32 - length dev) 0) (length dev + 1) ?m = (dev @ 0 # ?m) @ replicate (27 - length dev) 0"
    using n by (subst poke_append) (simp add: poke_replicate)
  have 2: "poke ((dev @ 0 # ?m) @ replicate (27 - length dev) 0) (length dev + 5) ?b = (dev @ 0 # ?m @ ?b) @ replicate (19 - length dev) 0"
    using n poke_append [of "dev @ 0 # ?m" "replicate (27 - length dev) 0" 0 ?b] by (simp add: poke_replicate)
  have 3: "poke ((dev @ 0 # ?m @ ?b) @ replicate (19 - length dev) 0) (length dev + 13) [kDevProtoV2] =
      dev @ 0 # ?m @ ?b @ kDevProtoV2 # replicate (18 - length dev) 0"
    using n poke_append [of "dev @ 0 # ?m @ ?b" "replicate (19 - length dev) 0" 0 "[kDevProtoV2]"] by (simp add: poke_replicate)
  show ?thesis using assms(2) n 1 2 3
    by (simp add: EncodeDevFrame_def Let_def kDevNameBytes_def kMaxDeviceNameBytes_def kDevFrameCapsTrailerBytes_def 0)
qed

lemma EncodeDevFrame_long:
  assumes "\<not> DeviceNameFitsFrame dev"
  shows "EncodeDevFrame dev mbb proto = take 31 dev @ replicate (32 - length (take 31 dev)) 0"
proof -
  have "18 < length (take 31 dev)" using assms by (simp add: DeviceNameFitsFrame_def kMaxDeviceNameBytes_def kDevNameBytes_def kDevFrameCapsTrailerBytes_def)
  moreover have "take (if length dev < 31 then length dev else 31) dev = take 31 dev" by simp
  moreover have "(if length dev < 31 then length dev else 31) = length (take 31 dev)" by simp
  ultimately show ?thesis
    by (simp add: EncodeDevFrame_def Let_def kDevNameBytes_def kMaxDeviceNameBytes_def kDevFrameCapsTrailerBytes_def poke_replicate)
qed

lemma name_end_frame:
  assumes "0 \<notin> set dev" "length dev < 32"
  shows "name_end (dev @ 0 # rest) = length dev"
proof -
  have t: "take 32 (dev @ 0 # rest) = dev @ 0 # take (31 - length dev) rest" using assms(2) by (simp add: take_Cons')
  have "takeWhile (\<lambda>c. c \<noteq> 0) (dev @ 0 # take (31 - length dev) rest) = dev"
    by (rule takeWhile_tail [THEN trans]) (use assms(1) in auto)
  then show ?thesis unfolding name_end_def kDevNameBytes_def t by simp
qed

lemma ParseDevFrameCaps_encode:
  assumes "0 \<notin> set dev" "mbb \<noteq> 0"
  shows "ParseDevFrameCaps (EncodeDevFrame dev mbb kDevProtoV2) = (if DeviceNameFitsFrame dev then mbb else 0)"
proof (cases "DeviceNameFitsFrame dev")
  case True
  then have n: "length dev \<le> 18" by (simp add: DeviceNameFitsFrame_def kMaxDeviceNameBytes_def kDevNameBytes_def kDevFrameCapsTrailerBytes_def)
  let ?r = "PutU32 kDevCapsV2Magic @ PutU64 mbb @ kDevProtoV2 # replicate (kMaxDeviceNameBytes - length dev) 0"
  have "name_end (dev @ 0 # ?r) = length dev" using assms(1) n by (intro name_end_frame) simp_all
  then show ?thesis using True n
    by (simp add: ParseDevFrameCaps_def EncodeDevFrame_fits [OF True assms(2)] get_field kDevNameBytes_def nth_append)
next
  case False
  then have n: "18 < length (take 31 dev)" by (simp add: DeviceNameFitsFrame_def kMaxDeviceNameBytes_def kDevNameBytes_def kDevFrameCapsTrailerBytes_def)
  have "replicate (32 - length (take 31 dev)) (0 :: u8) = 0 # replicate (31 - length (take 31 dev)) 0"
    by (cases "32 - length (take 31 dev)") (auto simp: replicate_Suc Suc_diff_le min_def split: if_splits)
  moreover have "0 \<notin> set (take 31 dev)" using assms(1) by (meson in_set_takeD)
  ultimately have "name_end (EncodeDevFrame dev mbb kDevProtoV2) = length (take 31 dev)"
    unfolding EncodeDevFrame_long [OF False] using name_end_frame [of "take 31 dev"] by simp
  then show ?thesis using False n by (simp add: ParseDevFrameCaps_def kDevNameBytes_def)
qed

lemma and_not_mask: "w AND NOT (mask n) = push_bit n (drop_bit n (w :: 'a::len word))"
  by (rule bit_word_eqI) (auto simp: bit_simps)

lemma mask_4095: "w AND NOT 4095 = (w :: u64) - w mod 4096"
proof -
  have m: "(mask 12 :: u64) = 4095" by (simp add: mask_eq_exp_minus_1)
  have "w AND NOT 4095 = push_bit 12 (drop_bit 12 w)" using and_not_mask [of w 12] unfolding m .
  also have "\<dots> = w div 4096 * 4096" by (simp add: push_bit_eq_mult drop_bit_eq_div)
  also have "\<dots> = w - w mod 4096" by (simp add: minus_mod_eq_div_mult)
  finally show ?thesis .
qed

lemma V2SlotSize_unat:
  assumes "V2SlotSize m \<noteq> 0"
  shows "unat (V2SlotSize m) = (4096 + unat m + 4095) div 4096 * 4096" "4096 + unat m + 4095 < 2 ^ 64"
proof -
  have m: "m \<le> - 1 - 4096" and v: "4096 + m \<le> - 1 - 4095"
    and eq: "V2SlotSize m = (4096 + m + 4096 - 1) AND NOT 4095"
    using assms by (auto simp: V2SlotSize_def rdma_AlignUp_def kV2DataOffset_def not_less split: if_splits)
  have "unat m \<le> 18446744073709547519" using m by (simp add: word_le_nat_alt)
  then have m': "unat (4096 + m) = 4096 + unat m" by (simp add: unat_word_ariths)
  have v': "4096 + unat m + 4095 < 2 ^ 64" using v unfolding word_le_nat_alt m' by simp
  have "4096 + m + 4096 - 1 = m + 8191" by simp
  then have w: "unat (4096 + m + 4096 - 1) = 4096 + unat m + 4095" using v' by (simp add: unat_word_ariths)
  show "4096 + unat m + 4095 < 2 ^ 64" by (rule v')
  have "unat (V2SlotSize m) = unat (4096 + m + 4096 - 1) - unat (4096 + m + 4096 - 1) mod 4096"
    unfolding eq mask_4095 by (subst unat_sub) (simp_all add: unat_mod word_le_nat_alt)
  then show "unat (V2SlotSize m) = (4096 + unat m + 4095) div 4096 * 4096" unfolding w by (simp add: minus_mod_eq_div_mult)
qed

lemma V2SlotSize_bounds:
  assumes "V2SlotSize m \<noteq> 0"
  shows "4096 + unat m \<le> unat (V2SlotSize m)" "unat (V2SlotSize m) < 4096 + unat m + 4096" "4096 dvd unat (V2SlotSize m)"
  using V2SlotSize_unat [OF assms] by (simp_all add: algebra_simps)

lemma covers_frame_unat:
  assumes "4096 \<le> unat slot"
  shows "V2PutCompletionCoversFrame c n slot \<longleftrightarrow> 4096 + unat n \<le> unat slot \<and> unat c = kReqPrefix + unat n"
proof -
  have k: "kV2PutPrefixOffset = 4046" by (simp add: kV2PutPrefixOffset_def kV2DataOffset_def kReqPrefix_def)
  have a: "\<not> slot < 4046 + 50" using assms by (simp add: word_less_nat_alt)
  have "(4096 :: u64) \<le> slot" using assms by (simp add: word_le_nat_alt)
  then have "unat (slot - 4096) = unat slot - 4096" by (simp add: unat_sub)
  moreover have "slot - 4046 - 50 = slot - 4096" by simp
  ultimately have f: "unat (slot - 4046 - 50) = unat slot - 4096" by (simp only:)
  have "unat c < 2 ^ 64" using unat_u32 [of c] by simp
  then have "unat (ucast c :: u64) = unat c" by (simp add: unsigned_ucast_eq take_bit_nat_eq_self_iff)
  then have "ucast c = 50 + n \<longleftrightarrow> unat c = 50 + unat n" if "4096 + unat n \<le> unat slot"
  proof -
    have "unat slot < 2 ^ 64" using unat_u64 [of slot] by simp
    then have "unat (50 + n) = 50 + unat n" using that by (simp add: unat_word_ariths)
    then show ?thesis using \<open>unat (ucast c :: u64) = unat c\<close> by (metis word_unat_eq_iff)
  qed
  then show ?thesis using a f assms
    by (auto simp: V2PutCompletionCoversFrame_def k kReqPrefix_def Let_def word_less_nat_alt)
qed

lemma no_wrap:
  assumes "(b :: u64) \<le> - 1 - (n - 1)" "n \<noteq> 0"
  shows "unat b + unat n \<le> 2 ^ 64"
proof -
  have n: "0 < unat n" using assms(2) unat_gt_0 by blast
  then have "unat (n - 1) = unat n - 1" by (subst unat_sub) (simp_all add: word_le_nat_alt)
  moreover have "unat (- 1 - (n - 1)) = unat (- 1 :: u64) - unat (n - 1)" by (rule unat_sub) simp
  moreover have "unat (- 1 :: u64) = 2 ^ 64 - 1" by (simp add: unsigned_minus_1_eq_mask mask_eq_exp_minus_1)
  ultimately have "unat (- 1 - (n - 1)) = 2 ^ 64 - 1 - (unat n - 1)" by (simp only:)
  then have "unat b \<le> 2 ^ 64 - 1 - (unat n - 1)" using assms(1) unfolding word_le_nat_alt by (simp only:)
  then show ?thesis using n unat_u64 [of n] by simp
qed

definition segment_ok :: "RecvSegmentInfo \<Rightarrow> bool" where
  "segment_ok info \<longleftrightarrow> si_rkey info \<noteq> 0 \<and> si_base_addr info \<noteq> 0 \<and> kV2DataOffset \<le> si_slot_size info \<and>
     si_slot_size info mod kV2DataOffset = 0 \<and> si_base_addr info \<le> - 1 - (si_slot_size info - 1)"

lemma segment_ok_range: "segment_ok info \<Longrightarrow> unat (si_base_addr info) + unat (si_slot_size info) \<le> 2 ^ 64"
  by (rule no_wrap) (auto simp: segment_ok_def kV2DataOffset_def word_le_nat_alt)

lemma DecodeRecvSegmentInfo_eq:
  "DecodeRecvSegmentInfo p = (let info = \<lparr>si_base_addr = GetU64 p 8, si_rkey = GetU32 p 4, si_slot_size = GetU64 p 16\<rparr>
     in if GetU32 p 0 = kRecvSegmentInfoMagic \<and> segment_ok info then Some info else None)"
  by (simp add: DecodeRecvSegmentInfo_def segment_ok_def Let_def)

lemma DecodeRecvSegmentInfo_exact:
  assumes "length p = kRecvSegmentInfoBytes"
  shows "DecodeRecvSegmentInfo p = Some info \<longleftrightarrow> p = EncodeRecvSegmentInfo info \<and> segment_ok info" (is "?L \<longleftrightarrow> ?R")
proof
  have n: "length p = 24" using assms by (simp add: kRecvSegmentInfoBytes_def)
  have "p = PutU32 (GetU32 p 0) @ drop 4 p" using field_U32 [of 0 p] n by simp
  also have "drop 4 p = PutU32 (GetU32 p 4) @ drop 8 p" using field_U32 [of 4 p] n by simp
  also have "drop 8 p = PutU64 (GetU64 p 8) @ drop 16 p" using field_U64 [of 8 p] n by simp
  also have "drop 16 p = PutU64 (GetU64 p 16)" using field_U64 [of 16 p] n by simp
  finally have p: "p = PutU32 (GetU32 p 0) @ PutU32 (GetU32 p 4) @ PutU64 (GetU64 p 8) @ PutU64 (GetU64 p 16)" .
  show ?R if ?L using that by (subst p) (auto simp: DecodeRecvSegmentInfo_eq EncodeRecvSegmentInfo_def Let_def split: if_splits)
  show ?L if r: ?R
    using conjunct2 [OF r] unfolding conjunct1 [OF r] EncodeRecvSegmentInfo_def DecodeRecvSegmentInfo_eq get_field
    by (simp add: codec_simps Let_def segment_ok_def)
qed

lemma length_EncodeRecvSegmentInfo [codec_simps]: "length (EncodeRecvSegmentInfo info) = kRecvSegmentInfoBytes"
  by (simp add: EncodeRecvSegmentInfo_def kRecvSegmentInfoBytes_def)

subsection \<open>Properties\<close>

text \<open>
  C21: The bootstrap frame is faithful or refused: for a device name without NUL bytes the peer
  reads back exactly the declared capability word when the name fits the frame, and reads no
  capability at all (so it rejects the connection) when the name is too long.
\<close>

theorem dev_frame_roundtrip:
  assumes "0 \<notin> set dev" "mbb \<noteq> 0"
  shows "length (EncodeDevFrame dev mbb kDevProtoV2) = kDevNameBytes \<and>
    ParseDevFrameCaps (EncodeDevFrame dev mbb kDevProtoV2) = (if DeviceNameFitsFrame dev then mbb else 0) \<and>
    ParseDevFrameProtocol (EncodeDevFrame dev mbb kDevProtoV2) = (if DeviceNameFitsFrame dev then kDevProtoV2 else 0)"
proof -
  have "length (EncodeDevFrame dev mbb kDevProtoV2) = kDevNameBytes"
  proof (cases "DeviceNameFitsFrame dev")
    case True
    then have "length dev \<le> 18" by (simp add: DeviceNameFitsFrame_def kMaxDeviceNameBytes_def kDevNameBytes_def kDevFrameCapsTrailerBytes_def)
    then show ?thesis by (simp add: EncodeDevFrame_fits [OF True assms(2)] kDevNameBytes_def kMaxDeviceNameBytes_def kDevFrameCapsTrailerBytes_def)
  qed (simp add: EncodeDevFrame_long kDevNameBytes_def)
  then show ?thesis using ParseDevFrameCaps_encode [OF assms] assms(2) by (simp add: ParseDevFrameProtocol_def)
qed

theorem dev_frame_roundtrip_witness:
  "ParseDevFrameCaps (EncodeDevFrame (ascii ''mlx5_0'') 4194304 kDevProtoV2) = 4194304"
  using dev_frame_roundtrip [of "ascii ''mlx5_0''" 4194304]
  by (simp add: DeviceNameFitsFrame_def kMaxDeviceNameBytes_def kDevNameBytes_def kDevFrameCapsTrailerBytes_def)

text \<open>
  A receive slot holds every block the server advertises and nothing stale is published.
  When the slot size is representable it is a multiple of the page-sized data offset, holds the
  offset plus the block and wastes less than a page; and a write completion is accepted for a
  block within the bound exactly when its byte count is the request prefix plus the payload.
\<close>

lemma V2SlotSize_covers:
  assumes "V2SlotSize m \<noteq> 0" "n \<le> m"
  shows "unat kV2DataOffset + unat m \<le> unat (V2SlotSize m) \<and> unat (V2SlotSize m) < unat m + 2 * unat kV2DataOffset \<and>
    unat kV2DataOffset dvd unat (V2SlotSize m) \<and>
    (V2PutCompletionCoversFrame c n (V2SlotSize m) \<longleftrightarrow> unat c = kReqPrefix + unat n)"
proof -
  note B = V2SlotSize_bounds [OF assms(1)]
  have "4096 + unat n \<le> unat (V2SlotSize m)" using B(1) assms(2) by (simp add: word_le_nat_alt)
  then show ?thesis using B covers_frame_unat [of "V2SlotSize m" c n] by (simp add: kV2DataOffset_def)
qed

text \<open>
  A receive-segment descriptor is decoded exactly: 24 bytes are accepted if and only if they
  encode a descriptor with a key, a base and a page-multiple slot, and then the advertised range
  does not wrap around the address space.
\<close>

lemma recv_segment_exact:
  assumes "length p = kRecvSegmentInfoBytes"
  shows "(DecodeRecvSegmentInfo p = Some info \<longleftrightarrow> p = EncodeRecvSegmentInfo info \<and> segment_ok info) \<and>
    (DecodeRecvSegmentInfo p = Some info \<longrightarrow> unat (si_base_addr info) + unat (si_slot_size info) \<le> 2 ^ 64)"
  using DecodeRecvSegmentInfo_exact [OF assms] segment_ok_range by blast

end
