(* ===== verification/Rail_Select.thy ===== *)
theory Rail_Select
  imports Prelude "HOL-Library.Multiset"
begin

text \<open>
  Multi-rail admission and selection, \<^verbatim>\<open>transport/rail_select.h\<close>: tier masks, the store of peer
  topologies, and the credit policy with its quarantine and recovery probes. Masks are byte lists
  as in the code; counters keep their widths. The mutex is sequentialised: every method is one step.
\<close>

subsection \<open>Masks and tiers\<close>

definition PickRail :: "int list \<Rightarrow> int \<Rightarrow> bool \<Rightarrow> nat \<Rightarrow> nat" where
  "PickRail dev_node caller_node numa_on rr_tick =
     (let n = length dev_node
      in if n = 0 then 0
         else if \<not> numa_on \<or> n = 1 \<or> caller_node < 0 then rr_tick mod n
         else let loc = filter (\<lambda>i. dev_node ! i = caller_node) [0..<n]
              in if loc = [] then rr_tick mod n else loc ! (rr_tick mod length loc))"

definition Allowed :: "nat \<Rightarrow> u8 list \<Rightarrow> bool" where
  "Allowed rail allowed \<longleftrightarrow> allowed = [] \<or> (rail < length allowed \<and> allowed ! rail \<noteq> 0)"

definition Excluded :: "nat \<Rightarrow> u8 list \<Rightarrow> bool" where
  "Excluded rail excluded \<longleftrightarrow> rail < length excluded \<and> excluded ! rail \<noteq> 0"

definition IntersectRailMasks :: "u8 list \<Rightarrow> u8 list \<Rightarrow> u8 list" where
  "IntersectRailMasks left right =
     map (\<lambda>i. of_bool (i < length left \<and> left ! i \<noteq> 0 \<and> i < length right \<and> right ! i \<noteq> 0)) [0..<max (length left) (length right)]"

definition UnionRailMasks :: "u8 list \<Rightarrow> u8 list \<Rightarrow> u8 list" where
  "UnionRailMasks left right =
     map (\<lambda>i. of_bool ((i < length left \<and> left ! i \<noteq> 0) \<or> (i < length right \<and> right ! i \<noteq> 0))) [0..<max (length left) (length right)]"

definition HasRail :: "u8 list \<Rightarrow> bool" where
  "HasRail rails \<longleftrightarrow> (\<exists>enabled\<in>set rails. enabled \<noteq> 0)"

definition HasUnexcludedRail :: "u8 list \<Rightarrow> u8 list \<Rightarrow> u8 list \<Rightarrow> bool" where
  "HasUnexcludedRail preferred fallback excluded \<longleftrightarrow>
     (\<exists>i\<in>{..<max (length preferred) (max (length fallback) (length excluded))}.
        ((i < length preferred \<and> preferred ! i \<noteq> 0) \<or> (i < length fallback \<and> fallback ! i \<noteq> 0)) \<and>
        \<not> (i < length excluded \<and> excluded ! i \<noteq> 0))"

fun HighestCompatibleTier :: "u8 list list \<Rightarrow> u8 list \<Rightarrow> u8 list" where
  "HighestCompatibleTier [] peer_healthy = []"
| "HighestCompatibleTier (tier # tiers) peer_healthy =
     (let compatible = IntersectRailMasks tier peer_healthy
      in if HasRail compatible then compatible else HighestCompatibleTier tiers peer_healthy)"

text \<open>
  \<^verbatim>\<open>ParseRailTiers\<close>. The tier and name scans of the code walk the positions of the separators; here
  they are the pieces between them, in order.
\<close>

fun split_on :: "u8 \<Rightarrow> bytes \<Rightarrow> bytes list" where
  "split_on sep [] = [[]]"
| "split_on sep (c # cs) = (case split_on sep cs of
     [] \<Rightarrow> [[c]]
   | p # ps \<Rightarrow> if c = sep then [] # p # ps else (c # p) # ps)"

datatype tier_error = Empty_Tier | Empty_Name | Unknown_Rail bytes | Repeated_Rail bytes

fun find_device :: "bytes list \<Rightarrow> bytes \<Rightarrow> nat option" where
  "find_device [] name = None"
| "find_device (d # ds) name = (if d = name then Some 0 else map_option Suc (find_device ds name))"

fun parse_tier :: "bytes list \<Rightarrow> bytes list \<Rightarrow> u8 list \<Rightarrow> u8 list \<Rightarrow> tier_error + (u8 list \<times> u8 list)" where
  "parse_tier local_devices [] seen tier = Inr (seen, tier)"
| "parse_tier local_devices (name # names) seen tier =
     (if name = [] then Inl Empty_Name
      else (case find_device local_devices name of
              None \<Rightarrow> Inl (Unknown_Rail name)
            | Some index \<Rightarrow>
                if seen ! index \<noteq> 0 then Inl (Repeated_Rail name)
                else parse_tier local_devices names (seen[index := 1]) (tier[index := 1])))"

fun parse_tiers :: "bytes list \<Rightarrow> bytes list \<Rightarrow> u8 list \<Rightarrow> tier_error + u8 list list" where
  "parse_tiers local_devices [] seen = Inr []"
| "parse_tiers local_devices (spec # specs) seen =
     (if spec = [] then Inl Empty_Tier
      else (case parse_tier local_devices (split_on (of_char (CHR ''|'')) spec) seen (replicate (length local_devices) 0) of
              Inl e \<Rightarrow> Inl e
            | Inr (seen', tier) \<Rightarrow>
                (case parse_tiers local_devices specs seen' of Inl e \<Rightarrow> Inl e | Inr tiers \<Rightarrow> Inr (tier # tiers))))"

definition ParseRailTiers :: "bytes \<Rightarrow> bytes list \<Rightarrow> tier_error + u8 list list" where
  "ParseRailTiers spec local_devices =
     (if spec = [] then Inr [replicate (length local_devices) 1]
      else parse_tiers local_devices (split_on (of_char (CHR '';'')) spec) (replicate (length local_devices) 0))"

subsection \<open>Peer topologies\<close>

record PeerRailTopology =
  pr_name :: bytes
  pr_healthy :: bool

record PeerTopology =
  pt_peer_addr :: bytes
  pt_generation :: u64
  pt_complete :: bool
  pt_rails :: "PeerRailTopology list"
  pt_peer_id :: bytes
  pt_present :: bool

record PeerRailSnapshot =
  sn_peer_id :: bytes
  sn_generation :: u64
  sn_publication :: nat
  sn_complete :: bool
  sn_peer_healthy :: "u8 list"
  sn_compatible :: "u8 list"

text \<open>The publication counter is 64 bits wide in the code; it is a natural number here.\<close>

record PeerTopologyStore =
  ts_local_devices :: "bytes list"
  ts_tiers :: "u8 list list"
  ts_require_complete :: bool
  ts_fallback :: PeerRailSnapshot
  ts_last_publication :: nat
  ts_snapshots :: "bytes \<rightharpoonup> PeerRailSnapshot"

definition new_topology_store :: "bytes list \<Rightarrow> u8 list list \<Rightarrow> bool \<Rightarrow> PeerTopologyStore" where
  "new_topology_store local_devices tiers require_complete =
     \<lparr>ts_local_devices = local_devices, ts_tiers = tiers, ts_require_complete = require_complete,
      ts_fallback = \<lparr>sn_peer_id = [], sn_generation = 0, sn_publication = 0, sn_complete = (\<not> require_complete),
         sn_peer_healthy = (if require_complete then [] else replicate (length local_devices) 1),
         sn_compatible = (if require_complete then [] else replicate (length local_devices) 1)\<rparr>,
      ts_last_publication = 0, ts_snapshots = Map.empty\<rparr>"

fun mark_healthy :: "bytes list \<Rightarrow> PeerRailTopology list \<Rightarrow> u8 list \<Rightarrow> u8 list" where
  "mark_healthy local_devices [] healthy = healthy"
| "mark_healthy local_devices (rail # rails) healthy =
     mark_healthy local_devices rails
       (if \<not> pr_healthy rail then healthy
        else (case find_device local_devices (pr_name rail) of None \<Rightarrow> healthy | Some i \<Rightarrow> healthy[i := 1]))"

definition next_snapshot :: "PeerTopologyStore \<Rightarrow> PeerTopology \<Rightarrow> PeerRailSnapshot" where
  "next_snapshot s topology =
     (let n = length (ts_local_devices s);
          healthy = mark_healthy (ts_local_devices s) (pt_rails topology) (replicate n 0);
          fresh = \<lparr>sn_peer_id = pt_peer_id topology, sn_generation = pt_generation topology, sn_publication = 0,
                   sn_complete = pt_complete topology, sn_peer_healthy = [], sn_compatible = []\<rparr>
      in if pt_complete topology
         then fresh\<lparr>sn_peer_healthy := healthy, sn_compatible := HighestCompatibleTier (ts_tiers s) healthy\<rparr>
         else if \<not> ts_require_complete s then fresh\<lparr>sn_peer_healthy := replicate n 1, sn_compatible := replicate n 1\<rparr>
         else fresh)"

definition retire_identity :: "bytes \<Rightarrow> bytes \<Rightarrow> (bytes \<rightharpoonup> PeerRailSnapshot) \<Rightarrow> bytes \<rightharpoonup> PeerRailSnapshot" where
  "retire_identity addr peer_id m a =
     (case m a of None \<Rightarrow> None | Some sn \<Rightarrow> if a \<noteq> addr \<and> sn_peer_id sn = peer_id then None else Some sn)"

definition topology_Update :: "PeerTopology \<Rightarrow> PeerTopologyStore \<Rightarrow> bool \<times> PeerTopologyStore" where
  "topology_Update topology s =
     (let addr = pt_peer_addr topology; found = ts_snapshots s addr
      in if addr = [] then (False, s)
         else if \<not> pt_present topology
         then (case found of
                 None \<Rightarrow> (True, s)
               | Some sn \<Rightarrow>
                   if sn_peer_id sn \<noteq> pt_peer_id topology then (False, s)
                   else (True, s\<lparr>ts_snapshots := (ts_snapshots s)(addr := None)\<rparr>))
         else if (case found of None \<Rightarrow> False
                  | Some sn \<Rightarrow> pt_generation topology = sn_generation sn \<and> pt_peer_id topology = sn_peer_id sn)
         then (False, s)
         else let last = ts_last_publication s + 1;
                  next = (next_snapshot s topology)\<lparr>sn_publication := last\<rparr>;
                  kept = (if pt_peer_id topology = [] then ts_snapshots s
                          else retire_identity addr (pt_peer_id topology) (ts_snapshots s))
              in (True, s\<lparr>ts_last_publication := last, ts_snapshots := kept(addr \<mapsto> next)\<rparr>))"

definition topology_Snapshot :: "PeerTopologyStore \<Rightarrow> bytes \<Rightarrow> PeerRailSnapshot" where
  "topology_Snapshot s peer_addr = (case ts_snapshots s peer_addr of None \<Rightarrow> ts_fallback s | Some sn \<Rightarrow> sn)"

definition IsCurrent :: "PeerTopologyStore \<Rightarrow> bytes \<Rightarrow> nat \<Rightarrow> bool" where
  "IsCurrent s peer_addr publication \<longleftrightarrow>
     (case ts_snapshots s peer_addr of None \<Rightarrow> sn_publication (ts_fallback s) | Some sn \<Rightarrow> sn_publication sn) = publication"

definition IsCurrent_id :: "PeerTopologyStore \<Rightarrow> bytes \<Rightarrow> bytes \<Rightarrow> nat \<Rightarrow> bool" where
  "IsCurrent_id s peer_addr peer_id publication \<longleftrightarrow>
     (let snapshot = (case ts_snapshots s peer_addr of None \<Rightarrow> ts_fallback s | Some sn \<Rightarrow> sn)
      in sn_peer_id snapshot = peer_id \<and> sn_publication snapshot = publication)"

subsection \<open>The credit policy\<close>

record RailPolicyConfig =
  credits_per_rail :: u32
  error_threshold :: u32
  quarantine_us :: u64
  latency_weight :: u32
  error_penalty_us :: u64

definition default_rail_config :: RailPolicyConfig where
  "default_rail_config = \<lparr>credits_per_rail = 64, error_threshold = 3, quarantine_us = 5000000, latency_weight = 1, error_penalty_us = 100000\<rparr>"

record RailLease =
  lease_rail :: nat
  lease_credits :: u32

datatype RailCompletion = kSuccess | kAdmission | kEndpointFailure | kRailFailure

record RailState =
  rs_inflight :: u32
  rs_credits :: u32
  rs_consecutive_errors :: u32
  rs_latency_ewma_us :: u64
  rs_selections :: u64
  rs_credits_exhausted :: u64
  rs_errors :: u64
  rs_endpoint_errors :: u64
  rs_quarantines :: u64
  rs_recoveries :: u64
  rs_quarantined_until_us :: u64
  rs_recovery_probe :: bool

definition empty_rail :: RailState where
  "empty_rail = \<lparr>rs_inflight = 0, rs_credits = 0, rs_consecutive_errors = 0, rs_latency_ewma_us = 0, rs_selections = 0,
     rs_credits_exhausted = 0, rs_errors = 0, rs_endpoint_errors = 0, rs_quarantines = 0, rs_recoveries = 0,
     rs_quarantined_until_us = 0, rs_recovery_probe = False\<rparr>"

record RailPolicy =
  rp_config :: RailPolicyConfig
  rp_rails :: "RailState list"

definition normalize_rail_config :: "RailPolicyConfig \<Rightarrow> RailPolicyConfig" where
  "normalize_rail_config c = c\<lparr>credits_per_rail := max 1 (credits_per_rail c), error_threshold := max 1 (error_threshold c),
     quarantine_us := max 1 (quarantine_us c)\<rparr>"

definition new_rail_policy :: "nat \<Rightarrow> RailPolicyConfig \<Rightarrow> RailPolicy" where
  "new_rail_policy rails config =
     (let c = normalize_rail_config config
      in \<lparr>rp_config = c, rp_rails = replicate rails (empty_rail\<lparr>rs_credits := credits_per_rail c\<rparr>)\<rparr>)"

definition rail_score :: "RailPolicyConfig \<Rightarrow> RailState \<Rightarrow> u64" where
  "rail_score c rail =
     ucast (rs_inflight rail) * 1000000 div ucast (rs_credits rail) +
     rs_latency_ewma_us rail * ucast (latency_weight c) + ucast (rs_consecutive_errors rail) * error_penalty_us c"

text \<open>The loop body of \<^verbatim>\<open>TryAcquireLocked\<close>: the rail, and the selection made so far.\<close>

record rail_choice =
  ch_selected :: nat
  ch_score :: u64
  ch_recovery :: bool

definition acquire_visit :: "RailPolicyConfig \<Rightarrow> u32 \<Rightarrow> u64 \<Rightarrow> u8 list \<Rightarrow> u8 list \<Rightarrow> nat \<Rightarrow> RailState \<Rightarrow> rail_choice \<Rightarrow> RailState \<times> rail_choice" where
  "acquire_visit c requested now_us allowed excluded i rail ch =
     (if \<not> Allowed i allowed \<or> Excluded i excluded then (rail, ch)
      else if rs_quarantined_until_us rail > now_us then (rail, ch)
      else let probe = (rs_recovery_probe rail \<or> rs_quarantined_until_us rail \<noteq> 0)
           in if probe \<and> rs_inflight rail \<noteq> 0 then (rail, ch)
              else if requested > rs_credits rail - rs_inflight rail
              then (rail\<lparr>rs_credits_exhausted := rs_credits_exhausted rail + 1\<rparr>, ch)
              else let score = rail_score c rail
                   in if (probe \<and> \<not> ch_recovery ch) \<or> (probe = ch_recovery ch \<and> score < ch_score ch)
                      then (rail, \<lparr>ch_selected = i, ch_score = score, ch_recovery = probe\<rparr>)
                      else (rail, ch))"

fun acquire_scan :: "RailPolicyConfig \<Rightarrow> u32 \<Rightarrow> u64 \<Rightarrow> u8 list \<Rightarrow> u8 list \<Rightarrow> nat \<Rightarrow> RailState list \<Rightarrow> rail_choice \<Rightarrow> RailState list \<times> rail_choice" where
  "acquire_scan c requested now_us allowed excluded i [] ch = ([], ch)"
| "acquire_scan c requested now_us allowed excluded i (rail # rails) ch =
     (let (rail', ch') = acquire_visit c requested now_us allowed excluded i rail ch;
          (rails', ch'') = acquire_scan c requested now_us allowed excluded (Suc i) rails ch'
      in (rail' # rails', ch''))"

definition grant_rail :: "u32 \<Rightarrow> RailState \<Rightarrow> RailState" where
  "grant_rail requested rail0 =
     (let rail = (if \<not> rs_recovery_probe rail0 \<and> rs_quarantined_until_us rail0 \<noteq> 0 then rail0\<lparr>rs_recovery_probe := True\<rparr> else rail0)
      in rail\<lparr>rs_inflight := rs_inflight rail + requested, rs_selections := rs_selections rail + 1\<rparr>)"

definition TryAcquire :: "u32 \<Rightarrow> u64 \<Rightarrow> u8 list \<Rightarrow> u8 list \<Rightarrow> RailPolicy \<Rightarrow> RailLease option \<times> RailPolicy" where
  "TryAcquire requested0 now_us allowed excluded p =
     (let c = rp_config p; n = length (rp_rails p);
          requested = min (max 1 requested0) (credits_per_rail c)
      in if n = 0 then (None, p)
         else (case acquire_scan c requested now_us allowed excluded 0 (rp_rails p) \<lparr>ch_selected = n, ch_score = - 1, ch_recovery = False\<rparr> of
                 (rails, ch) \<Rightarrow>
                   if ch_selected ch = n then (None, p\<lparr>rp_rails := rails\<rparr>)
                   else (Some \<lparr>lease_rail = ch_selected ch, lease_credits = requested\<rparr>,
                         p\<lparr>rp_rails := upd_nth rails (ch_selected ch) (grant_rail requested)\<rparr>)))"

definition complete_rail :: "RailPolicyConfig \<Rightarrow> u32 \<Rightarrow> u64 \<Rightarrow> RailCompletion \<Rightarrow> u64 \<Rightarrow> RailState \<Rightarrow> RailState" where
  "complete_rail c credits latency_us completion now_us rail0 =
     (let rail = rail0\<lparr>rs_inflight := rs_inflight rail0 - min credits (rs_inflight rail0)\<rparr>
      in case completion of
           kSuccess \<Rightarrow>
             (let r1 = rail\<lparr>rs_latency_ewma_us := (if rs_latency_ewma_us rail = 0 then latency_us else (rs_latency_ewma_us rail * 7 + latency_us) div 8),
                            rs_consecutive_errors := 0\<rparr>;
                  r2 = (if rs_recovery_probe r1 then r1\<lparr>rs_recoveries := rs_recoveries r1 + 1, rs_quarantined_until_us := 0\<rparr> else r1)
              in r2\<lparr>rs_recovery_probe := False\<rparr>)
         | kAdmission \<Rightarrow> rail\<lparr>rs_recovery_probe := False\<rparr>
         | kEndpointFailure \<Rightarrow> rail\<lparr>rs_endpoint_errors := rs_endpoint_errors rail + 1, rs_recovery_probe := False\<rparr>
         | kRailFailure \<Rightarrow>
             (let r1 = rail\<lparr>rs_errors := rs_errors rail + 1, rs_consecutive_errors := rs_consecutive_errors rail + 1\<rparr>
              in if rs_recovery_probe r1 \<or> rs_consecutive_errors r1 \<ge> error_threshold c
                 then r1\<lparr>rs_quarantines := rs_quarantines r1 + 1, rs_quarantined_until_us := now_us + quarantine_us c, rs_recovery_probe := False\<rparr>
                 else r1))"

definition Complete :: "RailLease \<Rightarrow> u64 \<Rightarrow> RailCompletion \<Rightarrow> u64 \<Rightarrow> RailPolicy \<Rightarrow> RailPolicy" where
  "Complete lease latency_us completion now_us p =
     (if lease_rail lease \<ge> length (rp_rails p) then p
      else p\<lparr>rp_rails := upd_nth (rp_rails p) (lease_rail lease) (complete_rail (rp_config p) (lease_credits lease) latency_us completion now_us)\<rparr>)"

record RailStats = RailState +
  st_quarantined :: bool

definition rail_stats :: "u64 \<Rightarrow> RailState \<Rightarrow> RailStats" where
  "rail_stats now_us rail = RailState.extend
     (rail\<lparr>rs_quarantined_until_us := (if rs_quarantined_until_us rail > now_us then rs_quarantined_until_us rail else 0)\<rparr>)
     (RailStats.fields (rs_quarantined_until_us rail \<noteq> 0))"

definition policy_Snapshot :: "u64 \<Rightarrow> RailPolicy \<Rightarrow> RailStats list" where
  "policy_Snapshot now_us p = map (rail_stats now_us) (rp_rails p)"

text \<open>
  The waiting \<^verbatim>\<open>Acquire\<close>: one round per wake-up, with what the other threads did to the policy while
  it waited, the clock it reads and whether the deadline has passed by then.
\<close>

datatype wait_result = Granted RailLease | Timed_Out | Waiting

fun Acquire :: "u32 \<Rightarrow> u64 \<Rightarrow> u8 list \<Rightarrow> u8 list \<Rightarrow> ((RailPolicy \<Rightarrow> RailPolicy) \<times> u64 \<times> bool) list \<Rightarrow> RailPolicy \<Rightarrow> wait_result \<times> RailPolicy" where
  "Acquire requested timeout_us allowed excluded [] p = (Waiting, p)"
| "Acquire requested timeout_us allowed excluded ((others, now_us, expired) # rounds) p =
     (case TryAcquire requested now_us allowed excluded (others p) of
        (Some lease, p') \<Rightarrow> (Granted lease, p')
      | (None, p') \<Rightarrow>
          if timeout_us = 0 \<or> expired then (Timed_Out, p')
          else Acquire requested timeout_us allowed excluded rounds p')"

text \<open>When the next wake-up is due: the deadline or the end of the first cooldown, in microseconds of the same clock.\<close>

definition acquire_wake :: "nat \<Rightarrow> nat \<Rightarrow> u64 \<Rightarrow> u8 list \<Rightarrow> u8 list \<Rightarrow> RailState list \<Rightarrow> nat" where
  "acquire_wake deadline clock now_us allowed excluded rails =
     foldl (\<lambda>wake i. if \<not> Allowed i allowed \<or> Excluded i excluded then wake
                     else if rs_quarantined_until_us (rails ! i) > now_us
                     then min wake (clock + unat (rs_quarantined_until_us (rails ! i) - now_us)) else wake)
       deadline [0..<length rails]"

definition AcquireHighestTier :: "u32 \<Rightarrow> u64 \<Rightarrow> u64 \<Rightarrow> u8 list \<Rightarrow> u8 list \<Rightarrow> u8 list \<Rightarrow> u8 list \<Rightarrow>
    ((RailPolicy \<Rightarrow> RailPolicy) \<times> u64 \<times> bool) list \<Rightarrow> RailPolicy \<Rightarrow> wait_result \<times> RailPolicy" where
  "AcquireHighestTier requested timeout_us now highest_tier preferred fallback excluded rounds p =
     (let loc0 = IntersectRailMasks highest_tier preferred;
          non0 = IntersectRailMasks highest_tier fallback;
          (loc, non) = (if \<not> HasRail loc0 then (non0, []) else (loc0, non0))
      in if \<not> HasRail loc then (Timed_Out, p)
         else (case TryAcquire requested now loc excluded p of
                 (Some lease, p1) \<Rightarrow> (Granted lease, p1)
               | (None, p1) \<Rightarrow>
                   (case (if HasRail non then TryAcquire requested now non excluded p1 else (None, p1)) of
                      (Some lease, p2) \<Rightarrow> (Granted lease, p2)
                    | (None, p2) \<Rightarrow>
                        Acquire requested timeout_us
                          (if HasUnexcludedRail loc [] excluded \<or> \<not> HasRail non then loc else non) excluded rounds p2)))"

definition AcquireWithFallback :: "u32 \<Rightarrow> u64 \<Rightarrow> u64 \<Rightarrow> u8 list \<Rightarrow> u8 list \<Rightarrow> u8 list \<Rightarrow>
    ((RailPolicy \<Rightarrow> RailPolicy) \<times> u64 \<times> bool) list \<Rightarrow> RailPolicy \<Rightarrow> wait_result \<times> RailPolicy" where
  "AcquireWithFallback requested timeout_us now preferred fallback excluded rounds p =
     (case TryAcquire requested now preferred excluded p of
        (Some lease, p1) \<Rightarrow> (Granted lease, p1)
      | (None, p1) \<Rightarrow>
          (case (if fallback \<noteq> [] then TryAcquire requested now fallback excluded p1 else (None, p1)) of
             (Some lease, p2) \<Rightarrow> (Granted lease, p2)
           | (None, p2) \<Rightarrow>
               Acquire requested timeout_us
                 (if HasUnexcludedRail preferred [] excluded \<or> fallback = [] then preferred else fallback) excluded rounds p2))"

subsection \<open>The selection\<close>

definition rail_probe :: "RailState \<Rightarrow> bool" where
  "rail_probe rail \<longleftrightarrow> rs_recovery_probe rail \<or> rs_quarantined_until_us rail \<noteq> 0"

definition eligible :: "u32 \<Rightarrow> u64 \<Rightarrow> u8 list \<Rightarrow> u8 list \<Rightarrow> nat \<Rightarrow> RailState \<Rightarrow> bool" where
  "eligible requested now_us allowed excluded i rail \<longleftrightarrow> Allowed i allowed \<and> \<not> Excluded i excluded \<and>
     rs_quarantined_until_us rail \<le> now_us \<and> \<not> (rail_probe rail \<and> rs_inflight rail \<noteq> 0) \<and>
     requested \<le> rs_credits rail - rs_inflight rail"

text \<open>Recovery probes come first, then the lower score; the rank is smaller for the better rail.\<close>

definition rank :: "bool \<Rightarrow> u64 \<Rightarrow> nat" where
  "rank probe score = (if probe then 0 else 2 ^ 64) + unat score"

definition rail_rank :: "RailPolicyConfig \<Rightarrow> RailState \<Rightarrow> nat" where
  "rail_rank c rail = rank (rail_probe rail) (rail_score c rail)"

definition choice_rank :: "rail_choice \<Rightarrow> nat" where
  "choice_rank ch = rank (ch_recovery ch) (ch_score ch)"

lemma unat_u64_less: "unat (w :: u64) < 2 ^ 64"
proof -
  have "unat w < 2 ^ LENGTH(64)" by (rule unsigned_less)
  then show ?thesis by simp
qed

lemma better_rank: "(p \<and> \<not> q) \<or> (p = q \<and> s < t) \<longleftrightarrow> rank p s < rank q t"
  using unat_u64_less [of s] unat_u64_less [of t] by (auto simp: rank_def word_less_nat_alt)

lemma acquire_visit_eligible:
  assumes "eligible req now allowed excluded i rail"
  shows "acquire_visit c req now allowed excluded i rail ch =
    (rail, if rail_rank c rail < choice_rank ch
           then \<lparr>ch_selected = i, ch_score = rail_score c rail, ch_recovery = rail_probe rail\<rparr> else ch)"
proof -
  have e: "Allowed i allowed" "\<not> Excluded i excluded" "\<not> rs_quarantined_until_us rail > now"
    "\<not> (rail_probe rail \<and> rs_inflight rail \<noteq> 0)" "\<not> req > rs_credits rail - rs_inflight rail"
    using assms by (auto simp: eligible_def not_less)
  then show ?thesis
    unfolding rail_rank_def choice_rank_def better_rank [symmetric] acquire_visit_def rail_probe_def [symmetric] Let_def
    by (cases "rail_probe rail") simp_all
qed

lemma acquire_visit_skips:
  assumes "\<not> eligible req now allowed excluded i rail"
  shows "snd (acquire_visit c req now allowed excluded i rail ch) = ch"
proof -
  consider "\<not> Allowed i allowed \<or> Excluded i excluded" | "rs_quarantined_until_us rail > now" | "rail_probe rail \<and> rs_inflight rail \<noteq> 0"
    | "req > rs_credits rail - rs_inflight rail" using assms by (auto simp: eligible_def not_less)
  then show ?thesis unfolding acquire_visit_def rail_probe_def [symmetric] Let_def by cases simp_all
qed

definition same_rail :: "RailState \<Rightarrow> RailState \<Rightarrow> bool" where
  "same_rail r r' \<longleftrightarrow> (\<exists>n. r' = r\<lparr>rs_credits_exhausted := n\<rparr>)"

lemma acquire_visit_same: "same_rail rail (fst (acquire_visit c req now allowed excluded i rail ch))"
proof -
  have "fst (acquire_visit c req now allowed excluded i rail ch) = rail \<or>
      fst (acquire_visit c req now allowed excluded i rail ch) = rail\<lparr>rs_credits_exhausted := rs_credits_exhausted rail + 1\<rparr>"
    by (simp add: acquire_visit_def Let_def)
  moreover have "rail = rail\<lparr>rs_credits_exhausted := rs_credits_exhausted rail\<rparr>" by simp
  ultimately show ?thesis unfolding same_rail_def by metis
qed

lemma acquire_scan_spec:
  assumes "acquire_scan c req now allowed excluded i rails ch = (rails', ch')"
  shows "length rails' = length rails" "j < length rails \<Longrightarrow> same_rail (rails ! j) (rails' ! j)"
    "choice_rank ch' \<le> choice_rank ch"
    "j < length rails \<Longrightarrow> eligible req now allowed excluded (i + j) (rails ! j) \<Longrightarrow> choice_rank ch' \<le> rail_rank c (rails ! j)"
    "ch' = ch \<or> (\<exists>j<length rails. eligible req now allowed excluded (i + j) (rails ! j) \<and> rail_rank c (rails ! j) < choice_rank ch \<and>
       ch' = \<lparr>ch_selected = i + j, ch_score = rail_score c (rails ! j), ch_recovery = rail_probe (rails ! j)\<rparr>)"
proof -
  let ?e = "eligible req now allowed excluded" and ?pick = "\<lambda>k r. \<lparr>ch_selected = k, ch_score = rail_score c r, ch_recovery = rail_probe r\<rparr>"
  have "length rails' = length rails \<and> (\<forall>j<length rails. same_rail (rails ! j) (rails' ! j)) \<and> choice_rank ch' \<le> choice_rank ch \<and>
    (\<forall>j<length rails. ?e (i + j) (rails ! j) \<longrightarrow> choice_rank ch' \<le> rail_rank c (rails ! j)) \<and>
    (ch' = ch \<or> (\<exists>j<length rails. ?e (i + j) (rails ! j) \<and> rail_rank c (rails ! j) < choice_rank ch \<and> ch' = ?pick (i + j) (rails ! j)))"
    using assms
  proof (induction rails arbitrary: i ch rails')
    case (Cons r rs)
    obtain r' ch1 where v: "acquire_visit c req now allowed excluded i r ch = (r', ch1)" by fastforce
    obtain rs' where sc: "acquire_scan c req now allowed excluded (Suc i) rs ch1 = (rs', ch')" "rails' = r' # rs'"
      using Cons.prems v by (auto split: prod.splits)
    note IH = Cons.IH [OF sc(1)]
    have same: "same_rail r r'" using acquire_visit_same [of r c req now allowed excluded i ch] v by simp
    have visit: "ch1 = (if ?e i r \<and> rail_rank c r < choice_rank ch then ?pick i r else ch)"
      using acquire_visit_eligible [of req now allowed excluded i r c ch] acquire_visit_skips [of req now allowed excluded i r c ch]
      unfolding v by (cases "?e i r") auto
    have rk: "choice_rank (?pick i r) = rail_rank c r" by (simp add: choice_rank_def rail_rank_def)
    have le: "choice_rank ch1 \<le> choice_rank ch" "?e i r \<longrightarrow> choice_rank ch1 \<le> rail_rank c r" unfolding visit using rk by auto
    have hit: "ch' = ch \<or> (\<exists>j<Suc (length rs). ?e (i + j) ((r # rs) ! j) \<and> rail_rank c ((r # rs) ! j) < choice_rank ch \<and> ch' = ?pick (i + j) ((r # rs) ! j))"
    proof (cases "ch' = ch1")
      case True
      then show ?thesis unfolding visit by (auto intro: exI [of _ 0])
    next
      case False
      then obtain j where j: "j < length rs" "?e (Suc i + j) (rs ! j)" "rail_rank c (rs ! j) < choice_rank ch1" "ch' = ?pick (Suc i + j) (rs ! j)"
        using IH by blast
      then show ?thesis using le(1) by (intro disjI2 exI [of _ "Suc j"]) simp
    qed
    show ?case
    proof (intro conjI)
      show "length rails' = length (r # rs)" using IH sc(2) by simp
      show "\<forall>j<length (r # rs). same_rail ((r # rs) ! j) (rails' ! j)" using IH sc(2) same by (simp add: nth_Cons split: nat.split)
      show "choice_rank ch' \<le> choice_rank ch" using IH le(1) by linarith
      show "\<forall>j<length (r # rs). ?e (i + j) ((r # rs) ! j) \<longrightarrow> choice_rank ch' \<le> rail_rank c ((r # rs) ! j)"
        using IH le by (auto simp: nth_Cons split: nat.split) 
    qed (use hit in simp)
  qed simp
  then show "length rails' = length rails" "j < length rails \<Longrightarrow> same_rail (rails ! j) (rails' ! j)"
    "choice_rank ch' \<le> choice_rank ch"
    "j < length rails \<Longrightarrow> ?e (i + j) (rails ! j) \<Longrightarrow> choice_rank ch' \<le> rail_rank c (rails ! j)"
    "ch' = ch \<or> (\<exists>j<length rails. ?e (i + j) (rails ! j) \<and> rail_rank c (rails ! j) < choice_rank ch \<and> ch' = ?pick (i + j) (rails ! j))"
    by blast+
qed

definition clamp_request :: "RailPolicy \<Rightarrow> u32 \<Rightarrow> u32" where
  "clamp_request p requested = min (max 1 requested) (credits_per_rail (rp_config p))"

lemma TryAcquire_spec:
  assumes r: "TryAcquire requested now allowed excluded p = (out, p')"
  defines "req \<equiv> clamp_request p requested"
  shows "rp_config p' = rp_config p" "length (rp_rails p') = length (rp_rails p)"
    "out = None \<Longrightarrow> i < length (rp_rails p) \<Longrightarrow> same_rail (rp_rails p ! i) (rp_rails p' ! i)"
    "out = None \<Longrightarrow> i < length (rp_rails p) \<Longrightarrow> eligible req now allowed excluded i (rp_rails p ! i) \<Longrightarrow>
       \<not> rail_probe (rp_rails p ! i) \<and> rail_score (rp_config p) (rp_rails p ! i) = - 1"
    "out = Some l \<Longrightarrow> lease_credits l = req \<and> lease_rail l < length (rp_rails p) \<and>
       eligible req now allowed excluded (lease_rail l) (rp_rails p ! lease_rail l)"
    "out = Some l \<Longrightarrow> i < length (rp_rails p) \<Longrightarrow> eligible req now allowed excluded i (rp_rails p ! i) \<Longrightarrow>
       rail_rank (rp_config p) (rp_rails p ! lease_rail l) \<le> rail_rank (rp_config p) (rp_rails p ! i)"
    "out = Some l \<Longrightarrow> i < length (rp_rails p) \<Longrightarrow> \<exists>rail. same_rail (rp_rails p ! i) rail \<and>
       rp_rails p' ! i = (if i = lease_rail l then grant_rail req rail else rail)"
    "out = Some l \<Longrightarrow> rail_probe (rp_rails p ! lease_rail l) \<or> rail_score (rp_config p) (rp_rails p ! lease_rail l) \<noteq> - 1"
proof -
  let ?n = "length (rp_rails p)" and ?c = "rp_config p" and ?ch = "\<lparr>ch_selected = length (rp_rails p), ch_score = - 1, ch_recovery = False\<rparr>"
  obtain rails ch where s: "acquire_scan ?c req now allowed excluded 0 (rp_rails p) ?ch = (rails, ch)" by fastforce
  note S = acquire_scan_spec [OF s]
  have same: "\<exists>rail. same_rail (rp_rails p ! i) rail \<and> rails ! i = rail" if "i < ?n" for i using S(2) [of i] that by simp
  have out: "(out, p') = (if ch_selected ch = ?n then (None, p\<lparr>rp_rails := rails\<rparr>)
      else (Some \<lparr>lease_rail = ch_selected ch, lease_credits = req\<rparr>, p\<lparr>rp_rails := upd_nth rails (ch_selected ch) (grant_rail req)\<rparr>))"
  proof (cases "?n = 0")
    case True
    then show ?thesis using r s by (auto simp: TryAcquire_def)
  next
    case False
    then show ?thesis using r s by (auto simp: TryAcquire_def Let_def req_def clamp_request_def split: if_splits)
  qed
  then show "rp_config p' = rp_config p" "length (rp_rails p') = length (rp_rails p)" using S(1) by (auto split: if_splits)
  have sel: "ch = ?ch \<or> (\<exists>j<?n. eligible req now allowed excluded j (rp_rails p ! j) \<and>
       ch = \<lparr>ch_selected = j, ch_score = rail_score ?c (rp_rails p ! j), ch_recovery = rail_probe (rp_rails p ! j)\<rparr>)" using S(5) by auto
  show "same_rail (rp_rails p ! i) (rp_rails p' ! i)" if "out = None" "i < ?n" using out that S(2) [of i] by (auto split: if_splits)
  show "\<not> rail_probe (rp_rails p ! i) \<and> rail_score ?c (rp_rails p ! i) = - 1"
    if "out = None" "i < ?n" "eligible req now allowed excluded i (rp_rails p ! i)"
  proof -
    have "ch = ?ch" using out that(1) sel by (auto split: if_splits)
    then have "rank False (- 1) \<le> rank (rail_probe (rp_rails p ! i)) (rail_score ?c (rp_rails p ! i))"
      using S(4) [of i] that(2,3) by (simp add: choice_rank_def rail_rank_def)
    then have "\<not> (rail_probe (rp_rails p ! i) \<or> rail_score ?c (rp_rails p ! i) < - 1)"
      unfolding not_less [symmetric] better_rank [symmetric] by auto
    then show ?thesis by (simp add: not_less word_order.extremum_uniqueI)
  qed
  show "lease_credits l = req \<and> lease_rail l < ?n \<and> eligible req now allowed excluded (lease_rail l) (rp_rails p ! lease_rail l)" if "out = Some l"
    using out that sel by (auto split: if_splits)
  show "rail_rank ?c (rp_rails p ! lease_rail l) \<le> rail_rank ?c (rp_rails p ! i)"
    if "out = Some l" "i < ?n" "eligible req now allowed excluded i (rp_rails p ! i)"
  proof -
    have "choice_rank ch = rail_rank ?c (rp_rails p ! lease_rail l)" using out that(1) sel by (auto simp: choice_rank_def rail_rank_def split: if_splits)
    then show ?thesis using S(4) [of i] that(2,3) by simp
  qed
  show "\<exists>rail. same_rail (rp_rails p ! i) rail \<and> rp_rails p' ! i = (if i = lease_rail l then grant_rail req rail else rail)"
    if "out = Some l" "i < ?n"
    using out that same [OF that(2)] S(1) by (auto simp: nth_upd split: if_splits)
  show "rail_probe (rp_rails p ! lease_rail l) \<or> rail_score ?c (rp_rails p ! lease_rail l) \<noteq> - 1" if "out = Some l"
  proof -
    have "rank (rail_probe (rp_rails p ! lease_rail l)) (rail_score ?c (rp_rails p ! lease_rail l)) < rank False (- 1)"
      using out that S(5) by (auto simp: rail_rank_def choice_rank_def split: if_splits)
    then show ?thesis unfolding better_rank [symmetric] by auto
  qed
qed

text \<open>
  The load score without the wrap of 64-bit arithmetic. The score the code computes is never larger,
  so it reaches the largest 64-bit value only where this one does.
\<close>

definition full_score :: "RailPolicyConfig \<Rightarrow> RailState \<Rightarrow> nat" where
  "full_score c rail = unat (rs_inflight rail) * 1000000 div unat (rs_credits rail) +
     unat (rs_latency_ewma_us rail) * unat (latency_weight c) + unat (rs_consecutive_errors rail) * unat (error_penalty_us c)"

lemma unat_plus_le: "unat (a + b :: u64) \<le> unat a + unat b"
  by (simp add: unat_word_ariths)

lemma unat_times_le: "unat (a * b :: u64) \<le> unat a * unat b"
  by (simp add: unat_word_ariths)

lemma unat_ucast_u32: "unat (ucast (w :: u32) :: u64) = unat w"
proof -
  have "unat w < 2 ^ LENGTH(32)" by (rule unsigned_less)
  then show ?thesis by (simp add: unsigned_ucast_eq take_bit_nat_eq_self)
qed

lemma rail_score_le: "unat (rail_score c rail) \<le> full_score c rail"
proof -
  let ?q = "ucast (rs_inflight rail) * 1000000 div ucast (rs_credits rail) :: u64"
  have "unat (ucast (rs_inflight rail) * 1000000 :: u64) \<le> unat (rs_inflight rail) * 1000000"
    using unat_times_le [of "ucast (rs_inflight rail)" 1000000] by (simp add: unat_ucast_u32)
  then have "unat ?q \<le> unat (rs_inflight rail) * 1000000 div unat (rs_credits rail)"
    by (simp add: unat_div unat_ucast_u32 div_le_mono)
  moreover have "unat (rs_latency_ewma_us rail * ucast (latency_weight c)) \<le> unat (rs_latency_ewma_us rail) * unat (latency_weight c)"
    using unat_times_le [of "rs_latency_ewma_us rail" "ucast (latency_weight c)"] by (simp add: unat_ucast_u32)
  moreover have "unat (ucast (rs_consecutive_errors rail) * error_penalty_us c) \<le> unat (rs_consecutive_errors rail) * unat (error_penalty_us c)"
    using unat_times_le [of "ucast (rs_consecutive_errors rail)" "error_penalty_us c"] by (simp add: unat_ucast_u32)
  ultimately show ?thesis unfolding rail_score_def full_score_def
    by (meson add_mono order_trans unat_plus_le)
qed

lemma rail_score_max: "rail_score c rail = - 1 \<Longrightarrow> 2 ^ 64 - 1 \<le> full_score c rail"
proof -
  assume "rail_score c rail = - 1"
  moreover have "(- 1 :: u64) = 18446744073709551615" by simp
  ultimately show ?thesis using rail_score_le [of c rail] by simp
qed

subsection \<open>Credits and probes\<close>

text \<open>
  The books of the policy against the leases that are outstanding: the credits in flight on a rail
  are those of its leases, never more than the rail has, and a recovery probe is its only lease.
\<close>

definition on_rail :: "nat \<Rightarrow> RailLease multiset \<Rightarrow> RailLease multiset" where
  "on_rail i L = filter_mset (\<lambda>l. lease_rail l = i) L"

definition rail_ok :: "RailPolicyConfig \<Rightarrow> RailLease multiset \<Rightarrow> RailState \<Rightarrow> bool" where
  "rail_ok c L r \<longleftrightarrow> rs_credits r = credits_per_rail c \<and> rs_inflight r \<le> rs_credits r \<and>
     unat (rs_inflight r) = (\<Sum>l\<in>#L. unat (lease_credits l)) \<and>
     (rs_recovery_probe r \<longrightarrow> rs_quarantined_until_us r \<noteq> 0 \<and> size L = 1)"

definition policy_ok :: "RailPolicy \<Rightarrow> RailLease multiset \<Rightarrow> bool" where
  "policy_ok p L \<longleftrightarrow> 0 < credits_per_rail (rp_config p) \<and> (\<forall>l\<in>#L. lease_rail l < length (rp_rails p) \<and> 0 < lease_credits l) \<and>
     (\<forall>i<length (rp_rails p). rail_ok (rp_config p) (on_rail i L) (rp_rails p ! i))"

lemma rail_ok_same: "same_rail r r' \<Longrightarrow> rail_ok c L r' = rail_ok c L r"
  by (auto simp: same_rail_def rail_ok_def)

lemma rail_ok_idle:
  assumes "rail_ok c L r" "\<forall>l\<in>#L. 0 < lease_credits l" "rs_inflight r = 0"
  shows "L = {#}"
proof (rule ccontr)
  assume "L \<noteq> {#}"
  then obtain l M where "L = add_mset l M" by (meson multiset_cases)
  then show False using assms by (auto simp: rail_ok_def word_less_nat_alt)
qed

lemma eligible_room:
  assumes "rail_ok c L r" "eligible req now allowed excluded i r"
  shows "unat (rs_inflight r) + unat req \<le> unat (rs_credits r)"
proof -
  have le: "req \<le> rs_credits r - rs_inflight r" "rs_inflight r \<le> rs_credits r" using assms by (auto simp: eligible_def rail_ok_def)
  then have "unat req \<le> unat (rs_credits r) - unat (rs_inflight r)" by (simp add: word_le_nat_alt unat_sub)
  moreover have "unat (rs_inflight r) \<le> unat (rs_credits r)" using le(2) by (simp add: word_le_nat_alt)
  ultimately show ?thesis by simp
qed

lemma grant_ok:
  assumes ok: "rail_ok c L r" and pos: "\<forall>l\<in>#L. 0 < lease_credits l" and e: "eligible req now allowed excluded i r" and l: "lease_credits l = req"
  shows "rail_ok c (add_mset l L) (grant_rail req r)"
proof -
  have room: "unat (rs_inflight r) + unat req \<le> unat (rs_credits r)" by (rule eligible_room [OF ok e])
  moreover have "unat (rs_credits r) < 2 ^ LENGTH(32)" by (rule unsigned_less)
  ultimately have u: "unat (rs_inflight r + req) = unat (rs_inflight r) + unat req" by (simp add: unat_word_ariths)
  have "L = {#}" if "rs_quarantined_until_us r \<noteq> 0"
    using rail_ok_idle [OF ok pos] e that by (auto simp: eligible_def rail_probe_def)
  then show ?thesis using ok u l room by (auto simp: rail_ok_def grant_rail_def Let_def word_le_nat_alt)
qed

lemma complete_ok:
  assumes ok: "rail_ok c (add_mset l L) r"
  shows "rail_ok c L (complete_rail c (lease_credits l) lat completion now r)"
proof -
  let ?f = "rs_inflight r - min (lease_credits l) (rs_inflight r)"
  have f: "unat (rs_inflight r) = unat (lease_credits l) + (\<Sum>l\<in>#L. unat (lease_credits l))" using ok by (simp add: rail_ok_def)
  then have "lease_credits l \<le> rs_inflight r" by (simp add: word_le_nat_alt)
  then have u: "unat ?f = (\<Sum>l\<in>#L. unat (lease_credits l))" using f by (simp add: min_def unat_sub)
  moreover have "unat (rs_inflight r) \<le> unat (rs_credits r)" using ok by (auto simp: rail_ok_def word_le_nat_alt)
  ultimately have "unat ?f \<le> unat (rs_credits r)" using f by simp
  then have "?f \<le> rs_credits r" by (simp only: word_le_nat_alt)
  then show ?thesis using ok u by (cases completion) (auto simp: rail_ok_def complete_rail_def Let_def)
qed

lemma on_rail_add: "on_rail i (add_mset l L) = (if lease_rail l = i then add_mset l (on_rail i L) else on_rail i L)"
  by (simp add: on_rail_def)

lemma TryAcquire_ok:
  assumes ok: "policy_ok p L" and r: "TryAcquire requested now allowed excluded p = (out, p')"
  shows "policy_ok p' (case out of None \<Rightarrow> L | Some l \<Rightarrow> add_mset l L)"
proof -
  note S = TryAcquire_spec [OF r]
  have rails: "rail_ok (rp_config p) (on_rail i L) (rp_rails p ! i)" if "i < length (rp_rails p)" for i using ok that by (simp add: policy_ok_def)
  have pos: "\<forall>l\<in>#on_rail i L. 0 < lease_credits l" for i using ok by (auto simp: policy_ok_def on_rail_def)
  have req: "0 < clamp_request p requested" using ok by (auto simp: policy_ok_def clamp_request_def min_def max_def word_less_nat_alt word_le_nat_alt)
  show ?thesis
  proof (cases out)
    case None
    have "rail_ok (rp_config p) (on_rail i L) (rp_rails p' ! i)" if i: "i < length (rp_rails p)" for i
      using rail_ok_same [OF S(3) [OF None i]] rails [OF i] by simp
    then show ?thesis using ok S(1,2) None by (simp add: policy_ok_def)
  next
    case (Some l)
    note l = S(5) [OF Some]
    have "rail_ok (rp_config p) (on_rail i (add_mset l L)) (rp_rails p' ! i)" if i: "i < length (rp_rails p)" for i
    proof -
      obtain rail where q: "same_rail (rp_rails p ! i) rail" "rp_rails p' ! i = (if i = lease_rail l then grant_rail (clamp_request p requested) rail else rail)"
        using S(7) [OF Some i] by blast
      have k: "rail_ok (rp_config p) (on_rail i L) rail" using rail_ok_same [OF q(1)] rails [OF i] by simp
      have "eligible (clamp_request p requested) now allowed excluded i rail" if "i = lease_rail l"
        using l q(1) that by (auto simp: eligible_def rail_probe_def same_rail_def)
      then show ?thesis using k q(2) grant_ok [OF k pos] l by (auto simp: on_rail_add)
    qed
    then show ?thesis using ok S(1,2) l req Some by (auto simp: policy_ok_def)
  qed
qed

lemma Complete_ok:
  assumes ok: "policy_ok p L" and l: "l \<in># L"
  shows "policy_ok (Complete l lat completion now p) (L - {#l#})"
proof -
  obtain M where L: "L = add_mset l M" using l by (metis mset_add)
  have n: "lease_rail l < length (rp_rails p)" using ok L by (simp add: policy_ok_def)
  have "rail_ok (rp_config p) (on_rail i M) (upd_nth (rp_rails p) (lease_rail l) (complete_rail (rp_config p) (lease_credits l) lat completion now) ! i)"
    if "i < length (rp_rails p)" for i
    using ok that n complete_ok [of "rp_config p" l "on_rail i M" "rp_rails p ! i"] by (auto simp: policy_ok_def L on_rail_add nth_upd split: if_splits)
  then show ?thesis using ok n by (simp add: policy_ok_def Complete_def L)
qed

inductive policy_run :: "RailPolicy \<Rightarrow> RailLease multiset \<Rightarrow> bool" where
  start: "policy_run (new_rail_policy n config) {#}"
| acquire: "policy_run p L \<Longrightarrow> TryAcquire requested now allowed excluded p = (out, p') \<Longrightarrow>
    policy_run p' (case out of None \<Rightarrow> L | Some l \<Rightarrow> add_mset l L)"
| complete: "policy_run p L \<Longrightarrow> l \<in># L \<Longrightarrow> policy_run (Complete l lat completion now p) (L - {#l#})"

lemma policy_run_ok: "policy_run p L \<Longrightarrow> policy_ok p L"
proof (induction rule: policy_run.induct)
  case (start n config)
  then show ?case
    by (simp add: policy_ok_def new_rail_policy_def normalize_rail_config_def Let_def rail_ok_def on_rail_def empty_rail_def max_def word_less_nat_alt word_le_nat_alt)
qed (simp_all add: TryAcquire_ok Complete_ok)

subsection \<open>Quarantine\<close>

text \<open>
  What may happen to the policy while a rail that failed at the time \<open>from\<close> is kept out until \<open>till\<close>:
  admissions before that time, and completions whose clock is not older than the failure's.
\<close>

inductive quarantine_run :: "u64 \<Rightarrow> u64 \<Rightarrow> RailPolicy \<Rightarrow> RailPolicy \<Rightarrow> bool" for "from" till p where
  start: "quarantine_run from till p p"
| acquire: "quarantine_run from till p q \<Longrightarrow> now < till \<Longrightarrow> TryAcquire requested now allowed excluded q = (out, q') \<Longrightarrow> quarantine_run from till p q'"
| complete: "quarantine_run from till p q \<Longrightarrow> from \<le> now \<Longrightarrow> unat now + unat (quarantine_us (rp_config q)) < 2 ^ 64 \<Longrightarrow>
    quarantine_run from till p (Complete l lat completion now q)"

definition still_out :: "u64 \<Rightarrow> nat \<Rightarrow> RailPolicy \<Rightarrow> bool" where
  "still_out till i p \<longleftrightarrow> i < length (rp_rails p) \<and> \<not> rs_recovery_probe (rp_rails p ! i) \<and> till \<le> rs_quarantined_until_us (rp_rails p ! i)"

lemma TryAcquire_still_out:
  assumes "still_out till i p" "now < till" and r: "TryAcquire requested now allowed excluded p = (out, p')"
  shows "still_out till i p'"
proof (cases out)
  case None
  have "i < length (rp_rails p)" using assms(1) by (simp add: still_out_def)
  then have "same_rail (rp_rails p ! i) (rp_rails p' ! i)" by (rule TryAcquire_spec(3) [OF r None])
  then show ?thesis using assms(1) TryAcquire_spec(2) [OF r] by (auto simp: still_out_def same_rail_def)
next
  case (Some l)
  have i: "i < length (rp_rails p)" using assms(1) by (simp add: still_out_def)
  have "i \<noteq> lease_rail l" using TryAcquire_spec(5) [OF r Some] assms(1,2) by (auto simp: still_out_def eligible_def)
  then have "same_rail (rp_rails p ! i) (rp_rails p' ! i)" using TryAcquire_spec(7) [OF r Some i] by auto
  then show ?thesis using assms(1) TryAcquire_spec(2) [OF r] by (auto simp: still_out_def same_rail_def)
qed

lemma Complete_still_out:
  assumes "still_out till i p" "till \<le> now + quarantine_us (rp_config p)"
  shows "still_out till i (Complete l lat completion now p)"
  using assms by (cases completion) (auto simp: still_out_def Complete_def complete_rail_def Let_def nth_upd)

lemma quarantine_run_out:
  assumes "quarantine_run from till p q" "till = from + quarantine_us (rp_config p)" "still_out till i p"
    "unat from + unat (quarantine_us (rp_config p)) < 2 ^ 64"
  shows "still_out till i q \<and> rp_config q = rp_config p"
  using assms
proof (induction rule: quarantine_run.induct)
  case (acquire q now requested allowed excluded out q')
  then show ?case using TryAcquire_still_out [of till i q now] TryAcquire_spec(1) by metis
next
  case (complete q now l lat completion)
  then have IH: "still_out till i q" "rp_config q = rp_config p" by simp_all
  have "unat from + unat (quarantine_us (rp_config p)) \<le> unat now + unat (quarantine_us (rp_config p))" using complete by (simp add: word_le_nat_alt)
  then have "till \<le> now + quarantine_us (rp_config q)" using complete IH(2) by (simp add: word_le_nat_alt unat_word_ariths)
  then show ?case using Complete_still_out [OF IH(1)] IH(2) by (simp add: Complete_def)
qed simp

subsection \<open>Publication tokens\<close>

inductive topology_run :: "PeerTopologyStore \<Rightarrow> PeerTopologyStore \<Rightarrow> bool" for s where
  here: "topology_run s s"
| update: "topology_run s t \<Longrightarrow> topology_run s (snd (topology_Update topology t))"

definition store_ok :: "PeerTopologyStore \<Rightarrow> bool" where
  "store_ok s \<longleftrightarrow> sn_publication (ts_fallback s) = 0 \<and>
     (\<forall>a sn. ts_snapshots s a = Some sn \<longrightarrow> 0 < sn_publication sn \<and> sn_publication sn \<le> ts_last_publication s) \<and>
     (\<forall>a b sn sn'. ts_snapshots s a = Some sn \<longrightarrow> ts_snapshots s b = Some sn' \<longrightarrow> sn_peer_id sn \<noteq> [] \<longrightarrow>
        sn_peer_id sn' = sn_peer_id sn \<longrightarrow> a = b)"

definition publish :: "PeerTopology \<Rightarrow> PeerTopologyStore \<Rightarrow> PeerTopologyStore" where
  "publish topology s = s\<lparr>ts_last_publication := ts_last_publication s + 1,
     ts_snapshots := (if pt_peer_id topology = [] then ts_snapshots s
        else retire_identity (pt_peer_addr topology) (pt_peer_id topology) (ts_snapshots s))
          (pt_peer_addr topology \<mapsto> (next_snapshot s topology)\<lparr>sn_publication := ts_last_publication s + 1\<rparr>)\<rparr>"

lemma topology_Update_snd:
  "snd (topology_Update topology s) \<in> {s, s\<lparr>ts_snapshots := (ts_snapshots s)(pt_peer_addr topology := None)\<rparr>, publish topology s}"
proof (cases "ts_snapshots s (pt_peer_addr topology)")
  case None
  then show ?thesis unfolding topology_Update_def Let_def publish_def by simp
next
  case (Some sn)
  then show ?thesis unfolding topology_Update_def Let_def publish_def by simp
qed

lemma topology_Update_cases:
  assumes "topology_Update topology s = (ok, s')"
  obtains (idle) "s' = s" | (retired) "s' = s\<lparr>ts_snapshots := (ts_snapshots s)(pt_peer_addr topology := None)\<rparr>"
    | (published) "s' = publish topology s"
  using topology_Update_snd [of topology s] assms by auto

lemma retire_identity_Some: "retire_identity addr pid m a = Some sn \<Longrightarrow> m a = Some sn \<and> (a = addr \<or> sn_peer_id sn \<noteq> pid)"
  by (auto simp: retire_identity_def split: option.splits if_splits)

lemma next_snapshot_id: "sn_peer_id (next_snapshot s topology) = pt_peer_id topology"
  by (simp add: next_snapshot_def Let_def)

lemma topology_Update_entries:
  assumes "topology_Update topology s = (ok, s')"
  shows "ts_fallback s' = ts_fallback s" "ts_last_publication s \<le> ts_last_publication s'"
    "ts_snapshots s' a = Some sn \<Longrightarrow> ts_snapshots s a = Some sn \<or>
       a = pt_peer_addr topology \<and> sn_publication sn = ts_last_publication s' \<and> ts_last_publication s < ts_last_publication s' \<and> sn_peer_id sn = pt_peer_id topology"
  using assms by (auto elim!: topology_Update_cases simp: publish_def next_snapshot_id dest!: retire_identity_Some split: if_splits)

lemma topology_Update_unique:
  assumes "topology_Update topology s = (ok, s')" "ts_snapshots s' a = Some sn"
    "ts_last_publication s < ts_last_publication s'" "pt_peer_id topology \<noteq> []" "sn_peer_id sn = pt_peer_id topology"
  shows "a = pt_peer_addr topology"
  using assms by (auto elim!: topology_Update_cases simp: publish_def dest!: retire_identity_Some split: if_splits)

lemma topology_Update_ok:
  assumes ok: "store_ok s" and r: "topology_Update topology s = (out, s')"
  shows "store_ok s'"
proof -
  note U = topology_Update_entries [OF r]
  have pub: "0 < sn_publication sn \<and> sn_publication sn \<le> ts_last_publication s'" if "ts_snapshots s' a = Some sn" for a sn
    using U(2) U(3) [OF that] ok unfolding store_ok_def by fastforce
  have uniq: "a = b" if ab: "ts_snapshots s' a = Some sn" "ts_snapshots s' b = Some sn'" "sn_peer_id sn \<noteq> []" "sn_peer_id sn' = sn_peer_id sn" for a b sn sn'
  proof -
    consider (old) "ts_snapshots s a = Some sn" "ts_snapshots s b = Some sn'"
      | (new1) "a = pt_peer_addr topology" "ts_last_publication s < ts_last_publication s'" "sn_peer_id sn = pt_peer_id topology"
      | (new2) "b = pt_peer_addr topology" "ts_last_publication s < ts_last_publication s'" "sn_peer_id sn' = pt_peer_id topology"
      using U(3) [OF ab(1)] U(3) [OF ab(2)] by blast
    then show ?thesis
    proof cases
      case old
      then show ?thesis using ok ab(3,4) unfolding store_ok_def by metis
    next
      case new1
      then show ?thesis using topology_Update_unique [OF r ab(2)] ab by simp
    next
      case new2
      then show ?thesis using topology_Update_unique [OF r ab(1)] ab by simp
    qed
  qed
  show ?thesis unfolding store_ok_def using ok U(1) pub uniq unfolding store_ok_def by metis
qed

lemma topology_run_entries:
  assumes "topology_run s t" "store_ok s"
  shows "store_ok t \<and> ts_fallback t = ts_fallback s \<and> ts_last_publication s \<le> ts_last_publication t \<and>
    (\<forall>a sn. ts_snapshots t a = Some sn \<longrightarrow> ts_snapshots s a = Some sn \<or> ts_last_publication s < sn_publication sn)"
  using assms
proof (induction rule: topology_run.induct)
  case (update t topology)
  obtain out t' where r: "topology_Update topology t = (out, t')" by fastforce
  note U = topology_Update_entries [OF r]
  have "ts_snapshots s a = Some sn \<or> ts_last_publication s < sn_publication sn" if "ts_snapshots t' a = Some sn" for a sn
    using U(3) [OF that] update by auto
  then show ?case using update U(1,2) topology_Update_ok [OF _ r] r by auto
qed auto

subsection \<open>Staying inside the tier\<close>

lemma HasRail_Nil [simp]: "\<not> HasRail []"
  by (simp add: HasRail_def)

lemma TryAcquire_allowed: "TryAcquire requested now allowed excluded p = (Some l, p') \<Longrightarrow> Allowed (lease_rail l) allowed \<and> \<not> Excluded (lease_rail l) excluded"
  using TryAcquire_spec(5) [of requested now allowed excluded p "Some l" p' l] by (simp add: eligible_def)

lemma Acquire_allowed:
  "Acquire requested timeout allowed excluded rounds p = (Granted l, p') \<Longrightarrow> Allowed (lease_rail l) allowed \<and> \<not> Excluded (lease_rail l) excluded"
  by (induction requested timeout allowed excluded rounds p rule: Acquire.induct)
     (auto dest: TryAcquire_allowed split: prod.splits option.splits if_splits)

lemma Intersect_allowed:
  assumes "Allowed i (IntersectRailMasks left right)" "HasRail (IntersectRailMasks left right)"
  shows "i < length left \<and> left ! i \<noteq> 0"
proof -
  have "IntersectRailMasks left right \<noteq> []" using assms(2) by (auto simp: HasRail_def)
  then have "i < max (length left) (length right)" "IntersectRailMasks left right ! i \<noteq> 0" using assms(1) by (auto simp: Allowed_def IntersectRailMasks_def)
  then show ?thesis by (auto simp: IntersectRailMasks_def split: if_splits)
qed

subsection \<open>Properties\<close>

text \<open>
  C22: Credits are conserved. However leases are taken and completed, the credits in flight on a
  rail are exactly those of its outstanding leases and never exceed the rail's limit, and a
  recovery probe is the only outstanding lease of its rail.
\<close>

theorem rail_credits_conserved:
  assumes "policy_run p L" "i < length (rp_rails p)"
  shows "unat (rs_inflight (rp_rails p ! i)) = (\<Sum>l\<in>#on_rail i L. unat (lease_credits l)) \<and>
    rs_inflight (rp_rails p ! i) \<le> rs_credits (rp_rails p ! i) \<and> rs_credits (rp_rails p ! i) = credits_per_rail (rp_config p) \<and>
    (rs_recovery_probe (rp_rails p ! i) \<longrightarrow> size (on_rail i L) = 1)"
  using policy_run_ok [OF assms(1)] assms(2) by (auto simp: policy_ok_def rail_ok_def)

theorem rail_credits_conserved_witness:
  "unat (rs_inflight (rp_rails (new_rail_policy 2 default_rail_config) ! 1)) = 0"
  using rail_credits_conserved [OF policy_run.start [of 2 default_rail_config], of 1] by (simp add: new_rail_policy_def Let_def on_rail_def)

text \<open>
  C23: Admission is sound and picks the best rail. A granted lease names an allowed rail that is
  not excluded, whose cooldown is over and which has the credits; a rail that was quarantined is
  granted only when it has no other lease; and no rail that could have served the request ranks
  better (recovery probes first, then the lower load score). The request is refused exactly when every rail
  that could serve it is no recovery probe and scores the largest 64-bit value, the value the
  scan starts from; such a rail is one whose load score before the wrap is at least that value, so where
  the scores stay below it a refusal means that no rail could serve.
\<close>

theorem TryAcquire_sound_and_best:
  assumes run: "policy_run p L" and r: "TryAcquire requested now allowed excluded p = (out, p')" and req: "req = clamp_request p requested"
  shows "(out = None \<longleftrightarrow> (\<forall>i<length (rp_rails p). eligible req now allowed excluded i (rp_rails p ! i) \<longrightarrow>
      \<not> rail_probe (rp_rails p ! i) \<and> rail_score (rp_config p) (rp_rails p ! i) = - 1)) \<and>
    (case out of
      None \<Rightarrow> \<forall>i<length (rp_rails p). eligible req now allowed excluded i (rp_rails p ! i) \<longrightarrow> 2 ^ 64 - 1 \<le> full_score (rp_config p) (rp_rails p ! i)
    | Some l \<Rightarrow> lease_credits l = req \<and> lease_rail l < length (rp_rails p) \<and> Allowed (lease_rail l) allowed \<and> \<not> Excluded (lease_rail l) excluded \<and>
        rs_quarantined_until_us (rp_rails p ! lease_rail l) \<le> now \<and>
        (\<Sum>l\<in>#on_rail (lease_rail l) L. unat (lease_credits l)) + unat req \<le> unat (credits_per_rail (rp_config p)) \<and>
        (rs_quarantined_until_us (rp_rails p ! lease_rail l) \<noteq> 0 \<longrightarrow> on_rail (lease_rail l) L = {#}) \<and>
        (\<forall>i<length (rp_rails p). eligible req now allowed excluded i (rp_rails p ! i) \<longrightarrow>
           rail_rank (rp_config p) (rp_rails p ! lease_rail l) \<le> rail_rank (rp_config p) (rp_rails p ! i)))"
proof (cases out)
  case None
  then show ?thesis using TryAcquire_spec(4) [OF r None] req rail_score_max by simp
next
  case (Some l)
  note S = TryAcquire_spec [OF r, folded req]
  let ?r = "rp_rails p ! lease_rail l"
  have l: "lease_credits l = req" "lease_rail l < length (rp_rails p)" "eligible req now allowed excluded (lease_rail l) ?r" using S(5) [OF Some] by auto
  have ok: "rail_ok (rp_config p) (on_rail (lease_rail l) L) ?r" "\<forall>x\<in>#on_rail (lease_rail l) L. 0 < lease_credits x"
    using policy_run_ok [OF run] l(2) by (auto simp: policy_ok_def on_rail_def)
  have "(\<Sum>l\<in>#on_rail (lease_rail l) L. unat (lease_credits l)) + unat req \<le> unat (credits_per_rail (rp_config p))"
    using eligible_room [OF ok(1) l(3)] ok(1) by (simp add: rail_ok_def)
  moreover have "on_rail (lease_rail l) L = {#}" if "rs_quarantined_until_us ?r \<noteq> 0"
    using rail_ok_idle [OF ok] l(3) that by (auto simp: eligible_def rail_probe_def)
  moreover have "\<exists>i<length (rp_rails p). eligible req now allowed excluded i (rp_rails p ! i) \<and>
      \<not> (\<not> rail_probe (rp_rails p ! i) \<and> rail_score (rp_config p) (rp_rails p ! i) = - 1)" using l S(8) [OF Some] by blast
  ultimately show ?thesis using Some l S(6) [OF Some] by (auto simp: eligible_def)
qed

theorem TryAcquire_sound_and_best_witness:
  "\<exists>p'. TryAcquire 1 0 [] [] (new_rail_policy 1 default_rail_config) = (Some \<lparr>lease_rail = 0, lease_credits = 1\<rparr>, p')"
proof -
  let ?p = "new_rail_policy 1 default_rail_config"
  obtain out p' where r: "TryAcquire 1 0 [] [] ?p = (out, p')" by fastforce
  have c: "clamp_request ?p 1 = 1" "length (rp_rails ?p) = 1" "rp_rails ?p ! 0 = empty_rail\<lparr>rs_credits := 64\<rparr>"
    by (simp_all add: clamp_request_def new_rail_policy_def normalize_rail_config_def default_rail_config_def Let_def)
  have e: "eligible 1 0 [] [] 0 (rp_rails ?p ! 0)" "rail_score (rp_config ?p) (rp_rails ?p ! 0) = 0"
    unfolding c(3) by (simp_all add: eligible_def Allowed_def Excluded_def rail_probe_def empty_rail_def rail_score_def)
  from TryAcquire_sound_and_best [OF policy_run.start r c(1) [symmetric]] c(2) e
  obtain l where "out = Some l" "lease_credits l = 1" "lease_rail l = 0" by (auto split: option.splits)
  then show ?thesis using r by (metis (full_types) RailLease.surjective old.unit.exhaust)
qed

text \<open>
  C24: A failing rail is quarantined: when a local failure reaches the error threshold, or hits the
  recovery probe, no lease is granted on that rail before the cooldown has passed. This holds whatever
  happens in between: admissions, granted or refused, at times before the end of the cooldown, and
  completions of any lease with any outcome, the late successes and failures of leases taken earlier on
  the same rail included. The completions are assumed to carry clocks not older than the failure's,
  and no clock plus the cooldown to pass the 64-bit limit.
\<close>

theorem rail_quarantined:
  assumes n: "lease_rail l < length (rp_rails p)" and c: "c = rp_config p" and rail: "rail = rp_rails p ! lease_rail l"
    and err: "rs_recovery_probe rail \<or> error_threshold c \<le> rs_consecutive_errors rail + 1"
    and clock: "unat now + unat (quarantine_us c) < 2 ^ 64"
    and run: "quarantine_run now (now + quarantine_us c) (Complete l lat kRailFailure now p) q"
    and early: "now' < now + quarantine_us c" and r: "TryAcquire requested now' allowed excluded q = (Some l', q')"
  shows "lease_rail l' \<noteq> lease_rail l"
proof
  let ?p = "Complete l lat kRailFailure now p"
  assume eq: "lease_rail l' = lease_rail l"
  have "still_out (now + quarantine_us c) (lease_rail l) ?p" using n err by (auto simp: still_out_def Complete_def complete_rail_def Let_def c rail)
  moreover have "rp_config ?p = c" by (simp add: Complete_def c)
  ultimately have "still_out (now + quarantine_us c) (lease_rail l) q" using quarantine_run_out [OF run, of "lease_rail l"] clock by simp
  then have "now + quarantine_us c \<le> rs_quarantined_until_us (rp_rails q ! lease_rail l)" by (simp add: still_out_def)
  moreover have "rs_quarantined_until_us (rp_rails q ! lease_rail l) \<le> now'" using TryAcquire_spec(5) [OF r, of l'] eq by (simp add: eligible_def)
  ultimately show False using early by simp
qed

theorem rail_quarantined_witness:
  "\<exists>l' q'. TryAcquire 1 10 [] [] (Complete \<lparr>lease_rail = 0, lease_credits = 1\<rparr> 7 kSuccess 6
      (Complete \<lparr>lease_rail = 0, lease_credits = 1\<rparr> 7 kRailFailure 5
        (new_rail_policy 2 (default_rail_config\<lparr>error_threshold := 1\<rparr>)))) = (Some l', q') \<and> lease_rail l' \<noteq> 0"
proof -
  let ?p = "new_rail_policy 2 (default_rail_config\<lparr>error_threshold := 1\<rparr>)" and ?l = "\<lparr>lease_rail = 0, lease_credits = 1\<rparr>"
  let ?q = "Complete ?l 7 kRailFailure 5 ?p" and ?c = "rp_config ?p"
  let ?r = "TryAcquire 1 10 [] [] (Complete ?l 7 kSuccess 6 ?q)"
  have "fst ?r \<noteq> None" by code_simp
  then obtain l' q' where r: "?r = (Some l', q')" by (cases ?r) auto
  have c: "quarantine_us (rp_config ?q) = quarantine_us ?c" "unat (quarantine_us ?c) < 2 ^ 63" "10 < 5 + quarantine_us ?c"
    by (simp_all add: Complete_def new_rail_policy_def Let_def normalize_rail_config_def default_rail_config_def)
  have n: "lease_rail ?l < length (rp_rails ?p)" by (simp add: new_rail_policy_def Let_def)
  have run: "quarantine_run 5 (5 + quarantine_us ?c) ?q (Complete ?l 7 kSuccess 6 ?q)"
    by (rule quarantine_run.complete [OF quarantine_run.start]) (use c in simp_all)
  have "lease_rail l' \<noteq> lease_rail ?l"
    by (rule rail_quarantined [OF n refl refl _ _ run c(3) r])
      (use c(2) in \<open>simp_all add: new_rail_policy_def Let_def normalize_rail_config_def default_rail_config_def empty_rail_def\<close>)
  then show ?thesis using r by auto
qed

text \<open>
  C25: A publication token identifies one snapshot for good. If an operation captured a peer's
  snapshot and the store later still reports its token as current for that address, then the store
  still holds exactly that snapshot, whatever updates, removals and re-additions happened between;
  and no two addresses ever carry the same peer identity.
\<close>

theorem publication_token_sound:
  assumes s: "topology_run (new_topology_store devices tiers complete) s" and t: "topology_run s t"
    and cur: "IsCurrent t a (sn_publication (topology_Snapshot s a))"
  shows "topology_Snapshot t a = topology_Snapshot s a \<and>
    (\<forall>b sn sn'. ts_snapshots t a = Some sn \<longrightarrow> ts_snapshots t b = Some sn' \<longrightarrow> sn_peer_id sn \<noteq> [] \<longrightarrow> sn_peer_id sn' = sn_peer_id sn \<longrightarrow> a = b)"
proof -
  have "store_ok (new_topology_store devices tiers complete)" by (simp add: store_ok_def new_topology_store_def)
  then have "store_ok s" using topology_run_entries [OF s] by blast
  with topology_run_entries [OF t] have T: "store_ok t" "ts_fallback t = ts_fallback s"
    "\<forall>a sn. ts_snapshots t a = Some sn \<longrightarrow> ts_snapshots s a = Some sn \<or> ts_last_publication s < sn_publication sn" by auto
  have S: "sn_publication (topology_Snapshot s a) \<le> ts_last_publication s" "ts_snapshots s a = None \<longleftrightarrow> sn_publication (topology_Snapshot s a) = 0"
    using \<open>store_ok s\<close> by (auto simp: store_ok_def topology_Snapshot_def split: option.splits)
  have "topology_Snapshot t a = topology_Snapshot s a"
  proof (cases "ts_snapshots t a")
    case None
    then have "sn_publication (topology_Snapshot s a) = 0" using cur T(1) by (simp add: IsCurrent_def store_ok_def)
    then show ?thesis using None S(2) T(2) by (simp add: topology_Snapshot_def)
  next
    case (Some sn)
    then have "sn_publication sn = sn_publication (topology_Snapshot s a)" using cur by (simp add: IsCurrent_def)
    then have "ts_snapshots s a = Some sn" using T(3) Some S(1) by fastforce
    then show ?thesis using Some by (simp add: topology_Snapshot_def)
  qed
  then show ?thesis using T(1) unfolding store_ok_def by blast
qed

definition sample_topology :: PeerTopology where
  "sample_topology = \<lparr>pt_peer_addr = [8], pt_generation = 5, pt_complete = True, pt_rails = [\<lparr>pr_name = [1], pr_healthy = True\<rparr>],
     pt_peer_id = [9], pt_present = True\<rparr>"

theorem publication_token_sound_witness:
  "topology_Snapshot (snd (topology_Update sample_topology (new_topology_store [[1]] [[1]] False))) [7] = topology_Snapshot (new_topology_store [[1]] [[1]] False) [7]"
proof -
  let ?s = "new_topology_store [[1]] [[1]] False"
  have "IsCurrent (snd (topology_Update sample_topology ?s)) [7] (sn_publication (topology_Snapshot ?s [7]))"
    by (simp add: IsCurrent_def topology_Snapshot_def new_topology_store_def topology_Update_def sample_topology_def Let_def retire_identity_def)
  from publication_token_sound [OF topology_run.here topology_run.update [OF topology_run.here] this] show ?thesis by blast
qed

text \<open>
  Admission never spills into a lower tier: whatever rail \<^verbatim>\<open>AcquireHighestTier\<close> grants, at once
  or after waiting, belongs to the highest compatible tier it was given and is not excluded.
\<close>

lemma AcquireHighestTier_stays:
  assumes "AcquireHighestTier requested timeout now tier preferred fallback excluded rounds p = (Granted l, p')"
  shows "lease_rail l < length tier \<and> tier ! lease_rail l \<noteq> 0 \<and> \<not> Excluded (lease_rail l) excluded"
proof -
  let ?A = "\<lambda>right. HasRail (IntersectRailMasks tier right) \<and> Allowed (lease_rail l) (IntersectRailMasks tier right)"
  have "(?A preferred \<or> ?A fallback) \<and> \<not> Excluded (lease_rail l) excluded"
    using assms unfolding AcquireHighestTier_def Let_def
    by (auto split: if_splits prod.splits option.splits dest!: TryAcquire_allowed Acquire_allowed)
  then show ?thesis using Intersect_allowed [of "lease_rail l" tier] by blast
qed

end
