(* ===== verification/Membership.thy ===== *)
theory Membership
  imports Wire "HOL-Library.Multiset" "HOL-Library.List_Lexorder" "HOL-Library.Product_Lexorder"
begin

text \<open>
  The membership view exchanged between nodes, the metadata service and the clients,
  \<^verbatim>\<open>common/membership.h\<close>: member records with their optional extensions, the encoder, the decoder
  that skips what it does not know, the validity check of group and member names, and the epochs
  clients compare. Decoders work on the bytes that remain.
\<close>

subsection \<open>Records\<close>

record MemberStats =
  ms_capacity_bytes :: u64
  ms_used_bytes :: u64
  ms_objects :: u64
  ms_hits_total :: u64
  ms_misses_total :: u64
  ms_evictions_total :: u64
  ms_puts_total :: u64
  ms_uptime_seconds :: u64
  ms_put_busy_total :: u64
  ms_dio_write_fallbacks :: u64
  ms_ram_used_bytes :: u64
  ms_ram_hits_total :: u64

definition kMemberStatsFields :: nat where
  "kMemberStatsFields = 12"

definition stats_of :: "u64 list \<Rightarrow> MemberStats" where
  "stats_of f = \<lparr>ms_capacity_bytes = f ! 0, ms_used_bytes = f ! 1, ms_objects = f ! 2, ms_hits_total = f ! 3, ms_misses_total = f ! 4,
     ms_evictions_total = f ! 5, ms_puts_total = f ! 6, ms_uptime_seconds = f ! 7, ms_put_busy_total = f ! 8,
     ms_dio_write_fallbacks = f ! 9, ms_ram_used_bytes = f ! 10, ms_ram_hits_total = f ! 11\<rparr>"

definition stats_fields :: "MemberStats \<Rightarrow> u64 list" where
  "stats_fields s = [ms_capacity_bytes s, ms_used_bytes s, ms_objects s, ms_hits_total s, ms_misses_total s, ms_evictions_total s,
     ms_puts_total s, ms_uptime_seconds s, ms_put_busy_total s, ms_dio_write_fallbacks s, ms_ram_used_bytes s, ms_ram_hits_total s]"

record IbDeviceHealth =
  ib_name :: bytes
  ib_port_state :: u8
  ib_phys_state :: u8
  ib_query_ok :: bool

definition ib_healthy :: "IbDeviceHealth \<Rightarrow> bool" where
  "ib_healthy d \<longleftrightarrow> ib_query_ok d \<and> ib_port_state d = 4 \<and> ib_phys_state d = 5"

definition IbPortStateName :: "u8 \<Rightarrow> string" where
  "IbPortStateName state =
     (if state = 1 then ''DOWN'' else if state = 2 then ''INIT'' else if state = 3 then ''ARMED''
      else if state = 4 then ''ACTIVE'' else if state = 5 then ''ACTIVE_DEFER'' else ''UNKNOWN'')"

definition IbPhysStateName :: "u8 \<Rightarrow> string" where
  "IbPhysStateName state =
     (if state = 1 then ''SLEEP'' else if state = 2 then ''POLLING'' else if state = 3 then ''DISABLED''
      else if state = 4 then ''TRAINING'' else if state = 5 then ''LINK_UP'' else if state = 6 then ''ERROR_RECOVERY''
      else if state = 7 then ''PHY_TEST'' else ''UNKNOWN'')"

record MemberHealth =
  mh_ring_eligible :: bool
  mh_ib_devices :: "IbDeviceHealth list"

definition default_health :: MemberHealth where
  "default_health = \<lparr>mh_ring_eligible = True, mh_ib_devices = []\<rparr>"

record MemberInfo =
  mi_id :: bytes
  mi_ip :: bytes
  mi_port :: u32
  mi_weight :: u32
  mi_tcp_port :: u32
  mi_info :: bytes
  mi_stats :: MemberStats
  mi_has_stats :: bool
  mi_health :: MemberHealth
  mi_has_health :: bool

definition new_member :: "bytes \<Rightarrow> bytes \<Rightarrow> u32 \<Rightarrow> u32 \<Rightarrow> MemberInfo" where
  "new_member i ip port weight = \<lparr>mi_id = i, mi_ip = ip, mi_port = port, mi_weight = weight, mi_tcp_port = 0, mi_info = [],
     mi_stats = stats_of (replicate 12 0), mi_has_stats = False, mi_health = default_health, mi_has_health = False\<rparr>"

definition RingEligible :: "MemberInfo \<Rightarrow> bool" where
  "RingEligible m \<longleftrightarrow> \<not> mi_has_health m \<or> mh_ring_eligible (mi_health m)"

definition member_eq :: "MemberInfo \<Rightarrow> MemberInfo \<Rightarrow> bool" where
  "member_eq a b \<longleftrightarrow> mi_id a = mi_id b \<and> mi_ip a = mi_ip b \<and> mi_port a = mi_port b \<and> mi_weight a = mi_weight b \<and>
     RingEligible a = RingEligible b"

definition IsValidGroupOrId :: "bytes \<Rightarrow> bool" where
  "IsValidGroupOrId s \<longleftrightarrow> s \<noteq> [] \<and> length s \<le> 128 \<and>
     (\<forall>c\<in>set s. (of_char (CHR ''A'') \<le> c \<and> c \<le> of_char (CHR ''Z'')) \<or> (of_char (CHR ''a'') \<le> c \<and> c \<le> of_char (CHR ''z'')) \<or>
        (of_char (CHR ''0'') \<le> c \<and> c \<le> of_char (CHR ''9'')) \<or> c = of_char (CHR ''.'') \<or> c = of_char (CHR ''_'') \<or> c = of_char (CHR ''-''))"

subsection \<open>The encoder\<close>

definition kMemberExtTcpPort :: u32 where
  "kMemberExtTcpPort = 0x54435031"

definition kMemberExtInfo :: u32 where
  "kMemberExtInfo = 0x4E464F31"

definition kMemberExtStats :: u32 where
  "kMemberExtStats = 0x31415453"

definition kMemberExtHealth :: u32 where
  "kMemberExtHealth = 0x31544C48"

definition put_string :: "bytes \<Rightarrow> bytes" where
  "put_string s = PutU32 (of_nat (length s)) @ s"

definition encode_base :: "MemberInfo \<Rightarrow> bytes" where
  "encode_base m = put_string (mi_id m) @ put_string (mi_ip m) @ PutU32 (mi_port m) @ PutU32 (mi_weight m)"

definition encode_stats :: "MemberInfo \<Rightarrow> bytes" where
  "encode_stats m = (if mi_has_stats m then 1 # concat (map PutU64 (stats_fields (mi_stats m))) else [0])"

definition encode_device :: "IbDeviceHealth \<Rightarrow> bytes" where
  "encode_device d = put_string (ib_name d) @ [ib_port_state d, ib_phys_state d, of_bool (ib_query_ok d)]"

definition encode_health :: "MemberInfo \<Rightarrow> bytes" where
  "encode_health m =
     (if mi_has_health m
      then 1 # of_bool (mh_ring_eligible (mi_health m)) # PutU32 (of_nat (length (mh_ib_devices (mi_health m)))) @
           concat (map encode_device (mh_ib_devices (mi_health m)))
      else [0])"

definition EncodeMembers :: "MemberInfo list \<Rightarrow> u64 \<Rightarrow> bytes" where
  "EncodeMembers ms epoch =
     PutU64 epoch @ PutU32 (of_nat (length ms)) @ concat (map encode_base ms) @
     PutU32 kMemberExtTcpPort @ concat (map (\<lambda>m. PutU32 (mi_tcp_port m)) ms) @
     PutU32 kMemberExtInfo @ concat (map (\<lambda>m. put_string (mi_info m)) ms) @
     PutU32 kMemberExtStats @ of_nat kMemberStatsFields # concat (map encode_stats ms) @
     (if \<exists>m\<in>set ms. mi_has_health m then PutU32 kMemberExtHealth @ concat (map encode_health ms) else [])"

subsection \<open>The decoder\<close>

text \<open>A length-prefixed string and the bytes after it, \<open>None\<close> when the input is too short.\<close>

definition get_string :: "bytes \<Rightarrow> (bytes \<times> bytes) option" where
  "get_string r =
     (if length r < 4 then None
      else let n = unat (GetU32 r 0); r1 = drop 4 r
           in if length r1 < n then None else Some (take n r1, drop n r1))"

fun decode_base :: "nat \<Rightarrow> bytes \<Rightarrow> (MemberInfo list \<times> bytes) option" where
  "decode_base 0 r = Some ([], r)"
| "decode_base (Suc k) r =
     (case get_string r of
        None \<Rightarrow> None
      | Some (i, r1) \<Rightarrow>
          (case get_string r1 of
             None \<Rightarrow> None
           | Some (ip, r2) \<Rightarrow>
               if length r2 < 8 then None
               else (case decode_base k (drop 8 r2) of
                       None \<Rightarrow> None
                     | Some (ms, r3) \<Rightarrow> Some (new_member i ip (GetU32 r2 0) (GetU32 r2 4) # ms, r3))))"

text \<open>
  The extension blocks. Each returns the members as far as they were filled in, and the bytes after
  the block, or \<open>None\<close> when the block is truncated and the scan stops.
\<close>

fun ext_tcp_port :: "MemberInfo list \<Rightarrow> bytes \<Rightarrow> MemberInfo list \<times> bytes" where
  "ext_tcp_port [] r = ([], r)"
| "ext_tcp_port (m # ms) r = (case ext_tcp_port ms (drop 4 r) of (ms', r') \<Rightarrow> (m\<lparr>mi_tcp_port := GetU32 r 0\<rparr> # ms', r'))"

fun ext_info :: "MemberInfo list \<Rightarrow> bytes \<Rightarrow> MemberInfo list \<times> bytes option" where
  "ext_info [] r = ([], Some r)"
| "ext_info (m # ms) r =
     (case get_string r of
        None \<Rightarrow> (m # ms, None)
      | Some (s, r1) \<Rightarrow> (case ext_info ms r1 of (ms', o1) \<Rightarrow> (m\<lparr>mi_info := s\<rparr> # ms', o1)))"

fun ext_stats :: "nat \<Rightarrow> MemberInfo list \<Rightarrow> bytes \<Rightarrow> MemberInfo list \<times> bytes option" where
  "ext_stats nf [] r = ([], Some r)"
| "ext_stats nf (m # ms) r =
     (if r = [] then (m # ms, None)
      else if hd r = 0 then (case ext_stats nf ms (tl r) of (ms', o1) \<Rightarrow> (m # ms', o1))
      else if length (tl r) < nf * 8 then (m # ms, None)
      else let f = map (\<lambda>k. if k < nf then GetU64 (tl r) (k * 8) else 0) [0..<kMemberStatsFields]
           in (case ext_stats nf ms (drop (nf * 8) (tl r)) of
                 (ms', o1) \<Rightarrow> (m\<lparr>mi_stats := stats_of f, mi_has_stats := True\<rparr> # ms', o1)))"

fun decode_devices :: "nat \<Rightarrow> bytes \<Rightarrow> (IbDeviceHealth list \<times> bytes) option" where
  "decode_devices 0 r = Some ([], r)"
| "decode_devices (Suc k) r =
     (if length r < 4 then None
      else let n = unat (GetU32 r 0); r1 = drop 4 r
           in if n > 128 \<or> length r1 < n + 3 then None
              else (case decode_devices k (drop (n + 3) r1) of
                      None \<Rightarrow> None
                    | Some (ds, r2) \<Rightarrow>
                        Some (\<lparr>ib_name = take n r1, ib_port_state = r1 ! n, ib_phys_state = r1 ! (n + 1), ib_query_ok = (r1 ! (n + 2) \<noteq> 0)\<rparr> # ds, r2)))"

fun ext_health :: "MemberInfo list \<Rightarrow> bytes \<Rightarrow> MemberInfo list \<times> bytes option" where
  "ext_health [] r = ([], Some r)"
| "ext_health (m # ms) r =
     (if r = [] then (m # ms, None)
      else if hd r = 0 then (case ext_health ms (tl r) of (ms', o1) \<Rightarrow> (m # ms', o1))
      else let r1 = tl r
           in if length r1 < 5 then (m # ms, None)
              else let devices = unat (GetU32 r1 1)
                   in if devices > 64 then (m # ms, None)
                      else (case decode_devices devices (drop 5 r1) of
                              None \<Rightarrow> (m # ms, None)
                            | Some (ds, r2) \<Rightarrow>
                                (case ext_health ms r2 of
                                   (ms', o1) \<Rightarrow> (m\<lparr>mi_health := \<lparr>mh_ring_eligible = (hd r1 \<noteq> 0), mh_ib_devices = ds\<rparr>, mi_has_health := True\<rparr> # ms', o1))))"

definition ext_block :: "MemberInfo list \<Rightarrow> bytes \<Rightarrow> MemberInfo list \<times> bytes option" where
  "ext_block ms r =
     (let tag = GetU32 r 0; r1 = drop 4 r
      in if tag = kMemberExtTcpPort
         then (if length r1 < length ms * 4 then (ms, None) else (case ext_tcp_port ms r1 of (ms', r2) \<Rightarrow> (ms', Some r2)))
         else if tag = kMemberExtInfo then ext_info ms r1
         else if tag = kMemberExtStats then (if r1 = [] then (ms, None) else ext_stats (unat (hd r1)) ms (tl r1))
         else if tag = kMemberExtHealth then ext_health ms r1
         else (ms, None))"

lemma get_string_shrinks: "get_string r = Some (s, r') \<Longrightarrow> length r' \<le> length r"
  by (auto simp: get_string_def Let_def split: if_splits)

lemma ext_tcp_port_shrinks: "length (snd (ext_tcp_port ms r)) \<le> length r"
proof (induction ms r rule: ext_tcp_port.induct)
  case (2 m ms r)
  then show ?case by (auto split: prod.splits)
qed simp

lemma ext_info_shrinks: "snd (ext_info ms r) = Some r' \<Longrightarrow> length r' \<le> length r"
  by (induction ms r rule: ext_info.induct) (fastforce dest: get_string_shrinks split: option.splits prod.splits)+

lemma ext_stats_shrinks: "snd (ext_stats nf ms r) = Some r' \<Longrightarrow> length r' \<le> length r"
  by (induction nf ms r rule: ext_stats.induct) (fastforce simp: Let_def split: if_splits prod.splits)+

lemma decode_devices_shrinks: "decode_devices k r = Some (ds, r') \<Longrightarrow> length r' \<le> length r"
  by (induction k r arbitrary: ds r' rule: decode_devices.induct) (fastforce simp: Let_def split: if_splits option.splits prod.splits)+

lemma ext_health_shrinks: "snd (ext_health ms r) = Some r' \<Longrightarrow> length r' \<le> length r"
  by (induction ms r rule: ext_health.induct) (fastforce simp: Let_def dest: decode_devices_shrinks split: if_splits option.splits prod.splits)+

lemma ext_block_shrinks:
  assumes "ext_block ms r = (ms', Some r')" "4 \<le> length r"
  shows "length r' < length r"
proof -
  let ?r = "drop 4 r"
  consider "length ms * 4 \<le> length ?r" "r' = snd (ext_tcp_port ms ?r)" | "snd (ext_info ms ?r) = Some r'"
    | "?r \<noteq> []" "snd (ext_stats (unat (hd ?r)) ms (tl ?r)) = Some r'" | "snd (ext_health ms ?r) = Some r'"
    using assms(1) unfolding ext_block_def Let_def by (auto split: if_splits prod.splits)
  then have "length r' \<le> length ?r"
  proof cases
    case 1
    then show ?thesis using ext_tcp_port_shrinks by metis
  next
    case 2
    then show ?thesis by (rule ext_info_shrinks)
  next
    case 3
    then show ?thesis using ext_stats_shrinks [OF 3(2)] by simp
  next
    case 4
    then show ?thesis by (rule ext_health_shrinks)
  qed
  then show ?thesis using assms(2) by simp
qed

function ext_scan :: "MemberInfo list \<Rightarrow> bytes \<Rightarrow> MemberInfo list" where
  "ext_scan ms r =
     (if length r < 4 then ms
      else (case ext_block ms r of (ms', None) \<Rightarrow> ms' | (ms', Some r') \<Rightarrow> ext_scan ms' r'))"
  by pat_completeness auto
termination
  by (relation "measure (\<lambda>(ms, r). length r)") (auto dest!: ext_block_shrinks [OF sym] simp: not_less)

declare ext_scan.simps [simp del]

definition DecodeMembers :: "bytes \<Rightarrow> (MemberInfo list \<times> u64) option" where
  "DecodeMembers p =
     (if length p < 12 then None
      else (case decode_base (unat (GetU32 p 8)) (drop 12 p) of
              None \<Rightarrow> None
            | Some (ms, r) \<Rightarrow> Some (ext_scan ms r, GetU64 p 0)))"

subsection \<open>Epochs\<close>

definition fnv_mix :: "u64 \<Rightarrow> bytes \<Rightarrow> u64" where
  "fnv_mix h bs = foldl (\<lambda>h b. (h XOR ucast b) * 1099511628211) h bs"

definition fnv_basis :: u64 where
  "fnv_basis = 1469598103934665603"

definition epoch_bytes :: "MemberInfo \<Rightarrow> bytes" where
  "epoch_bytes m = put_string (mi_id m) @ put_string (mi_ip m) @ PutU32 (mi_port m) @ PutU32 (mi_weight m) @ [of_bool (RingEligible m)]"

text \<open>\<^verbatim>\<open>std::sort\<close> by a key is the sorted list; the order of members with equal keys is that of the input.\<close>

definition MembersEpoch :: "MemberInfo list \<Rightarrow> u64" where
  "MembersEpoch ms = foldl (\<lambda>h m. fnv_mix h (epoch_bytes m)) fnv_basis (sort_key mi_id ms)"

definition device_key :: "IbDeviceHealth \<Rightarrow> bytes \<times> u8 \<times> u8 \<times> bool" where
  "device_key d = (ib_name d, ib_port_state d, ib_phys_state d, ib_query_ok d)"

definition topology_bytes :: "MemberInfo \<Rightarrow> bytes" where
  "topology_bytes m =
     put_string (mi_id m) @ put_string (mi_ip m) @ PutU32 (mi_port m) @ PutU32 (mi_weight m) @
     [of_bool (RingEligible m), of_bool (mi_has_health m)] @
     (if \<not> mi_has_health m then []
      else let devices = sort_key device_key (mh_ib_devices (mi_health m))
           in PutU32 (of_nat (length devices)) @
              concat (map (\<lambda>d. put_string (ib_name d) @ [ib_port_state d, ib_phys_state d, of_bool (ib_query_ok d)]) devices))"

definition member_key :: "MemberInfo \<Rightarrow> bytes \<times> bytes \<times> u32 \<times> u32" where
  "member_key m = (mi_id m, mi_ip m, mi_port m, mi_weight m)"

definition MembersTopologyEpoch :: "MemberInfo list \<Rightarrow> u64" where
  "MembersTopologyEpoch ms =
     foldl (\<lambda>h m. fnv_mix h (topology_bytes m)) (fnv_mix fnv_basis (PutU32 (of_nat (length ms)))) (sort_key member_key ms)"

subsection \<open>Decoding what was encoded\<close>

definition fits32 :: "bytes \<Rightarrow> bool" where
  "fits32 s \<longleftrightarrow> length s < 2 ^ 32"

definition encodable :: "MemberInfo \<Rightarrow> bool" where
  "encodable m \<longleftrightarrow> fits32 (mi_id m) \<and> fits32 (mi_ip m) \<and> fits32 (mi_info m) \<and>
     (mi_has_health m \<longrightarrow> length (mh_ib_devices (mi_health m)) \<le> 64 \<and> (\<forall>d\<in>set (mh_ib_devices (mi_health m)). length (ib_name d) \<le> 128))"

text \<open>What a member looks like after the trip: statistics and health that are not present read as defaults.\<close>

definition canonical :: "MemberInfo \<Rightarrow> MemberInfo" where
  "canonical m = m\<lparr>mi_stats := (if mi_has_stats m then mi_stats m else stats_of (replicate 12 0)),
     mi_health := (if mi_has_health m then mi_health m else default_health)\<rparr>"

lemma unat_of_nat_u32: "n < 2 ^ 32 \<Longrightarrow> unat (of_nat n :: u32) = n"
  by (simp add: unat_of_nat)

lemma get_string_put [simp]: "fits32 s \<Longrightarrow> get_string (put_string s @ r) = Some (s, r)"
  using unat_of_nat_u32 [of "length s"] by (simp add: get_string_def put_string_def fits32_def GetU32_def Let_def)

abbreviation base_of :: "MemberInfo \<Rightarrow> MemberInfo" where
  "base_of m \<equiv> new_member (mi_id m) (mi_ip m) (mi_port m) (mi_weight m)"

lemma decode_base_encode:
  "\<forall>m\<in>set ms. encodable m \<Longrightarrow> decode_base (length ms) (concat (map encode_base ms) @ r) = Some (map base_of ms, r)"
  by (induction ms) (simp_all add: encode_base_def encodable_def GetU32_def)

lemma ext_tcp_port_encode:
  "ext_tcp_port (map f ms) (concat (map (\<lambda>m. PutU32 (mi_tcp_port m)) ms) @ r) = (map (\<lambda>m. (f m)\<lparr>mi_tcp_port := mi_tcp_port m\<rparr>) ms, r)"
  by (induction ms) (simp_all add: GetU32_def)

lemma ext_info_encode:
  "\<forall>m\<in>set ms. encodable m \<Longrightarrow> ext_info (map f ms) (concat (map (\<lambda>m. put_string (mi_info m)) ms) @ r) = (map (\<lambda>m. (f m)\<lparr>mi_info := mi_info m\<rparr>) ms, Some r)"
  by (induction ms) (simp_all add: encodable_def)

lemma GetU64_concat: "k < length fs \<Longrightarrow> GetU64 (concat (map PutU64 fs) @ r) (k * 8) = fs ! k"
proof (induction fs arbitrary: k)
  case (Cons f fs)
  then show ?case by (cases k) (simp_all add: GetU64_def)
qed simp

lemma length_concat_PutU64: "length (concat (map PutU64 fs)) = length fs * 8"
  by (induction fs) simp_all

lemma stats_of_fields: "stats_of (stats_fields s) = s"
  by (simp add: stats_of_def stats_fields_def)

lemma ext_stats_one:
  "map (\<lambda>k. if k < kMemberStatsFields then GetU64 (concat (map PutU64 (stats_fields s)) @ r) (k * 8) else 0) [0..<kMemberStatsFields] = stats_fields s"
proof -
  have "length (stats_fields s) = kMemberStatsFields" by (simp add: stats_fields_def kMemberStatsFields_def)
  then show ?thesis using GetU64_concat [of _ "stats_fields s" r] by (intro nth_equalityI) simp_all
qed

lemma ext_stats_step:
  "ext_stats kMemberStatsFields (m' # ms) (encode_stats m @ R) =
     (case ext_stats kMemberStatsFields ms R of
        (ms', o1) \<Rightarrow> ((if mi_has_stats m then m'\<lparr>mi_stats := mi_stats m, mi_has_stats := True\<rparr> else m') # ms', o1))"
proof -
  have n: "length (concat (map PutU64 (stats_fields (mi_stats m)))) = kMemberStatsFields * 8"
    unfolding length_concat_PutU64 by (simp add: stats_fields_def kMemberStatsFields_def)
  show ?thesis
  proof (cases "mi_has_stats m")
    case True
    then show ?thesis
      by (simp add: encode_stats_def n Let_def ext_stats_one stats_of_fields del: length_concat cong: if_cong)
  qed (simp add: encode_stats_def)
qed

lemma ext_stats_encode:
  "ext_stats kMemberStatsFields (map f ms) (concat (map encode_stats ms) @ r) =
     (map (\<lambda>m. if mi_has_stats m then (f m)\<lparr>mi_stats := mi_stats m, mi_has_stats := True\<rparr> else f m) ms, Some r)"
  by (induction ms) (simp_all add: ext_stats_step del: ext_stats.simps(2))

lemma decode_devices_step:
  assumes "length (ib_name d) \<le> 128"
  shows "decode_devices (Suc k) (encode_device d @ R) = map_option (\<lambda>(ds, r). (d # ds, r)) (decode_devices k R)"
proof -
  have "unat (of_nat (length (ib_name d)) :: u32) = length (ib_name d)" using assms by (intro unat_of_nat_u32) simp
  then show ?thesis using assms
    by (auto simp: encode_device_def put_string_def GetU32_def Let_def nth_append split: option.splits)
qed

lemma decode_devices_encode:
  "\<forall>d\<in>set ds. length (ib_name d) \<le> 128 \<Longrightarrow> decode_devices (length ds) (concat (map encode_device ds) @ r) = Some (ds, r)"
  by (induction ds) (simp_all add: decode_devices_step del: decode_devices.simps(2))

lemma ext_health_step:
  assumes "encodable m"
  shows "ext_health (m' # ms) (encode_health m @ R) =
     (case ext_health ms R of
        (ms', o1) \<Rightarrow> ((if mi_has_health m then m'\<lparr>mi_health := mi_health m, mi_has_health := True\<rparr> else m') # ms', o1))"
proof (cases "mi_has_health m")
  case True
  obtain e ds where h: "mi_health m = \<lparr>mh_ring_eligible = e, mh_ib_devices = ds\<rparr>" by (cases "mi_health m")
  have d: "length ds \<le> 64" "\<forall>d\<in>set ds. length (ib_name d) \<le> 128" using assms True h by (auto simp: encodable_def)
  then have "unat (of_nat (length ds) :: u32) = length ds" by (intro unat_of_nat_u32) simp
  then show ?thesis using True d decode_devices_encode [OF d(2)]
    by (simp add: encode_health_def h GetU32_def Let_def)
qed (simp add: encode_health_def)

lemma ext_health_encode:
  "\<forall>m\<in>set ms. encodable m \<Longrightarrow> ext_health (map f ms) (concat (map encode_health ms) @ r) =
     (map (\<lambda>m. if mi_has_health m then (f m)\<lparr>mi_health := mi_health m, mi_has_health := True\<rparr> else f m) ms, Some r)"
  by (induction ms) (simp_all add: ext_health_step del: ext_health.simps(2))

text \<open>Reading on after one tag: the scan continues with the bytes behind the block it announces.\<close>

lemmas ext_tags = kMemberExtTcpPort_def kMemberExtInfo_def kMemberExtStats_def kMemberExtHealth_def

lemma ext_scan_tag:
  "ext_scan ms (PutU32 t @ r) = (case ext_block ms (PutU32 t @ r) of (ms', None) \<Rightarrow> ms' | (ms', Some r') \<Rightarrow> ext_scan ms' r')"
  by (subst ext_scan.simps) simp

lemma ext_block_tag:
  "ext_block ms (PutU32 kMemberExtTcpPort @ r) =
     (if length r < length ms * 4 then (ms, None) else (case ext_tcp_port ms r of (ms', r2) \<Rightarrow> (ms', Some r2)))"
  "ext_block ms (PutU32 kMemberExtInfo @ r) = ext_info ms r"
  "ext_block ms (PutU32 kMemberExtStats @ b # r) = ext_stats (unat b) ms r"
  "ext_block ms (PutU32 kMemberExtHealth @ r) = ext_health ms r"
  by (simp_all add: ext_block_def GetU32_def Let_def ext_tags)

lemma ext_scan_Nil: "ext_scan ms [] = ms"
  by (subst ext_scan.simps) simp

lemma length_concat_PutU32: "length (concat (map (\<lambda>m. PutU32 (f m)) ms)) = length ms * 4"
  by (induction ms) simp_all

lemma ext_scan_encode:
  assumes "\<forall>m\<in>set ms. encodable m"
  shows "ext_scan (map base_of ms)
     (PutU32 kMemberExtTcpPort @ concat (map (\<lambda>m. PutU32 (mi_tcp_port m)) ms) @
      PutU32 kMemberExtInfo @ concat (map (\<lambda>m. put_string (mi_info m)) ms) @
      PutU32 kMemberExtStats @ of_nat kMemberStatsFields # concat (map encode_stats ms) @
      (if \<exists>m\<in>set ms. mi_has_health m then PutU32 kMemberExtHealth @ concat (map encode_health ms) else [])) = map canonical ms"
proof -
  have n: "unat (of_nat kMemberStatsFields :: u8) = kMemberStatsFields" by (simp add: kMemberStatsFields_def)
  have "map (\<lambda>m. if mi_has_health m then (f m)\<lparr>mi_health := mi_health m, mi_has_health := True\<rparr> else f m) ms = map f ms"
    if "\<not> (\<exists>m\<in>set ms. mi_has_health m)" for f :: "MemberInfo \<Rightarrow> MemberInfo" using that by simp
  then have h: "ext_scan (map f ms) (if \<exists>m\<in>set ms. mi_has_health m then PutU32 kMemberExtHealth @ concat (map encode_health ms) else []) =
     map (\<lambda>m. if mi_has_health m then (f m)\<lparr>mi_health := mi_health m, mi_has_health := True\<rparr> else f m) ms" for f
    using ext_health_encode [OF assms, of f "[]"] by (simp add: ext_scan_tag ext_block_tag ext_scan_Nil)
  show ?thesis
    unfolding ext_scan_tag ext_block_tag n ext_tcp_port_encode ext_info_encode [OF assms] ext_stats_encode
    by (simp add: length_concat_PutU32 h ext_scan_tag ext_block_tag n ext_tcp_port_encode ext_info_encode [OF assms] ext_stats_encode
          del: length_concat) (auto simp: canonical_def new_member_def)
qed

text \<open>Two members for the examples: one with statistics, one with a health report that excludes it from the ring.\<close>

definition member_a :: MemberInfo where
  "member_a = (new_member (ascii ''a'') (ascii ''10.0.0.1'') 9000 1)
     \<lparr>mi_tcp_port := 9001, mi_stats := stats_of [1, 2, 3, 4, 5, 6, 7, 8, 9, 10, 11, 12], mi_has_stats := True\<rparr>"

definition member_b :: MemberInfo where
  "member_b = (new_member (ascii ''b'') (ascii ''10.0.0.2'') 9000 2)
     \<lparr>mi_info := ascii ''ver=2'', mi_has_health := True,
      mi_health := \<lparr>mh_ring_eligible = False,
        mh_ib_devices = [\<lparr>ib_name = ascii ''mlx5_0'', ib_port_state = 1, ib_phys_state = 3, ib_query_ok = True\<rparr>]\<rparr>\<rparr>"

lemmas sample_members = member_a_def member_b_def new_member_def default_health_def

lemma encodable_samples: "encodable member_a" "encodable member_b"
  by (simp_all add: sample_members encodable_def fits32_def)

lemma DecodeMembers_Encode:
  assumes "length ms < 2 ^ 32" "\<forall>m\<in>set ms. encodable m"
  shows "DecodeMembers (EncodeMembers ms epoch) = Some (map canonical ms, epoch)"
proof -
  have "unat (of_nat (length ms) :: u32) = length ms" by (rule unat_of_nat_u32) (rule assms)
  then show ?thesis
    by (simp add: EncodeMembers_def DecodeMembers_def get_field decode_base_encode [OF assms(2)] ext_scan_encode [OF assms(2)])
qed

text \<open>
  C26: a membership view survives the wire. For any list of members whose strings fit a 32-bit length
  and whose health reports respect the decoder's limits, \<^verbatim>\<open>DecodeMembers\<close> applied to the output of
  \<^verbatim>\<open>EncodeMembers\<close> succeeds and returns the epoch and the same members, with absent statistics and
  absent health read as defaults.
\<close>
theorem members_roundtrip:
  assumes "length ms < 2 ^ 32" "\<forall>m\<in>set ms. encodable m"
  shows "DecodeMembers (EncodeMembers ms epoch) = Some (map canonical ms, epoch)"
  using assms by (rule DecodeMembers_Encode)

theorem members_roundtrip_witness:
  "DecodeMembers (EncodeMembers [member_a, member_b] 7) = Some ([member_a, member_b], 7)"
proof -
  have "DecodeMembers (EncodeMembers [member_a, member_b] 7) = Some (map canonical [member_a, member_b], 7)"
    by (rule members_roundtrip) (use encodable_samples in simp_all)
  moreover have "canonical member_a = member_a" "canonical member_b = member_b"
    by (simp_all add: canonical_def sample_members numeral_eq_Suc)
  ultimately show ?thesis by simp
qed

subsection \<open>What an epoch distinguishes\<close>

text \<open>The fields that decide placement; the epoch is a function of these alone.\<close>

definition placement :: "MemberInfo \<Rightarrow> bytes \<times> bytes \<times> u32 \<times> u32 \<times> bool" where
  "placement m = (mi_id m, mi_ip m, mi_port m, mi_weight m, RingEligible m)"

definition placement_bytes :: "bytes \<times> bytes \<times> u32 \<times> u32 \<times> bool \<Rightarrow> bytes" where
  "placement_bytes = (\<lambda>(i, ip, port, weight, e). put_string i @ put_string ip @ PutU32 port @ PutU32 weight @ [of_bool e])"

lemma epoch_bytes_placement: "epoch_bytes m = placement_bytes (placement m)"
  by (simp add: epoch_bytes_def placement_bytes_def placement_def)

lemma insort_key_map: "insort_key f (g x) (map g xs) = map g (insort_key (\<lambda>x. f (g x)) x xs)"
  by (induction xs) simp_all

lemma sort_key_map: "sort_key f (map g xs) = map g (sort_key (\<lambda>x. f (g x)) xs)"
  by (induction xs) (simp_all add: insort_key_map)

lemma MembersEpoch_sorted:
  "MembersEpoch ms = foldl (\<lambda>h p. fnv_mix h (placement_bytes p)) fnv_basis (sort_key fst (map placement ms))"
proof -
  have "sort_key fst (map placement ms) = map placement (sort_key mi_id ms)"
    by (simp add: sort_key_map placement_def)
  then show ?thesis by (simp add: MembersEpoch_def epoch_bytes_placement foldl_map)
qed

lemma sort_key_cong_mset:
  assumes "mset xs = mset ys" "inj_on f (set xs)"
  shows "sort_key f xs = sort_key f ys"
  by (rule sort_key_inj_key_eq) (use assms in auto)

text \<open>One FNV-1a step is injective in the running hash and in the byte.\<close>

lemma fnv_prime_unit: "(1099511628211 :: u64) * 0xce965057aff6957b = 1"
  by simp

lemma fnv_step_inj:
  fixes h h' :: u64
  assumes "(h XOR a) * 1099511628211 = (h' XOR b) * 1099511628211"
  shows "h XOR a = h' XOR b"
proof -
  have "((h XOR a) * 1099511628211) * 0xce965057aff6957b = ((h' XOR b) * 1099511628211) * 0xce965057aff6957b"
    using assms by (rule arg_cong)
  then show ?thesis by (simp only: mult.assoc fnv_prime_unit mult_1_right)
qed

lemma xor_right_inj:
  fixes h h' a :: u64
  assumes "h XOR a = h' XOR a"
  shows "h = h'"
proof -
  have "(h XOR a) XOR a = (h' XOR a) XOR a" using assms by (rule arg_cong)
  then show ?thesis by (simp only: xor.assoc xor_self_eq xor.right_neutral)
qed

lemma xor_left_inj: "h XOR a = h XOR b \<Longrightarrow> a = (b :: u64)"
  by (rule xor_right_inj [where a = h]) (simp add: xor.commute)

lemma fnv_mix_simps [simp]:
  "fnv_mix h [] = h" "fnv_mix h (b # bs) = fnv_mix ((h XOR ucast b) * 1099511628211) bs"
  "fnv_mix h (xs @ ys) = fnv_mix (fnv_mix h xs) ys"
  by (simp_all add: fnv_mix_def)

lemma fnv_mix_inj: "fnv_mix h bs = fnv_mix h' bs \<Longrightarrow> h = h'"
proof (induction bs arbitrary: h h')
  case (Cons b bs)
  have "(h XOR ucast b) * 1099511628211 = (h' XOR ucast b) * 1099511628211"
    by (rule Cons.IH) (use Cons.prems in simp)
  then show ?case by (rule xor_right_inj [OF fnv_step_inj])
qed simp

lemma fnv_mix_byte:
  assumes "fnv_mix h [a] = fnv_mix h [b]"
  shows "a = b"
proof -
  have "(h XOR ucast a) * 1099511628211 = (h XOR ucast b) * 1099511628211" using assms by simp
  then have "(ucast a :: u64) = ucast b" by (rule xor_left_inj [OF fnv_step_inj])
  moreover have "unat (ucast x :: u64) = unat x" for x :: u8
  proof -
    have "unat x < 2 ^ LENGTH(8)" by (rule unsigned_less)
    then show ?thesis by (simp add: unsigned_ucast_eq take_bit_nat_eq_self_iff)
  qed
  ultimately show ?thesis by (metis word_unat_eq_iff)
qed

lemma fold_fnv_inj:
  "foldl (\<lambda>h p. fnv_mix h (f p)) h ps = foldl (\<lambda>h p. fnv_mix h (f p)) h' ps \<Longrightarrow> h = h'"
proof (induction ps arbitrary: h h')
  case (Cons p ps)
  have "fnv_mix h (f p) = fnv_mix h' (f p)" by (rule Cons.IH) (use Cons.prems in simp)
  then show ?case by (rule fnv_mix_inj)
qed simp

lemma placement_flip:
  assumes "fnv_mix h (placement_bytes (i, ip, port, w, e)) = fnv_mix h (placement_bytes (i, ip, port, w, e'))"
  shows "e = e'"
proof -
  have "(of_bool e :: u8) = of_bool e'"
    by (rule fnv_mix_byte [where h = "fnv_mix h (put_string i @ put_string ip @ PutU32 port @ PutU32 w)"])
       (use assms in \<open>simp add: placement_bytes_def\<close>)
  then show ?thesis by (cases e; cases e') simp_all
qed

lemma insort_key_cong: "\<forall>y\<in>insert x (set xs). f y = g y \<Longrightarrow> insort_key f x xs = insort_key g x xs"
  by (induction xs) auto

lemma sort_key_cong: "\<forall>y\<in>set xs. f y = g y \<Longrightarrow> sort_key f xs = sort_key g xs"
  by (induction xs) (simp_all add: insort_key_cong)

text \<open>Two lists that differ in one position, sorted by a key both agree on, differ in one position again.\<close>

lemma sort_zip_diff:
  assumes "sort_key fst (xs @ a # ys) = zs" "sort_key fst (xs @ a' # ys) = zs'" "fst a = fst a'" "a \<noteq> a'"
  obtains us vs where "zs = us @ a # vs" "zs' = us @ a' # vs"
proof -
  let ?ps = "map (\<lambda>x. (x, x)) xs @ (a, a') # map (\<lambda>x. (x, x)) ys" and ?k = "\<lambda>p. fst (fst p)"
  let ?qs = "sort_key ?k ?ps" and ?d = "\<lambda>(x, y). x \<noteq> y"
  have s: "sort_key (\<lambda>p. fst (snd p)) ?ps = ?qs"
    by (rule sort_key_cong) (use assms(3) in auto)
  have "map fst ?qs = sort_key fst (map fst ?ps)" by (rule sort_key_map [symmetric])
  then have f: "map fst ?qs = zs" using assms(1) by (simp add: comp_def)
  have "map snd ?qs = sort_key fst (map snd ?ps)" unfolding s [symmetric] by (rule sort_key_map [symmetric])
  then have g: "map snd ?qs = zs'" using assms(2) by (simp add: comp_def)
  have "filter ?d ?ps = [(a, a')]" using assms(4) by (simp add: filter_empty_conv)
  then have "filter ?d ?qs = [(a, a')]" unfolding filter_sort by simp
  then obtain us vs where q: "?qs = us @ (a, a') # vs" "\<forall>p\<in>set us. \<not> ?d p" "filter ?d vs = []"
    by (auto simp: filter_eq_Cons_iff)
  then have "map fst us = map snd us" "map fst vs = map snd vs" by (auto simp: filter_empty_conv)
  then show ?thesis using that [of "map fst us" "map fst vs"] f g q(1) by auto
qed

text \<open>
  C27: the placement epoch is a canonical fingerprint of the ring. With distinct member ids it depends
  only on the set of placement fields, neither on the order in which members are listed nor on ports
  for the other transport, info strings, statistics or device reports; and a change of one member's
  eligibility always changes it, whatever else the view contains.
\<close>
theorem MembersEpoch_canonical:
  assumes "distinct (map mi_id ms)" "mset (map placement ms') = mset (map placement ms)" "i < length ms"
    "placement m = (mi_id (ms ! i), mi_ip (ms ! i), mi_port (ms ! i), mi_weight (ms ! i), \<not> RingEligible (ms ! i))"
  shows "MembersEpoch ms' = MembersEpoch ms \<and> MembersEpoch (ms[i := m]) \<noteq> MembersEpoch ms"
proof
  have "inj_on fst (set (map placement ms))" using assms(1) by (auto simp: inj_on_def distinct_map placement_def)
  from sort_key_cong_mset [OF assms(2) [symmetric] this]
  show "MembersEpoch ms' = MembersEpoch ms" by (simp add: MembersEpoch_sorted)
next
  let ?p = "placement (ms ! i)" and ?q = "placement m" and ?f = "\<lambda>h p. fnv_mix h (placement_bytes p)"
  have l: "map placement ms = map placement (take i ms) @ ?p # map placement (drop (Suc i) ms)"
    using assms(3) by (metis id_take_nth_drop list.simps(9) map_append)
  have r: "map placement (ms[i := m]) = map placement (take i ms) @ ?q # map placement (drop (Suc i) ms)"
    using assms(3) by (simp add: upd_conv_take_nth_drop)
  have "fst ?p = fst ?q" "?p \<noteq> ?q" using assms(4) by (simp_all add: placement_def)
  then obtain us vs where "sort_key fst (map placement ms) = us @ ?p # vs" "sort_key fst (map placement (ms[i := m])) = us @ ?q # vs"
    unfolding l r by (rule sort_zip_diff [OF refl refl])
  then show "MembersEpoch (ms[i := m]) \<noteq> MembersEpoch ms"
    using fold_fnv_inj [of placement_bytes "?f (foldl ?f fnv_basis us) ?q" vs "?f (foldl ?f fnv_basis us) ?p"] assms(4)
      placement_flip [of "foldl ?f fnv_basis us"] unfolding MembersEpoch_sorted placement_def [of "ms ! i"] by fastforce
qed

theorem MembersEpoch_canonical_witness:
  "MembersEpoch [member_b\<lparr>mi_info := []\<rparr>, member_a] = MembersEpoch [member_a, member_b] \<and>
   MembersEpoch [member_a, member_b\<lparr>mi_has_health := False\<rparr>] \<noteq> MembersEpoch [member_a, member_b]"
proof -
  have "MembersEpoch [member_b\<lparr>mi_info := []\<rparr>, member_a] = MembersEpoch [member_a, member_b] \<and>
    MembersEpoch ([member_a, member_b][1 := member_b\<lparr>mi_has_health := False\<rparr>]) \<noteq> MembersEpoch [member_a, member_b]"
    by (rule MembersEpoch_canonical) (simp_all add: placement_def sample_members RingEligible_def)
  then show ?thesis by simp
qed

end
