(* ===== verification/Json_Min.thy ===== *)
theory Json_Min
  imports Prelude
begin

text \<open>
  The text formats of the etcd gateway: the JSON reader \<^verbatim>\<open>utils/json_min.h\<close> and base64,
  \<^verbatim>\<open>utils/base64.h\<close>. The JSON reader works on the bytes that remain; \<^verbatim>\<open>i_\<close> is the number of bytes already
  taken. The recursion between values, arrays and objects is shown to end by first proving, on the
  domain of the functions, that a value takes at least one byte.
\<close>

abbreviation byte :: "char \<Rightarrow> u8" where
  "byte c \<equiv> of_char c"

subsection \<open>JSON\<close>

datatype JsonValue =
    JNull
  | JBool bytes
  | JNumber bytes
  | JString bytes
  | JArray "JsonValue list"
  | JObject "(bytes \<times> JsonValue) list"

text \<open>\<^verbatim>\<open>scalar\<close> is empty unless the value is a boolean, a number or a string.\<close>

fun json_scalar :: "JsonValue \<Rightarrow> bytes" where
  "json_scalar (JBool s) = s"
| "json_scalar (JNumber s) = s"
| "json_scalar (JString s) = s"
| "json_scalar _ = []"

fun json_find :: "JsonValue \<Rightarrow> bytes \<Rightarrow> JsonValue option" where
  "json_find (JObject kvs) key = map_of kvs key"
| "json_find _ key = None"

definition get_str :: "JsonValue \<Rightarrow> bytes \<Rightarrow> bytes \<Rightarrow> bytes" where
  "get_str v key dflt = (case json_find v key of Some x \<Rightarrow> json_scalar x | None \<Rightarrow> dflt)"

definition kMaxDepth :: nat where
  "kMaxDepth = 64"

definition json_ws :: "bytes \<Rightarrow> bytes" where
  "json_ws r = dropWhile (\<lambda>c. c \<in> {byte CHR '' '', 0x09, 0x0A, 0x0D}) r"

definition hex_value :: "u8 \<Rightarrow> u32 option" where
  "hex_value h =
     (if byte CHR ''0'' \<le> h \<and> h \<le> byte CHR ''9'' then Some (ucast (h - byte CHR ''0''))
      else if byte CHR ''a'' \<le> h \<and> h \<le> byte CHR ''f'' then Some (ucast (h - byte CHR ''a'') + 10)
      else if byte CHR ''A'' \<le> h \<and> h \<le> byte CHR ''F'' then Some (ucast (h - byte CHR ''A'') + 10)
      else None)"

fun hex_cp :: "u32 \<Rightarrow> bytes \<Rightarrow> u32 option" where
  "hex_cp cp [] = Some cp"
| "hex_cp cp (h # hs) = (case hex_value h of None \<Rightarrow> None | Some x \<Rightarrow> hex_cp (push_bit 4 cp OR x) hs)"

definition utf8_bytes :: "u32 \<Rightarrow> bytes" where
  "utf8_bytes cp =
     (if cp < 0x80 then [ucast cp]
      else if cp < 0x800 then [ucast (0xC0 OR drop_bit 6 cp), ucast (0x80 OR (cp AND 0x3F))]
      else [ucast (0xE0 OR drop_bit 12 cp), ucast (0x80 OR (drop_bit 6 cp AND 0x3F)), ucast (0x80 OR (cp AND 0x3F))])"

definition simple_escape :: "u8 \<Rightarrow> u8 option" where
  "simple_escape e =
     (if e = byte CHR 0x22 then Some (byte CHR 0x22) else if e = byte CHR 0x5C then Some (byte CHR 0x5C)
      else if e = byte CHR ''/'' then Some (byte CHR ''/'') else if e = byte CHR ''n'' then Some 0x0A
      else if e = byte CHR ''t'' then Some 0x09 else if e = byte CHR ''r'' then Some 0x0D
      else if e = byte CHR ''b'' then Some 0x08 else if e = byte CHR ''f'' then Some 0x0C else None)"

text \<open>The characters of a string up to the closing quote, and the bytes after it.\<close>

fun str_body :: "bytes \<Rightarrow> (bytes \<times> bytes) option" where
  "str_body [] = None"
| "str_body (c # r) =
     (if c = byte CHR 0x22 then Some ([], r)
      else if c = byte CHR 0x5C
      then (case r of
              [] \<Rightarrow> None
            | e # r1 \<Rightarrow>
                (case simple_escape e of
                   Some x \<Rightarrow> map_option (apfst ((#) x)) (str_body r1)
                 | None \<Rightarrow>
                     if e = byte CHR ''u''
                     then if length r1 < 4 then None
                          else (case hex_cp 0 (take 4 r1) of
                                  None \<Rightarrow> None
                                | Some cp \<Rightarrow> map_option (apfst ((@) (utf8_bytes cp))) (str_body (drop 4 r1)))
                     else None))
      else map_option (apfst ((#) c)) (str_body r))"

definition json_str :: "bytes \<Rightarrow> (bytes \<times> bytes) option" where
  "json_str r = (case r of [] \<Rightarrow> None | c # r1 \<Rightarrow> if c = byte CHR 0x22 then str_body r1 else None)"

definition number_char :: "u8 \<Rightarrow> bool" where
  "number_char c \<longleftrightarrow> (byte CHR ''0'' \<le> c \<and> c \<le> byte CHR ''9'') \<or> c = byte CHR ''.'' \<or> c = byte CHR ''e'' \<or> c = byte CHR ''E'' \<or>
     c = byte CHR ''+'' \<or> c = byte CHR ''-''"

definition json_number :: "bytes \<Rightarrow> (JsonValue \<times> bytes) option" where
  "json_number r =
     (let sign = (case r of c # _ \<Rightarrow> if c = byte CHR ''-'' \<or> c = byte CHR ''+'' then 1 else 0 | [] \<Rightarrow> 0);
          n = sign + length (takeWhile number_char (drop sign r))
      in if n = 0 then None else Some (JNumber (take n r), drop n r))"

definition json_boolean :: "bytes \<Rightarrow> (JsonValue \<times> bytes) option" where
  "json_boolean r =
     (if take 4 r = ascii ''true'' then Some (JBool (ascii ''true''), drop 4 r)
      else if take 5 r = ascii ''false'' then Some (JBool (ascii ''false''), drop 5 r) else None)"

definition json_null :: "bytes \<Rightarrow> (JsonValue \<times> bytes) option" where
  "json_null r = (if take 4 r = ascii ''null'' then Some (JNull, drop 4 r) else None)"

function (sequential) json_value :: "nat \<Rightarrow> bytes \<Rightarrow> (JsonValue \<times> bytes) option"
  and array_items :: "nat \<Rightarrow> bytes \<Rightarrow> (JsonValue list \<times> bytes) option"
  and object_items :: "nat \<Rightarrow> bytes \<Rightarrow> ((bytes \<times> JsonValue) list \<times> bytes) option" where
  "json_value depth [] = None"
| "json_value depth (c # r) =
     (if c = byte CHR 0x22 then map_option (apfst JString) (str_body r)
      else if c = byte CHR ''{'' \<or> c = byte CHR ''[''
      then if depth \<ge> kMaxDepth then None
           else if c = byte CHR ''{''
           then (if json_ws r \<noteq> [] \<and> hd (json_ws r) = byte CHR ''}'' then Some (JObject [], tl (json_ws r))
                 else map_option (apfst JObject) (object_items (Suc depth) (json_ws r)))
           else (if json_ws r \<noteq> [] \<and> hd (json_ws r) = byte CHR '']'' then Some (JArray [], tl (json_ws r))
                 else map_option (apfst JArray) (array_items (Suc depth) (json_ws r)))
      else if c = byte CHR ''t'' \<or> c = byte CHR ''f'' then json_boolean (c # r)
      else if c = byte CHR ''n'' then json_null (c # r)
      else json_number (c # r))"
| "array_items depth r =
     (case json_value depth (json_ws r) of
        None \<Rightarrow> None
      | Some (v, r1) \<Rightarrow>
          (case json_ws r1 of
             [] \<Rightarrow> None
           | c # r2 \<Rightarrow>
               if c = byte CHR '','' then map_option (apfst ((#) v)) (array_items depth r2)
               else if c = byte CHR '']'' then Some ([v], r2) else None))"
| "object_items depth r =
     (case json_str (json_ws r) of
        None \<Rightarrow> None
      | Some (key, r1) \<Rightarrow>
          (case json_ws r1 of
             [] \<Rightarrow> None
           | c # r2 \<Rightarrow>
               if c \<noteq> byte CHR '':'' then None
               else (case json_value depth (json_ws r2) of
                       None \<Rightarrow> None
                     | Some (v, r3) \<Rightarrow>
                         (case json_ws r3 of
                            [] \<Rightarrow> None
                          | c # r4 \<Rightarrow>
                              if c = byte CHR '','' then map_option (apfst ((#) (key, v))) (object_items depth r4)
                              else if c = byte CHR ''}'' then Some ([(key, v)], r4) else None))))"
  by pat_completeness auto

text \<open>Every reader leaves a proper suffix, which is what makes the recursion end.\<close>

lemma json_ws_shrinks: "length (json_ws r) \<le> length r"
  unfolding json_ws_def by (rule length_dropWhile_le)

lemma json_ws_Cons: "json_ws r = c # r' \<Longrightarrow> length r' < length r"
  using json_ws_shrinks [of r] by simp

lemma str_body_shrinks: "str_body r = Some (s, r') \<Longrightarrow> length r' < length r"
proof (induction r arbitrary: s r' rule: str_body.induct)
  case (2 c r)
  note prem = "2.prems"
  consider "c = byte CHR 0x22" | "c \<noteq> byte CHR 0x22" "c \<noteq> byte CHR 0x5C" | "c \<noteq> byte CHR 0x22" "c = byte CHR 0x5C" by blast
  then show ?case
  proof cases
    case 1
    then show ?thesis using prem by simp
  next
    case 2
    then obtain s1 where "str_body r = Some (s1, r')" using prem by auto
    then show ?thesis using "2.IH"(3) [OF 2] by fastforce
  next
    case 3
    then obtain e r1 where r: "r = e # r1" using prem by (cases r) auto
    show ?thesis
    proof (cases "simple_escape e")
      case None
      then obtain cp s1 where "\<not> length r1 < 4" "e = byte CHR ''u''" "hex_cp 0 (take 4 r1) = Some cp" "str_body (drop 4 r1) = Some (s1, r')"
        using prem 3 r by (auto split: if_splits option.splits)
      then show ?thesis using "2.IH"(1) [OF 3 r None] r by fastforce
    next
      case (Some x)
      then obtain s1 where "str_body r1 = Some (s1, r')" using prem 3 r by auto
      then show ?thesis using "2.IH"(2) [OF 3 r Some] r by fastforce
    qed
  qed
qed simp

lemma json_str_shrinks: "json_str r = Some (s, r') \<Longrightarrow> length r' < length r"
  by (auto simp: json_str_def split: list.splits if_splits dest: str_body_shrinks)

lemma json_scalar_shrinks:
  "json_number r = Some (v, r') \<Longrightarrow> length r' < length r" "json_boolean r = Some (v, r') \<Longrightarrow> length r' < length r"
  "json_null r = Some (v, r') \<Longrightarrow> length r' < length r"
proof -
  have t: "r \<noteq> []" if "take n r = ascii s" "s \<noteq> []" for n s using that by auto
  show "json_boolean r = Some (v, r') \<Longrightarrow> length r' < length r" "json_null r = Some (v, r') \<Longrightarrow> length r' < length r"
    using t [of 4 "''true''"] t [of 5 "''false''"] t [of 4 "''null''"] by (auto simp: json_boolean_def json_null_def split: if_splits)
  show "json_number r = Some (v, r') \<Longrightarrow> length r' < length r"
    by (cases r) (auto simp: json_number_def Let_def split: if_splits)
qed

lemma json_shrinks:
  "json_value_array_items_object_items_dom (Inl (d, r)) \<Longrightarrow> json_value d r = Some (v, r') \<Longrightarrow> length r' < length r"
  "json_value_array_items_object_items_dom (Inr (Inl (d, r))) \<Longrightarrow> array_items d r = Some (vs, r') \<Longrightarrow> length r' < length r"
  "json_value_array_items_object_items_dom (Inr (Inr (d, r))) \<Longrightarrow> object_items d r = Some (kvs, r') \<Longrightarrow> length r' < length r"
proof (induction d r and d r and d r arbitrary: v r' and vs r' and kvs r' rule: json_value_array_items_object_items.pinduct)
  case (2 depth c r)
  have "length r' < length (c # r)" if "json_ws r \<noteq> []" "r' = tl (json_ws r)" using that json_ws_shrinks [of r] by simp
  moreover have "length r' < length (c # r)" if "length r' < length (json_ws r)" using that json_ws_shrinks [of r] by simp
  ultimately show ?case using 2
    by (force simp: json_value.psimps split: if_splits dest: json_scalar_shrinks str_body_shrinks)
next
  case (3 depth r)
  from 3(1,4) obtain v r1 c r2 where v: "json_value depth (json_ws r) = Some (v, r1)" and c: "json_ws r1 = c # r2"
    and t: "r' = r2 \<or> c = byte CHR '','' \<and> (\<exists>vs'. array_items depth r2 = Some (vs', r'))"
    by (auto simp: array_items.psimps split: option.splits list.splits if_splits)
  have "length r2 < length r" using 3(2) [OF v] json_ws_Cons [OF c] json_ws_shrinks [of r] by simp
  then show ?case using t 3(3) [OF v refl c] by fastforce
next
  case (4 depth r)
  from 4(1,4) obtain key r1 c1 r2 v r3 c r4 where k: "json_str (json_ws r) = Some (key, r1)" and c1: "json_ws r1 = c1 # r2" "\<not> c1 \<noteq> byte CHR '':''"
    and v: "json_value depth (json_ws r2) = Some (v, r3)" and c: "json_ws r3 = c # r4"
    and t: "r' = r4 \<or> c = byte CHR '','' \<and> (\<exists>vs'. object_items depth r4 = Some (vs', r'))"
    by (auto simp: object_items.psimps split: option.splits list.splits if_splits)
  have "length r4 < length r"
    using json_str_shrinks [OF k] 4(2) [OF k refl c1 v] json_ws_Cons [OF c] json_ws_Cons [OF c1(1)] json_ws_shrinks [of r] json_ws_shrinks [of r2] by simp
  then show ?case using t 4(3) [OF k refl c1 v refl c] by fastforce
qed (simp add: json_value.psimps)

lemma array_step:
  assumes "json_value_array_items_object_items_dom (Inl (d, json_ws r))" "json_value d (json_ws r) = Some (v, r1)" "json_ws r1 = c # r2"
  shows "length r2 < length r"
  using json_shrinks(1) [OF assms(1,2)] json_ws_Cons [OF assms(3)] json_ws_shrinks [of r] by simp

lemma object_key_step:
  assumes "json_str (json_ws r) = Some (key, r1)" "json_ws r1 = c # r2"
  shows "length r2 < length r" "length (json_ws r2) < length r"
  using json_str_shrinks [OF assms(1)] json_ws_Cons [OF assms(2)] json_ws_shrinks [of r] json_ws_shrinks [of r2] by simp_all

lemma object_step:
  assumes "json_str (json_ws r) = Some (key, r1)" "json_ws r1 = c # r2" "json_value_array_items_object_items_dom (Inl (d, json_ws r2))"
    "json_value d (json_ws r2) = Some (v, r3)" "json_ws r3 = c' # r4"
  shows "length r4 < length r"
  using array_step [OF assms(3-5)] object_key_step(1) [OF assms(1,2)] by simp

termination json_value
proof (relation "measure (\<lambda>x. case x of Inl (d, r) \<Rightarrow> 2 * length r | Inr (Inl (d, r)) \<Rightarrow> Suc (2 * length r) | Inr (Inr (d, r)) \<Rightarrow> Suc (2 * length r))",
    goal_cases)
  case (4 depth r)
  then show ?case using json_ws_shrinks [of r] by (simp add: less_Suc_eq_le)
next
  case (5 depth r)
  then show ?case using array_step by auto
next
  case (6 depth r)
  then show ?case using object_key_step(2) by fastforce
next
  case (7 depth r)
  then show ?case using object_step by auto
qed (use json_ws_shrinks in \<open>auto simp: less_Suc_eq_le\<close>)

declare json_value.simps(2) [simp del] array_items.simps [simp del] object_items.simps [simp del]

definition json_Parse :: "bytes \<Rightarrow> JsonValue option" where
  "json_Parse s =
     (case json_value 0 (json_ws s) of
        None \<Rightarrow> None
      | Some (v, r) \<Rightarrow> if json_ws r = [] then Some v else None)"

subsection \<open>Reading what was written\<close>

text \<open>
  A writer, as a specification of the documents the reader must understand: no white space, strings
  with quotes and backslashes escaped, the scalars verbatim.
\<close>

fun json_quote :: "bytes \<Rightarrow> bytes" where
  "json_quote [] = [byte CHR 0x22]"
| "json_quote (c # s) = (if c = byte CHR 0x22 \<or> c = byte CHR 0x5C then byte CHR 0x5C # c # json_quote s else c # json_quote s)"

fun json_sep :: "bytes list \<Rightarrow> bytes" where
  "json_sep [] = []"
| "json_sep [x] = x"
| "json_sep (x # y # zs) = x @ byte CHR '','' # json_sep (y # zs)"

fun json_print :: "JsonValue \<Rightarrow> bytes" where
  "json_print JNull = ascii ''null''"
| "json_print (JBool s) = s"
| "json_print (JNumber s) = s"
| "json_print (JString s) = byte CHR 0x22 # json_quote s"
| "json_print (JArray vs) = byte CHR ''['' # json_sep (map json_print vs) @ [byte CHR '']'']"
| "json_print (JObject kvs) = byte CHR ''{'' # json_sep (map (\<lambda>(k, v). byte CHR 0x22 # json_quote k @ byte CHR '':'' # json_print v) kvs) @ [byte CHR ''}'']"

text \<open>Values the writer can express: scalars that are tokens of their kind, nested at most \<open>d\<close> levels.\<close>

fun json_ok :: "nat \<Rightarrow> JsonValue \<Rightarrow> bool" where
  "json_ok d JNull = True"
| "json_ok d (JBool s) = (s = ascii ''true'' \<or> s = ascii ''false'')"
| "json_ok d (JNumber s) = (s \<noteq> [] \<and> (\<forall>c\<in>set s. number_char c))"
| "json_ok d (JString s) = True"
| "json_ok d (JArray vs) = (0 < d \<and> (\<forall>v\<in>set vs. json_ok (d - 1) v))"
| "json_ok d (JObject kvs) = (0 < d \<and> (\<forall>kv\<in>set kvs. json_ok (d - 1) (snd kv)))"

lemma str_body_quote: "str_body (json_quote s @ r) = Some (s, r)"
  by (induction s) (auto simp: simple_escape_def)

lemma json_ws_id: "r \<noteq> [] \<Longrightarrow> hd r \<notin> {32, 9, 10, 13} \<Longrightarrow> json_ws r = r"
  by (cases r) (auto simp: json_ws_def)

text \<open>What may follow a value: the end of the text or a separator, never a character that would extend a number.\<close>

definition json_ends :: "bytes \<Rightarrow> bool" where
  "json_ends r \<longleftrightarrow> r = [] \<or> hd r \<in> {byte CHR '','', byte CHR '']'', byte CHR ''}''}"

text \<open>The first byte of a written value decides how it is read.\<close>

lemma number_char_values:
  "number_char c \<Longrightarrow> c \<notin> {32, 9, 10, 13, byte CHR 0x22, byte CHR ''['', byte CHR '']'', byte CHR ''{'', byte CHR ''}'', byte CHR '','', byte CHR ''t'', byte CHR ''f'', byte CHR ''n''}"
  by (auto simp: number_char_def)

lemma json_print_start:
  assumes "json_ok d v"
  shows "json_print v \<noteq> [] \<and> hd (json_print v) \<notin> {32, 9, 10, 13, byte CHR '']'', byte CHR ''}''}"
proof (cases v)
  case (JNumber s)
  then obtain c s' where "s = c # s'" "number_char c" using assms by (cases s) auto
  then show ?thesis using JNumber number_char_values [of c] by simp
next
  case (JBool s)
  then show ?thesis using assms by auto
qed simp_all

lemma json_number_print:
  assumes "s \<noteq> []" "\<forall>c\<in>set s. number_char c" "json_ends r"
  shows "json_number (s @ r) = Some (JNumber s, r)"
proof -
  have r: "r = [] \<or> \<not> number_char (hd r)" using assms(3) number_char_values [of "hd r"] by (auto simp: json_ends_def)
  then have "takeWhile number_char r = []" by (cases r) simp_all
  moreover obtain c s' where "s = c # s'" using assms(1) by (cases s) auto
  ultimately show ?thesis using assms(2) by (simp add: json_number_def takeWhile_append)
qed

definition json_reads :: "nat \<Rightarrow> JsonValue \<Rightarrow> bool" where
  "json_reads d v \<longleftrightarrow> (\<forall>r. json_ends r \<longrightarrow> json_value d (json_print v @ r) = Some (v, r))"

lemma json_ws_print: "json_ok d v \<Longrightarrow> json_ws (json_print v @ r) = json_print v @ r"
  using json_print_start by (intro json_ws_id) auto

lemma json_ws_sep: "json_ws (c # r) = c # r" if "c \<in> {byte CHR '','', byte CHR '']'', byte CHR ''}'', byte CHR '':'', byte CHR 0x22}"
  using that by (auto simp: json_ws_def)

lemma array_items_print:
  assumes "vs \<noteq> []" "\<forall>v\<in>set vs. json_ok n v \<and> json_reads d v"
  shows "array_items d (json_sep (map json_print vs) @ byte CHR '']'' # r) = Some (vs, r)"
  using assms
proof (induction vs rule: list_nonempty_induct)
  case (single v)
  then have v: "json_ws (json_print v @ byte CHR '']'' # r) = json_print v @ byte CHR '']'' # r"
    "json_value d (json_print v @ byte CHR '']'' # r) = Some (v, byte CHR '']'' # r)"
    by (auto simp: json_reads_def json_ends_def intro: json_ws_print)
  then show ?case by (subst array_items.simps) (simp add: json_ws_sep)
next
  case (cons v vs)
  let ?r = "byte CHR '','' # json_sep (map json_print vs) @ byte CHR '']'' # r"
  have v: "json_ws (json_print v @ ?r) = json_print v @ ?r" "json_value d (json_print v @ ?r) = Some (v, ?r)"
    using cons.prems by (auto simp: json_reads_def json_ends_def intro: json_ws_print)
  have "json_sep (map json_print (v # vs)) @ byte CHR '']'' # r = json_print v @ ?r" using cons.hyps(1) by (cases vs) simp_all
  moreover have "array_items d (json_print v @ ?r) = Some (v # vs, r)"
    by (subst array_items.simps) (use v cons.IH cons.prems in \<open>simp add: json_ws_sep\<close>)
  ultimately show ?case by metis
qed

lemma object_items_print:
  assumes "kvs \<noteq> []" "\<forall>kv\<in>set kvs. json_ok n (snd kv) \<and> json_reads d (snd kv)"
  shows "object_items d (json_sep (map (\<lambda>(k, v). byte CHR 0x22 # json_quote k @ byte CHR '':'' # json_print v) kvs) @ byte CHR ''}'' # r) = Some (kvs, r)"
  using assms
proof (induction kvs rule: list_nonempty_induct)
  case (single kv)
  obtain k v where kv: "kv = (k, v)" by (cases kv)
  let ?r = "byte CHR ''}'' # r"
  have v: "json_ws (json_print v @ ?r) = json_print v @ ?r" "json_value d (json_print v @ ?r) = Some (v, ?r)"
    using single kv by (auto simp: json_reads_def json_ends_def intro: json_ws_print)
  then show ?case by (subst object_items.simps) (simp add: kv json_ws_sep json_str_def str_body_quote)
next
  case (cons kv kvs)
  obtain k v where kv: "kv = (k, v)" by (cases kv)
  let ?p = "\<lambda>(k, v). byte CHR 0x22 # json_quote k @ byte CHR '':'' # json_print v"
  let ?r = "byte CHR '','' # json_sep (map ?p kvs) @ byte CHR ''}'' # r"
  have v: "json_ws (json_print v @ ?r) = json_print v @ ?r" "json_value d (json_print v @ ?r) = Some (v, ?r)"
    using cons.prems kv by (auto simp: json_reads_def json_ends_def intro: json_ws_print)
  have "json_sep (map ?p (kv # kvs)) @ byte CHR ''}'' # r = byte CHR 0x22 # json_quote k @ byte CHR '':'' # json_print v @ ?r"
    using cons.hyps(1) kv by (cases kvs) simp_all
  moreover have "object_items d (byte CHR 0x22 # json_quote k @ byte CHR '':'' # json_print v @ ?r) = Some (kv # kvs, r)"
    by (subst object_items.simps) (use v cons.IH cons.prems in \<open>simp add: kv json_ws_sep json_str_def str_body_quote\<close>)
  ultimately show ?case by metis
qed

lemma json_sep_start: "xs \<noteq> [] \<Longrightarrow> hd xs \<noteq> [] \<Longrightarrow> json_sep xs \<noteq> [] \<and> hd (json_sep xs) = hd (hd xs)"
  by (induction xs rule: json_sep.induct) simp_all

lemma json_value_array:
  assumes "d < kMaxDepth" "\<forall>v\<in>set vs. json_ok n v \<and> json_reads (Suc d) v"
  shows "json_reads d (JArray vs)"
proof (cases "vs = []")
  case True
  then show ?thesis using assms(1) by (simp add: json_reads_def json_value.simps(2) json_ws_sep)
next
  case False
  let ?s = "\<lambda>r. json_sep (map json_print vs) @ byte CHR '']'' # r"
  have "json_print (hd vs) \<noteq> [] \<and> hd (json_print (hd vs)) \<notin> {32, 9, 10, 13, byte CHR '']'', byte CHR ''}''}"
    using False assms(2) by (intro json_print_start [of n]) simp
  then have h: "?s r \<noteq> []" "hd (?s r) \<notin> {32, 9, 10, 13, byte CHR '']''}" for r
    using False json_sep_start [of "map json_print vs"] by (auto simp: hd_map)
  show ?thesis unfolding json_reads_def
  proof (intro allI impI)
    fix r
    have "json_ws (?s r) = ?s r" using h by (intro json_ws_id) auto
    moreover have "array_items (Suc d) (?s r) = Some (vs, r)" using False assms(2) by (rule array_items_print)
    ultimately show "json_value d (json_print (JArray vs) @ r) = Some (JArray vs, r)"
      using assms(1) h(2) [of r] by (simp add: json_value.simps(2))
  qed
qed

lemma json_value_object:
  assumes "d < kMaxDepth" "\<forall>kv\<in>set kvs. json_ok n (snd kv) \<and> json_reads (Suc d) (snd kv)"
  shows "json_reads d (JObject kvs)"
proof (cases "kvs = []")
  case True
  then show ?thesis using assms(1) by (simp add: json_reads_def json_value.simps(2) json_ws_sep)
next
  case False
  let ?p = "\<lambda>(k, v). byte CHR 0x22 # json_quote k @ byte CHR '':'' # json_print v"
  let ?s = "\<lambda>r. json_sep (map ?p kvs) @ byte CHR ''}'' # r"
  have h: "?s r \<noteq> []" "hd (?s r) = byte CHR 0x22" for r
    using False json_sep_start [of "map ?p kvs"] by (auto simp: hd_map split: prod.splits)
  show ?thesis unfolding json_reads_def
  proof (intro allI impI)
    fix r
    have "json_ws (?s r) = ?s r" using h by (intro json_ws_id) auto
    moreover have "object_items (Suc d) (?s r) = Some (kvs, r)" using False assms(2) by (rule object_items_print)
    ultimately show "json_value d (json_print (JObject kvs) @ r) = Some (JObject kvs, r)"
      using assms(1) h(2) [of r] by (simp add: json_value.simps(2))
  qed
qed

lemma json_value_print: "json_ok (kMaxDepth - d) v \<Longrightarrow> json_reads d v"
proof (induction v arbitrary: d)
  case (JNumber s)
  then obtain c s' where c: "s = c # s'" "number_char c" by (cases s) auto
  have "json_value d (s @ r) = json_number (s @ r)" for r
    using number_char_values [OF c(2)] c(1) by (simp add: json_value.simps(2))
  then show ?case using JNumber by (simp add: json_reads_def json_number_print)
next
  case (JArray vs)
  show ?case by (rule json_value_array [where n = "kMaxDepth - Suc d"]) (use JArray in auto)
next
  case (JObject kvs)
  have "json_reads (Suc d) (snd kv)" if "kv \<in> set kvs" for kv
    by (rule JObject.IH [OF that]) (use JObject.prems that in \<open>cases kv; auto\<close>)+
  then show ?case by (intro json_value_object [where n = "kMaxDepth - Suc d"]) (use JObject.prems in auto)
qed (auto simp: json_reads_def json_value.simps(2) str_body_quote json_boolean_def json_null_def)

lemma json_Parse_print: "json_ok kMaxDepth v \<Longrightarrow> json_Parse (json_print v) = Some v"
  using json_value_print [of 0 v] json_ws_print [of kMaxDepth v "[]"]
  by (simp add: json_Parse_def json_reads_def json_ends_def json_ws_def)

subsection \<open>Base64\<close>

definition b64_table :: bytes where
  "b64_table = ascii ''ABCDEFGHIJKLMNOPQRSTUVWXYZabcdefghijklmnopqrstuvwxyz0123456789+/''"

definition b64_char :: "u32 \<Rightarrow> u8" where
  "b64_char x = b64_table ! unat (x AND 63)"

fun Base64Encode :: "bytes \<Rightarrow> bytes" where
  "Base64Encode (a # b # c # r) =
     (let n = push_bit 16 (ucast a) OR push_bit 8 (ucast b) OR ucast c
      in b64_char (drop_bit 18 n) # b64_char (drop_bit 12 n) # b64_char (drop_bit 6 n) # b64_char n # Base64Encode r)"
| "Base64Encode [a] =
     (let n = push_bit 16 (ucast a) in [b64_char (drop_bit 18 n), b64_char (drop_bit 12 n), byte CHR ''='', byte CHR ''=''])"
| "Base64Encode [a, b] =
     (let n = push_bit 16 (ucast a) OR push_bit 8 (ucast b)
      in [b64_char (drop_bit 18 n), b64_char (drop_bit 12 n), b64_char (drop_bit 6 n), byte CHR ''=''])"
| "Base64Encode [] = []"

definition b64_val :: "u8 \<Rightarrow> u32 option" where
  "b64_val c =
     (if byte CHR ''A'' \<le> c \<and> c \<le> byte CHR ''Z'' then Some (ucast (c - byte CHR ''A''))
      else if byte CHR ''a'' \<le> c \<and> c \<le> byte CHR ''z'' then Some (ucast (c - byte CHR ''a'') + 26)
      else if byte CHR ''0'' \<le> c \<and> c \<le> byte CHR ''9'' then Some (ucast (c - byte CHR ''0'') + 52)
      else if c = byte CHR ''+'' then Some 62 else if c = byte CHR ''/'' then Some 63 else None)"

text \<open>The decoder's loop with its bit buffer.\<close>

fun b64_decode :: "u32 \<Rightarrow> nat \<Rightarrow> bytes \<Rightarrow> bytes option" where
  "b64_decode buf bits [] = Some []"
| "b64_decode buf bits (c # r) =
     (if c = byte CHR ''='' \<or> c = 0x0A \<or> c = 0x0D then b64_decode buf bits r
      else (case b64_val c of
              None \<Rightarrow> None
            | Some v \<Rightarrow>
                let buf1 = push_bit 6 buf OR v; bits1 = bits + 6
                in if bits1 \<ge> 8
                   then let bits2 = bits1 - 8; buf2 = buf1 AND (if bits2 = 0 then 0 else push_bit bits2 1 - 1)
                        in map_option ((#) (ucast (drop_bit bits2 buf1 AND 0xFF))) (b64_decode buf2 bits2 r)
                   else b64_decode buf1 bits1 r))"

definition Base64Decode :: "bytes \<Rightarrow> bytes option" where
  "Base64Decode s = b64_decode 0 0 s"

lemma b64_table_val: "map b64_val b64_table = map (\<lambda>i. Some (of_nat i)) [0..<64]"
  by (simp add: b64_table_def b64_val_def upt_rec)

lemma b64_table_plain: "\<forall>c\<in>set b64_table. c \<notin> {byte CHR ''='', 0x0A, 0x0D}"
  by (simp add: b64_table_def)

lemma and_mask: "x AND 63 = take_bit 6 x" "x AND 15 = take_bit 4 x" "x AND 3 = take_bit 2 x" "x AND 255 = take_bit 8 (x :: u32)"
  by (simp_all add: take_bit_eq_mask mask_numeral)

lemma b64_val_char: "b64_val (b64_char x) = Some (take_bit 6 x)" "b64_char x \<notin> {byte CHR ''='', 0x0A, 0x0D}"
proof -
  have l: "length b64_table = 64" by (simp add: b64_table_def)
  have i: "unat (take_bit 6 x) < 64" using take_bit_nat_less_exp [of 6 "unat x"] by (simp add: unsigned_take_bit_eq)
  have "map b64_val b64_table ! unat (take_bit 6 x) = Some (of_nat (unat (take_bit 6 x)))" unfolding b64_table_val using i by simp
  then show "b64_val (b64_char x) = Some (take_bit 6 x)" using i l by (simp add: b64_char_def and_mask)
  have "b64_char x \<in> set b64_table" using i l by (simp add: b64_char_def and_mask)
  then show "b64_char x \<notin> {byte CHR ''='', 0x0A, 0x0D}" using b64_table_plain by blast
qed

lemma b64_group:
  fixes a b c :: u8
  defines "n \<equiv> push_bit 16 (ucast a) OR push_bit 8 (ucast b) OR (ucast c :: u32)"
  defines "u \<equiv> push_bit 6 (take_bit 6 (drop_bit 18 n)) OR take_bit 6 (drop_bit 12 n)"
  defines "v \<equiv> push_bit 6 (take_bit 4 u) OR take_bit 6 (drop_bit 6 n)"
  defines "w \<equiv> push_bit 6 (take_bit 2 v) OR take_bit 6 n"
  shows "ucast (drop_bit 4 u) = a" "ucast (drop_bit 2 v) = b" "ucast w = c"
proof -
  have n: "bit n (k + 16) = bit a k" "bit n (k + 8) = bit b k" "bit n k = bit c k" if "k < 8" for k
    using that bit_imp_le_length [of a k] by (auto simp: n_def bit_simps dest: bit_imp_le_length)
  show "ucast (drop_bit 4 u) = a"
  proof (rule bit_word_eqI)
    fix k assume k: "k < LENGTH(8)"
    show "bit (ucast (drop_bit 4 u) :: u8) k = bit a k"
      using n(1) [of k] k by (cases "k < 2") (auto simp: u_def bit_simps ac_simps)
  qed
  show "ucast (drop_bit 2 v) = b"
  proof (rule bit_word_eqI)
    fix k assume k: "k < LENGTH(8)"
    show "bit (ucast (drop_bit 2 v) :: u8) k = bit b k"
      using n(2) [of k] k by (cases "k < 4") (auto simp: v_def u_def bit_simps ac_simps)
  qed
  show "ucast w = c"
  proof (rule bit_word_eqI)
    fix k assume k: "k < LENGTH(8)"
    show "bit (ucast w :: u8) k = bit c k"
      using n(3) [of k] k by (cases "k < 6") (auto simp: w_def v_def bit_simps ac_simps)
  qed
qed

lemma ucast_and_255: "(ucast (x AND 255) :: u8) = ucast (x :: u32)"
  unfolding and_mask by (rule bit_word_eqI) (simp add: bit_simps)

lemma b64_decode_char:
  assumes "y = push_bit 6 buf OR take_bit 6 x"
  shows "b64_decode buf 0 (b64_char x # r) = b64_decode y 6 r"
    and "b64_decode buf 6 (b64_char x # r) = map_option ((#) (ucast (drop_bit 4 y))) (b64_decode (take_bit 4 y) 4 r)"
    and "b64_decode buf 4 (b64_char x # r) = map_option ((#) (ucast (drop_bit 2 y))) (b64_decode (take_bit 2 y) 2 r)"
    and "b64_decode buf 2 (b64_char x # r) = map_option ((#) (ucast y)) (b64_decode 0 0 r)"
proof -
  have x: "b64_val (b64_char x) = Some (take_bit 6 x)" "b64_char x \<noteq> byte CHR ''=''" "b64_char x \<noteq> 0x0A" "b64_char x \<noteq> 0x0D"
    using b64_val_char [of x] by auto
  show "b64_decode buf 0 (b64_char x # r) = b64_decode y 6 r"
    unfolding b64_decode.simps(2) x(1) using x by (simp add: Let_def flip: assms)
  show "b64_decode buf 6 (b64_char x # r) = map_option ((#) (ucast (drop_bit 4 y))) (b64_decode (take_bit 4 y) 4 r)"
    unfolding b64_decode.simps(2) x(1) using x by (simp add: Let_def ucast_and_255 and_mask(2) flip: assms)
  show "b64_decode buf 4 (b64_char x # r) = map_option ((#) (ucast (drop_bit 2 y))) (b64_decode (take_bit 2 y) 2 r)"
    unfolding b64_decode.simps(2) x(1) using x by (simp add: Let_def ucast_and_255 and_mask(3) flip: assms)
  show "b64_decode buf 2 (b64_char x # r) = map_option ((#) (ucast y)) (b64_decode 0 0 r)"
    unfolding b64_decode.simps(2) x(1) using x by (simp add: Let_def ucast_and_255 flip: assms)
qed

lemma b64_decode_group:
  fixes a b c :: u8 and n :: u32
  assumes n: "n = push_bit 16 (ucast a) OR push_bit 8 (ucast b) OR ucast c"
  obtains u v where
    "\<And>r. b64_decode 0 0 (b64_char (drop_bit 18 n) # b64_char (drop_bit 12 n) # r) = map_option ((#) a) (b64_decode u 4 r)"
    "\<And>r. b64_decode u 4 (b64_char (drop_bit 6 n) # r) = map_option ((#) b) (b64_decode v 2 r)"
    "\<And>r. b64_decode v 2 (b64_char n # r) = map_option ((#) c) (b64_decode 0 0 r)"
proof -
  define u where u: "u = push_bit 6 (take_bit 6 (drop_bit 18 n)) OR take_bit 6 (drop_bit 12 n)"
  define v where v: "v = push_bit 6 (take_bit 4 u) OR take_bit 6 (drop_bit 6 n)"
  define w where w: "w = push_bit 6 (take_bit 2 v) OR take_bit 6 n"
  have g: "ucast (drop_bit 4 u) = a" "ucast (drop_bit 2 v) = b" "ucast w = c" using b64_group [where a = a and b = b and c = c] by (simp_all only: n u v w)
  have z: "take_bit 6 (drop_bit 18 n) = push_bit 6 0 OR take_bit 6 (drop_bit 18 n)" by simp
  show ?thesis
    by (rule that [of "take_bit 4 u" "take_bit 2 v"])
       (simp_all only: b64_decode_char(1) [OF z] b64_decode_char(2) [OF u] b64_decode_char(3) [OF v] b64_decode_char(4) [OF w] g)
qed

lemma Base64Decode_Encode: "Base64Decode (Base64Encode s) = Some s"
proof (induction s rule: Base64Encode.induct)
  case (1 a b c r)
  define n :: u32 where n: "n = push_bit 16 (ucast a) OR push_bit 8 (ucast b) OR ucast c"
  obtain u v where "\<And>r. b64_decode 0 0 (b64_char (drop_bit 18 n) # b64_char (drop_bit 12 n) # r) = map_option ((#) a) (b64_decode u 4 r)"
    "\<And>r. b64_decode u 4 (b64_char (drop_bit 6 n) # r) = map_option ((#) b) (b64_decode v 2 r)"
    "\<And>r. b64_decode v 2 (b64_char n # r) = map_option ((#) c) (b64_decode 0 0 r)" using b64_decode_group [OF n] by metis
  then show ?case using 1 unfolding Base64Encode.simps(1) n [symmetric] Base64Decode_def Let_def by simp
next
  case (2 a)
  define n :: u32 where n: "n = push_bit 16 (ucast a)"
  have n': "n = push_bit 16 (ucast a) OR push_bit 8 (ucast (0 :: u8)) OR ucast (0 :: u8)" by (simp add: n)
  obtain u where "\<And>r. b64_decode 0 0 (b64_char (drop_bit 18 n) # b64_char (drop_bit 12 n) # r) = map_option ((#) a) (b64_decode u 4 r)"
    using b64_decode_group [OF n'] by metis
  then show ?case unfolding Base64Encode.simps(2) n [symmetric] Base64Decode_def Let_def by simp
next
  case (3 a b)
  define n :: u32 where n: "n = push_bit 16 (ucast a) OR push_bit 8 (ucast b)"
  have n': "n = push_bit 16 (ucast a) OR push_bit 8 (ucast b) OR ucast (0 :: u8)" by (simp add: n)
  obtain u v where "\<And>r. b64_decode 0 0 (b64_char (drop_bit 18 n) # b64_char (drop_bit 12 n) # r) = map_option ((#) a) (b64_decode u 4 r)"
    "\<And>r. b64_decode u 4 (b64_char (drop_bit 6 n) # r) = map_option ((#) b) (b64_decode v 2 r)" using b64_decode_group [OF n'] by metis
  then show ?case unfolding Base64Encode.simps(3) n [symmetric] Base64Decode_def Let_def by simp
qed (simp add: Base64Decode_def)

end
