(* ===== verification/Etcd_Client.thy ===== *)
theory Etcd_Client
  imports Wire Json_Min "HOL-Library.List_Lexorder" "HOL-Library.Sublist"
begin

text \<open>
  The etcd client of the metadata service, \<^verbatim>\<open>mds/etcd_client.cc\<close>: the four calls over the JSON gateway,
  their request bodies, the interpretation of the responses, the range end that selects a key prefix,
  and the request and error counters. The HTTP transport is an interface in the source; here it is
  the argument \<open>http\<close>, which maps its own state, a path and a body to the status and body of the
  response, or to \<open>None\<close> when the exchange failed. Latency histograms and the rendered metrics are not
  modelled.
\<close>

type_synonym 'w http_post = "'w \<Rightarrow> bytes \<Rightarrow> bytes \<Rightarrow> (int \<times> bytes) option \<times> 'w"

datatype EtcdOp = LeaseGrantOp | LeaseKeepAliveOp | PutOp | RangeOp | MetricsRangeOp

record 'w EtcdClient =
  ec_http :: 'w
  ec_requests :: "EtcdOp \<Rightarrow> u64"
  ec_errors :: "EtcdOp \<Rightarrow> u64"

record RangeResult =
  rr_kvs :: "(bytes \<times> bytes) list"
  rr_revision :: int

subsection \<open>Numbers as text\<close>

fun dec_digits :: "nat \<Rightarrow> bytes" where
  "dec_digits n = (if n < 10 then [byte CHR ''0'' + of_nat n] else dec_digits (n div 10) @ [byte CHR ''0'' + of_nat (n mod 10)])"

definition int_text :: "int \<Rightarrow> bytes" where
  "int_text i = (if i < 0 then byte CHR ''-'' # dec_digits (nat (- i)) else dec_digits (nat i))"

definition dec_value :: "bytes \<Rightarrow> int" where
  "dec_value ds = foldl (\<lambda>v d. 10 * v + (int (unat d) - 48)) 0 ds"

definition is_dec :: "u8 \<Rightarrow> bool" where
  "is_dec c \<longleftrightarrow> byte CHR ''0'' \<le> c \<and> c \<le> byte CHR ''9''"

text \<open>\<^verbatim>\<open>strtoll\<close> in base 10: leading white space, a sign, the longest run of digits, saturated to 64 bits.\<close>

definition strtoll :: "bytes \<Rightarrow> int" where
  "strtoll s =
     (let t = dropWhile (\<lambda>c. c \<in> {0x20, 0x09, 0x0A, 0x0B, 0x0C, 0x0D}) s;
          neg = (t \<noteq> [] \<and> hd t = byte CHR ''-'');
          u = (if t \<noteq> [] \<and> (hd t = byte CHR ''-'' \<or> hd t = byte CHR ''+'') then tl t else t);
          m = dec_value (takeWhile is_dec u);
          v = (if neg then - m else m)
      in max (- (2 ^ 63)) (min (2 ^ 63 - 1) v))"

subsection \<open>The calls\<close>

text \<open>\<^verbatim>\<open>PrefixRangeEnd\<close>: the last byte below 0xFF is incremented and what follows it is cut.\<close>

fun range_end_rev :: "bytes \<Rightarrow> bytes" where
  "range_end_rev [] = [0]"
| "range_end_rev (b # bs) = (if b < 0xFF then rev ((b + 1) # bs) else range_end_rev bs)"

definition PrefixRangeEnd :: "bytes \<Rightarrow> bytes" where
  "PrefixRangeEnd pfx = range_end_rev (rev pfx)"

definition etcd_Post :: "'w http_post \<Rightarrow> EtcdOp \<Rightarrow> bytes \<Rightarrow> bytes \<Rightarrow> 'w EtcdClient \<Rightarrow> bytes option \<times> 'w EtcdClient" where
  "etcd_Post http opn path body c =
     (case http (ec_http c) path body of
        (resp, w) \<Rightarrow>
          let c1 = c\<lparr>ec_http := w, ec_requests := (ec_requests c)(opn := ec_requests c opn + 1)\<rparr>
          in (case resp of
                Some (status, text) \<Rightarrow>
                  if status = 200 then (Some text, c1)
                  else (None, c1\<lparr>ec_errors := (ec_errors c1)(opn := ec_errors c1 opn + 1)\<rparr>)
              | None \<Rightarrow> (None, c1\<lparr>ec_errors := (ec_errors c1)(opn := ec_errors c1 opn + 1)\<rparr>)))"

definition quoted :: "bytes \<Rightarrow> bytes" where
  "quoted s = byte CHR 0x22 # s @ [byte CHR 0x22]"

definition lease_grant_body :: "int \<Rightarrow> bytes" where
  "lease_grant_body ttl =
     ascii ''{'' @ quoted (ascii ''TTL'') @ ascii '':'' @ quoted (int_text ttl) @ ascii '','' @
     quoted (ascii ''ID'') @ ascii '':'' @ quoted (ascii ''0'') @ ascii ''}''"

definition LeaseGrant :: "'w http_post \<Rightarrow> int \<Rightarrow> 'w EtcdClient \<Rightarrow> int option \<times> 'w EtcdClient" where
  "LeaseGrant http ttl c =
     (case etcd_Post http LeaseGrantOp (ascii ''/v3/lease/grant'') (lease_grant_body ttl) c of
        (None, c1) \<Rightarrow> (None, c1)
      | (Some text, c1) \<Rightarrow>
          (case json_Parse text of
             None \<Rightarrow> (None, c1)
           | Some root \<Rightarrow>
               let i = get_str root (ascii ''ID'') []
               in (if i = [] then None else Some (strtoll i), c1)))"

definition keepalive_body :: "int \<Rightarrow> bytes" where
  "keepalive_body lease = ascii ''{'' @ quoted (ascii ''ID'') @ ascii '':'' @ quoted (int_text lease) @ ascii ''}''"

definition LeaseKeepAlive :: "'w http_post \<Rightarrow> int \<Rightarrow> 'w EtcdClient \<Rightarrow> bool \<times> 'w EtcdClient" where
  "LeaseKeepAlive http lease c =
     (case etcd_Post http LeaseKeepAliveOp (ascii ''/v3/lease/keepalive'') (keepalive_body lease) c of
        (None, c1) \<Rightarrow> (False, c1)
      | (Some text, c1) \<Rightarrow>
          (case json_Parse text of
             None \<Rightarrow> (False, c1)
           | Some root \<Rightarrow>
               let ttl = (case json_find root (ascii ''result'') of
                            Some res \<Rightarrow> get_str res (ascii ''TTL'') []
                          | None \<Rightarrow> get_str root (ascii ''TTL'') [])
               in (ttl \<noteq> [] \<and> ttl \<noteq> ascii ''0'', c1)))"

definition put_body :: "bytes \<Rightarrow> bytes \<Rightarrow> int \<Rightarrow> bytes" where
  "put_body key val lease =
     ascii ''{'' @ quoted (ascii ''key'') @ ascii '':'' @ quoted (Base64Encode key) @ ascii '','' @
     quoted (ascii ''value'') @ ascii '':'' @ quoted (Base64Encode val) @ ascii '','' @
     quoted (ascii ''lease'') @ ascii '':'' @ quoted (int_text lease) @ ascii ''}''"

definition etcd_Put :: "'w http_post \<Rightarrow> bytes \<Rightarrow> bytes \<Rightarrow> int \<Rightarrow> 'w EtcdClient \<Rightarrow> bool \<times> 'w EtcdClient" where
  "etcd_Put http key val lease c =
     (case etcd_Post http PutOp (ascii ''/v3/kv/put'') (put_body key val lease) c of (r, c1) \<Rightarrow> (r \<noteq> None, c1))"

definition range_body :: "bytes \<Rightarrow> bytes \<Rightarrow> bytes" where
  "range_body key fin =
     ascii ''{'' @ quoted (ascii ''key'') @ ascii '':'' @ quoted (Base64Encode key) @ ascii '','' @
     quoted (ascii ''range_end'') @ ascii '':'' @ quoted (Base64Encode fin) @ ascii ''}''"

fun decode_kvs :: "JsonValue list \<Rightarrow> (bytes \<times> bytes) list option" where
  "decode_kvs [] = Some []"
| "decode_kvs (kv # kvs) =
     (case Base64Decode (get_str kv (ascii ''key'') []) of
        None \<Rightarrow> None
      | Some k \<Rightarrow>
          (case Base64Decode (get_str kv (ascii ''value'') []) of
             None \<Rightarrow> None
           | Some v \<Rightarrow> map_option ((#) (k, v)) (decode_kvs kvs)))"

definition range_result :: "JsonValue \<Rightarrow> RangeResult option" where
  "range_result root =
     (let rev = (case json_find root (ascii ''header'') of
                   Some hdr \<Rightarrow> strtoll (get_str hdr (ascii ''revision'') (ascii ''0''))
                 | None \<Rightarrow> 0)
      in (case json_find root (ascii ''kvs'') of
            Some (JArray items) \<Rightarrow> map_option (\<lambda>kvs. \<lparr>rr_kvs = kvs, rr_revision = rev\<rparr>) (decode_kvs items)
          | _ \<Rightarrow> Some \<lparr>rr_kvs = [], rr_revision = rev\<rparr>))"

definition RangePrefixAs :: "'w http_post \<Rightarrow> bytes \<Rightarrow> EtcdOp \<Rightarrow> 'w EtcdClient \<Rightarrow> RangeResult option \<times> 'w EtcdClient" where
  "RangePrefixAs http pfx opn c =
     (case etcd_Post http opn (ascii ''/v3/kv/range'') (range_body pfx (PrefixRangeEnd pfx)) c of
        (None, c1) \<Rightarrow> (None, c1)
      | (Some text, c1) \<Rightarrow> (case json_Parse text of None \<Rightarrow> (None, c1) | Some root \<Rightarrow> (range_result root, c1)))"

definition RangePrefix :: "'w http_post \<Rightarrow> bytes \<Rightarrow> 'w EtcdClient \<Rightarrow> RangeResult option \<times> 'w EtcdClient" where
  "RangePrefix http pfx c = RangePrefixAs http pfx RangeOp c"

definition RangePrefixForMetrics :: "'w http_post \<Rightarrow> bytes \<Rightarrow> 'w EtcdClient \<Rightarrow> RangeResult option \<times> 'w EtcdClient" where
  "RangePrefixForMetrics http pfx c = RangePrefixAs http pfx MetricsRangeOp c"

subsection \<open>A prefix is a range\<close>

text \<open>
  The keys etcd returns for a request: those from \<open>key\<close> up to \<open>fin\<close>, in byte order, where the single
  byte 0 as the end means no upper bound.
\<close>

definition etcd_in_range :: "bytes \<Rightarrow> bytes \<Rightarrow> bytes \<Rightarrow> bool" where
  "etcd_in_range key fin k \<longleftrightarrow> key \<le> k \<and> (fin = [0] \<or> k < fin)"

lemma PrefixRangeEnd_snoc:
  "PrefixRangeEnd (p @ [b]) = (if b < 0xFF then p @ [b + 1] else PrefixRangeEnd p)"
  by (simp add: PrefixRangeEnd_def)

lemma u8_max: "(b :: u8) \<le> 0xFF"
proof -
  have "(0xFF :: u8) = - 1" by simp
  then show ?thesis using word_n1_ge [of b] by metis
qed

lemma less_increment: "(b :: u8) < 0xFF \<Longrightarrow> x < b + 1 \<longleftrightarrow> x \<le> b"
  by (simp add: word_less_nat_alt word_le_nat_alt unat_word_ariths less_Suc_eq_le)

text \<open>A key lies between a prefix and its increment exactly when it starts with the prefix.\<close>

lemma between_prefix:
  fixes b :: u8
  assumes "b < 0xFF"
  shows "p @ [b] \<le> k \<and> k < p @ [b + 1] \<longleftrightarrow> prefix (p @ [b]) k"
proof (induction p arbitrary: k)
  case Nil
  show ?case
  proof (cases k)
    case (Cons x l)
    have "b \<le> x \<and> x \<le> b \<longleftrightarrow> x = b" by auto
    then show ?thesis using less_increment [OF assms, of x] by (auto simp: Cons)
  qed simp
next
  case (Cons a p)
  show ?case
  proof (cases k)
    case (Cons x l)
    consider "x < a" | "x = a" | "a < x" by (rule linorder_cases)
    then show ?thesis
    proof cases
      case 2
      then show ?thesis using Cons.IH [of l] by (simp add: Cons)
    qed (auto simp: Cons dest: less_asym)
  qed simp
qed

lemma from_max:
  fixes k :: bytes
  shows "replicate n 0xFF \<le> k \<longleftrightarrow> prefix (replicate n 0xFF) k"
proof (induction n arbitrary: k)
  case (Suc n)
  show ?case
  proof (cases k)
    case (Cons x l)
    have "\<not> 0xFF < x" using u8_max [of x] by (simp add: not_less)
    then show ?thesis by (simp add: Cons Suc.IH eq_commute)
  qed simp
qed simp

lemma PrefixRangeEnd_cases:
  obtains (max) n where "p = replicate n 0xFF" "PrefixRangeEnd p = [0]"
  | (inc) q b n where "p = q @ [b] @ replicate n 0xFF" "b < 0xFF" "PrefixRangeEnd p = q @ [b + 1]"
proof (induction p arbitrary: thesis rule: rev_induct)
  case Nil
  show ?case by (rule Nil(1) [of 0]) (simp_all add: PrefixRangeEnd_def)
next
  case (snoc b p)
  show ?case
  proof (cases "b < 0xFF")
    case True
    then show ?thesis by (intro snoc(3) [of p b 0]) (simp_all add: PrefixRangeEnd_snoc)
  next
    case False
    then have b: "b = 0xFF" using u8_max [of b] by simp
    have e: "PrefixRangeEnd (p @ [b]) = PrefixRangeEnd p" using False by (simp add: PrefixRangeEnd_snoc)
    show ?thesis
    proof (rule snoc(1))
      fix n assume p: "p = replicate n 0xFF" and "PrefixRangeEnd p = [0]"
      then have "PrefixRangeEnd (p @ [b]) = [0]" using e by metis
      then show thesis by (rule snoc(2) [rotated]) (simp add: b p replicate_append_same flip: replicate_Suc)
    next
      fix q c n assume p: "p = q @ [c] @ replicate n 0xFF" and c: "c < 0xFF" and "PrefixRangeEnd p = q @ [c + 1]"
      then have "PrefixRangeEnd (p @ [b]) = q @ [c + 1]" using e by metis
      then show thesis using c by (intro snoc(3) [of q c "Suc n"]) (simp_all add: b p replicate_append_same)
    qed
  qed
qed

lemma append_le_append: "q @ x \<le> q @ y \<longleftrightarrow> x \<le> (y :: bytes)"
  by (induction q) simp_all

lemma le_append: "(x :: bytes) \<le> x @ y"
  by (induction x) simp_all

lemma PrefixRangeEnd_in_range: "etcd_in_range p (PrefixRangeEnd p) k \<longleftrightarrow> prefix p k"
proof (cases p rule: PrefixRangeEnd_cases)
  case (max n)
  then show ?thesis using from_max [of n k] by (simp add: etcd_in_range_def)
next
  case (inc q b n)
  have nz: "q @ [b + 1] \<noteq> [0]" using inc(2) by (auto simp: word_less_nat_alt word_unat_eq_iff unat_word_ariths)
  show ?thesis
  proof (cases "prefix (q @ [b]) k")
    case True
    then obtain t where k: "k = q @ [b] @ t" by (auto simp: prefix_def)
    have "k < q @ [b + 1]" using between_prefix [OF inc(2)] True by blast
    moreover have "p \<le> k \<longleftrightarrow> prefix p k" using from_max [of n t] by (simp add: inc(1) k append_le_append)
    ultimately show ?thesis by (simp add: etcd_in_range_def inc(3))
  next
    case False
    have "q @ [b] \<le> p" using le_append [of "q @ [b]" "replicate n 0xFF"] by (simp add: inc(1))
    then have "\<not> (p \<le> k \<and> k < q @ [b + 1])" using between_prefix [OF inc(2)] False by (meson order_trans)
    moreover have "\<not> prefix p k" using False unfolding inc(1) by (metis append_prefixD append.assoc)
    ultimately show ?thesis using nz by (simp add: etcd_in_range_def inc(3))
  qed
qed

text \<open>The documents the gateway sends for a range: an array of objects with base64 keys and values, left out when empty.\<close>

definition range_document :: "JsonValue \<Rightarrow> (bytes \<times> bytes) list \<Rightarrow> bool" where
  "range_document root kvs \<longleftrightarrow>
     (case json_find root (ascii ''kvs'') of
        None \<Rightarrow> kvs = []
      | Some (JArray items) \<Rightarrow>
          map (\<lambda>item. (get_str item (ascii ''key'') [], get_str item (ascii ''value'') [])) items = map (\<lambda>(k, v). (Base64Encode k, Base64Encode v)) kvs
      | Some _ \<Rightarrow> False)"

lemma decode_kvs_document:
  "map (\<lambda>item. (get_str item (ascii ''key'') [], get_str item (ascii ''value'') [])) items = map (\<lambda>(k, v). (Base64Encode k, Base64Encode v)) kvs
   \<Longrightarrow> decode_kvs items = Some kvs"
proof (induction items arbitrary: kvs)
  case (Cons i items)
  then obtain k v kvs' where "kvs = (k, v) # kvs'" by (cases kvs) auto
  then show ?case using Cons by (simp add: Base64Decode_Encode)
qed simp

lemma range_result_document: "range_document root kvs \<Longrightarrow> map_option rr_kvs (range_result root) = Some kvs"
  by (auto simp: range_document_def range_result_def Let_def decode_kvs_document option.map_comp comp_def
      split: option.splits JsonValue.splits)

lemma RangePrefix_document:
  assumes "http (ec_http c) (ascii ''/v3/kv/range'') (range_body p (PrefixRangeEnd p)) = (Some (200, json_print root), w)"
    and "json_ok kMaxDepth root"
    and "range_document root (filter (\<lambda>(k, v). etcd_in_range p (PrefixRangeEnd p) k) store)"
  shows "map_option rr_kvs (fst (RangePrefix http p c)) = Some (filter (\<lambda>(k, v). prefix p k) store)"
proof -
  have "fst (RangePrefix http p c) = range_result root"
    using assms(1) json_Parse_print [OF assms(2)] by (simp add: RangePrefix_def RangePrefixAs_def etcd_Post_def)
  then show ?thesis using range_result_document [OF assms(3)] by (simp add: PrefixRangeEnd_in_range)
qed

text \<open>
  C28: a prefix read returns exactly the keys under the prefix. Assume the gateway answers the
  request with a JSON document that lists, in base64, the pairs of the store whose key lies in the
  requested range, as etcd documents its range call. Then \<^verbatim>\<open>RangePrefix\<close> returns those pairs of the store
  whose key starts with the prefix, decoded and in the order of the store. In particular the computed
  range end cuts off no key with the prefix and lets no other key in, also for prefixes ending in 0xFF.
\<close>
theorem RangePrefix_exact:
  assumes "http (ec_http c) (ascii ''/v3/kv/range'') (range_body p (PrefixRangeEnd p)) = (Some (200, json_print root), w)"
    and "json_ok kMaxDepth root"
    and "range_document root (filter (\<lambda>(k, v). etcd_in_range p (PrefixRangeEnd p) k) store)"
  shows "map_option rr_kvs (fst (RangePrefix http p c)) = Some (filter (\<lambda>(k, v). prefix p k) store)"
  using assms by (rule RangePrefix_document)

definition sample_store :: "(bytes \<times> bytes) list" where
  "sample_store = [(ascii ''/a/1'', [1]), (ascii ''/a/2'', [2, 3]), (ascii ''/b/1'', [4])]"

definition sample_document :: JsonValue where
  "sample_document = JObject [(ascii ''header'', JObject [(ascii ''revision'', JString (ascii ''7''))]),
     (ascii ''kvs'', JArray (map (\<lambda>(k, v). JObject [(ascii ''key'', JString (Base64Encode k)), (ascii ''value'', JString (Base64Encode v))])
        (take 2 sample_store)))]"

definition sample_client :: "unit EtcdClient" where
  "sample_client = \<lparr>ec_http = (), ec_requests = \<lambda>_. 0, ec_errors = \<lambda>_. 0\<rparr>"

theorem RangePrefix_exact_witness:
  "map_option rr_kvs (fst (RangePrefix (\<lambda>w path body. (Some (200, json_print sample_document), w)) (ascii ''/a/'') sample_client)) =
     Some [(ascii ''/a/1'', [1]), (ascii ''/a/2'', [2, 3])]"
proof -
  let ?p = "ascii ''/a/''"
  have "filter (\<lambda>(k, v). etcd_in_range ?p (PrefixRangeEnd ?p) k) sample_store = take 2 sample_store"
    unfolding PrefixRangeEnd_in_range by (simp add: sample_store_def)
  moreover have "json_ok kMaxDepth sample_document" by (simp add: sample_document_def kMaxDepth_def sample_store_def)
  moreover have "range_document sample_document (take 2 sample_store)"
    by (simp add: range_document_def sample_document_def get_str_def sample_store_def)
  ultimately have "map_option rr_kvs (fst (RangePrefix (\<lambda>w path body. (Some (200, json_print sample_document), w)) ?p sample_client)) =
     Some (filter (\<lambda>(k, v). prefix ?p k) sample_store)"
    by (intro RangePrefix_exact [where root = sample_document]) simp_all
  then show ?thesis by (simp add: sample_store_def)
qed

end
