(* ===== verification/Mds_Server.thy ===== *)
theory Mds_Server
  imports Etcd_Client Membership "HOL-Library.AList"
begin

text \<open>
  The metadata service, \<^verbatim>\<open>mds/mds_server.cc\<close> with \<^verbatim>\<open>mds/mds_proto.h\<close>: the local lease cache, the debounced
  readiness probe, registration of members and clients under etcd leases, the three listings, the
  per-group aggregates and the connection handler. Every call to \<^verbatim>\<open>SteadyNowMs\<close> is an argument. Sockets,
  threads, deadlines and the rendering of metrics as text are not modelled: a connection is the list
  of bytes it delivers.
\<close>

subsection \<open>The lease cache\<close>

record LeaseEntry =
  le_lease_id :: int
  le_last_use_ms :: u64

record LocalLeaseMap =
  lm_entries :: "(bytes \<times> LeaseEntry) list"
  lm_next_prune_ms :: u64

definition empty_leases :: LocalLeaseMap where
  "empty_leases = \<lparr>lm_entries = [], lm_next_prune_ms = 0\<rparr>"

definition kPruneIntervalMs :: u64 where
  "kPruneIntervalMs = 30000"

definition LookupAndTouch :: "bytes \<Rightarrow> u64 \<Rightarrow> LocalLeaseMap \<Rightarrow> int option \<times> LocalLeaseMap" where
  "LookupAndTouch key now_ms l =
     (case map_of (lm_entries l) key of
        None \<Rightarrow> (None, l)
      | Some e \<Rightarrow> (Some (le_lease_id e), l\<lparr>lm_entries := AList.update key (e\<lparr>le_last_use_ms := now_ms\<rparr>) (lm_entries l)\<rparr>))"

definition lease_Store :: "bytes \<Rightarrow> int \<Rightarrow> u64 \<Rightarrow> LocalLeaseMap \<Rightarrow> LocalLeaseMap" where
  "lease_Store key lease_id now_ms l =
     l\<lparr>lm_entries := AList.update key \<lparr>le_lease_id = lease_id, le_last_use_ms = now_ms\<rparr> (lm_entries l)\<rparr>"

definition lease_stale :: "u64 \<Rightarrow> u64 \<Rightarrow> LeaseEntry \<Rightarrow> bool" where
  "lease_stale now_ms stale_after_ms e \<longleftrightarrow> now_ms \<ge> le_last_use_ms e \<and> now_ms - le_last_use_ms e > stale_after_ms"

definition PruneLocked :: "u64 \<Rightarrow> u64 \<Rightarrow> LocalLeaseMap \<Rightarrow> nat \<times> LocalLeaseMap" where
  "PruneLocked now_ms stale_after_ms l =
     (length (filter (\<lambda>(k, e). lease_stale now_ms stale_after_ms e) (lm_entries l)),
      l\<lparr>lm_entries := filter (\<lambda>(k, e). \<not> lease_stale now_ms stale_after_ms e) (lm_entries l)\<rparr>)"

definition MaybePrune :: "u64 \<Rightarrow> u64 \<Rightarrow> LocalLeaseMap \<Rightarrow> nat \<times> LocalLeaseMap" where
  "MaybePrune now_ms stale_after_ms l =
     (if now_ms < lm_next_prune_ms l then (0, l)
      else PruneLocked now_ms stale_after_ms
             (l\<lparr>lm_next_prune_ms := (if now_ms > - 1 - kPruneIntervalMs then - 1 else now_ms + kPruneIntervalMs)\<rparr>))"

definition lease_Prune :: "u64 \<Rightarrow> u64 \<Rightarrow> LocalLeaseMap \<Rightarrow> nat \<times> LocalLeaseMap" where
  "lease_Prune now_ms stale_after_ms l = PruneLocked now_ms stale_after_ms l"

definition lease_Size :: "LocalLeaseMap \<Rightarrow> nat" where
  "lease_Size l = length (lm_entries l)"

subsection \<open>The service\<close>

record MdsMetrics =
  mm_register_requests :: u64
  mm_keepalives :: u64
  mm_list_requests :: u64
  mm_lease_grants :: u64
  mm_etcd_errors :: u64
  mm_members_last_list :: u64
  mm_client_register_requests :: u64
  mm_client_keepalives :: u64
  mm_client_list_requests :: u64
  mm_clients_last_list :: u64
  mm_local_member_leases :: u64
  mm_local_client_leases :: u64
  mm_local_member_leases_pruned :: u64
  mm_local_client_leases_pruned :: u64
  mm_legacy_frames :: u64

record 'w MdsServer =
  md_etcd :: "'w EtcdClient"
  md_accept_legacy :: bool
  md_leases :: LocalLeaseMap
  md_client_leases :: LocalLeaseMap
  md_metrics :: MdsMetrics

definition kTtlSeconds :: nat where
  "kTtlSeconds = 30"

definition kLocalLeaseStaleMs :: u64 where
  "kLocalLeaseStaleMs = of_nat kTtlSeconds * 4 * 1000"

definition groups_root :: bytes where
  "groups_root = ascii ''/dfkv/v1/groups/''"

definition members_prefix :: "bytes \<Rightarrow> bytes" where
  "members_prefix grp = groups_root @ grp @ ascii ''/members/''"

definition clients_prefix :: "bytes \<Rightarrow> bytes" where
  "clients_prefix grp = groups_root @ grp @ ascii ''/clients/''"

definition MemberKey :: "bytes \<Rightarrow> bytes \<Rightarrow> bytes" where
  "MemberKey grp i = groups_root @ grp @ ascii ''/members/'' @ i"

definition ClientKey :: "bytes \<Rightarrow> bytes \<Rightarrow> bytes" where
  "ClientKey grp i = groups_root @ grp @ ascii ''/clients/'' @ i"

abbreviation tick :: "(MdsMetrics \<Rightarrow> MdsMetrics) \<Rightarrow> 'w MdsServer \<Rightarrow> 'w MdsServer" where
  "tick f s \<equiv> s\<lparr>md_metrics := f (md_metrics s)\<rparr>"

definition etcd_error :: "MdsMetrics \<Rightarrow> MdsMetrics" where
  "etcd_error m = m\<lparr>mm_etcd_errors := mm_etcd_errors m + 1\<rparr>"

definition leases_of :: "bool \<Rightarrow> 'w MdsServer \<Rightarrow> LocalLeaseMap" where
  "leases_of client s = (if client then md_client_leases s else md_leases s)"

definition put_leases :: "bool \<Rightarrow> LocalLeaseMap \<Rightarrow> 'w MdsServer \<Rightarrow> 'w MdsServer" where
  "put_leases client l s = (if client then s\<lparr>md_client_leases := l\<rparr> else s\<lparr>md_leases := l\<rparr>)"

definition current_leases :: "bool \<Rightarrow> nat \<Rightarrow> MdsMetrics \<Rightarrow> MdsMetrics" where
  "current_leases client n m =
     (if client then m\<lparr>mm_local_client_leases := of_nat n\<rparr> else m\<lparr>mm_local_member_leases := of_nat n\<rparr>)"

definition set_leases :: "bool \<Rightarrow> LocalLeaseMap \<Rightarrow> 'w MdsServer \<Rightarrow> 'w MdsServer" where
  "set_leases client l s = tick (current_leases client (lease_Size l)) (put_leases client l s)"

definition add_pruned :: "bool \<Rightarrow> nat \<Rightarrow> MdsMetrics \<Rightarrow> MdsMetrics" where
  "add_pruned client n m =
     (if client then m\<lparr>mm_local_client_leases_pruned := mm_local_client_leases_pruned m + of_nat n\<rparr>
      else m\<lparr>mm_local_member_leases_pruned := mm_local_member_leases_pruned m + of_nat n\<rparr>)"

text \<open>
  The slow path of a registration: grant a lease, write the key under it, remember the lease. The
  fast path before it refreshes the remembered lease and writes the key again.
\<close>

definition grant_and_put :: "'w http_post \<Rightarrow> u64 \<Rightarrow> bytes \<Rightarrow> bytes \<Rightarrow> bool \<Rightarrow> 'w MdsServer \<Rightarrow> Status \<times> 'w MdsServer" where
  "grant_and_put http now2 key val client s =
     (case LeaseGrant http (int kTtlSeconds) (md_etcd s) of
        (None, c1) \<Rightarrow> (kIOError, tick etcd_error (s\<lparr>md_etcd := c1\<rparr>))
      | (Some lid, c1) \<Rightarrow>
          let s1 = tick (\<lambda>m. m\<lparr>mm_lease_grants := mm_lease_grants m + 1\<rparr>) (s\<lparr>md_etcd := c1\<rparr>)
          in (case etcd_Put http key val lid (md_etcd s1) of
                (False, c2) \<Rightarrow> (kIOError, tick etcd_error (s1\<lparr>md_etcd := c2\<rparr>))
              | (True, c2) \<Rightarrow>
                  let s2 = s1\<lparr>md_etcd := c2\<rparr>
                  in (kOk, set_leases client (lease_Store key lid now2 (leases_of client s2)) s2)))"

definition refresh_and_put :: "'w http_post \<Rightarrow> bytes \<Rightarrow> bytes \<Rightarrow> int \<Rightarrow> 'w MdsServer \<Rightarrow> bool \<times> 'w MdsServer" where
  "refresh_and_put http key val lease s =
     (case LeaseKeepAlive http lease (md_etcd s) of
        (False, c1) \<Rightarrow> (False, s\<lparr>md_etcd := c1\<rparr>)
      | (True, c1) \<Rightarrow> (case etcd_Put http key val lease c1 of (ok, c2) \<Rightarrow> (ok, s\<lparr>md_etcd := c2\<rparr>)))"

definition UpsertLeased :: "'w http_post \<Rightarrow> u64 \<Rightarrow> u64 \<Rightarrow> bytes \<Rightarrow> MemberInfo \<Rightarrow> bool \<Rightarrow> 'w MdsServer \<Rightarrow> Status \<times> 'w MdsServer" where
  "UpsertLeased http now now2 key m client s =
     (let val = EncodeMembers [m] 0
      in (case MaybePrune now kLocalLeaseStaleMs (leases_of client s) of
            (pruned, l1) \<Rightarrow>
              let s1 = set_leases client l1 (if pruned \<noteq> 0 then tick (add_pruned client pruned) s else s)
              in (case LookupAndTouch key now l1 of
                    (None, l2) \<Rightarrow> grant_and_put http now2 key val client s1
                  | (Some lease, l2) \<Rightarrow>
                      let s2 = put_leases client l2 s1
                      in (case refresh_and_put http key val lease s2 of
                            (True, s3) \<Rightarrow> (kOk, s3)
                          | (False, s3) \<Rightarrow> grant_and_put http now2 key val client s3))))"

definition Upsert :: "'w http_post \<Rightarrow> u64 \<Rightarrow> u64 \<Rightarrow> bytes \<Rightarrow> MemberInfo \<Rightarrow> 'w MdsServer \<Rightarrow> Status \<times> 'w MdsServer" where
  "Upsert http now now2 grp m s =
     (if \<not> IsValidGroupOrId grp \<or> \<not> IsValidGroupOrId (mi_id m) then (kInvalid, s)
      else UpsertLeased http now now2 (MemberKey grp (mi_id m)) m False s)"

definition UpsertClient :: "'w http_post \<Rightarrow> u64 \<Rightarrow> u64 \<Rightarrow> bytes \<Rightarrow> MemberInfo \<Rightarrow> 'w MdsServer \<Rightarrow> Status \<times> 'w MdsServer" where
  "UpsertClient http now now2 grp m s =
     (if \<not> IsValidGroupOrId grp \<or> \<not> IsValidGroupOrId (mi_id m) then (kInvalid, s)
      else UpsertLeased http now now2 (ClientKey grp (mi_id m)) m True s)"

text \<open>A stored value that decodes to exactly one member.\<close>

definition decode_one :: "bytes \<Rightarrow> MemberInfo option" where
  "decode_one v = (case DecodeMembers v of Some ([m], e) \<Rightarrow> Some m | _ \<Rightarrow> None)"

fun listed_members :: "bool \<Rightarrow> (bytes \<times> bytes) list \<Rightarrow> MemberInfo list" where
  "listed_members include_degraded [] = []"
| "listed_members include_degraded (kv # kvs) =
     (case decode_one (snd kv) of
        Some m \<Rightarrow> if include_degraded \<or> RingEligible m then m # listed_members include_degraded kvs else listed_members include_degraded kvs
      | None \<Rightarrow> listed_members include_degraded kvs)"

definition ListMembers :: "'w http_post \<Rightarrow> bytes \<Rightarrow> bool \<Rightarrow> 'w MdsServer \<Rightarrow> Status \<times> bytes \<times> 'w MdsServer" where
  "ListMembers http grp include_degraded s =
     (let s0 = tick (\<lambda>m. m\<lparr>mm_list_requests := mm_list_requests m + 1\<rparr>) s
      in if \<not> IsValidGroupOrId grp then (kInvalid, [], s0)
         else (case RangePrefix http (members_prefix grp) (md_etcd s0) of
                 (None, c1) \<Rightarrow> (kIOError, [], tick etcd_error (s0\<lparr>md_etcd := c1\<rparr>))
               | (Some r, c1) \<Rightarrow>
                   let members = listed_members include_degraded (rr_kvs r);
                       epoch = (if include_degraded then MembersTopologyEpoch members else MembersEpoch members)
                   in (kOk, EncodeMembers members epoch,
                       tick (\<lambda>m. m\<lparr>mm_members_last_list := of_nat (length members)\<rparr>) (s0\<lparr>md_etcd := c1\<rparr>))))"

definition ListClients :: "'w http_post \<Rightarrow> bytes \<Rightarrow> 'w MdsServer \<Rightarrow> Status \<times> bytes \<times> 'w MdsServer" where
  "ListClients http grp s =
     (let s0 = tick (\<lambda>m. m\<lparr>mm_client_list_requests := mm_client_list_requests m + 1\<rparr>) s
      in if \<not> IsValidGroupOrId grp then (kInvalid, [], s0)
         else (case RangePrefix http (clients_prefix grp) (md_etcd s0) of
                 (None, c1) \<Rightarrow> (kIOError, [], tick etcd_error (s0\<lparr>md_etcd := c1\<rparr>))
               | (Some r, c1) \<Rightarrow>
                   let clients = listed_members True (rr_kvs r)
                   in (kOk, EncodeMembers clients (MembersEpoch clients),
                       tick (\<lambda>m. m\<lparr>mm_clients_last_list := of_nat (length clients)\<rparr>) (s0\<lparr>md_etcd := c1\<rparr>))))"

text \<open>The group a key belongs to: the bytes after the common root up to the next slash.\<close>

definition group_of_key :: "bytes \<Rightarrow> bytes option" where
  "group_of_key k =
     (let base = length groups_root; t = drop base k
      in if length k \<le> base \<or> byte CHR ''/'' \<notin> set t then None
         else Some (takeWhile (\<lambda>c. c \<noteq> byte CHR ''/'') t))"

fun group_names :: "bytes \<Rightarrow> bytes list \<Rightarrow> bytes list" where
  "group_names prev [] = []"
| "group_names prev (k # ks) =
     (case group_of_key k of
        None \<Rightarrow> group_names prev ks
      | Some g \<Rightarrow> if g = prev then group_names prev ks else g # group_names g ks)"

text \<open>The joined text: a separator is written only after something was.\<close>

definition join_lines :: "bytes list \<Rightarrow> bytes" where
  "join_lines gs = foldl (\<lambda>joined g. (if joined \<noteq> [] then joined @ [0x0A] else joined) @ g) [] gs"

definition ListGroups :: "'w http_post \<Rightarrow> 'w MdsServer \<Rightarrow> Status \<times> bytes \<times> 'w MdsServer" where
  "ListGroups http s =
     (case RangePrefix http groups_root (md_etcd s) of
        (None, c1) \<Rightarrow> (kIOError, [], tick etcd_error (s\<lparr>md_etcd := c1\<rparr>))
      | (Some r, c1) \<Rightarrow> (kOk, join_lines (group_names [] (map fst (rr_kvs r))), s\<lparr>md_etcd := c1\<rparr>))"

subsection \<open>Aggregates per group\<close>

record Agg =
  ag_nodes :: u64
  ag_degraded :: u64
  ag_missing :: u64
  ag_clients :: u64
  ag_sum :: MemberStats
  ag_vers :: "bytes list"

text \<open>\<^verbatim>\<open>vers\<close> is read only through its size, so the set of its keys is kept, as a list without repetition.\<close>

definition empty_agg :: Agg where
  "empty_agg = \<lparr>ag_nodes = 0, ag_degraded = 0, ag_missing = 0, ag_clients = 0, ag_sum = stats_of (replicate 12 0), ag_vers = []\<rparr>"

definition add_stats :: "MemberStats \<Rightarrow> MemberStats \<Rightarrow> MemberStats" where
  "add_stats a st = a
     \<lparr>ms_capacity_bytes := ms_capacity_bytes a + ms_capacity_bytes st, ms_used_bytes := ms_used_bytes a + ms_used_bytes st,
      ms_objects := ms_objects a + ms_objects st, ms_hits_total := ms_hits_total a + ms_hits_total st,
      ms_misses_total := ms_misses_total a + ms_misses_total st, ms_evictions_total := ms_evictions_total a + ms_evictions_total st,
      ms_puts_total := ms_puts_total a + ms_puts_total st, ms_put_busy_total := ms_put_busy_total a + ms_put_busy_total st,
      ms_dio_write_fallbacks := ms_dio_write_fallbacks a + ms_dio_write_fallbacks st,
      ms_ram_used_bytes := ms_ram_used_bytes a + ms_ram_used_bytes st, ms_ram_hits_total := ms_ram_hits_total a + ms_ram_hits_total st\<rparr>"

text \<open>The text after the first occurrence of \<^verbatim>\<open>ver=\<close> up to the next comma.\<close>

fun after_match :: "bytes \<Rightarrow> bytes \<Rightarrow> bytes option" where
  "after_match pat [] = None"
| "after_match pat (c # s) = (if take (length pat) (c # s) = pat then Some (drop (length pat) (c # s)) else after_match pat s)"

definition info_version :: "bytes \<Rightarrow> bytes option" where
  "info_version info = map_option (takeWhile (\<lambda>c. c \<noteq> byte CHR '','')) (after_match (ascii ''ver='') info)"

text \<open>The path segment behind the group; empty when no further slash ends it.\<close>

definition kind_of_key :: "bytes \<Rightarrow> bytes" where
  "kind_of_key k =
     (let t = tl (dropWhile (\<lambda>c. c \<noteq> byte CHR ''/'') (drop (length groups_root) k))
      in if byte CHR ''/'' \<in> set t then takeWhile (\<lambda>c. c \<noteq> byte CHR ''/'') t else [])"

definition agg_member :: "MemberInfo \<Rightarrow> Agg \<Rightarrow> Agg" where
  "agg_member m a =
     (let a1 = (if \<not> RingEligible m then a\<lparr>ag_degraded := ag_degraded a + 1\<rparr> else a);
          a2 = a1\<lparr>ag_nodes := ag_nodes a1 + 1\<rparr>;
          a3 = (case info_version (mi_info m) of None \<Rightarrow> a2 | Some v \<Rightarrow> a2\<lparr>ag_vers := List.insert v (ag_vers a2)\<rparr>)
      in if \<not> mi_has_stats m then a3\<lparr>ag_missing := ag_missing a3 + 1\<rparr>
         else a3\<lparr>ag_sum := add_stats (ag_sum a3) (mi_stats m)\<rparr>)"

definition agg_entry :: "bytes \<times> bytes \<Rightarrow> (bytes \<rightharpoonup> Agg) \<Rightarrow> (bytes \<rightharpoonup> Agg)" where
  "agg_entry kv gs =
     (case group_of_key (fst kv) of
        None \<Rightarrow> gs
      | Some g \<Rightarrow>
          let a = (case gs g of Some a \<Rightarrow> a | None \<Rightarrow> empty_agg)
          in if kind_of_key (fst kv) = ascii ''clients'' then gs(g \<mapsto> a\<lparr>ag_clients := ag_clients a + 1\<rparr>)
             else (case decode_one (snd kv) of None \<Rightarrow> gs(g \<mapsto> a) | Some m \<Rightarrow> gs(g \<mapsto> agg_member m a)))"

definition group_aggregates :: "(bytes \<times> bytes) list \<Rightarrow> (bytes \<rightharpoonup> Agg)" where
  "group_aggregates kvs = fold agg_entry kvs Map.empty"

text \<open>The read behind the metrics text: the aggregates, or nothing when etcd did not answer.\<close>

definition GroupMetrics :: "'w http_post \<Rightarrow> 'w MdsServer \<Rightarrow> (bytes \<rightharpoonup> Agg) option \<times> 'w MdsServer" where
  "GroupMetrics http s =
     (case RangePrefixForMetrics http groups_root (md_etcd s) of
        (None, c1) \<Rightarrow> (None, tick etcd_error (s\<lparr>md_etcd := c1\<rparr>))
      | (Some r, c1) \<Rightarrow> (Some (group_aggregates (rr_kvs r)), s\<lparr>md_etcd := c1\<rparr>))"

subsection \<open>The readiness probe\<close>

record EtcdProbeCache =
  pc_ttl_ms :: u64
  pc_have_value :: bool
  pc_refreshing :: bool
  pc_fetched_at_ms :: u64
  pc_value :: bool

datatype ProbeStart = LiveProbe | Replay bool | AwaitInFlight | StartProbe

text \<open>
  The two critical sections of \<^verbatim>\<open>EtcdProbeCache::Get\<close>: what a caller does on entry, and what the caller
  that ran the probe publishes. With a time to live of zero nothing is cached.
\<close>

definition probe_enter :: "u64 \<Rightarrow> EtcdProbeCache \<Rightarrow> ProbeStart \<times> EtcdProbeCache" where
  "probe_enter now p =
     (if pc_ttl_ms p = 0 then (LiveProbe, p)
      else if pc_have_value p \<and> now \<ge> pc_fetched_at_ms p \<and> now - pc_fetched_at_ms p < pc_ttl_ms p then (Replay (pc_value p), p)
      else if pc_refreshing p then (AwaitInFlight, p)
      else (StartProbe, p\<lparr>pc_refreshing := True\<rparr>))"

definition probe_finish :: "bool \<Rightarrow> u64 \<Rightarrow> EtcdProbeCache \<Rightarrow> EtcdProbeCache" where
  "probe_finish v now p = p\<lparr>pc_value := v, pc_have_value := True, pc_fetched_at_ms := now, pc_refreshing := False\<rparr>"

subsection \<open>Frames\<close>

definition EncodeMemberReq :: "bytes \<Rightarrow> MemberInfo \<Rightarrow> bytes" where
  "EncodeMemberReq grp m = put_string grp @ EncodeMembers [m] 0"

definition DecodeMemberReq :: "bytes \<Rightarrow> (bytes \<times> MemberInfo) option" where
  "DecodeMemberReq p =
     (if length p < 4 then None
      else let glen = unat (GetU32 p 0)
           in if 4 + glen > length p then None
              else (case decode_one (drop (4 + glen) p) of None \<Rightarrow> None | Some m \<Rightarrow> Some (take glen (drop 4 p), m)))"

definition kMdsMaxReqPayload :: u64 where
  "kMdsMaxReqPayload = push_bit 20 1"

definition kMdsMaxRespData :: u64 where
  "kMdsMaxRespData = push_bit 24 1"

text \<open>One request prefix, taken from what the connection delivers; \<open>None\<close> closes the connection.\<close>

definition mds_read_prefix :: "bool \<Rightarrow> bytes \<Rightarrow> (bool \<times> ReqFields \<times> bytes) option" where
  "mds_read_prefix accept_legacy r =
     (if r = [] then None
      else let native = (hd r = kNativeProtoTcp);
               n = (if native then kReqPrefix else kLegacyReqPrefix)
           in if \<not> native \<and> (\<not> accept_legacy \<or> hd r \<noteq> kNativeProtoLegacyTcp) then None
              else if length r < n then None
              else map_option (\<lambda>rq. (\<not> native, rq, drop n r))
                     (if native then DecodeReq (take n r) kMdsMaxReqPayload else DecodeLegacyReq (take n r) kMdsMaxReqPayload))"

definition mds_register :: "'w http_post \<Rightarrow> u64 \<Rightarrow> u64 \<Rightarrow> bool \<Rightarrow> bytes \<Rightarrow> 'w MdsServer \<Rightarrow> Status \<times> bytes \<times> 'w MdsServer" where
  "mds_register http now now2 client payload s =
     (case DecodeMemberReq payload of
        None \<Rightarrow> (kInvalid, [], s)
      | Some (grp, m) \<Rightarrow> (case (if client then UpsertClient else Upsert) http now now2 grp m s of (st, s1) \<Rightarrow> (st, [], s1)))"

definition mds_dispatch :: "'w http_post \<Rightarrow> u64 \<Rightarrow> u64 \<Rightarrow> u8 \<Rightarrow> bytes \<Rightarrow> 'w MdsServer \<Rightarrow> Status \<times> bytes \<times> 'w MdsServer" where
  "mds_dispatch http now now2 opc payload s =
     (if opc = wire_op_byte kRegister
      then mds_register http now now2 False payload (tick (\<lambda>m. m\<lparr>mm_register_requests := mm_register_requests m + 1\<rparr>) s)
      else if opc = wire_op_byte kHeartbeat
      then mds_register http now now2 False payload (tick (\<lambda>m. m\<lparr>mm_keepalives := mm_keepalives m + 1\<rparr>) s)
      else if opc = wire_op_byte kClientRegister
      then mds_register http now now2 True payload (tick (\<lambda>m. m\<lparr>mm_client_register_requests := mm_client_register_requests m + 1\<rparr>) s)
      else if opc = wire_op_byte kClientHeartbeat
      then mds_register http now now2 True payload (tick (\<lambda>m. m\<lparr>mm_client_keepalives := mm_client_keepalives m + 1\<rparr>) s)
      else if opc = wire_op_byte kListMembers then ListMembers http payload False s
      else if opc = wire_op_byte kListTopology then ListMembers http payload True s
      else if opc = wire_op_byte kListClients then ListClients http payload s
      else if opc = wire_op_byte kListGroups then ListGroups http s
      else (kInvalid, [], s))"

definition mds_reply :: "bool \<Rightarrow> Status \<Rightarrow> bytes \<Rightarrow> bytes" where
  "mds_reply legacy st resp =
     (if legacy then EncodeLegacyResp st (of_nat (length resp)) else EncodeResp st (of_nat (length resp)) 0) @ resp"

text \<open>
  A connection: frames are answered one after the other. The list holds the two clock readings of
  each iteration; when it is used up the service was stopped.
\<close>

fun mds_Handle :: "'w http_post \<Rightarrow> (u64 \<times> u64) list \<Rightarrow> bytes \<Rightarrow> 'w MdsServer \<Rightarrow> bytes \<times> 'w MdsServer" where
  "mds_Handle http [] r s = ([], s)"
| "mds_Handle http ((now, now2) # clocks) r s =
     (case mds_read_prefix (md_accept_legacy s) r of
        None \<Rightarrow> ([], s)
      | Some (legacy, rq, r1) \<Rightarrow>
          let s0 = (if legacy then tick (\<lambda>m. m\<lparr>mm_legacy_frames := mm_legacy_frames m + 1\<rparr>) s else s);
              len = unat (rf_payload_len rq)
          in if length r1 < len then ([], s0)
             else (case mds_dispatch http now now2 (rf_op rq) (take len r1) s0 of
                     (st, resp, s1) \<Rightarrow>
                       (case mds_Handle http clocks (drop len r1) s1 of (out, s2) \<Rightarrow> (mds_reply legacy st resp @ out, s2))))"

subsection \<open>Keys of one group\<close>

lemma valid_no_slash: "IsValidGroupOrId g \<Longrightarrow> byte CHR ''/'' \<notin> set g"
  by (auto simp: IsValidGroupOrId_def)

lemma split_first:
  assumes "xs @ c # a = ys @ c # b" "c \<notin> set xs" "c \<notin> set ys"
  shows "xs = ys \<and> a = b"
  using assms
proof (induction xs arbitrary: ys)
  case Nil
  then show ?case by (cases ys) auto
next
  case (Cons x xs)
  then show ?case by (cases ys) auto
qed

lemma ascii_segment: "ascii ''/members/'' = byte CHR ''/'' # ascii ''members/''" "ascii ''/clients/'' = byte CHR ''/'' # ascii ''clients/''"
  by simp_all

lemma members_prefix_iff:
  assumes "IsValidGroupOrId g" "IsValidGroupOrId g'"
  shows "prefix (members_prefix g) (MemberKey g' i) \<longleftrightarrow> g = g'" "\<not> prefix (members_prefix g) (ClientKey g' i)"
    "prefix (clients_prefix g) (ClientKey g' i) \<longleftrightarrow> g = g'" "\<not> prefix (clients_prefix g) (MemberKey g' i)"
proof -
  have s: "byte CHR ''/'' \<notin> set g" "byte CHR ''/'' \<notin> set g'" using assms valid_no_slash by blast+
  note d = members_prefix_def clients_prefix_def MemberKey_def ClientKey_def ascii_segment
  have "g = g'" if "groups_root @ g' @ (byte CHR ''/'' # a) @ x = (groups_root @ g @ byte CHR ''/'' # b) @ y" for a b x y
    using split_first [of g' "byte CHR ''/''" "a @ x" g "b @ y"] s that by simp
  note 1 = this
  have "a @ x = b @ y" if "groups_root @ g' @ (byte CHR ''/'' # a) @ x = (groups_root @ g @ byte CHR ''/'' # b) @ y" for a b x y
    using split_first [of g' "byte CHR ''/''" "a @ x" g "b @ y"] s that by simp
  note 2 = this
  show "prefix (members_prefix g) (MemberKey g' i) \<longleftrightarrow> g = g'" "prefix (clients_prefix g) (ClientKey g' i) \<longleftrightarrow> g = g'"
    using 1 unfolding d prefix_def by (metis append.assoc append_Cons)+
  show "\<not> prefix (members_prefix g) (ClientKey g' i)"
  proof
    assume "prefix (members_prefix g) (ClientKey g' i)"
    then obtain y where "groups_root @ g' @ (byte CHR ''/'' # ascii ''clients/'') @ i = (groups_root @ g @ byte CHR ''/'' # ascii ''members/'') @ y"
      unfolding d prefix_def by auto
    from 2 [OF this] show False by simp
  qed
  show "\<not> prefix (clients_prefix g) (MemberKey g' i)"
  proof
    assume "prefix (clients_prefix g) (MemberKey g' i)"
    then obtain y where "groups_root @ g' @ (byte CHR ''/'' # ascii ''members/'') @ i = (groups_root @ g @ byte CHR ''/'' # ascii ''clients/'') @ y"
      unfolding d prefix_def by auto
    from 2 [OF this] show False by simp
  qed
qed

lemma key_inject:
  assumes "IsValidGroupOrId g" "IsValidGroupOrId g'"
  shows "MemberKey g i = MemberKey g' i' \<longleftrightarrow> g = g' \<and> i = i'" "ClientKey g i = ClientKey g' i' \<longleftrightarrow> g = g' \<and> i = i'"
    "MemberKey g i \<noteq> ClientKey g' i'"
proof -
  have p: "prefix (members_prefix g) (MemberKey g i)" "prefix (clients_prefix g) (ClientKey g i)"
    by (simp_all add: members_prefix_def clients_prefix_def MemberKey_def ClientKey_def)
  have "g = g'" if "MemberKey g i = MemberKey g' i'" using p(1) members_prefix_iff(1) [OF assms, of i'] that by metis
  then show "MemberKey g i = MemberKey g' i' \<longleftrightarrow> g = g' \<and> i = i'" by (auto simp: MemberKey_def)
  have "g = g'" if "ClientKey g i = ClientKey g' i'" using p(2) members_prefix_iff(3) [OF assms, of i'] that by metis
  then show "ClientKey g i = ClientKey g' i' \<longleftrightarrow> g = g' \<and> i = i'" by (auto simp: ClientKey_def)
  show "MemberKey g i \<noteq> ClientKey g' i'" using p(1) members_prefix_iff(2) [OF assms, of i'] by metis
qed

subsection \<open>Listing groups\<close>

lemma group_of_key_simps:
  assumes "IsValidGroupOrId g"
  shows "group_of_key (MemberKey g i) = Some g" "group_of_key (ClientKey g i) = Some g"
proof -
  have "takeWhile (\<lambda>c. c \<noteq> byte CHR ''/'') (g @ byte CHR ''/'' # t) = g" for t
    using valid_no_slash [OF assms] by (subst takeWhile_append2) auto
  then show "group_of_key (MemberKey g i) = Some g" "group_of_key (ClientKey g i) = Some g"
    by (simp_all add: group_of_key_def MemberKey_def ClientKey_def)
qed

definition registered_key :: "bytes \<Rightarrow> bytes \<Rightarrow> bool" where
  "registered_key g k \<longleftrightarrow> IsValidGroupOrId g \<and> (\<exists>i. k = MemberKey g i \<or> k = ClientKey g i)"

lemma registered_group: "registered_key g k \<Longrightarrow> group_of_key k = Some g"
  by (auto simp: registered_key_def group_of_key_simps)

lemma registered_key_unique: "registered_key g k \<Longrightarrow> registered_key h k \<longleftrightarrow> h = g"
  by (metis option.inject registered_group)

lemma registered_key_prefix:
  assumes "registered_key g' k"
  shows "g = g' \<longleftrightarrow> IsValidGroupOrId g \<and> prefix (groups_root @ g @ [byte CHR ''/'']) k"
proof
  assume g: "IsValidGroupOrId g \<and> prefix (groups_root @ g @ [byte CHR ''/'']) k"
  obtain t where "k = groups_root @ g' @ byte CHR ''/'' # t" using assms by (auto simp: registered_key_def MemberKey_def ClientKey_def)
  then show "g = g'"
    using g assms split_first [of g' "byte CHR ''/''" t g] valid_no_slash by (auto simp: registered_key_def prefix_def)
qed (use assms in \<open>auto simp: registered_key_def MemberKey_def ClientKey_def\<close>)

lemma prefix_between:
  fixes a b c :: bytes
  assumes "prefix p a" "prefix p c" "a \<le> b" "b \<le> c"
  shows "prefix p b"
  using assms
proof (induction p arbitrary: a b c)
  case (Cons x p)
  from Cons.prems(1,2) obtain a' c' where ac: "a = x # a'" "c = x # c'" "prefix p a'" "prefix p c'" by (auto elim!: prefixE)
  obtain y b' where b: "b = y # b'" using Cons.prems(3) ac(1) by (cases b) simp_all
  have "\<not> y < x" "\<not> x < y" using Cons.prems(3,4) by (auto simp: ac b dest: less_asym)
  then have y: "y = x" by simp
  have "prefix p b'" by (rule Cons.IH [OF ac(3,4)]) (use Cons.prems(3,4) in \<open>simp_all add: ac b y\<close>)
  then show ?case by (simp add: b y)
qed simp

lemma group_contiguous:
  assumes "registered_key g k1" "registered_key g2 k2" "registered_key g k3" "k1 \<le> k2" "k2 \<le> k3"
  shows "g2 = g"
proof -
  have "IsValidGroupOrId g" "prefix (groups_root @ g @ [byte CHR ''/'']) k1" "prefix (groups_root @ g @ [byte CHR ''/'']) k3"
    using registered_key_prefix [OF assms(1), of g] registered_key_prefix [OF assms(3), of g] by auto
  then show ?thesis using registered_key_prefix [OF assms(2), of g] prefix_between [OF _ _ assms(4,5)] by blast
qed

lemma group_names_tail:
  assumes "sorted (k0 # ks)" "registered_key g0 k0" "\<forall>k\<in>set ks. \<exists>g. registered_key g k"
  shows "distinct (group_names g0 ks) \<and> set (group_names g0 ks) = {g. \<exists>k\<in>set ks. registered_key g k} - {g0}"
  using assms
proof (induction ks arbitrary: k0 g0)
  case (Cons k ks)
  from Cons.prems(3) obtain g where g: "registered_key g k" by auto
  have u: "registered_key h k \<longleftrightarrow> h = g" for h using g by (rule registered_key_unique)
  have o: "group_of_key k = Some g" using g by (rule registered_group)
  have s: "sorted (k # ks)" "k0 \<le> k" "\<forall>x\<in>set ks. k \<le> x" using Cons.prems(1) by auto
  have IH: "distinct (group_names g ks) \<and> set (group_names g ks) = {g. \<exists>k\<in>set ks. registered_key g k} - {g}"
    using Cons.IH [OF s(1) g] Cons.prems(3) by simp
  show ?case
  proof (cases "g = g0")
    case True
    then show ?thesis using IH o u by auto
  next
    case False
    then have "\<not> registered_key g0 k'" if "k' \<in> set ks" for k'
      using group_contiguous [OF Cons.prems(2) g, of k'] s that by blast
    then show ?thesis using False IH o u by auto
  qed
qed simp

lemma group_names_once:
  assumes "sorted ks" "\<forall>k\<in>set ks. \<exists>g. registered_key g k"
  shows "distinct (group_names [] ks) \<and> set (group_names [] ks) = {g. \<exists>k\<in>set ks. registered_key g k}"
proof (cases ks)
  case (Cons k t)
  obtain g where g: "registered_key g k" using assms(2) Cons by auto
  have u: "registered_key h k \<longleftrightarrow> h = g" for h using g by (rule registered_key_unique)
  have o: "group_of_key k = Some g" "g \<noteq> []" using g registered_group [OF g] by (auto simp: registered_key_def IsValidGroupOrId_def)
  show ?thesis using group_names_tail [of k t g] assms Cons g o u by auto
qed simp

subsection \<open>What a listing returns\<close>

text \<open>A registration as the service writes it: whether it is a client's, the group and the member.\<close>

type_synonym registration = "bool \<times> bytes \<times> MemberInfo"

definition stored :: "registration \<Rightarrow> bytes \<times> bytes" where
  "stored = (\<lambda>(client, g, m). ((if client then ClientKey g (mi_id m) else MemberKey g (mi_id m)), EncodeMembers [m] 0))"

definition registration_ok :: "registration \<Rightarrow> bool" where
  "registration_ok = (\<lambda>(client, g, m). IsValidGroupOrId g \<and> IsValidGroupOrId (mi_id m) \<and> encodable m)"

definition members_of :: "bytes \<Rightarrow> registration list \<Rightarrow> MemberInfo list" where
  "members_of g regs = map (\<lambda>(client, g', m). canonical m) (filter (\<lambda>(client, g', m). \<not> client \<and> g' = g) regs)"

lemma canonical_simps: "encodable m \<Longrightarrow> encodable (canonical m)" "canonical (canonical m) = canonical m" "RingEligible (canonical m) = RingEligible m"
  by (simp_all add: canonical_def encodable_def RingEligible_def)

lemma decode_one_stored: "encodable m \<Longrightarrow> decode_one (EncodeMembers [m] 0) = Some (canonical m)"
  using DecodeMembers_Encode [of "[m]" 0] by (simp add: decode_one_def)

lemma stored_under_group:
  assumes "IsValidGroupOrId g" "\<forall>r\<in>set regs. registration_ok r"
  shows "filter (\<lambda>(k, v). prefix (members_prefix g) k) (map stored regs) = map stored (filter (\<lambda>(client, g', m). \<not> client \<and> g' = g) regs)"
proof -
  have "filter (\<lambda>(k, v). prefix (members_prefix g) k) (map stored regs) = map stored (filter (\<lambda>r. prefix (members_prefix g) (fst (stored r))) regs)"
    by (simp add: filter_map comp_def case_prod_unfold)
  also have "filter (\<lambda>r. prefix (members_prefix g) (fst (stored r))) regs = filter (\<lambda>(client, g', m). \<not> client \<and> g' = g) regs"
  proof (rule filter_cong [OF refl])
    fix r assume "r \<in> set regs"
    then obtain client g' m where r: "r = (client, g', m)" "IsValidGroupOrId g'" using assms(2) by (cases r) (auto simp: registration_ok_def)
    show "prefix (members_prefix g) (fst (stored r)) = (case r of (client, g', m) \<Rightarrow> \<not> client \<and> g' = g)"
      using members_prefix_iff(1,2) [OF assms(1) r(2)] by (auto simp: r(1) stored_def)
  qed
  finally show ?thesis .
qed

lemma listed_members_stored:
  "\<forall>r\<in>set regs. registration_ok r \<Longrightarrow>
   listed_members d (map stored regs) = filter (\<lambda>m. d \<or> RingEligible m) (map (\<lambda>(client, g', m). canonical m) regs)"
  by (induction regs) (auto simp: stored_def registration_ok_def decode_one_stored)

lemma ListMembers_result:
  assumes g: "IsValidGroupOrId g" and r: "\<forall>r\<in>set regs. registration_ok r" and n: "length regs < 2 ^ 32"
    and h: "http (ec_http (md_etcd s)) (ascii ''/v3/kv/range'') (range_body (members_prefix g) (PrefixRangeEnd (members_prefix g))) =
          (Some (200, json_print root), w)" "json_ok kMaxDepth root"
        "range_document root (filter (\<lambda>(k, v). etcd_in_range (members_prefix g) (PrefixRangeEnd (members_prefix g)) k) (map stored regs))"
    and v: "view = filter (\<lambda>m. degraded \<or> RingEligible m) (members_of g regs)"
  shows "\<exists>out s'. ListMembers http g degraded s = (kOk, out, s') \<and>
     DecodeMembers out = Some (view, if degraded then MembersTopologyEpoch view else MembersEpoch view)"
proof -
  let ?e = "if degraded then MembersTopologyEpoch view else MembersEpoch view"
  have "map_option rr_kvs (fst (RangePrefix http (members_prefix g) (md_etcd s))) = Some (map stored (filter (\<lambda>(client, g', m). \<not> client \<and> g' = g) regs))"
    using RangePrefix_document [where http = http and c = "md_etcd s" and p = "members_prefix g", OF h]
    unfolding stored_under_group [OF g r] .
  then obtain rr c1 where k: "RangePrefix http (members_prefix g) (md_etcd s) = (Some rr, c1)" "rr_kvs rr = map stored (filter (\<lambda>(client, g', m). \<not> client \<and> g' = g) regs)"
    by (cases "RangePrefix http (members_prefix g) (md_etcd s)") auto
  have "listed_members degraded (rr_kvs rr) = view"
    unfolding k(2) v members_of_def by (rule listed_members_stored) (use r in auto)
  then have "\<exists>s'. ListMembers http g degraded s = (kOk, EncodeMembers view ?e, s')"
    using g k(1) by (auto simp: ListMembers_def Let_def)
  moreover have "length view < 2 ^ 32"
  proof -
    have "length view \<le> length (members_of g regs)" unfolding v by (rule length_filter_le)
    also have "\<dots> \<le> length regs" unfolding members_of_def by simp
    finally show ?thesis using n by simp
  qed
  moreover have "\<forall>m\<in>set view. encodable m \<and> canonical m = m"
    using r by (auto simp: v members_of_def registration_ok_def canonical_simps)
  ultimately show ?thesis using DecodeMembers_Encode [of view ?e] map_idI [of view canonical] by auto
qed

lemma stored_in_root: "registration_ok r \<Longrightarrow> prefix groups_root (fst (stored r))"
  by (cases r) (auto simp: stored_def MemberKey_def ClientKey_def)

lemma stored_registered: "registration_ok (client, g, m) \<Longrightarrow> registered_key g (fst (stored (client, g, m)))"
  by (auto simp: stored_def registered_key_def registration_ok_def)

lemma stored_groups:
  assumes "\<forall>r\<in>set regs. registration_ok r"
  shows "{g. \<exists>k\<in>set (map (fst \<circ> stored) regs). registered_key g k} = {g. \<exists>client m. (client, g, m) \<in> set regs}"
proof -
  have u: "registered_key h (fst (stored (client, g, m))) \<longleftrightarrow> h = g" if "(client, g, m) \<in> set regs" for h client g m
    by (rule registered_key_unique, rule stored_registered) (use assms that in blast)
  have "(\<exists>r\<in>set regs. registered_key h (fst (stored r))) \<longleftrightarrow> (\<exists>client m. (client, h, m) \<in> set regs)" for h
  proof
    assume "\<exists>r\<in>set regs. registered_key h (fst (stored r))"
    then obtain client g m where "(client, g, m) \<in> set regs" "registered_key h (fst (stored (client, g, m)))" by (metis prod_cases3)
    then show "\<exists>client m. (client, h, m) \<in> set regs" using u by metis
  qed (use u in metis)
  then show ?thesis by simp
qed

subsection \<open>Properties\<close>

text \<open>
  C30: registrations of one group never appear in another group's listing. For valid group names, the
  prefix a member listing reads covers exactly the member keys of its group and no client key, the
  prefix of a client listing covers exactly the client keys of its group and no member key, and two
  registrations share a key only if they agree on kind, group and id.
\<close>
theorem registration_keys_isolated:
  assumes "IsValidGroupOrId g" "IsValidGroupOrId g'"
  shows "(prefix (members_prefix g) (MemberKey g' i) \<longleftrightarrow> g = g') \<and> \<not> prefix (members_prefix g) (ClientKey g' i) \<and>
     (prefix (clients_prefix g) (ClientKey g' i) \<longleftrightarrow> g = g') \<and> \<not> prefix (clients_prefix g) (MemberKey g' i) \<and>
     (MemberKey g i' = MemberKey g' i \<longleftrightarrow> g = g' \<and> i' = i) \<and> (ClientKey g i' = ClientKey g' i \<longleftrightarrow> g = g' \<and> i' = i) \<and>
     MemberKey g i' \<noteq> ClientKey g' i"
  using members_prefix_iff [OF assms] key_inject [OF assms] by blast

theorem registration_keys_isolated_witness:
  "\<not> prefix (members_prefix (ascii ''a'')) (MemberKey (ascii ''a.b'') (ascii ''n1'')) \<and>
   MemberKey (ascii ''a'') (ascii ''n1'') \<noteq> MemberKey (ascii ''a.b'') (ascii ''n1'')"
proof -
  have v: "IsValidGroupOrId (ascii ''a'')" "IsValidGroupOrId (ascii ''a.b'')" by (simp_all add: IsValidGroupOrId_def)
  show ?thesis using registration_keys_isolated [OF v, of "ascii ''n1''" "ascii ''n1''"] by simp
qed

text \<open>
  C29: what a client learns from a listing. Let the store hold the registrations the service has
  written, and let the gateway answer the range request with the pairs in the range. Then
  \<^verbatim>\<open>ListMembers\<close> answers \<^verbatim>\<open>kOk\<close> with a text that decodes to exactly the members registered in the group, with
  those excluded by their health report left out unless degraded members were asked for, together with
  the placement epoch of that view, or its topology epoch. Members of other groups and clients never appear.
\<close>
theorem ListMembers_view:
  assumes "IsValidGroupOrId g" "\<forall>r\<in>set regs. registration_ok r" "length regs < 2 ^ 32"
    and "http (ec_http (md_etcd s)) (ascii ''/v3/kv/range'') (range_body (members_prefix g) (PrefixRangeEnd (members_prefix g))) =
          (Some (200, json_print root), w)" "json_ok kMaxDepth root"
        "range_document root (filter (\<lambda>(k, v). etcd_in_range (members_prefix g) (PrefixRangeEnd (members_prefix g)) k) (map stored regs))"
    and "view = filter (\<lambda>m. degraded \<or> RingEligible m) (members_of g regs)"
  shows "\<exists>out s'. ListMembers http g degraded s = (kOk, out, s') \<and>
     DecodeMembers out = Some (view, if degraded then MembersTopologyEpoch view else MembersEpoch view)"
  using assms by (rule ListMembers_result)

text \<open>Three registrations: two members and a client, in two groups.\<close>

definition sample_regs :: "registration list" where
  "sample_regs = [(True, ascii ''g'', member_a), (False, ascii ''g'', member_a), (False, ascii ''g'', member_b), (False, ascii ''h'', member_b)]"

definition regs_document :: "registration list \<Rightarrow> JsonValue" where
  "regs_document regs = JObject [(ascii ''kvs'', JArray (map (\<lambda>r. JObject [(ascii ''key'', JString (Base64Encode (fst (stored r)))),
     (ascii ''value'', JString (Base64Encode (snd (stored r))))]) regs))]"

definition sample_mds :: "unit MdsServer" where
  "sample_mds = \<lparr>md_etcd = sample_client, md_accept_legacy = False, md_leases = empty_leases, md_client_leases = empty_leases,
     md_metrics = \<lparr>mm_register_requests = 0, mm_keepalives = 0, mm_list_requests = 0, mm_lease_grants = 0, mm_etcd_errors = 0,
       mm_members_last_list = 0, mm_client_register_requests = 0, mm_client_keepalives = 0, mm_client_list_requests = 0,
       mm_clients_last_list = 0, mm_local_member_leases = 0, mm_local_client_leases = 0, mm_local_member_leases_pruned = 0,
       mm_local_client_leases_pruned = 0, mm_legacy_frames = 0\<rparr>\<rparr>"

lemma regs_document_ok: "json_ok kMaxDepth (regs_document regs)" "range_document (regs_document regs) (map stored regs)"
  by (auto simp: regs_document_def kMaxDepth_def range_document_def get_str_def case_prod_unfold)

lemma sample_regs_ok: "\<forall>r\<in>set sample_regs. registration_ok r"
  using encodable_samples by (simp add: sample_regs_def registration_ok_def IsValidGroupOrId_def sample_members)

theorem ListMembers_view_witness:
  "\<exists>out s'. ListMembers (\<lambda>w path body. (Some (200, json_print (regs_document [(False, ascii ''g'', member_a), (False, ascii ''g'', member_b)])), w))
     (ascii ''g'') False sample_mds = (kOk, out, s') \<and> DecodeMembers out = Some ([member_a], MembersEpoch [member_a])"
proof -
  let ?g = "ascii ''g''" and ?rs = "[(False, ascii ''g'', member_a), (False, ascii ''g'', member_b)]"
  have g: "IsValidGroupOrId ?g" by (simp add: IsValidGroupOrId_def)
  have "filter (\<lambda>(client, g', m). \<not> client \<and> g' = ?g) sample_regs = ?rs" by (simp add: sample_regs_def)
  then have f: "filter (\<lambda>(k, v). etcd_in_range (members_prefix ?g) (PrefixRangeEnd (members_prefix ?g)) k) (map stored sample_regs) = map stored ?rs"
    unfolding PrefixRangeEnd_in_range stored_under_group [OF g sample_regs_ok] by simp
  have d: "range_document (regs_document ?rs) (filter (\<lambda>(k, v). etcd_in_range (members_prefix ?g) (PrefixRangeEnd (members_prefix ?g)) k) (map stored sample_regs))"
    unfolding f by (rule regs_document_ok(2))
  have n: "length sample_regs < 2 ^ 32" by (simp add: sample_regs_def)
  have c: "canonical member_a = member_a" "canonical member_b = member_b" by (simp_all add: canonical_def sample_members numeral_eq_Suc)
  have v: "[member_a] = filter (\<lambda>m. False \<or> RingEligible m) (members_of ?g sample_regs)"
    by (simp add: members_of_def sample_regs_def c) (simp add: RingEligible_def sample_members)
  have "\<exists>out s'. ListMembers (\<lambda>w path body. (Some (200, json_print (regs_document ?rs)), w)) ?g False sample_mds = (kOk, out, s') \<and>
     DecodeMembers out = Some ([member_a], if False then MembersTopologyEpoch [member_a] else MembersEpoch [member_a])"
    by (rule ListMembers_view [where w = "()", OF g sample_regs_ok n _ regs_document_ok(1) d v]) simp
  then show ?thesis by simp
qed

text \<open>
  C31: \<^verbatim>\<open>ListGroups\<close> names every group once. With the registrations in key order, as etcd returns them, the
  answer is the list, joined by line breaks, of the groups that have a registration, each exactly once,
  although the code compares a group only with the one before it.
\<close>
theorem ListGroups_once:
  assumes "\<forall>r\<in>set regs. registration_ok r" "sorted (map (fst \<circ> stored) regs)"
    and "http (ec_http (md_etcd s)) (ascii ''/v3/kv/range'') (range_body groups_root (PrefixRangeEnd groups_root)) = (Some (200, json_print root), w)"
        "json_ok kMaxDepth root"
        "range_document root (filter (\<lambda>(k, v). etcd_in_range groups_root (PrefixRangeEnd groups_root) k) (map stored regs))"
  shows "\<exists>gs s'. ListGroups http s = (kOk, join_lines gs, s') \<and> distinct gs \<and> set gs = {g. \<exists>client m. (client, g, m) \<in> set regs}"
proof -
  have "filter (\<lambda>(k, v). prefix groups_root k) (map stored regs) = map stored regs"
    using assms(1) stored_in_root by (auto simp: filter_id_conv case_prod_unfold)
  then have "map_option rr_kvs (fst (RangePrefix http groups_root (md_etcd s))) = Some (map stored regs)"
    using RangePrefix_document [where http = http and c = "md_etcd s" and p = groups_root, OF assms(3-5)] by simp
  then obtain rr c1 where k: "RangePrefix http groups_root (md_etcd s) = (Some rr, c1)" "rr_kvs rr = map stored regs"
    by (cases "RangePrefix http groups_root (md_etcd s)") auto
  have "\<forall>k\<in>set (map (fst \<circ> stored) regs). \<exists>g. registered_key g k" using assms(1) stored_registered by fastforce
  from group_names_once [OF assms(2) this] show ?thesis
    unfolding stored_groups [OF assms(1)] using k by (auto simp: ListGroups_def)
qed

theorem ListGroups_once_witness:
  "\<exists>gs s'. ListGroups (\<lambda>w path body. (Some (200, json_print (regs_document sample_regs)), w)) sample_mds = (kOk, join_lines gs, s') \<and>
     distinct gs \<and> set gs = {ascii ''g'', ascii ''h''}"
proof -
  have "filter (\<lambda>(k, v). prefix groups_root k) (map stored sample_regs) = map stored sample_regs"
    using sample_regs_ok stored_in_root by (auto simp: filter_id_conv case_prod_unfold)
  then have d: "range_document (regs_document sample_regs) (filter (\<lambda>(k, v). etcd_in_range groups_root (PrefixRangeEnd groups_root) k) (map stored sample_regs))"
    unfolding PrefixRangeEnd_in_range by (simp add: regs_document_ok)
  have s: "sorted (map (fst \<circ> stored) sample_regs)"
    by (simp add: sample_regs_def stored_def MemberKey_def ClientKey_def groups_root_def sample_members)
  have "\<exists>gs s'. ListGroups (\<lambda>w path body. (Some (200, json_print (regs_document sample_regs)), w)) sample_mds = (kOk, join_lines gs, s') \<and>
     distinct gs \<and> set gs = {g. \<exists>client m. (client, g, m) \<in> set sample_regs}"
    by (rule ListGroups_once [where w = "()", OF sample_regs_ok s _ regs_document_ok(1) d]) simp
  moreover have "{g. \<exists>client m. (client, g, m) \<in> set sample_regs} = {ascii ''g'', ascii ''h''}" by (auto simp: sample_regs_def)
  ultimately show ?thesis by simp
qed

end
