(* ===== verification/Mds_Client.thy ===== *)
theory Mds_Client
  imports Mds_Server
begin

text \<open>
  The two users of the metadata service: the node-side registrar \<^verbatim>\<open>mds/mds_registrar.cc\<close> and the client-side
  poller \<^verbatim>\<open>mds/mds_member_poller.cc\<close>, with the endpoint list \<^verbatim>\<open>mds/mds_endpoints.h\<close> both use and the guard
  that decides whether a polled view may replace the placement ring. One exchange with a service is the
  argument \<open>net\<close>: it maps the state of the network, an endpoint and the bytes sent to the bytes received,
  or to \<open>None\<close> when no connection could be made; a failed write receives nothing. Clock readings are arguments; threads, waiting,
  log lines, callbacks of the registrar and its absolute first-registration deadline are not modelled.
\<close>

subsection \<open>Endpoints\<close>

record MdsEndpoints =
  me_eps :: "bytes list"
  me_backoff_ms :: u64
  me_until :: "u64 list"
  me_cursor :: nat

definition new_endpoints :: "bytes list \<Rightarrow> u64 \<Rightarrow> MdsEndpoints" where
  "new_endpoints eps backoff = \<lparr>me_eps = eps, me_backoff_ms = backoff, me_until = replicate (length eps) 0, me_cursor = 0\<rparr>"

text \<open>The scan over the indices from the cursor on: the first endpoint out of backoff, or else the one that recovers first.\<close>

fun pick_scan :: "u64 \<Rightarrow> u64 list \<Rightarrow> nat \<Rightarrow> u64 \<Rightarrow> nat list \<Rightarrow> nat" where
  "pick_scan now untils best best_until [] = best"
| "pick_scan now untils best best_until (idx # is) =
     (if untils ! idx \<le> now then idx
      else if untils ! idx < best_until then pick_scan now untils idx (untils ! idx) is
      else pick_scan now untils best best_until is)"

definition Pick :: "u64 \<Rightarrow> MdsEndpoints \<Rightarrow> bytes \<times> MdsEndpoints" where
  "Pick now e =
     (if me_eps e = [] then ([], e)
      else let n = length (me_eps e);
               idx = pick_scan now (me_until e) 0 (- 1) (map (\<lambda>i. (me_cursor e + i) mod n) [0..<n])
           in (me_eps e ! idx, e\<lparr>me_cursor := (idx + 1) mod n\<rparr>))"

definition set_until :: "bytes \<Rightarrow> u64 \<Rightarrow> MdsEndpoints \<Rightarrow> MdsEndpoints" where
  "set_until ep t e = e\<lparr>me_until := map (\<lambda>(x, u). if x = ep then t else u) (zip (me_eps e) (me_until e))\<rparr>"

definition MarkFailed :: "bytes \<Rightarrow> u64 \<Rightarrow> MdsEndpoints \<Rightarrow> MdsEndpoints" where
  "MarkFailed ep now e = set_until ep (now + me_backoff_ms e) e"

definition MarkOk :: "bytes \<Rightarrow> MdsEndpoints \<Rightarrow> MdsEndpoints" where
  "MarkOk ep e = set_until ep 0 e"

subsection \<open>The guard on polled views\<close>

record MemberViewGuard =
  vg_views_to_accept :: int
  vg_shrink_pct :: int
  vg_have_baseline :: bool
  vg_baseline :: nat
  vg_stable_ref :: nat
  vg_last_seen :: nat
  vg_same_streak :: nat
  vg_suspect_value :: nat
  vg_suspect_streak :: nat
  vg_empty_streak :: nat
  vg_rejected_empty :: nat
  vg_rejected_shrink :: nat
  vg_rejected_growth :: nat

definition new_guard :: "int \<Rightarrow> int \<Rightarrow> MemberViewGuard" where
  "new_guard views pct = \<lparr>vg_views_to_accept = views, vg_shrink_pct = pct, vg_have_baseline = False, vg_baseline = 0, vg_stable_ref = 0,
     vg_last_seen = 0, vg_same_streak = 0, vg_suspect_value = 0, vg_suspect_streak = 0, vg_empty_streak = 0,
     vg_rejected_empty = 0, vg_rejected_shrink = 0, vg_rejected_growth = 0\<rparr>"

text \<open>The sums are computed at 128 bits in the source and cannot wrap; the percentages are cast to 32-bit unsigned.\<close>

definition shrink_suspect :: "nat \<Rightarrow> MemberViewGuard \<Rightarrow> bool" where
  "shrink_suspect incoming g \<longleftrightarrow> incoming * 100 < vg_stable_ref g * unat (of_int (100 - vg_shrink_pct g) :: u32)"

definition growth_suspect :: "nat \<Rightarrow> MemberViewGuard \<Rightarrow> bool" where
  "growth_suspect incoming g \<longleftrightarrow> incoming * 100 > vg_stable_ref g * unat (of_int (100 + vg_shrink_pct g) :: u32)"

definition note_sighting :: "nat \<Rightarrow> MemberViewGuard \<Rightarrow> MemberViewGuard" where
  "note_sighting incoming g =
     (if vg_have_baseline g \<and> incoming = vg_last_seen g then g\<lparr>vg_same_streak := vg_same_streak g + 1\<rparr>
      else g\<lparr>vg_last_seen := incoming, vg_same_streak := 1\<rparr>)"

definition admit_empty :: "MemberViewGuard \<Rightarrow> bool \<times> MemberViewGuard" where
  "admit_empty g =
     (let g1 = g\<lparr>vg_suspect_streak := 0, vg_empty_streak := vg_empty_streak g + 1\<rparr>
      in if int (vg_empty_streak g1) \<ge> vg_views_to_accept g1
         then (True, g1\<lparr>vg_baseline := 0, vg_stable_ref := 0, vg_empty_streak := 0\<rparr>)
         else (False, g1\<lparr>vg_rejected_empty := vg_rejected_empty g1 + 1\<rparr>))"

definition admit_suspect :: "nat \<Rightarrow> MemberViewGuard \<Rightarrow> bool \<times> MemberViewGuard" where
  "admit_suspect incoming g =
     (let g1 = (if incoming = vg_suspect_value g then g\<lparr>vg_suspect_streak := vg_suspect_streak g + 1\<rparr>
                else g\<lparr>vg_suspect_value := incoming, vg_suspect_streak := 1\<rparr>)
      in if int (vg_suspect_streak g1) \<ge> vg_views_to_accept g1
         then (True, g1\<lparr>vg_baseline := incoming, vg_stable_ref := incoming, vg_suspect_streak := 0\<rparr>)
         else (False, if shrink_suspect incoming g then g1\<lparr>vg_rejected_shrink := vg_rejected_shrink g1 + 1\<rparr>
                      else g1\<lparr>vg_rejected_growth := vg_rejected_growth g1 + 1\<rparr>))"

definition adopt :: "nat \<Rightarrow> MemberViewGuard \<Rightarrow> MemberViewGuard" where
  "adopt incoming g =
     (let g1 = g\<lparr>vg_baseline := incoming\<rparr>
      in if vg_stable_ref g1 = 0 \<or> int (vg_same_streak g1) \<ge> vg_views_to_accept g1 then g1\<lparr>vg_stable_ref := incoming\<rparr> else g1)"

definition Admit :: "nat \<Rightarrow> MemberViewGuard \<Rightarrow> bool \<times> MemberViewGuard" where
  "Admit incoming g0 =
     (let g = note_sighting incoming g0
      in if \<not> vg_have_baseline g
         then (True, g\<lparr>vg_have_baseline := True, vg_baseline := incoming, vg_stable_ref := incoming\<rparr>)
         else if incoming = 0 \<and> vg_baseline g > 0 then admit_empty g
         else let g1 = g\<lparr>vg_empty_streak := 0\<rparr>
              in if vg_shrink_pct g1 > 0 \<and> vg_stable_ref g1 > 0
                 then (if shrink_suspect incoming g1 \<or> growth_suspect incoming g1 then admit_suspect incoming g1
                       else (True, adopt incoming (g1\<lparr>vg_suspect_streak := 0\<rparr>)))
                 else (True, adopt incoming g1))"

subsection \<open>One exchange\<close>

type_synonym 'n exchange = "'n \<Rightarrow> bytes \<Rightarrow> bytes \<Rightarrow> bytes option \<times> 'n"

text \<open>
  The response as it is read back: the prefix, checked and decoded, and the data. The poller reads the
  data of a successful response only.
\<close>

definition no_key :: BlockKey where
  "no_key = \<lparr>digest_hi = 0, digest_lo = 0, tenant_hash = 0\<rparr>"

definition read_response :: "bytes \<Rightarrow> (Status \<times> bytes) option" where
  "read_response r =
     (if length r < kRespPrefix then None
      else (case DecodeResp (take kRespPrefix r) kMdsMaxRespData of
              None \<Rightarrow> None
            | Some (st, len, value_len) \<Rightarrow>
                if st \<noteq> kOk then Some (st, [])
                else if length r - kRespPrefix < unat len then None
                else Some (st, take (unat len) (drop kRespPrefix r))))"

definition poll_request :: "'n exchange \<Rightarrow> bytes \<Rightarrow> bytes \<Rightarrow> WireOp \<Rightarrow> 'n \<Rightarrow> (Status \<times> bytes) option \<times> 'n" where
  "poll_request net ep grp opc w =
     (case net w ep (EncodeReq opc no_key 0 0 (of_nat (length grp)) @ grp) of
        (None, w1) \<Rightarrow> (None, w1)
      | (Some r, w1) \<Rightarrow> (read_response r, w1))"

subsection \<open>The poller\<close>

record MdsMemberPoller =
  mp_eps :: MdsEndpoints
  mp_group :: bytes
  mp_last_topology_epoch :: u64
  mp_last_placement_epoch :: u64
  mp_have_topology_epoch :: bool
  mp_have_placement_epoch :: bool
  mp_ever_adopted :: bool
  mp_consec_fail :: u64
  mp_last_fail_log_ms :: u64
  mp_unreachable_total :: u64
  mp_reachable :: bool
  mp_guard :: MemberViewGuard

definition kViewsToAccept :: int where
  "kViewsToAccept = 3"

definition kFailLogEveryMs :: u64 where
  "kFailLogEveryMs = 30000"

definition new_poller :: "bytes list \<Rightarrow> bytes \<Rightarrow> int \<Rightarrow> MdsMemberPoller" where
  "new_poller eps grp pct = \<lparr>mp_eps = new_endpoints eps 2000, mp_group = grp, mp_last_topology_epoch = 0, mp_last_placement_epoch = 0,
     mp_have_topology_epoch = False, mp_have_placement_epoch = False, mp_ever_adopted = False, mp_consec_fail = 0, mp_last_fail_log_ms = 0,
     mp_unreachable_total = 0, mp_reachable = True, mp_guard = new_guard kViewsToAccept pct\<rparr>"

definition forget_health :: "MemberInfo \<Rightarrow> MemberInfo" where
  "forget_health m = m\<lparr>mi_health := default_health, mi_has_health := False\<rparr>"

definition poll_view :: "'n exchange \<Rightarrow> bytes \<Rightarrow> bytes \<Rightarrow> 'n \<Rightarrow> (MemberInfo list \<times> u64) option \<times> 'n" where
  "poll_view net ep grp w =
     (case poll_request net ep grp kListTopology w of
        (Some (st, resp), w1) \<Rightarrow>
          (if st = kInvalid
           then (case poll_request net ep grp kListMembers w1 of
                   (Some (st2, resp2), w2) \<Rightarrow>
                     (if st2 = kOk
                      then (map_option (\<lambda>(ms, e). let ms' = map forget_health ms in (ms', MembersTopologyEpoch ms')) (DecodeMembers resp2), w2)
                      else (None, w2))
                 | (None, w2) \<Rightarrow> (None, w2))
           else if st = kOk then (DecodeMembers resp, w1) else (None, w1))
      | (None, w1) \<Rightarrow> (None, w1))"

definition Query :: "'n exchange \<Rightarrow> u64 \<Rightarrow> MdsMemberPoller \<Rightarrow> 'n \<Rightarrow> (MemberInfo list \<times> u64) option \<times> MdsMemberPoller \<times> 'n" where
  "Query net now p w =
     (case Pick now (mp_eps p) of
        (ep, e1) \<Rightarrow>
          let p1 = p\<lparr>mp_eps := e1\<rparr>
          in if ep = [] then (None, p1, w)
             else (case poll_view net ep (mp_group p) w of
                     (None, w1) \<Rightarrow> (None, p1\<lparr>mp_eps := MarkFailed ep now e1\<rparr>, w1)
                   | (Some v, w1) \<Rightarrow> (Some v, p1\<lparr>mp_eps := MarkOk ep e1\<rparr>, w1)))"

text \<open>What a poll reports: the topology callback with the admission verdict, and the placement callback.\<close>

datatype PollEvent = OnTopologyChange "MemberInfo list" u64 bool | OnChange "MemberInfo list"

definition adopt_view :: "MemberInfo list \<Rightarrow> u64 \<Rightarrow> MdsMemberPoller \<Rightarrow> PollEvent list \<times> MdsMemberPoller" where
  "adopt_view topology topology_epoch p =
     (let plc = filter RingEligible topology;
          placement_epoch = MembersEpoch plc
      in (case Admit (length plc) (mp_guard p) of
            (admitted, g) \<Rightarrow>
              let topology_changed = (\<not> mp_have_topology_epoch p \<or> topology_epoch \<noteq> mp_last_topology_epoch p);
                  p1 = p\<lparr>mp_guard := g\<rparr>;
                  p2 = (if topology_changed then p1\<lparr>mp_last_topology_epoch := topology_epoch, mp_have_topology_epoch := True\<rparr> else p1);
                  placement_changed = (admitted \<and> (\<not> mp_have_placement_epoch p \<or> placement_epoch \<noteq> mp_last_placement_epoch p));
                  p3 = (if placement_changed
                        then p2\<lparr>mp_last_placement_epoch := placement_epoch, mp_have_placement_epoch := True,
                                mp_ever_adopted := (plc \<noteq> [] \<or> mp_ever_adopted p)\<rparr>
                        else p2)
              in ((if topology_changed \<or> placement_changed then [OnTopologyChange topology topology_epoch admitted] else []) @
                  (if placement_changed then [OnChange plc] else []), p3)))"

definition PollOnce :: "'n exchange \<Rightarrow> u64 \<Rightarrow> MdsMemberPoller \<Rightarrow> 'n \<Rightarrow> (bool \<times> PollEvent list) \<times> MdsMemberPoller \<times> 'n" where
  "PollOnce net now p w =
     (case Query net now p w of
        (None, p1, w1) \<Rightarrow> ((False, []), p1, w1)
      | (Some (topology, epoch), p1, w1) \<Rightarrow> (case adopt_view topology epoch p1 of (evs, p2) \<Rightarrow> ((True, evs), p2, w1)))"

definition ReportHealth :: "bool \<Rightarrow> u64 \<Rightarrow> MdsMemberPoller \<Rightarrow> MdsMemberPoller" where
  "ReportHealth query_ok now p =
     (if query_ok
      then (if mp_consec_fail p > 0 then p\<lparr>mp_reachable := True, mp_consec_fail := 0, mp_last_fail_log_ms := 0\<rparr> else p\<lparr>mp_reachable := True\<rparr>)
      else let p1 = p\<lparr>mp_consec_fail := mp_consec_fail p + 1, mp_unreachable_total := mp_unreachable_total p + 1, mp_reachable := False\<rparr>
           in if mp_consec_fail p1 \<noteq> 1 \<and> now - mp_last_fail_log_ms p1 < kFailLogEveryMs then p1
              else p1\<lparr>mp_last_fail_log_ms := now\<rparr>)"

subsection \<open>The registrar\<close>

record MdsRegistrar =
  rg_eps :: MdsEndpoints
  rg_group :: bytes
  rg_self :: MemberInfo
  rg_is_client :: bool
  rg_registered :: bool
  rg_failures_consecutive :: u64
  rg_failures_total :: u64
  rg_last_success_ms :: u64
  rg_last_failure_log_ms :: u64

definition kFailureLogIntervalMs :: u64 where
  "kFailureLogIntervalMs = 30000"

text \<open>The statistics and health providers are called before every message; their results are arguments.\<close>

definition refresh_self :: "MemberStats option \<Rightarrow> MemberHealth option \<Rightarrow> MemberInfo \<Rightarrow> MemberInfo" where
  "refresh_self stats health m =
     (let m1 = (case stats of Some x \<Rightarrow> m\<lparr>mi_stats := x, mi_has_stats := True\<rparr> | None \<Rightarrow> m)
      in (case health of Some x \<Rightarrow> m1\<lparr>mi_health := x, mi_has_health := True\<rparr> | None \<Rightarrow> m1))"

definition SendOnce ::
  "'n exchange \<Rightarrow> u64 \<Rightarrow> MemberStats option \<Rightarrow> MemberHealth option \<Rightarrow> WireOp \<Rightarrow> MdsRegistrar \<Rightarrow> 'n \<Rightarrow> bool \<times> MdsRegistrar \<times> 'n" where
  "SendOnce net started stats health opc r w =
     (case Pick started (rg_eps r) of
        (ep, e1) \<Rightarrow>
          let r1 = r\<lparr>rg_eps := e1\<rparr>
          in if ep = [] then (False, r1, w)
             else let r2 = r1\<lparr>rg_self := refresh_self stats health (rg_self r1)\<rparr>;
                      payload = EncodeMemberReq (rg_group r2) (rg_self r2)
                  in (case net w ep (EncodeReq opc no_key 0 0 (of_nat (length payload)) @ payload) of
                        (None, w1) \<Rightarrow> (False, r1\<lparr>rg_eps := MarkFailed ep started e1\<rparr>, w1)
                      | (Some resp, w1) \<Rightarrow>
                          (case read_response resp of
                             Some (kOk, resp_data) \<Rightarrow> (True, r2\<lparr>rg_eps := MarkOk ep e1\<rparr>, w1)
                           | _ \<Rightarrow> (False, r2\<lparr>rg_eps := MarkFailed ep started e1\<rparr>, w1))))"

definition RegisterOnce ::
  "'n exchange \<Rightarrow> u64 \<Rightarrow> u64 \<Rightarrow> MemberStats option \<Rightarrow> MemberHealth option \<Rightarrow> MdsRegistrar \<Rightarrow> 'n \<Rightarrow> bool \<times> MdsRegistrar \<times> 'n" where
  "RegisterOnce net started now stats health r w =
     (case SendOnce net started stats health (if rg_is_client r then kClientRegister else kRegister) r w of
        (ok, r1, w1) \<Rightarrow> if \<not> ok then (False, r1, w1) else (True, r1\<lparr>rg_last_success_ms := now, rg_registered := True\<rparr>, w1))"

definition ReportHeartbeatResult :: "bool \<Rightarrow> u64 \<Rightarrow> MdsRegistrar \<Rightarrow> MdsRegistrar" where
  "ReportHeartbeatResult ok now r =
     (if ok then r\<lparr>rg_last_success_ms := now, rg_failures_consecutive := 0, rg_last_failure_log_ms := 0\<rparr>
      else let r1 = r\<lparr>rg_failures_consecutive := rg_failures_consecutive r + 1, rg_failures_total := rg_failures_total r + 1\<rparr>;
               last_log = rg_last_failure_log_ms r1
           in if rg_failures_consecutive r1 \<noteq> 1 \<and> now \<ge> last_log \<and> now - last_log < kFailureLogIntervalMs then r1
              else r1\<lparr>rg_last_failure_log_ms := now\<rparr>)"

definition HeartbeatOnce ::
  "'n exchange \<Rightarrow> u64 \<Rightarrow> u64 \<Rightarrow> MemberStats option \<Rightarrow> MemberHealth option \<Rightarrow> MdsRegistrar \<Rightarrow> 'n \<Rightarrow> bool \<times> MdsRegistrar \<times> 'n" where
  "HeartbeatOnce net started now stats health r w =
     (case SendOnce net started stats health (if rg_is_client r then kClientHeartbeat else kHeartbeat) r w of
        (ok, r1, w1) \<Rightarrow> (ok, if rg_registered r1 then ReportHeartbeatResult ok now r1 else r1, w1))"

definition last_success_age_seconds :: "u64 \<Rightarrow> MdsRegistrar \<Rightarrow> u64" where
  "last_success_age_seconds now r =
     (let last = rg_last_success_ms r in if last = 0 then 0 else if now \<ge> last then (now - last) div 1000 else 0)"

definition heartbeat_healthy :: "MdsRegistrar \<Rightarrow> bool" where
  "heartbeat_healthy r \<longleftrightarrow> rg_registered r \<and> rg_failures_consecutive r = 0"

subsection \<open>Choosing an endpoint\<close>

definition endpoints_ok :: "MdsEndpoints \<Rightarrow> bool" where
  "endpoints_ok e \<longleftrightarrow> length (me_until e) = length (me_eps e) \<and> (me_eps e \<noteq> [] \<longrightarrow> me_cursor e < length (me_eps e))"

lemma endpoints_ok_steps:
  "endpoints_ok (new_endpoints eps b)"
  "endpoints_ok e \<Longrightarrow> endpoints_ok (snd (Pick now e))"
  "endpoints_ok e \<Longrightarrow> endpoints_ok (MarkFailed ep now e)" "endpoints_ok e \<Longrightarrow> endpoints_ok (MarkOk ep e)"
  by (auto simp: endpoints_ok_def new_endpoints_def Pick_def Let_def MarkFailed_def MarkOk_def set_until_def)

text \<open>The scan returns the first endpoint out of backoff if there is one.\<close>

lemma pick_scan_first:
  assumes "\<exists>j\<in>set is. us ! j \<le> now"
  obtains xs ys where "is = xs @ pick_scan now us best bu is # ys" "us ! pick_scan now us best bu is \<le> now" "\<forall>j\<in>set xs. \<not> us ! j \<le> now"
proof -
  have "\<exists>xs ys. is = xs @ pick_scan now us best bu is # ys \<and> us ! pick_scan now us best bu is \<le> now \<and> (\<forall>j\<in>set xs. \<not> us ! j \<le> now)"
    using assms
  proof (induction "is" arbitrary: best bu)
    case (Cons i js)
    show ?case
    proof (cases "us ! i \<le> now")
      case False
      let ?k = "pick_scan now us best bu (i # js)"
      have "\<exists>b' u'. ?k = pick_scan now us b' u' js" by (cases "us ! i < bu") (use False in auto)
      then obtain b' u' where k: "?k = pick_scan now us b' u' js" by blast
      have "\<exists>j\<in>set js. us ! j \<le> now" using Cons.prems False by auto
      from Cons.IH [OF this, of b' u'] obtain xs ys where "js = xs @ ?k # ys" "us ! ?k \<le> now" "\<forall>j\<in>set xs. \<not> us ! j \<le> now" unfolding k by blast
      then show ?thesis using False by (intro exI [of _ "i # xs"] exI [of _ ys]) simp
    qed (auto intro: exI [of _ "[]"])
  qed simp
  then show ?thesis using that by blast
qed

text \<open>Otherwise it returns one that recovers no later than any other.\<close>

lemma pick_scan_least:
  assumes "\<forall>j\<in>set is. \<not> us ! j \<le> now" "us ! best = bu \<or> bu = - 1 \<and> best < n \<and> n = length us" "set is \<subseteq> {..<n}" "best < n"
  shows "pick_scan now us best bu is < n \<and> us ! pick_scan now us best bu is \<le> bu \<and> (\<forall>j\<in>set is. us ! pick_scan now us best bu is \<le> us ! j)"
  using assms
proof (induction "is" arbitrary: best bu)
  case Nil
  then show ?case by (auto simp: word_n1_ge)
next
  case (Cons i js)
  have i: "i < n" "\<not> us ! i \<le> now" using Cons.prems by auto
  show ?case
  proof (cases "us ! i < bu")
    case True
    then show ?thesis using Cons.IH [of i "us ! i"] Cons.prems i by (auto intro: order_trans less_imp_le)
  next
    case False
    then show ?thesis using Cons.IH [of best bu] Cons.prems i by (auto intro: order_trans simp: not_less)
  qed
qed

lemma mod_window: "j < (n :: nat) \<Longrightarrow> c < n \<Longrightarrow> \<exists>i<n. j = (c + i) mod n"
proof -
  assume j: "j < n" and c: "c < n"
  show ?thesis
  proof (cases "c \<le> j")
    case True
    then show ?thesis using j by (intro exI [of _ "j - c"]) simp
  next
    case False
    then have "(c + (n - c + j)) mod n = j" using j c by simp
    then show ?thesis using False j c by (intro exI [of _ "n - c + j"]) auto
  qed
qed

lemma Pick_spec:
  assumes "endpoints_ok e" "me_eps e \<noteq> []" "n = length (me_eps e)" "c = me_cursor e"
  obtains k where "k < n" "Pick now e = (me_eps e ! ((c + k) mod n), e\<lparr>me_cursor := ((c + k) mod n + 1) mod n\<rparr>)"
    "(\<exists>j<n. me_until e ! j \<le> now) \<longrightarrow> me_until e ! ((c + k) mod n) \<le> now \<and> (\<forall>i<k. \<not> me_until e ! ((c + i) mod n) \<le> now)"
    "\<not> (\<exists>j<n. me_until e ! j \<le> now) \<longrightarrow> (\<forall>j<n. me_until e ! ((c + k) mod n) \<le> me_until e ! j)"
proof -
  let ?is = "map (\<lambda>i. (c + i) mod n) [0..<n]" and ?us = "me_until e"
  let ?x = "pick_scan now ?us 0 (- 1) ?is"
  have n: "0 < n" "c < n" "length ?us = n" using assms by (auto simp: endpoints_ok_def)
  have set: "set ?is = {..<n}"
  proof
    show "{..<n} \<subseteq> set ?is"
    proof
      fix j assume "j \<in> {..<n}"
      then obtain i where "i < n" "j = (c + i) mod n" using mod_window [of j n c] n(2) by auto
      then show "j \<in> set ?is" by simp
    qed
  qed (use n(1) in auto)
  have p: "Pick now e = (me_eps e ! ?x, e\<lparr>me_cursor := (?x + 1) mod n\<rparr>)" using assms by (simp add: Pick_def Let_def)
  show ?thesis
  proof (cases "\<exists>j<n. ?us ! j \<le> now")
    case True
    then have "\<exists>j\<in>set ?is. ?us ! j \<le> now" unfolding set by auto
    then obtain xs ys where x: "?is = xs @ ?x # ys" "?us ! ?x \<le> now" "\<forall>j\<in>set xs. \<not> ?us ! j \<le> now" by (rule pick_scan_first)
    have l: "length xs < n" using arg_cong [OF x(1), of length] by simp
    have k: "?x = (c + length xs) mod n" using arg_cong [OF x(1), of "\<lambda>l. l ! length xs"] l by simp
    have "xs ! i = (c + i) mod n" if "i < length xs" for i using arg_cong [OF x(1), of "\<lambda>l. l ! i"] l that by (simp add: nth_append)
    then have "\<forall>i<length xs. \<not> ?us ! ((c + i) mod n) \<le> now" using x(3) by (metis nth_mem)
    then show ?thesis using that [of "length xs"] l p x(2) True unfolding k by simp
  next
    case False
    then have "\<forall>j\<in>set ?is. \<not> ?us ! j \<le> now" unfolding set by simp
    then have "?x < n \<and> ?us ! ?x \<le> - 1 \<and> (\<forall>j\<in>set ?is. ?us ! ?x \<le> ?us ! j)"
      by (rule pick_scan_least) (use n set in simp_all)
    then have x: "?x < n" "\<forall>j<n. ?us ! ?x \<le> ?us ! j" unfolding set by simp_all
    obtain k where k: "k < n" "?x = (c + k) mod n" using mod_window [OF x(1) n(2)] by blast
    show ?thesis by (rule that [of k]) (use k(1) p x(2) False in \<open>auto simp flip: k(2)\<close>)
  qed
qed

text \<open>A series of picks at the given times.\<close>

fun picks :: "u64 list \<Rightarrow> MdsEndpoints \<Rightarrow> bytes list" where
  "picks [] e = []"
| "picks (t # ts) e = (case Pick t e of (ep, e1) \<Rightarrow> ep # picks ts e1)"

lemma picks_all_ready:
  assumes "endpoints_ok e" "me_eps e \<noteq> []" "n = length (me_eps e)" "\<forall>t\<in>set ts. \<forall>j<n. me_until e ! j \<le> t"
  shows "picks ts e = map (\<lambda>i. me_eps e ! ((me_cursor e + i) mod n)) [0..<length ts]"
  using assms
proof (induction ts arbitrary: e)
  case (Cons t ts)
  let ?c = "me_cursor e"
  obtain k where k: "k < n" "Pick t e = (me_eps e ! ((?c + k) mod n), e\<lparr>me_cursor := ((?c + k) mod n + 1) mod n\<rparr>)"
    "(\<exists>j<n. me_until e ! j \<le> t) \<longrightarrow> me_until e ! ((?c + k) mod n) \<le> t \<and> (\<forall>i<k. \<not> me_until e ! ((?c + i) mod n) \<le> t)"
    using Pick_spec [OF Cons.prems(1-3) refl, of t] by metis
  have "0 < n" using Cons.prems(2,3) by simp
  then have "k = 0" using k(1,3) Cons.prems(4) by (metis list.set_intros(1) mod_less_divisor not_gr_zero)
  let ?e = "e\<lparr>me_cursor := (?c + 1) mod n\<rparr>"
  have P: "Pick t e = (me_eps e ! (?c mod n), ?e)" using k(2) \<open>k = 0\<close> by (simp add: mod_Suc_eq)
  have "picks ts ?e = map (\<lambda>i. me_eps ?e ! ((me_cursor ?e + i) mod n)) [0..<length ts]"
    by (rule Cons.IH) (use Cons.prems endpoints_ok_steps(2) [OF Cons.prems(1), of t] P in auto)
  then show ?case using P by (simp add: map_upt_Suc mod_add_left_eq del: upt_Suc)
qed simp

subsection \<open>What the guard lets through\<close>

definition guard_run :: "int \<Rightarrow> int \<Rightarrow> nat list \<Rightarrow> MemberViewGuard" where
  "guard_run views pct h = foldl (\<lambda>g x. snd (Admit x g)) (new_guard views pct) h"

text \<open>A view that would empty the ring, or that leaves the tolerated band around the trusted reference.\<close>

definition suspicious :: "nat \<Rightarrow> MemberViewGuard \<Rightarrow> bool" where
  "suspicious x g \<longleftrightarrow> x = 0 \<and> vg_baseline g > 0 \<or>
     vg_shrink_pct g > 0 \<and> vg_stable_ref g > 0 \<and> (shrink_suspect x g \<or> growth_suspect x g)"

lemma note_sighting_simps [simp]:
  "vg_views_to_accept (note_sighting x g) = vg_views_to_accept g" "vg_shrink_pct (note_sighting x g) = vg_shrink_pct g"
  "vg_have_baseline (note_sighting x g) = vg_have_baseline g" "vg_baseline (note_sighting x g) = vg_baseline g"
  "vg_stable_ref (note_sighting x g) = vg_stable_ref g" "vg_suspect_value (note_sighting x g) = vg_suspect_value g"
  "vg_suspect_streak (note_sighting x g) = vg_suspect_streak g" "vg_empty_streak (note_sighting x g) = vg_empty_streak g"
  by (simp_all add: note_sighting_def)

lemma adopt_simps [simp]:
  "vg_views_to_accept (adopt x g) = vg_views_to_accept g" "vg_shrink_pct (adopt x g) = vg_shrink_pct g"
  "vg_have_baseline (adopt x g) = vg_have_baseline g" "vg_baseline (adopt x g) = x" "vg_suspect_value (adopt x g) = vg_suspect_value g"
  "vg_suspect_streak (adopt x g) = vg_suspect_streak g" "vg_empty_streak (adopt x g) = vg_empty_streak g"
  by (simp_all add: adopt_def Let_def)

lemma Admit_cases:
  obtains (first) "\<not> vg_have_baseline g" "Admit x g = (True, (note_sighting x g)\<lparr>vg_have_baseline := True, vg_baseline := x, vg_stable_ref := x\<rparr>)"
  | (empty) "vg_have_baseline g" "x = 0" "vg_baseline g > 0" "suspicious x g" "Admit x g = admit_empty (note_sighting x g)"
  | (suspect) "vg_have_baseline g" "\<not> (x = 0 \<and> vg_baseline g > 0)" "suspicious x g" "vg_shrink_pct g > 0" "vg_stable_ref g > 0"
      "Admit x g = admit_suspect x ((note_sighting x g)\<lparr>vg_empty_streak := 0\<rparr>)"
  | (plain) k where "vg_have_baseline g" "\<not> suspicious x g" "k = 0 \<or> k = vg_suspect_streak g \<and> \<not> (vg_shrink_pct g > 0 \<and> vg_stable_ref g > 0)"
      "Admit x g = (True, adopt x ((note_sighting x g)\<lparr>vg_empty_streak := 0, vg_suspect_streak := k\<rparr>))"
proof -
  consider "\<not> vg_have_baseline g" | "vg_have_baseline g" "x = 0" "vg_baseline g > 0"
    | "vg_have_baseline g" "\<not> (x = 0 \<and> vg_baseline g > 0)" "vg_shrink_pct g > 0" "vg_stable_ref g > 0" "shrink_suspect x g \<or> growth_suspect x g"
    | "vg_have_baseline g" "\<not> (x = 0 \<and> vg_baseline g > 0)" "vg_shrink_pct g > 0" "vg_stable_ref g > 0" "\<not> (shrink_suspect x g \<or> growth_suspect x g)"
    | "vg_have_baseline g" "\<not> (x = 0 \<and> vg_baseline g > 0)" "\<not> (vg_shrink_pct g > 0 \<and> vg_stable_ref g > 0)"
    by argo
  then show ?thesis
  proof cases
    case 1
    then show ?thesis by (intro first) (simp_all add: Admit_def Let_def)
  next
    case 2
    then show ?thesis by (intro empty) (simp_all add: Admit_def Let_def suspicious_def)
  next
    case 3
    then show ?thesis by (intro suspect) (auto simp: Admit_def Let_def suspicious_def shrink_suspect_def growth_suspect_def)
  next
    case 4
    then show ?thesis by (intro plain [of 0]) (auto simp: Admit_def Let_def suspicious_def shrink_suspect_def growth_suspect_def)
  next
    case 5
    have "Admit x g = (True, adopt x ((note_sighting x g)\<lparr>vg_empty_streak := 0\<rparr>))" using 5 by (auto simp: Admit_def Let_def)
    moreover have e: "(note_sighting x g)\<lparr>vg_empty_streak := 0, vg_suspect_streak := vg_suspect_streak g\<rparr> = (note_sighting x g)\<lparr>vg_empty_streak := 0\<rparr>"
      by (rule MemberViewGuard.equality) simp_all
    ultimately have "Admit x g = (True, adopt x ((note_sighting x g)\<lparr>vg_empty_streak := 0, vg_suspect_streak := vg_suspect_streak g\<rparr>))" by (simp only: e)
    then show ?thesis by (rule plain [of "vg_suspect_streak g", rotated 3]) (use 5 in \<open>auto simp: suspicious_def\<close>)
  qed
qed

text \<open>The streak that counts for the view \<open>x\<close> next.\<close>

definition streak_for :: "nat \<Rightarrow> MemberViewGuard \<Rightarrow> nat" where
  "streak_for x g = (if x = 0 \<and> vg_baseline g > 0 then vg_empty_streak g else if x = vg_suspect_value g then vg_suspect_streak g else 0)"

definition ends_with :: "nat \<Rightarrow> nat \<Rightarrow> nat list \<Rightarrow> bool" where
  "ends_with k x h \<longleftrightarrow> k \<le> length h \<and> (\<forall>y\<in>set (drop (length h - k) h). y = x)"

lemma ends_with_snoc: "ends_with (Suc k) x (h @ [y]) \<longleftrightarrow> y = x \<and> ends_with k x h"
  by (auto simp: ends_with_def Suc_diff_le)

lemma ends_with_0 [simp]: "ends_with 0 x h"
  by (simp add: ends_with_def)

text \<open>Both streaks count polls that really happened, one after the other, just before now.\<close>

definition guard_inv :: "int \<Rightarrow> int \<Rightarrow> nat list \<Rightarrow> MemberViewGuard \<Rightarrow> bool" where
  "guard_inv views pct h g \<longleftrightarrow> vg_views_to_accept g = views \<and> vg_shrink_pct g = pct \<and> (vg_have_baseline g \<longleftrightarrow> h \<noteq> []) \<and>
     ends_with (vg_suspect_streak g) (vg_suspect_value g) h \<and> ends_with (vg_empty_streak g) 0 h \<and>
     (\<not> (pct > 0 \<and> vg_stable_ref g > 0) \<longrightarrow> vg_suspect_streak g = 0)"

lemma guard_inv_Admit:
  assumes "guard_inv views pct h g"
  shows "guard_inv views pct (h @ [x]) (snd (Admit x g))"
proof -
  have e: "ends_with (Suc 0) x (h @ [x])" using ends_with_snoc [of 0 x h x] by simp
  show ?thesis
  proof (cases x g rule: Admit_cases)
    case first
    then show ?thesis using assms by (auto simp: guard_inv_def ends_with_def)
  next
    case empty
    then show ?thesis using assms by (auto simp: guard_inv_def admit_empty_def Let_def ends_with_snoc)
  next
    case suspect
    then show ?thesis using assms e by (auto simp: guard_inv_def admit_suspect_def Let_def ends_with_snoc)
  next
    case (plain k)
    then have "k = 0" using assms by (auto simp: guard_inv_def)
    then show ?thesis using assms plain by (auto simp: guard_inv_def)
  qed
qed

lemma guard_inv_run: "guard_inv views pct h (guard_run views pct h)"
proof (induction h rule: rev_induct)
  case Nil
  show ?case by (simp add: guard_run_def guard_inv_def new_guard_def)
next
  case (snoc x h)
  then show ?case using guard_inv_Admit [OF snoc, of x] by (simp add: guard_run_def)
qed

text \<open>A suspicious view passes exactly when its streak, this poll included, is long enough.\<close>

lemma Admit_suspicious:
  assumes "vg_have_baseline g" "suspicious x g"
  shows "fst (Admit x g) \<longleftrightarrow> int (streak_for x g + 1) \<ge> vg_views_to_accept g"
proof (cases x g rule: Admit_cases)
  case empty
  then show ?thesis by (simp add: admit_empty_def Let_def streak_for_def)
next
  case suspect
  then show ?thesis by (auto simp: admit_suspect_def Let_def streak_for_def)
qed (use assms in simp_all)

lemma Admit_plain:
  assumes "\<not> (vg_have_baseline g \<and> suspicious x g)"
  shows "fst (Admit x g)"
  by (cases x g rule: Admit_cases) (use assms in simp_all)

lemma pct_values:
  assumes "0 \<le> pct" "pct \<le> 99"
  shows "unat (of_int (100 - pct) :: u32) = nat (100 - pct)" "unat (of_int (100 + pct) :: u32) = nat (100 + pct)"
proof -
  have "unat (of_int i :: u32) = nat i" if "0 \<le> i" "i < 2 ^ 32" for i :: int
    using that by (simp add: unsigned_of_int take_bit_int_eq_self)
  note c = this
  show "unat (of_int (100 - pct) :: u32) = nat (100 - pct)" "unat (of_int (100 + pct) :: u32) = nat (100 + pct)"
    by (rule c; use assms in simp)+
qed

lemma not_suspect_at_ref:
  assumes "0 \<le> vg_shrink_pct g" "vg_shrink_pct g \<le> 99" "vg_stable_ref g = x"
  shows "\<not> shrink_suspect x g" "\<not> growth_suspect x g"
proof -
  have "x * nat (100 - vg_shrink_pct g) \<le> x * 100" "x * 100 \<le> x * nat (100 + vg_shrink_pct g)" using assms(1) by (intro mult_le_mono2; simp)+
  then show "\<not> shrink_suspect x g" "\<not> growth_suspect x g"
    unfolding shrink_suspect_def growth_suspect_def assms(3) pct_values [OF assms(1,2)] by (simp_all only: not_less)
qed

lemma Admit_config [simp]:
  "vg_views_to_accept (snd (Admit x g)) = vg_views_to_accept g" "vg_shrink_pct (snd (Admit x g)) = vg_shrink_pct g"
  by (cases x g rule: Admit_cases; auto simp: admit_empty_def admit_suspect_def Let_def)+

text \<open>An admitted view is no longer suspicious; a rejected one keeps its verdict and its streak grows.\<close>

lemma Admit_settles:
  assumes "0 \<le> vg_shrink_pct g" "vg_shrink_pct g \<le> 99" "fst (Admit x g)"
  shows "vg_have_baseline (snd (Admit x g))" "\<not> suspicious x (snd (Admit x g))"
proof -
  have "vg_have_baseline (snd (Admit x g)) \<and> \<not> suspicious x (snd (Admit x g))"
  proof (cases x g rule: Admit_cases)
    case first
    then have "vg_baseline (snd (Admit x g)) = x" "vg_stable_ref (snd (Admit x g)) = x" "vg_have_baseline (snd (Admit x g))" by simp_all
    then show ?thesis using not_suspect_at_ref [of "snd (Admit x g)" x] assms by (auto simp: suspicious_def)
  next
    case empty
    then show ?thesis using assms by (auto simp: admit_empty_def Let_def suspicious_def split: if_splits)
  next
    case suspect
    then have "vg_baseline (snd (Admit x g)) = x" "vg_stable_ref (snd (Admit x g)) = x"
      "vg_have_baseline (snd (Admit x g))"
      using assms by (auto simp: admit_suspect_def Let_def split: if_splits)
    then show ?thesis using not_suspect_at_ref [of "snd (Admit x g)" x] assms by (auto simp: suspicious_def)
  next
    case (plain k)
    let ?g = "snd (Admit x g)"
    have f: "vg_baseline ?g = x" "vg_shrink_pct ?g = vg_shrink_pct g" "vg_have_baseline ?g" "vg_stable_ref ?g = x \<or> vg_stable_ref ?g = vg_stable_ref g"
      using plain by (auto simp: adopt_def Let_def)
    then show ?thesis
    proof (cases "vg_stable_ref ?g = x")
      case True
      then show ?thesis using not_suspect_at_ref [of ?g x] assms f by (auto simp: suspicious_def)
    next
      case False
      then have "vg_stable_ref ?g = vg_stable_ref g" using f by simp
      then show ?thesis using plain(2) f by (auto simp: suspicious_def shrink_suspect_def growth_suspect_def)
    qed
  qed
  then show "vg_have_baseline (snd (Admit x g))" "\<not> suspicious x (snd (Admit x g))" by simp_all
qed

lemma Admit_rejects:
  assumes "\<not> fst (Admit x g)"
  shows "vg_have_baseline (snd (Admit x g))" "streak_for x (snd (Admit x g)) = streak_for x g + 1"
  by (cases x g rule: Admit_cases; use assms in \<open>auto simp: admit_empty_def admit_suspect_def Let_def streak_for_def split: if_splits\<close>)+

lemma ends_with_mono: "ends_with k x h \<Longrightarrow> j \<le> k \<Longrightarrow> ends_with j x h"
  using set_drop_subset_set_drop [of "length h - k" "length h - j" h] unfolding ends_with_def by (auto simp: subset_iff)

lemma repeated_view:
  assumes "0 \<le> vg_shrink_pct g" "vg_shrink_pct g \<le> 99"
  shows "let g' = foldl (\<lambda>g x. snd (Admit x g)) g (replicate n x) in
     vg_views_to_accept g' = vg_views_to_accept g \<and> vg_shrink_pct g' = vg_shrink_pct g \<and>
     (vg_have_baseline g' \<and> suspicious x g' \<longrightarrow> n \<le> streak_for x g')"
proof (induction n)
  case (Suc n)
  let ?g = "foldl (\<lambda>g x. snd (Admit x g)) g (replicate n x)"
  have s: "foldl (\<lambda>g x. snd (Admit x g)) g (replicate (Suc n) x) = snd (Admit x ?g)"
    by (simp flip: replicate_append_same)
  show ?case
  proof (cases "fst (Admit x ?g)")
    case True
    then show ?thesis unfolding s using Suc assms Admit_settles [of ?g x] by (simp add: Let_def)
  next
    case False
    then have "vg_have_baseline ?g \<and> suspicious x ?g" using Admit_plain by blast
    then show ?thesis unfolding s using Suc Admit_rejects [OF False] by (simp add: Let_def)
  qed
qed (simp add: Let_def)

subsection \<open>Properties\<close>

text \<open>
  C33: the endpoint policy. A pick never fails on a non-empty list. It returns the first endpoint, in
  cyclic order from the cursor, whose backoff has expired; if all are in backoff it returns one that
  recovers no later than any other; the cursor moves behind the endpoint returned and nothing else
  changes. While no endpoint is in backoff, as many picks as there are endpoints return each endpoint
  in turn, once around the list from the cursor.
\<close>
theorem Pick_round_robin:
  assumes "endpoints_ok e" "me_eps e \<noteq> []" "n = length (me_eps e)" "c = me_cursor e"
  shows "(\<exists>k<n. Pick now e = (me_eps e ! ((c + k) mod n), e\<lparr>me_cursor := ((c + k) mod n + 1) mod n\<rparr>) \<and>
       (if \<exists>j<n. me_until e ! j \<le> now
        then me_until e ! ((c + k) mod n) \<le> now \<and> (\<forall>i<k. \<not> me_until e ! ((c + i) mod n) \<le> now)
        else \<forall>j<n. me_until e ! ((c + k) mod n) \<le> me_until e ! j)) \<and>
     (\<forall>ts. length ts = n \<and> (\<forall>t\<in>set ts. \<forall>j<n. me_until e ! j \<le> t) \<longrightarrow> picks ts e = rotate c (me_eps e))"
proof
  show "\<exists>k<n. Pick now e = (me_eps e ! ((c + k) mod n), e\<lparr>me_cursor := ((c + k) mod n + 1) mod n\<rparr>) \<and>
       (if \<exists>j<n. me_until e ! j \<le> now
        then me_until e ! ((c + k) mod n) \<le> now \<and> (\<forall>i<k. \<not> me_until e ! ((c + i) mod n) \<le> now)
        else \<forall>j<n. me_until e ! ((c + k) mod n) \<le> me_until e ! j)"
    using Pick_spec [OF assms, of now] by metis
  have "picks ts e = rotate c (me_eps e)" if "length ts = n" "\<forall>t\<in>set ts. \<forall>j<n. me_until e ! j \<le> t" for ts
    unfolding picks_all_ready [OF assms(1-3) that(2)] that(1) assms(4)
    by (rule nth_equalityI) (simp_all add: assms(3) nth_rotate)
  then show "\<forall>ts. length ts = n \<and> (\<forall>t\<in>set ts. \<forall>j<n. me_until e ! j \<le> t) \<longrightarrow> picks ts e = rotate c (me_eps e)" by blast
qed

definition sample_endpoints :: MdsEndpoints where
  "sample_endpoints = (new_endpoints [ascii ''m1'', ascii ''m2'', ascii ''m3''] 2000)\<lparr>me_cursor := 1\<rparr>"

theorem Pick_round_robin_witness:
  "picks [5, 6, 7] sample_endpoints = [ascii ''m2'', ascii ''m3'', ascii ''m1'']"
proof -
  let ?e = sample_endpoints
  have e: "endpoints_ok ?e" "me_eps ?e \<noteq> []" "3 = length (me_eps ?e)" "1 = me_cursor ?e" and u: "\<forall>j<3. me_until ?e ! j = 0"
    by (simp_all add: sample_endpoints_def new_endpoints_def endpoints_ok_def nth_Cons split: nat.splits)
  have "length [5 :: u64, 6, 7] = 3 \<and> (\<forall>t\<in>set [5, 6, 7]. \<forall>j<3. me_until ?e ! j \<le> t)" using u by simp
  then have "picks [5, 6, 7] ?e = rotate 1 (me_eps ?e)" using conjunct2 [OF Pick_round_robin [OF e, of 0]] by blast
  then show ?thesis by (simp add: sample_endpoints_def new_endpoints_def)
qed

text \<open>
  C32: hysteresis of the placement guard. After any sequence of polls, a view that would empty the
  ring or that deviates from the trusted reference by more than the tolerated share is admitted only if
  the polls just before it reported the same size, so many that with this one they make the
  configured number of consecutive sightings; and a view that is reported that many times in a row is
  always admitted at the last of them, whatever came before.
\<close>
theorem view_guard_hysteresis:
  assumes "1 \<le> views" "0 \<le> pct" "pct \<le> 99"
  shows "(fst (Admit x (guard_run views pct h)) \<and> h \<noteq> [] \<and> suspicious x (guard_run views pct h) \<longrightarrow> ends_with (nat views - 1) x h) \<and>
     fst (Admit x (guard_run views pct (h @ replicate (nat views - 1) x)))"
proof
  let ?g = "guard_run views pct h"
  have i: "guard_inv views pct h ?g" by (rule guard_inv_run)
  show "fst (Admit x ?g) \<and> h \<noteq> [] \<and> suspicious x ?g \<longrightarrow> ends_with (nat views - 1) x h"
  proof
    assume a: "fst (Admit x ?g) \<and> h \<noteq> [] \<and> suspicious x ?g"
    have "ends_with (streak_for x ?g) x h" using i by (auto simp: guard_inv_def streak_for_def)
    moreover have "nat views - 1 \<le> streak_for x ?g" using a i Admit_suspicious [of ?g x] by (auto simp: guard_inv_def)
    ultimately show "ends_with (nat views - 1) x h" by (rule ends_with_mono)
  qed
  let ?g' = "guard_run views pct (h @ replicate (nat views - 1) x)"
  have "?g' = foldl (\<lambda>g x. snd (Admit x g)) ?g (replicate (nat views - 1) x)" by (simp add: guard_run_def)
  then have "vg_views_to_accept ?g' = views" "vg_have_baseline ?g' \<and> suspicious x ?g' \<longrightarrow> nat views - 1 \<le> streak_for x ?g'"
    using repeated_view [of ?g "nat views - 1" x] i assms by (auto simp: guard_inv_def Let_def)
  then show "fst (Admit x ?g')" using Admit_plain [of ?g' x] Admit_suspicious [of ?g' x] assms(1) by fastforce
qed

theorem view_guard_hysteresis_witness:
  "\<not> fst (Admit 2 (guard_run 3 50 [8, 8, 2])) \<and> fst (Admit 2 (guard_run 3 50 [8, 8, 2, 2]))"
proof -
  have p: "unat (50 :: u32) = 50" "unat (150 :: u32) = 150" by simp_all
  have "suspicious 2 (guard_run 3 50 [8, 8, 2])"
    by (simp add: suspicious_def guard_run_def new_guard_def Admit_def note_sighting_def adopt_def admit_suspect_def shrink_suspect_def growth_suspect_def Let_def)
  moreover have "\<not> ends_with (nat 3 - 1) 2 [8, 8, 2]" by (simp add: ends_with_def)
  ultimately have "\<not> fst (Admit 2 (guard_run 3 50 [8, 8, 2]))"
    using view_guard_hysteresis [of 3 50 2 "[8, 8, 2]"] by auto
  moreover have "fst (Admit 2 (guard_run 3 50 ([8, 8] @ replicate (nat 3 - 1) 2)))"
    using view_guard_hysteresis [of 3 50 2 "[8, 8]"] by auto
  ultimately show ?thesis by (simp add: numeral_eq_Suc)
qed

end
