(* ===== verification/Resource_Budget.thy ===== *)
theory Resource_Budget
  imports Prelude
begin

text \<open>
  The admission budget for RDMA resources, \<^verbatim>\<open>transport/rdma_resource_budget.h\<close>: the four counted
  dimensions at their machine width, the target computed from the topology, admission with and
  without waiting, release, and raising the limit. A blocked \<^verbatim>\<open>Acquire\<close> is split at the wait: what it
  does on entry, and what it does when it is woken or its timeout has passed; other calls run in between.
\<close>

record ResourceRequest =
  rr_endpoints :: u64
  rr_qps :: u64
  rr_wr_slots :: u64
  rr_registered_bytes :: u64

definition kMaxEndpoints :: u64 where
  "kMaxEndpoints = 65536"

definition AdaptiveBudgetTarget :: "u64 \<Rightarrow> u64 \<Rightarrow> u64 \<Rightarrow> u64 \<Rightarrow> u64 \<Rightarrow> ResourceRequest" where
  "AdaptiveBudgetTarget nodes endpoints_per_pool depth slot_bytes floor_endpoints =
     (let per_pool = (if endpoints_per_pool \<noteq> 0 then endpoints_per_pool else 1);
          lanes = (if per_pool > kMaxEndpoints div 2 then kMaxEndpoints else 2 * per_pool);
          e0 = (if nodes > kMaxEndpoints div lanes then kMaxEndpoints else nodes * lanes);
          e1 = (if e0 > kMaxEndpoints - e0 div 4 then kMaxEndpoints else e0 + e0 div 4);
          e2 = (if e1 < floor_endpoints then floor_endpoints else e1);
          endpoints = (if e2 > kMaxEndpoints then kMaxEndpoints else e2);
          d = (if depth \<noteq> 0 then depth else 1)
      in \<lparr>rr_endpoints = endpoints, rr_qps = endpoints, rr_wr_slots = endpoints * d,
          rr_registered_bytes = (if slot_bytes \<noteq> 0 \<and> endpoints \<le> - 1 div slot_bytes div d div 2 then 2 * slot_bytes * d * endpoints else - 1)\<rparr>)"

record ResourceBudget =
  bd_limit :: ResourceRequest
  bd_used :: ResourceRequest
  bd_timeouts :: u64
  bd_waiters_served :: u64
  bd_raises :: u64

definition no_resources :: ResourceRequest where
  "no_resources = \<lparr>rr_endpoints = 0, rr_qps = 0, rr_wr_slots = 0, rr_registered_bytes = 0\<rparr>"

definition new_budget :: "ResourceRequest \<Rightarrow> ResourceBudget" where
  "new_budget limit = \<lparr>bd_limit = limit, bd_used = no_resources, bd_timeouts = 0, bd_waiters_served = 0, bd_raises = 0\<rparr>"

definition AddFits :: "u64 \<Rightarrow> u64 \<Rightarrow> u64 \<Rightarrow> bool" where
  "AddFits used request limit \<longleftrightarrow> request \<le> limit \<and> used \<le> limit - request"

definition FitsLimit :: "ResourceRequest \<Rightarrow> ResourceBudget \<Rightarrow> bool" where
  "FitsLimit r b \<longleftrightarrow> rr_endpoints r \<le> rr_endpoints (bd_limit b) \<and> rr_qps r \<le> rr_qps (bd_limit b) \<and>
     rr_wr_slots r \<le> rr_wr_slots (bd_limit b) \<and> rr_registered_bytes r \<le> rr_registered_bytes (bd_limit b)"

definition FitsAvailable :: "ResourceRequest \<Rightarrow> ResourceBudget \<Rightarrow> bool" where
  "FitsAvailable r b \<longleftrightarrow> AddFits (rr_endpoints (bd_used b)) (rr_endpoints r) (rr_endpoints (bd_limit b)) \<and>
     AddFits (rr_qps (bd_used b)) (rr_qps r) (rr_qps (bd_limit b)) \<and>
     AddFits (rr_wr_slots (bd_used b)) (rr_wr_slots r) (rr_wr_slots (bd_limit b)) \<and>
     AddFits (rr_registered_bytes (bd_used b)) (rr_registered_bytes r) (rr_registered_bytes (bd_limit b))"

definition budget_Add :: "ResourceRequest \<Rightarrow> ResourceRequest \<Rightarrow> ResourceRequest" where
  "budget_Add v a = \<lparr>rr_endpoints = rr_endpoints v + rr_endpoints a, rr_qps = rr_qps v + rr_qps a,
     rr_wr_slots = rr_wr_slots v + rr_wr_slots a, rr_registered_bytes = rr_registered_bytes v + rr_registered_bytes a\<rparr>"

definition budget_Subtract :: "ResourceRequest \<Rightarrow> ResourceRequest \<Rightarrow> ResourceRequest" where
  "budget_Subtract v a = \<lparr>rr_endpoints = rr_endpoints v - rr_endpoints a, rr_qps = rr_qps v - rr_qps a,
     rr_wr_slots = rr_wr_slots v - rr_wr_slots a, rr_registered_bytes = rr_registered_bytes v - rr_registered_bytes a\<rparr>"

definition budget_grant :: "ResourceRequest \<Rightarrow> ResourceBudget \<Rightarrow> ResourceBudget" where
  "budget_grant r b = b\<lparr>bd_used := budget_Add (bd_used b) r, bd_waiters_served := bd_waiters_served b + 1\<rparr>"

definition budget_TryAcquire :: "ResourceRequest \<Rightarrow> ResourceBudget \<Rightarrow> bool \<times> ResourceBudget" where
  "budget_TryAcquire r b = (if \<not> FitsLimit r b \<or> \<not> FitsAvailable r b then (False, b) else (True, budget_grant r b))"

datatype AcquireStart = AcqGranted | AcqRefused | AcqBlocked

definition acquire_enter :: "ResourceRequest \<Rightarrow> int \<Rightarrow> ResourceBudget \<Rightarrow> AcquireStart \<times> ResourceBudget" where
  "acquire_enter r timeout_ms b =
     (if \<not> FitsLimit r b then (AcqRefused, b)
      else if FitsAvailable r b then (AcqGranted, budget_grant r b)
      else if timeout_ms \<le> 0 then (AcqRefused, b\<lparr>bd_timeouts := bd_timeouts b + 1\<rparr>)
      else (AcqBlocked, b))"

definition acquire_resume :: "ResourceRequest \<Rightarrow> bool \<Rightarrow> ResourceBudget \<Rightarrow> AcquireStart \<times> ResourceBudget" where
  "acquire_resume r expired b =
     (if FitsAvailable r b then (AcqGranted, budget_grant r b)
      else if expired then (AcqRefused, b\<lparr>bd_timeouts := bd_timeouts b + 1\<rparr>)
      else (AcqBlocked, b))"

definition budget_Release :: "ResourceRequest \<Rightarrow> ResourceBudget \<Rightarrow> ResourceBudget" where
  "budget_Release r b = b\<lparr>bd_used := budget_Subtract (bd_used b) r\<rparr>"

definition RaiseLimit :: "ResourceRequest \<Rightarrow> ResourceBudget \<Rightarrow> bool \<times> ResourceBudget" where
  "RaiseLimit t b =
     (let l = bd_limit b;
          raised = (rr_endpoints t > rr_endpoints l \<or> rr_qps t > rr_qps l \<or> rr_wr_slots t > rr_wr_slots l \<or> rr_registered_bytes t > rr_registered_bytes l);
          l' = \<lparr>rr_endpoints = max (rr_endpoints l) (rr_endpoints t), rr_qps = max (rr_qps l) (rr_qps t),
                rr_wr_slots = max (rr_wr_slots l) (rr_wr_slots t), rr_registered_bytes = max (rr_registered_bytes l) (rr_registered_bytes t)\<rparr>
      in (raised, if raised then b\<lparr>bd_limit := l', bd_raises := bd_raises b + 1\<rparr> else b))"

subsection \<open>Every use of a budget\<close>

text \<open>
  A budget together with the grants its users hold: a grant is added when a call returns success, and
  released once.
\<close>

inductive budget_run :: "ResourceRequest \<Rightarrow> ResourceBudget \<Rightarrow> ResourceRequest list \<Rightarrow> bool" for limit where
  start: "budget_run limit (new_budget limit) []"
| try_acquire: "budget_run limit b out \<Longrightarrow> budget_TryAcquire r b = (ok, b') \<Longrightarrow> budget_run limit b' (if ok then r # out else out)"
| enter: "budget_run limit b out \<Longrightarrow> acquire_enter r t b = (res, b') \<Longrightarrow> budget_run limit b' (if res = AcqGranted then r # out else out)"
| resume: "budget_run limit b out \<Longrightarrow> acquire_resume r e b = (res, b') \<Longrightarrow> budget_run limit b' (if res = AcqGranted then r # out else out)"
| release: "budget_run limit b out \<Longrightarrow> r \<in> set out \<Longrightarrow> budget_run limit (budget_Release r b) (remove1 r out)"
| raise: "budget_run limit b out \<Longrightarrow> RaiseLimit t b = (raised, b') \<Longrightarrow> budget_run limit b' out"

text \<open>One dimension of the account: what is used is the sum of the grants, without wrap-around, and within the limit.\<close>

definition dim_ok :: "(ResourceRequest \<Rightarrow> u64) \<Rightarrow> ResourceBudget \<Rightarrow> ResourceRequest list \<Rightarrow> bool" where
  "dim_ok f b out \<longleftrightarrow> unat (f (bd_used b)) = (\<Sum>r\<leftarrow>out. unat (f r)) \<and> f (bd_used b) \<le> f (bd_limit b)"

definition dimensions :: "(ResourceRequest \<Rightarrow> u64) set" where
  "dimensions = {rr_endpoints, rr_qps, rr_wr_slots, rr_registered_bytes}"

definition budget_ok :: "ResourceBudget \<Rightarrow> ResourceRequest list \<Rightarrow> bool" where
  "budget_ok b out \<longleftrightarrow> (\<forall>f\<in>dimensions. dim_ok f b out)"

lemma dimensionsE:
  assumes "f \<in> dimensions"
  obtains "f = rr_endpoints" | "f = rr_qps" | "f = rr_wr_slots" | "f = rr_registered_bytes"
  using assms by (auto simp: dimensions_def)

lemma AddFits_sum:
  assumes "AddFits u r l"
  shows "unat (u + r) = unat u + unat r" "u + r \<le> l"
proof -
  have l: "unat l < 2 ^ LENGTH(64)" by (rule unsigned_less)
  have "unat (l - r) = unat l - unat r" using assms by (simp add: AddFits_def unat_sub word_le_nat_alt)
  then have s: "unat u + unat r \<le> unat l" using assms by (auto simp: AddFits_def word_le_nat_alt le_diff_conv2)
  then show u: "unat (u + r) = unat u + unat r" using l by (simp add: unat_word_ariths)
  show "u + r \<le> l" unfolding word_le_nat_alt u by (rule s)
qed

lemma dim_grant:
  assumes "dim_ok f b out" "FitsAvailable r b" "f \<in> dimensions"
  shows "dim_ok f (budget_grant r b) (r # out)"
proof -
  have "AddFits (f (bd_used b)) (f r) (f (bd_limit b))" "f (bd_used (budget_grant r b)) = f (bd_used b) + f r" "bd_limit (budget_grant r b) = bd_limit b"
    using assms(2,3) by (auto elim!: dimensionsE simp: FitsAvailable_def budget_grant_def budget_Add_def)
  then show ?thesis using assms(1) AddFits_sum by (simp add: dim_ok_def)
qed

lemma dim_release:
  assumes "dim_ok f b out" "r \<in> set out" "f \<in> dimensions"
  shows "dim_ok f (budget_Release r b) (remove1 r out)"
proof -
  have s: "(\<Sum>x\<leftarrow>out. unat (f x)) = unat (f r) + (\<Sum>x\<leftarrow>remove1 r out. unat (f x))" using assms(2) by (rule sum_list_map_remove1)
  then have le: "f r \<le> f (bd_used b)" using assms(1) by (simp add: dim_ok_def word_le_nat_alt)
  then have u: "unat (f (bd_used b) - f r) = unat (f (bd_used b)) - unat (f r)" by (rule unat_sub)
  have "f (bd_used (budget_Release r b)) = f (bd_used b) - f r" "bd_limit (budget_Release r b) = bd_limit b"
    using assms(3) by (auto elim!: dimensionsE simp: budget_Release_def budget_Subtract_def)
  then show ?thesis using assms(1) s u by (auto simp: dim_ok_def word_le_nat_alt)
qed

lemma RaiseLimit_monotone:
  assumes "RaiseLimit t b = (raised, b')" "f \<in> dimensions"
  shows "f (bd_limit b) \<le> f (bd_limit b')" "f t \<le> f (bd_limit b')" "bd_used b' = bd_used b"
  using assms by (auto elim!: dimensionsE simp: RaiseLimit_def Let_def split: if_splits)

lemma budget_run_ok: "budget_run limit b out \<Longrightarrow> budget_ok b out"
proof (induction rule: budget_run.induct)
  case start
  show ?case by (auto simp: budget_ok_def dim_ok_def dimensions_def new_budget_def no_resources_def)
next
  case (try_acquire b out r ok b')
  then show ?case by (auto simp: budget_ok_def budget_TryAcquire_def dim_grant split: if_splits)
next
  case (enter b out r t res b')
  then show ?case by (auto simp: budget_ok_def acquire_enter_def dim_grant split: if_splits) (auto simp: dim_ok_def)
next
  case (resume b out r e res b')
  then show ?case by (auto simp: budget_ok_def acquire_resume_def dim_grant split: if_splits) (auto simp: dim_ok_def)
next
  case (release b out r)
  then show ?case by (auto simp: budget_ok_def dim_release)
next
  case (raise b out t raised b')
  then show ?case using RaiseLimit_monotone [OF raise.hyps(2)] by (fastforce simp: budget_ok_def dim_ok_def intro: order_trans)
qed

lemma budget_run_limit: "budget_run limit b out \<Longrightarrow> f \<in> dimensions \<Longrightarrow> f limit \<le> f (bd_limit b)"
proof (induction rule: budget_run.induct)
  case (raise b out t raised b')
  then show ?case using RaiseLimit_monotone(1) [OF raise.hyps(2)] by (blast intro: order_trans)
qed (auto simp: new_budget_def budget_TryAcquire_def acquire_enter_def acquire_resume_def budget_Release_def budget_grant_def split: if_splits)

lemma AddFits_iff: "AddFits u r l \<longleftrightarrow> unat u + unat r \<le> unat l"
  using AddFits_sum [of u r l] by (auto simp: AddFits_def word_le_nat_alt unat_sub)

lemma FitsAvailable_iff: "FitsAvailable r b \<longleftrightarrow> (\<forall>f\<in>dimensions. unat (f (bd_used b)) + unat (f r) \<le> unat (f (bd_limit b)))"
  by (simp add: FitsAvailable_def AddFits_iff dimensions_def)

lemma FitsAvailable_FitsLimit: "FitsAvailable r b \<Longrightarrow> FitsLimit r b"
  by (simp add: FitsAvailable_def FitsLimit_def AddFits_def)

text \<open>
  C34: the budget is never overcommitted and never refuses what fits. After any interleaving of
  admissions, waits, timeouts, releases and raises, the amount recorded as used is, in each of the four
  dimensions, exactly the sum of the grants still held, computed without wrap-around, and stays within
  the limit, which never falls below its first value. A request is granted exactly when the grants held
  and the request together stay within the limit in every dimension.
\<close>
theorem budget_exact:
  assumes "budget_run limit b out"
  shows "(\<forall>f\<in>{rr_endpoints, rr_qps, rr_wr_slots, rr_registered_bytes}.
       unat (f (bd_used b)) = (\<Sum>r\<leftarrow>out. unat (f r)) \<and> f (bd_used b) \<le> f (bd_limit b) \<and> f limit \<le> f (bd_limit b)) \<and>
     (fst (budget_TryAcquire r b) \<longleftrightarrow>
       (\<forall>f\<in>{rr_endpoints, rr_qps, rr_wr_slots, rr_registered_bytes}. (\<Sum>x\<leftarrow>out. unat (f x)) + unat (f r) \<le> unat (f (bd_limit b))))"
proof -
  have o: "\<forall>f\<in>dimensions. unat (f (bd_used b)) = (\<Sum>r\<leftarrow>out. unat (f r)) \<and> f (bd_used b) \<le> f (bd_limit b) \<and> f limit \<le> f (bd_limit b)"
    using budget_run_ok [OF assms] budget_run_limit [OF assms] by (simp add: budget_ok_def dim_ok_def)
  have "fst (budget_TryAcquire r b) \<longleftrightarrow> FitsAvailable r b" using FitsAvailable_FitsLimit by (auto simp: budget_TryAcquire_def)
  also have "\<dots> \<longleftrightarrow> (\<forall>f\<in>dimensions. (\<Sum>x\<leftarrow>out. unat (f x)) + unat (f r) \<le> unat (f (bd_limit b)))"
    unfolding FitsAvailable_iff using o by simp
  finally show ?thesis using o unfolding dimensions_def [symmetric] by blast
qed

definition sample_limit :: ResourceRequest where
  "sample_limit = \<lparr>rr_endpoints = 2, rr_qps = 2, rr_wr_slots = 8, rr_registered_bytes = 4096\<rparr>"

definition sample_request :: ResourceRequest where
  "sample_request = \<lparr>rr_endpoints = 1, rr_qps = 1, rr_wr_slots = 8, rr_registered_bytes = 1024\<rparr>"

theorem budget_exact_witness:
  "budget_run sample_limit (budget_grant sample_request (new_budget sample_limit)) [sample_request] \<and>
   \<not> fst (budget_TryAcquire sample_request (budget_grant sample_request (new_budget sample_limit)))"
proof -
  let ?b = "new_budget sample_limit"
  have "budget_TryAcquire sample_request ?b = (True, budget_grant sample_request ?b)"
    by (simp add: budget_TryAcquire_def FitsLimit_def FitsAvailable_def AddFits_def new_budget_def sample_limit_def sample_request_def no_resources_def)
  then have r: "budget_run sample_limit (budget_grant sample_request ?b) [sample_request]"
    using budget_run.try_acquire [OF budget_run.start, of sample_request sample_limit True] by simp
  have "\<not> unat (rr_wr_slots sample_request) + unat (rr_wr_slots sample_request) \<le> unat (rr_wr_slots sample_limit)"
    by (simp add: sample_limit_def sample_request_def)
  then show ?thesis using r budget_exact [OF r, of sample_request] by (simp add: budget_grant_def new_budget_def)
qed

end
