(* ===== verification/Peer_Health.thy ===== *)
theory Peer_Health
  imports Prelude
begin

text \<open>
  The client's view of its peers, \<^verbatim>\<open>client/peer_health.h\<close>: cooldown with exponential backoff after
  failures, suppression of the cooldown for peers that answered recently, recovery by served
  operations and by probes, the bounded recency list that caps all per-peer state, and the counters.
  The rendering of the counters as text is not modelled. The second part holds the splitting of
  batches over connections, \<^verbatim>\<open>client/group_shard.h\<close>.
\<close>

record PeerHealth =
  ph_base_cooldown_ms :: u64
  ph_max_cooldown_ms :: u64
  ph_busy_grace_ms :: u64
  ph_until :: "bytes \<rightharpoonup> u64"
  ph_fail_streak :: "bytes \<rightharpoonup> u32"
  ph_peer_errors :: "bytes \<rightharpoonup> u64"
  ph_peer_lru :: "bytes list"
  ph_last_good :: "bytes \<rightharpoonup> u64"
  ph_checks :: u64
  ph_unhealthy_skips :: u64
  ph_errors :: u64
  ph_marked_bad :: u64
  ph_served :: u64
  ph_recovered :: u64
  ph_busy_suppressed :: u64

definition kMaxPeers :: nat where
  "kMaxPeers = 4096"


definition out_of_cooldown :: "bytes \<Rightarrow> u64 \<Rightarrow> PeerHealth \<Rightarrow> bool" where
  "out_of_cooldown peer now p \<longleftrightarrow> (case ph_until p peer of None \<Rightarrow> True | Some u \<Rightarrow> u \<le> now)"


definition evict_oldest :: "PeerHealth \<Rightarrow> PeerHealth" where
  "evict_oldest p =
     (let v = hd (ph_peer_lru p)
      in p\<lparr>ph_until := (ph_until p)(v := None), ph_fail_streak := (ph_fail_streak p)(v := None),
           ph_peer_errors := (ph_peer_errors p)(v := None), ph_last_good := (ph_last_good p)(v := None), ph_peer_lru := tl (ph_peer_lru p)\<rparr>)"

definition TrackLocked :: "bytes \<Rightarrow> PeerHealth \<Rightarrow> PeerHealth" where
  "TrackLocked peer p =
     (if peer \<in> set (ph_peer_lru p) then p\<lparr>ph_peer_lru := remove1 peer (ph_peer_lru p) @ [peer]\<rparr>
      else let p1 = (if length (ph_peer_lru p) = kMaxPeers then evict_oldest p else p)
           in p1\<lparr>ph_peer_lru := ph_peer_lru p1 @ [peer]\<rparr>)"

definition ClearLocked :: "bytes \<Rightarrow> PeerHealth \<Rightarrow> PeerHealth" where
  "ClearLocked peer p =
     (let p1 = p\<lparr>ph_fail_streak := (ph_fail_streak p)(peer := None)\<rparr>
      in if ph_until p1 peer \<noteq> None then p1\<lparr>ph_until := (ph_until p1)(peer := None), ph_recovered := ph_recovered p1 + 1\<rparr> else p1)"

definition alive_busy :: "bytes \<Rightarrow> u64 \<Rightarrow> PeerHealth \<Rightarrow> bool" where
  "alive_busy peer now p \<longleftrightarrow> (case ph_last_good p peer of None \<Rightarrow> False | Some g \<Rightarrow> now - g < ph_busy_grace_ms p)"

definition cooldown_ms :: "u32 \<Rightarrow> PeerHealth \<Rightarrow> u64" where
  "cooldown_ms fails p =
     (let shift = (if fails > 31 then 31 else unat (fails - 1));
          cd = push_bit shift (ph_base_cooldown_ms p)
      in if cd > ph_max_cooldown_ms p \<or> cd < ph_base_cooldown_ms p then ph_max_cooldown_ms p else cd)"

definition next_streak :: "bytes \<Rightarrow> PeerHealth \<Rightarrow> u32" where
  "next_streak peer p = (case ph_fail_streak p peer of None \<Rightarrow> 0 | Some n \<Rightarrow> n) + 1"

definition engage_cooldown :: "bytes \<Rightarrow> u64 \<Rightarrow> PeerHealth \<Rightarrow> PeerHealth" where
  "engage_cooldown peer now p =
     (let was_ok = out_of_cooldown peer now p; fails = next_streak peer p
      in p\<lparr>ph_fail_streak := (ph_fail_streak p)(peer \<mapsto> fails), ph_until := (ph_until p)(peer \<mapsto> now + cooldown_ms fails p),
           ph_marked_bad := (if was_ok then ph_marked_bad p + 1 else ph_marked_bad p),
           ph_peer_errors := (ph_peer_errors p)(peer \<mapsto> (case ph_peer_errors p peer of None \<Rightarrow> 0 | Some n \<Rightarrow> n) + 1)\<rparr>)"

definition MarkBad :: "bytes \<Rightarrow> u64 \<Rightarrow> PeerHealth \<Rightarrow> PeerHealth" where
  "MarkBad peer now p =
     (let p1 = TrackLocked peer (p\<lparr>ph_errors := ph_errors p + 1\<rparr>)
      in if alive_busy peer now p1 then p1\<lparr>ph_busy_suppressed := ph_busy_suppressed p1 + 1\<rparr>
         else engage_cooldown peer now p1)"



subsection \<open>Bounded state\<close>


definition peers_known :: "PeerHealth \<Rightarrow> bytes set" where
  "peers_known p = dom (ph_until p) \<union> dom (ph_fail_streak p) \<union> dom (ph_peer_errors p) \<union> dom (ph_last_good p)"

definition peers_ok :: "PeerHealth \<Rightarrow> bool" where
  "peers_ok p \<longleftrightarrow> distinct (ph_peer_lru p) \<and> length (ph_peer_lru p) \<le> kMaxPeers \<and> peers_known p \<subseteq> set (ph_peer_lru p)"

lemma peers_ok_Track:
  assumes "peers_ok p"
  shows "peers_ok (TrackLocked peer p)" "peer \<in> set (ph_peer_lru (TrackLocked peer p))"
    "ph_until (TrackLocked peer p) peer = ph_until p peer" "ph_last_good (TrackLocked peer p) peer = ph_last_good p peer"
    "ph_fail_streak (TrackLocked peer p) peer = ph_fail_streak p peer" "ph_busy_grace_ms (TrackLocked peer p) = ph_busy_grace_ms p"
    "ph_base_cooldown_ms (TrackLocked peer p) = ph_base_cooldown_ms p" "ph_max_cooldown_ms (TrackLocked peer p) = ph_max_cooldown_ms p"
proof -
  consider (known) "peer \<in> set (ph_peer_lru p)" | (room) "peer \<notin> set (ph_peer_lru p)" "length (ph_peer_lru p) < kMaxPeers"
    | (full) v l where "peer \<notin> set (ph_peer_lru p)" "length (ph_peer_lru p) = kMaxPeers" "ph_peer_lru p = v # l"
  proof (cases "ph_peer_lru p")
    case Nil
    then show ?thesis using room by (simp add: kMaxPeers_def)
  next
    case (Cons v l)
    then show ?thesis using assms known room full by (cases "length (ph_peer_lru p) < kMaxPeers") (auto simp: peers_ok_def)
  qed
  then have "peers_ok (TrackLocked peer p) \<and> peer \<in> set (ph_peer_lru (TrackLocked peer p)) \<and>
     ph_until (TrackLocked peer p) peer = ph_until p peer \<and> ph_last_good (TrackLocked peer p) peer = ph_last_good p peer \<and>
     ph_fail_streak (TrackLocked peer p) peer = ph_fail_streak p peer \<and> ph_busy_grace_ms (TrackLocked peer p) = ph_busy_grace_ms p \<and>
     ph_base_cooldown_ms (TrackLocked peer p) = ph_base_cooldown_ms p \<and> ph_max_cooldown_ms (TrackLocked peer p) = ph_max_cooldown_ms p"
  proof cases
    case known
    moreover have "length (remove1 peer (ph_peer_lru p)) + 1 = length (ph_peer_lru p)"
      using known by (simp add: length_remove1) (metis One_nat_def Suc_pred length_pos_if_in_set)
    ultimately show ?thesis using assms by (auto simp: TrackLocked_def peers_ok_def peers_known_def)
  next
    case room
    then show ?thesis using assms by (auto simp: TrackLocked_def peers_ok_def peers_known_def)
  next
    case full
    then show ?thesis using assms
      by (auto simp: TrackLocked_def peers_ok_def peers_known_def evict_oldest_def dom_def subset_iff split: if_splits)
  qed
  then show "peers_ok (TrackLocked peer p)" "peer \<in> set (ph_peer_lru (TrackLocked peer p))"
    "ph_until (TrackLocked peer p) peer = ph_until p peer" "ph_last_good (TrackLocked peer p) peer = ph_last_good p peer"
    "ph_fail_streak (TrackLocked peer p) peer = ph_fail_streak p peer" "ph_busy_grace_ms (TrackLocked peer p) = ph_busy_grace_ms p"
    "ph_base_cooldown_ms (TrackLocked peer p) = ph_base_cooldown_ms p" "ph_max_cooldown_ms (TrackLocked peer p) = ph_max_cooldown_ms p"
    by blast+
qed







lemma MarkBad_until:
  assumes "peers_ok p"
  shows "ph_until (MarkBad peer now p) peer =
     (if alive_busy peer now p then ph_until p peer else Some (now + cooldown_ms (next_streak peer p) p))"
proof -
  let ?q = "p\<lparr>ph_errors := ph_errors p + 1\<rparr>"
  have "peers_ok ?q" using assms by (simp add: peers_ok_def peers_known_def)
  note t = peers_ok_Track(3-8) [OF this, of peer]
  have "alive_busy peer now (TrackLocked peer ?q) \<longleftrightarrow> alive_busy peer now p" using t by (simp add: alive_busy_def split: option.split)
  moreover have "cooldown_ms (next_streak peer (TrackLocked peer ?q)) (TrackLocked peer ?q) = cooldown_ms (next_streak peer p) p"
    using t by (simp add: cooldown_ms_def next_streak_def Let_def)
  ultimately show ?thesis using t(1) by (simp add: MarkBad_def Let_def engage_cooldown_def)
qed

lemma ClearLocked_until: "ph_until (ClearLocked peer p) peer = None"
  by (simp add: ClearLocked_def Let_def)

text \<open>
  A clock read before a concurrent success was recorded makes the subtraction wrap, and the grace
  window does not apply: the failure engages the cooldown of a peer that has just answered.
\<close>

lemma MarkBad_older_clock:
  assumes "peers_ok p" "ph_last_good p peer = Some (now + 1)"
  shows "ph_until (MarkBad peer now p) peer = Some (now + cooldown_ms (next_streak peer p) p)"
proof -
  have "now - (now + 1) = (- 1 :: u64)" by simp
  then have "\<not> alive_busy peer now p" using assms(2) word_n1_ge [of "ph_busy_grace_ms p"] by (simp add: alive_busy_def not_less)
  then show ?thesis using MarkBad_until [OF assms(1)] by simp
qed







subsection \<open>Splitting a batch\<close>

text \<open>
  One group is a peer with the indices of the batch it serves. The step \<open>per\<close> of the loop is positive
  whenever the loop runs.
\<close>

function shard_chunks :: "nat \<Rightarrow> 'i list \<Rightarrow> 'i list list" where
  "shard_chunks per idx = (if idx = [] \<or> per = 0 then [] else take per idx # shard_chunks per (drop per idx))"
  by pat_completeness auto
termination
  by (relation "measure (\<lambda>(per, idx). length idx)") auto

declare shard_chunks.simps [simp del]

definition shard_count :: "nat \<Rightarrow> nat \<Rightarrow> nat \<Rightarrow> nat" where
  "shard_count n target maxc = (let nsh = (n + target - 1) div target; nsh1 = (if nsh < 1 then 1 else nsh) in if nsh1 > maxc then maxc else nsh1)"

definition shard_group :: "nat \<Rightarrow> nat \<Rightarrow> 'k \<times> 'i list \<Rightarrow> ('k \<times> 'i list) list" where
  "shard_group target maxc g =
     (let nsh = shard_count (length (snd g)) target maxc
      in if nsh \<le> 1 then [g]
         else map (Pair (fst g)) (shard_chunks ((length (snd g) + nsh - 1) div nsh) (snd g)))"

definition ShardGroups :: "('k \<times> 'i list) list \<Rightarrow> nat \<Rightarrow> nat \<Rightarrow> ('k \<times> 'i list) list" where
  "ShardGroups groups target maxc = (if maxc \<le> 1 \<or> target = 0 then groups else concat (map (shard_group target maxc) groups))"

lemma concat_shard_chunks: "0 < per \<Longrightarrow> concat (shard_chunks per idx) = idx"
  by (induction per idx rule: shard_chunks.induct) (subst shard_chunks.simps, simp)

lemma shard_chunks_size: "c \<in> set (shard_chunks per idx) \<Longrightarrow> c \<noteq> [] \<and> length c \<le> per"
proof (induction per idx rule: shard_chunks.induct)
  case (1 per idx)
  then show ?case by (subst (asm) (2) shard_chunks.simps) (auto split: if_splits)
qed

lemma shard_chunks_length: "length idx \<le> n * per \<Longrightarrow> length (shard_chunks per idx) \<le> n"
proof (induction per idx arbitrary: n rule: shard_chunks.induct)
  case (1 per idx)
  show ?case
  proof (cases "idx = [] \<or> per = 0")
    case False
    then obtain m where "n = Suc m" using "1.prems" by (cases n) auto
    then have "length (shard_chunks per (drop per idx)) \<le> m" using 1 False by (intro "1.IH") auto
    then show ?thesis using False \<open>n = Suc m\<close> by (subst shard_chunks.simps) simp
  qed (subst shard_chunks.simps, simp)
qed

lemma ceil_mult: "0 < b \<Longrightarrow> a \<le> b * ((a + b - 1) div (b :: nat))"
  using dividend_less_times_div [of b "a + b - 1"] by simp

lemma ceil_le:
  assumes "0 < b" "a \<le> b * c"
  shows "(a + b - 1) div b \<le> (c :: nat)"
proof -
  have "a + b - 1 < Suc c * b" using assms by (simp add: mult.commute)
  then have "(a + b - 1) div b < Suc c" by (rule less_mult_imp_div_less)
  then show ?thesis by simp
qed

lemma shard_count_bounds:
  assumes "0 < target" "1 < maxc"
  shows "shard_count n target maxc \<le> maxc" "1 \<le> shard_count n target maxc"
    "(n + target - 1) div target \<le> maxc \<Longrightarrow> n \<le> shard_count n target maxc * target"
proof -
  show "shard_count n target maxc \<le> maxc" "1 \<le> shard_count n target maxc" using assms by (auto simp: shard_count_def Let_def)
  show "n \<le> shard_count n target maxc * target" if "(n + target - 1) div target \<le> maxc"
    using that ceil_mult [OF assms(1), of n] assms by (auto simp: shard_count_def Let_def mult.commute)
qed

lemma shard_group_spec:
  assumes "0 < target" "1 < maxc"
  shows "concat (map snd (shard_group target maxc g)) = snd g" "\<forall>s\<in>set (shard_group target maxc g). fst s = fst g"
    "length (shard_group target maxc g) \<le> maxc"
    "(length (snd g) + target - 1) div target \<le> maxc \<Longrightarrow> \<forall>s\<in>set (shard_group target maxc g). length (snd s) \<le> target"
    "maxc < (length (snd g) + target - 1) div target \<Longrightarrow>
       \<forall>s\<in>set (shard_group target maxc g). length (snd s) \<le> (length (snd g) + maxc - 1) div maxc"
    "snd g \<noteq> [] \<Longrightarrow> \<forall>s\<in>set (shard_group target maxc g). snd s \<noteq> []"
proof -
  let ?n = "length (snd g)" and ?c = "shard_count (length (snd g)) target maxc"
  let ?per = "(?n + ?c - 1) div ?c"
  note b = shard_count_bounds [OF assms, of ?n]
  have c: "0 < ?c" "?n \<le> ?c * ?per" using b(2) ceil_mult [of ?c ?n] by simp_all
  have "concat (map snd (shard_group target maxc g)) = snd g \<and> (\<forall>s\<in>set (shard_group target maxc g). fst s = fst g) \<and>
     length (shard_group target maxc g) \<le> maxc \<and>
     ((?n + target - 1) div target \<le> maxc \<longrightarrow> (\<forall>s\<in>set (shard_group target maxc g). length (snd s) \<le> target))"
  proof (cases "?c \<le> 1")
    case True
    have s: "shard_group target maxc g = [g]" using True by (simp add: shard_group_def Let_def)
    have "?c = 1" using True b(2) by simp
    then have "?n \<le> target" if "(?n + target - 1) div target \<le> maxc" using b(3) [OF that] by simp
    then show ?thesis unfolding s using assms by simp
  next
    case False
    have "1 < maxc \<and> ?n \<noteq> 0" using False assms by (auto simp: shard_count_def Let_def split: if_splits)
    then have "0 < ?per" using c by (cases "?per") auto
    moreover have "length (shard_chunks ?per (snd g)) \<le> ?c" using c(2) by (rule shard_chunks_length)
    moreover have "?per \<le> target" if "(?n + target - 1) div target \<le> maxc"
      using b(3) [OF that] c(1) by (intro ceil_le) (simp_all add: mult.commute)
    ultimately show ?thesis using False b(1) shard_chunks_size [of _ ?per "snd g"]
      by (fastforce simp: shard_group_def Let_def comp_def concat_shard_chunks intro: order_trans)
  qed
  then show "concat (map snd (shard_group target maxc g)) = snd g" "\<forall>s\<in>set (shard_group target maxc g). fst s = fst g"
    "length (shard_group target maxc g) \<le> maxc"
    "(?n + target - 1) div target \<le> maxc \<Longrightarrow> \<forall>s\<in>set (shard_group target maxc g). length (snd s) \<le> target" by blast+
  show "\<forall>s\<in>set (shard_group target maxc g). length (snd s) \<le> (?n + maxc - 1) div maxc" if "maxc < (?n + target - 1) div target"
  proof -
    have "?c = maxc" using that assms by (simp add: shard_count_def Let_def)
    then show ?thesis using assms shard_chunks_size [of _ "(?n + maxc - 1) div maxc" "snd g"] by (auto simp: shard_group_def Let_def)
  qed
  show "\<forall>s\<in>set (shard_group target maxc g). snd s \<noteq> []" if "snd g \<noteq> []"
    using that shard_chunks_size [of _ ?per "snd g"] by (auto simp: shard_group_def Let_def)
qed

text \<open>The batch as a list of peer and index, in the order in which it is sent.\<close>

definition batch_items :: "('k \<times> 'i list) list \<Rightarrow> ('k \<times> 'i) list" where
  "batch_items groups = concat (map (\<lambda>(k, idx). map (Pair k) idx) groups)"

lemma batch_items_same_peer:
  "\<forall>s\<in>set gs. fst s = k \<Longrightarrow> batch_items gs = map (Pair k) (concat (map snd gs))"
  by (induction gs) (auto simp: batch_items_def)

lemma batch_items_concat: "batch_items (concat gss) = concat (map batch_items gss)"
  by (induction gss) (auto simp: batch_items_def)

text \<open>
  C36: splitting a batch over connections changes nothing but its grouping. The result is, group by
  group and in the same order, a list of parts of that group: each part goes to the group's peer, the
  parts put together are the group's indices in their order, there are at most \<open>maxc\<close> of them and none is
  empty unless the group is. No part exceeds the target size when \<open>maxc\<close> parts of that size can hold
  the group; otherwise none exceeds the group's length divided by \<open>maxc\<close>, rounded up. So every index
  is sent exactly once, to the peer it was meant for.
\<close>
theorem ShardGroups_partition:
  assumes "0 < target" "1 < maxc"
  shows "batch_items (ShardGroups groups target maxc) = batch_items groups \<and>
     (\<exists>parts. ShardGroups groups target maxc = concat parts \<and>
        list_all2 (\<lambda>g ps. (\<forall>s\<in>set ps. fst s = fst g) \<and> concat (map snd ps) = snd g \<and> length ps \<le> maxc \<and>
            (snd g \<noteq> [] \<longrightarrow> (\<forall>s\<in>set ps. snd s \<noteq> [])) \<and>
            (\<forall>s\<in>set ps. length (snd s) \<le> (if (length (snd g) + target - 1) div target \<le> maxc then target
               else (length (snd g) + maxc - 1) div maxc)))
          groups parts)"
proof -
  note g = shard_group_spec [OF assms]
  have S: "ShardGroups groups target maxc = concat (map (shard_group target maxc) groups)" using assms by (simp add: ShardGroups_def)
  have b: "batch_items (shard_group target maxc x) = map (Pair (fst x)) (snd x)" for x
    unfolding batch_items_same_peer [OF g(2)] g(1) ..
  have "batch_items (ShardGroups groups target maxc) = batch_items groups"
    unfolding S batch_items_concat map_map comp_def b by (simp add: batch_items_def case_prod_unfold)
  moreover have "\<forall>s\<in>set (shard_group target maxc x). length (snd s) \<le> (if (length (snd x) + target - 1) div target \<le> maxc then target
      else (length (snd x) + maxc - 1) div maxc)" for x
    using g(4) [of x] g(5) [of x] by (cases "(length (snd x) + target - 1) div target \<le> maxc") auto
  ultimately show ?thesis using g(1,2,3,6) unfolding S
    by (intro conjI exI [of _ "map (shard_group target maxc) groups"]) (simp_all only: list_all2_map2 list_all2_same, blast)
qed

theorem ShardGroups_partition_witness:
  "batch_items (ShardGroups [(''n1'', [0, 1, 2, 3, 4 :: nat]), (''n2'', [5])] 2 4) =
     [(''n1'', 0), (''n1'', 1), (''n1'', 2), (''n1'', 3), (''n1'', 4), (''n2'', 5)]"
  using ShardGroups_partition [of 2 4 "[(''n1'', [0, 1, 2, 3, 4 :: nat]), (''n2'', [5])]"] by (simp add: batch_items_def)

end
