(* ===== verification/Digests.thy ===== *)
theory Digests
  imports Prelude
begin

text \<open>
  The two message digests of the code base: MD5 (\<^verbatim>\<open>utils/md5.h\<close>), which places nodes and keys on the
  client's ring, and SHA-256 (\<^verbatim>\<open>utils/sha256.h\<close>), which derives block keys. The streaming MD5 context and
  the one-shot SHA-256 are translated with their padding loops; both are shown to be the fold of
  their compression function over the blocks of the padded message. The MD5 of \<^verbatim>\<open>"abc"\<close> is the
  published test vector.
\<close>

subsection \<open>Blocks\<close>

text \<open>The complete 64-byte blocks of a byte string, and what is left over.\<close>

definition blocks64 :: "bytes \<Rightarrow> bytes list" where
  "blocks64 s = map (\<lambda>i. take 64 (drop (64 * i) s)) [0..<length s div 64]"

definition rest64 :: "bytes \<Rightarrow> bytes" where
  "rest64 s = drop (64 * (length s div 64)) s"

lemma blocks64_short [simp]: "length s < 64 \<Longrightarrow> blocks64 s = []" "length s < 64 \<Longrightarrow> rest64 s = s"
  by (simp_all add: blocks64_def rest64_def)

lemma blocks64_Cons:
  assumes "length b = 64"
  shows "blocks64 (b @ s) = b # blocks64 s" "rest64 (b @ s) = rest64 s"
proof -
  have n: "length (b @ s) div 64 = Suc (length s div 64)" using assms by simp
  show "blocks64 (b @ s) = b # blocks64 s" unfolding blocks64_def n map_upt_Suc using assms by simp
  show "rest64 (b @ s) = rest64 s" unfolding rest64_def n using assms by simp
qed

lemma length_rest64: "length (rest64 s) = length s mod 64"
  unfolding rest64_def by (simp add: minus_mult_div_eq_mod)

lemma blocks64_append: "blocks64 (s @ t) = blocks64 s @ blocks64 (rest64 s @ t) \<and> rest64 (s @ t) = rest64 (rest64 s @ t)"
proof (induction "length s" arbitrary: s rule: less_induct)
  case less
  show ?case
  proof (cases "length s < 64")
    case False
    then have b: "length (take 64 s) = 64" "length (drop 64 s) < length s" by simp_all
    note a = blocks64_Cons [OF b(1)]
    have st: "s @ t = take 64 s @ drop 64 s @ t" by (metis append.assoc append_take_drop_id)
    have e: "blocks64 (s @ t) = take 64 s # blocks64 (drop 64 s @ t)" "rest64 (s @ t) = rest64 (drop 64 s @ t)"
      "blocks64 s = take 64 s # blocks64 (drop 64 s)" "rest64 s = rest64 (drop 64 s)"
      unfolding st a using a [of "drop 64 s"] by simp_all
    show ?thesis unfolding e using less [OF b(2)] by simp
  qed simp
qed

lemma blocks64_one: "length s = 64 \<Longrightarrow> blocks64 s = [s] \<and> rest64 s = []"
  using blocks64_Cons [of s "[]"] by simp

subsection \<open>MD5\<close>

definition rol :: "u32 \<Rightarrow> nat \<Rightarrow> u32" where
  "rol x s = push_bit s x OR drop_bit (32 - s) x"

definition md5_K :: "u32 list" where
  "md5_K =
     [0xd76aa478, 0xe8c7b756, 0x242070db, 0xc1bdceee, 0xf57c0faf, 0x4787c62a, 0xa8304613, 0xfd469501,
      0x698098d8, 0x8b44f7af, 0xffff5bb1, 0x895cd7be, 0x6b901122, 0xfd987193, 0xa679438e, 0x49b40821,
      0xf61e2562, 0xc040b340, 0x265e5a51, 0xe9b6c7aa, 0xd62f105d, 0x02441453, 0xd8a1e681, 0xe7d3fbc8,
      0x21e1cde6, 0xc33707d6, 0xf4d50d87, 0x455a14ed, 0xa9e3e905, 0xfcefa3f8, 0x676f02d9, 0x8d2a4c8a,
      0xfffa3942, 0x8771f681, 0x6d9d6122, 0xfde5380c, 0xa4beea44, 0x4bdecfa9, 0xf6bb4b60, 0xbebfbc70,
      0x289b7ec6, 0xeaa127fa, 0xd4ef3085, 0x04881d05, 0xd9d4d039, 0xe6db99e5, 0x1fa27cf8, 0xc4ac5665,
      0xf4292244, 0x432aff97, 0xab9423a7, 0xfc93a039, 0x655b59c3, 0x8f0ccc92, 0xffeff47d, 0x85845dd1,
      0x6fa87e4f, 0xfe2ce6e0, 0xa3014314, 0x4e0811a1, 0xf7537e82, 0xbd3af235, 0x2ad7d2bb, 0xeb86d391]"

definition md5_S :: "nat list" where
  "md5_S = [7,12,17,22,7,12,17,22,7,12,17,22,7,12,17,22, 5,9,14,20,5,9,14,20,5,9,14,20,5,9,14,20,
            4,11,16,23,4,11,16,23,4,11,16,23,4,11,16,23, 6,10,15,21,6,10,15,21,6,10,15,21,6,10,15,21]"

text \<open>The context keeps the filled part of its 64-byte buffer.\<close>

record md5_Ctx =
  md5_a :: u32
  md5_b :: u32
  md5_c :: u32
  md5_d :: u32
  md5_len :: u64
  md5_buf :: bytes

definition md5_round :: "u32 list \<Rightarrow> u32 \<times> u32 \<times> u32 \<times> u32 \<Rightarrow> nat \<Rightarrow> u32 \<times> u32 \<times> u32 \<times> u32" where
  "md5_round M st i =
     (case st of (A, B, C, D) \<Rightarrow>
        let (F, g) = (if i < 16 then ((B AND C) OR (NOT B AND D), i)
                      else if i < 32 then ((D AND B) OR (NOT D AND C), (5 * i + 1) mod 16)
                      else if i < 48 then (B XOR C XOR D, (3 * i + 5) mod 16)
                      else (C XOR (B OR NOT D), (7 * i) mod 16));
            F' = F + A + md5_K ! i + M ! g
        in (D, B + rol F' (md5_S ! i), B, C))"

definition md5_Block :: "md5_Ctx \<Rightarrow> bytes \<Rightarrow> md5_Ctx" where
  "md5_Block m p =
     (let M = map (\<lambda>i. le_word (take 4 (drop (4 * i) p))) [0..<16];
          (A, B, C, D) = foldl (md5_round M) (md5_a m, md5_b m, md5_c m, md5_d m) [0..<64]
      in m\<lparr>md5_a := md5_a m + A, md5_b := md5_b m + B, md5_c := md5_c m + C, md5_d := md5_d m + D\<rparr>)"

definition md5_Init :: md5_Ctx where
  "md5_Init = \<lparr>md5_a = 0x67452301, md5_b = 0xefcdab89, md5_c = 0x98badcfe, md5_d = 0x10325476, md5_len = 0, md5_buf = []\<rparr>"

text \<open>
  The copy loop of \<^verbatim>\<open>Update\<close>. Between two iterations the buffer is never full, so the loop always
  takes at least one byte; a full buffer ends the function here and does not occur.
\<close>

function md5_feed :: "bytes \<Rightarrow> md5_Ctx \<Rightarrow> md5_Ctx" where
  "md5_feed data m =
     (if data = [] \<or> 64 \<le> length (md5_buf m) then m
      else let n = min (64 - length (md5_buf m)) (length data); buf = md5_buf m @ take n data
           in md5_feed (drop n data)
                (if length buf = 64 then (md5_Block m buf)\<lparr>md5_buf := []\<rparr> else m\<lparr>md5_buf := buf\<rparr>))"
  by pat_completeness auto
termination
  by (relation "measure (\<lambda>(data, m). length data)") auto

declare md5_feed.simps [simp del]

definition md5_Update :: "md5_Ctx \<Rightarrow> bytes \<Rightarrow> md5_Ctx" where
  "md5_Update m data = md5_feed data (m\<lparr>md5_len := md5_len m + of_nat (length data)\<rparr>)"

text \<open>The loop that pads with zero bytes until eight bytes are left in the block.\<close>

lemma md5_feed_one:
  assumes "length (md5_buf m) < 64"
  shows "length (md5_buf (md5_feed [x] m)) = Suc (length (md5_buf m)) mod 64"
  using assms by (subst md5_feed.simps) (auto simp: Let_def md5_feed.simps [of "[]"])

function md5_pad :: "md5_Ctx \<Rightarrow> md5_Ctx" where
  "md5_pad m =
     (if length (md5_buf m) = 56 \<or> 64 \<le> length (md5_buf m) then m else md5_pad (md5_Update m [0]))"
  by pat_completeness auto
termination
proof (relation "measure (\<lambda>m. (120 - length (md5_buf m)) mod 64)")
  fix m :: md5_Ctx
  assume a: "\<not> (length (md5_buf m) = 56 \<or> 64 \<le> length (md5_buf m))"
  let ?n = "length (md5_buf m)" and ?k = "length (md5_buf (md5_Update m [0]))"
  have k: "?k = Suc ?n mod 64" using a md5_feed_one [of "m\<lparr>md5_len := md5_len m + 1\<rparr>" 0] by (simp add: md5_Update_def)
  consider "?n = 63" | "56 < ?n" "?n < 63" | "?n < 56" using a by linarith
  then have "(120 - ?k) mod 64 < (120 - ?n) mod 64"
  proof cases
    case 3
    then have "(120 - ?n) mod 64 = 56 - ?n" "(120 - ?k) mod 64 = 55 - ?n"
      using k le_mod_geq [of 64 "120 - ?n"] le_mod_geq [of 64 "119 - ?n"] by simp_all
    then show ?thesis using 3 by simp
  qed (use k in auto)
  then show "(md5_Update m [0], m) \<in> measure (\<lambda>m. (120 - length (md5_buf m)) mod 64)" by simp
qed simp

declare md5_pad.simps [simp del]

definition md5_Final :: "md5_Ctx \<Rightarrow> bytes" where
  "md5_Final m =
     (let bits = md5_len m * 8;
          m1 = md5_Update (md5_pad (md5_Update m [0x80])) (PutU64 bits)
      in concat (map PutU32 [md5_a m1, md5_b m1, md5_c m1, md5_d m1]))"

definition Md5 :: "bytes \<Rightarrow> bytes" where
  "Md5 data = md5_Final (md5_Update md5_Init data)"

definition Md5_64 :: "bytes \<Rightarrow> u64" where
  "Md5_64 s = le_word (take 8 (Md5 s))"

definition Md5_32 :: "bytes \<Rightarrow> u32" where
  "Md5_32 s = le_word (take 4 (Md5 s))"

subsection \<open>SHA-256\<close>

definition RotR :: "u32 \<Rightarrow> nat \<Rightarrow> u32" where
  "RotR value bits = drop_bit bits value OR push_bit (32 - bits) value"

definition LoadBe32 :: "bytes \<Rightarrow> u32" where
  "LoadBe32 p = push_bit 24 (ucast (p ! 0)) OR push_bit 16 (ucast (p ! 1)) OR push_bit 8 (ucast (p ! 2)) OR ucast (p ! 3)"

definition StoreBe32 :: "u32 \<Rightarrow> bytes" where
  "StoreBe32 value = [ucast (drop_bit 24 value), ucast (drop_bit 16 value), ucast (drop_bit 8 value), ucast value]"

text \<open>The round constants of the source, in decimal: the first, 1116352408, is \<^verbatim>\<open>0x428a2f98\<close>.\<close>

definition sha_k :: "u32 list" where
  "sha_k =
     [1116352408, 1899447441, 3049323471, 3921009573, 961987163, 1508970993, 2453635748, 2870763221,
      3624381080, 310598401, 607225278, 1426881987, 1925078388, 2162078206, 2614888103, 3248222580,
      3835390401, 4022224774, 264347078, 604807628, 770255983, 1249150122, 1555081692, 1996064986,
      2554220882, 2821834349, 2952996808, 3210313671, 3336571891, 3584528711, 113926993, 338241895,
      666307205, 773529912, 1294757372, 1396182291, 1695183700, 1986661051, 2177026350, 2456956037,
      2730485921, 2820302411, 3259730800, 3345764771, 3516065817, 3600352804, 4094571909, 275423344,
      430227734, 506948616, 659060556, 883997877, 958139571, 1322822218, 1537002063, 1747873779,
      1955562222, 2024104815, 2227730452, 2361852424, 2428436474, 2756734187, 3204031479, 3329325298]"

definition sha_extend :: "u32 list \<Rightarrow> nat \<Rightarrow> u32 list" where
  "sha_extend w i =
     (let s0 = RotR (w ! (i - 15)) 7 XOR RotR (w ! (i - 15)) 18 XOR drop_bit 3 (w ! (i - 15));
          s1 = RotR (w ! (i - 2)) 17 XOR RotR (w ! (i - 2)) 19 XOR drop_bit 10 (w ! (i - 2))
      in w @ [w ! (i - 16) + s0 + w ! (i - 7) + s1])"

definition sha_schedule :: "bytes \<Rightarrow> u32 list" where
  "sha_schedule block = foldl sha_extend (map (\<lambda>i. LoadBe32 (drop (4 * i) block)) [0..<16]) [16..<64]"

type_synonym sha_state = "u32 \<times> u32 \<times> u32 \<times> u32 \<times> u32 \<times> u32 \<times> u32 \<times> u32"

definition sha_round :: "u32 list \<Rightarrow> sha_state \<Rightarrow> nat \<Rightarrow> sha_state" where
  "sha_round w st i =
     (case st of (a, b, c, d, e, f, g, h) \<Rightarrow>
        let s1 = RotR e 6 XOR RotR e 11 XOR RotR e 25;
            ch = (e AND f) XOR (NOT e AND g);
            t1 = h + s1 + ch + sha_k ! i + w ! i;
            s0 = RotR a 2 XOR RotR a 13 XOR RotR a 22;
            maj = (a AND b) XOR (a AND c) XOR (b AND c);
            t2 = s0 + maj
        in (t1 + t2, a, b, c, d + t1, e, f, g))"

definition Compress :: "sha_state \<Rightarrow> bytes \<Rightarrow> sha_state" where
  "Compress st block =
     (case (st, foldl (sha_round (sha_schedule block)) st [0..<64]) of
        ((s0, s1, s2, s3, s4, s5, s6, s7), (a, b, c, d, e, f, g, h)) \<Rightarrow>
          (s0 + a, s1 + b, s2 + c, s3 + d, s4 + e, s5 + f, s6 + g, s7 + h))"

definition sha_init :: sha_state where
  "sha_init = (0x6a09e667, 0xbb67ae85, 0x3c6ef372, 0xa54ff53a, 0x510e527f, 0x9b05688c, 0x1f83d9ab, 0x5be0cd19)"

text \<open>The loop over the complete blocks, returning the state and the tail.\<close>

function sha_blocks :: "sha_state \<Rightarrow> bytes \<Rightarrow> sha_state \<times> bytes" where
  "sha_blocks st data = (if 64 \<le> length data then sha_blocks (Compress st (take 64 data)) (drop 64 data) else (st, data))"
  by pat_completeness auto
termination
  by (relation "measure (\<lambda>(st, data). length data)") auto

declare sha_blocks.simps [simp del]

text \<open>The one or two final blocks: the tail, the bit 1, zeros and the big-endian bit count.\<close>

definition sha_final_blocks :: "nat \<Rightarrow> bytes \<Rightarrow> bytes" where
  "sha_final_blocks sz tail =
     (let padded = (if length tail < 56 then 64 else 128)
      in tail @ [0x80] @ replicate (padded - 8 - Suc (length tail)) 0 @ rev (PutU64 (of_nat sz * 8)))"

definition Sha256 :: "bytes \<Rightarrow> bytes" where
  "Sha256 data =
     (case sha_blocks sha_init data of (st, tail) \<Rightarrow>
        let final = sha_final_blocks (length data) tail;
            st1 = Compress st (take 64 final);
            st2 = (if length final = 128 then Compress st1 (drop 64 final) else st1)
        in case st2 of (a, b, c, d, e, f, g, h) \<Rightarrow> concat (map StoreBe32 [a, b, c, d, e, f, g, h]))"

subsection \<open>Both digests fold their compression over the padded message\<close>

lemma md5_Block_fields [simp]: "md5_buf (md5_Block m p) = md5_buf m" "md5_len (md5_Block m p) = md5_len m"
  "md5_Block (m\<lparr>md5_buf := b\<rparr>) p = (md5_Block m p)\<lparr>md5_buf := b\<rparr>" "md5_Block (m\<lparr>md5_len := l\<rparr>) p = (md5_Block m p)\<lparr>md5_len := l\<rparr>"
  by (simp_all add: md5_Block_def Let_def split: prod.split)

lemma foldl_md5_Block_buf: "foldl md5_Block (m\<lparr>md5_buf := b\<rparr>) ps = (foldl md5_Block m ps)\<lparr>md5_buf := b\<rparr>"
  by (induction ps arbitrary: m) simp_all

lemma md5_feed_blocks:
  assumes "length (md5_buf m) < 64"
  shows "md5_feed data m = (foldl md5_Block m (blocks64 (md5_buf m @ data)))\<lparr>md5_buf := rest64 (md5_buf m @ data)\<rparr>"
  using assms
proof (induction data m rule: md5_feed.induct)
  case (1 data m)
  show ?case
  proof (cases "data = []")
    case True
    then show ?thesis using "1.prems" by (simp add: md5_feed.simps)
  next
    case False
    let ?n = "min (64 - length (md5_buf m)) (length data)"
    let ?b = "md5_buf m @ take ?n data"
    let ?m = "if length ?b = 64 then (md5_Block m ?b)\<lparr>md5_buf := []\<rparr> else m\<lparr>md5_buf := ?b\<rparr>"
    have guard: "\<not> (data = [] \<or> 64 \<le> length (md5_buf m))" using False "1.prems" by simp
    have small: "length (md5_buf ?m) < 64" using "1.prems" by auto
    have "md5_feed data m = md5_feed (drop ?n data) ?m"
      by (subst md5_feed.simps) (simp only: guard if_False Let_def)
    also have "\<dots> = (foldl md5_Block ?m (blocks64 (md5_buf ?m @ drop ?n data)))\<lparr>md5_buf := rest64 (md5_buf ?m @ drop ?n data)\<rparr>"
      by (rule "1.IH" [OF guard refl refl small])
    also have "\<dots> = (foldl md5_Block m (blocks64 (md5_buf m @ data)))\<lparr>md5_buf := rest64 (md5_buf m @ data)\<rparr>"
    proof (cases "length ?b = 64")
      case True
      have e: "md5_buf m @ data = ?b @ drop ?n data" by simp
      show ?thesis unfolding e blocks64_Cons [OF True] using True by (simp add: foldl_md5_Block_buf)
    next
      case False
      have e: "md5_buf m @ data = ?b @ drop ?n data" by simp
      show ?thesis unfolding e using False by (simp add: foldl_md5_Block_buf)
    qed
    finally show ?thesis .
  qed
qed

lemma md5_feed_append:
  assumes "length (md5_buf m) < 64"
  shows "md5_feed (x @ y) m = md5_feed y (md5_feed x m)"
proof -
  have "length (md5_buf (md5_feed x m)) < 64" by (simp add: md5_feed_blocks [OF assms] length_rest64)
  then show ?thesis using blocks64_append [of "md5_buf m @ x" y]
    by (simp add: md5_feed_blocks [OF assms] md5_feed_blocks foldl_md5_Block_buf)
qed

lemma md5_feed_small: "length (md5_buf m) < 64 \<Longrightarrow> length (md5_buf (md5_feed x m)) = (length (md5_buf m) + length x) mod 64"
  by (simp add: md5_feed_blocks length_rest64)

lemma foldl_md5_Block_len: "foldl md5_Block (m\<lparr>md5_len := l\<rparr>) ps = (foldl md5_Block m ps)\<lparr>md5_len := l\<rparr>"
  by (induction ps arbitrary: m) simp_all

lemma md5_feed_len:
  assumes "length (md5_buf m) < 64"
  shows "md5_feed x (m\<lparr>md5_len := l\<rparr>) = (md5_feed x m)\<lparr>md5_len := l\<rparr>"
  using md5_feed_blocks [of m x] md5_feed_blocks [of "m\<lparr>md5_len := l\<rparr>" x] assms by (simp add: foldl_md5_Block_len)

text \<open>The padding loop feeds the zeros that bring the buffer to 56 bytes.\<close>

lemma md5_pad_feed:
  assumes "length (md5_buf m) < 64"
  shows "\<exists>l. md5_pad m = (md5_feed (replicate ((120 - length (md5_buf m)) mod 64) 0) m)\<lparr>md5_len := l\<rparr>"
  using assms
proof (induction m rule: md5_pad.induct)
  case (1 m)
  let ?n = "length (md5_buf m)"
  show ?case
  proof (cases "?n = 56")
    case True
    show ?thesis using True by (subst md5_pad.simps) (auto simp: md5_feed.simps intro: exI [of _ "md5_len m"])
  next
    case False
    let ?m = "md5_Update m [0]"
    have f: "?m = (md5_feed [0] m)\<lparr>md5_len := md5_len m + 1\<rparr>" using "1.prems" by (simp add: md5_Update_def md5_feed_len)
    have k: "length (md5_buf ?m) = Suc ?n mod 64" unfolding f using "1.prems" by (simp add: md5_feed_one)
    have z: "Suc ((120 - length (md5_buf ?m)) mod 64) = (120 - ?n) mod 64"
    proof -
      consider "?n = 63" | "56 < ?n" "?n < 63" | "?n < 56" using False "1.prems" by linarith
      then show ?thesis
      proof cases
        case 3
        then show ?thesis using k le_mod_geq [of 64 "120 - ?n"] le_mod_geq [of 64 "119 - ?n"] by simp
      qed (use k in auto)
    qed
    have g: "\<not> (?n = 56 \<or> 64 \<le> ?n)" using False "1.prems" by simp
    have s: "length (md5_buf ?m) < 64" using k by simp
    have step: "md5_pad m = md5_pad ?m" by (subst md5_pad.simps) (simp only: g if_False)
    from "1.IH" [OF g s] obtain l where
      l: "md5_pad ?m = (md5_feed (replicate ((120 - length (md5_buf ?m)) mod 64) 0) ?m)\<lparr>md5_len := l\<rparr>" by blast
    have fe: "md5_feed (replicate ((120 - ?n) mod 64) 0) m = md5_feed (replicate ((120 - length (md5_buf ?m)) mod 64) 0) (md5_feed [0] m)"
      using md5_feed_append [OF "1.prems", of "[0]" "replicate ((120 - length (md5_buf ?m)) mod 64) 0"]
      unfolding z [symmetric] replicate_Suc append_Cons append_Nil .
    have u: "c\<lparr>md5_len := a\<rparr>\<lparr>md5_len := l\<rparr> = c\<lparr>md5_len := l\<rparr>" for c :: md5_Ctx and a by simp
    have fm: "md5_feed x ?m = (md5_feed x (md5_feed [0] m))\<lparr>md5_len := md5_len m + 1\<rparr>" for x
      unfolding f by (rule md5_feed_len) (use k f in simp)
    have "md5_pad m = (md5_feed (replicate ((120 - ?n) mod 64) 0) m)\<lparr>md5_len := l\<rparr>"
      unfolding step l fm u fe by (rule refl)
    then show ?thesis by blast
  qed
qed

definition pad_zeros :: "bytes \<Rightarrow> bytes" where
  "pad_zeros s = [0x80] @ replicate ((119 - length s mod 64) mod 64) 0"

definition md5_words :: "md5_Ctx \<Rightarrow> bytes" where
  "md5_words m = concat (map PutU32 [md5_a m, md5_b m, md5_c m, md5_d m])"

lemma md5_words_update [simp]: "md5_words (m\<lparr>md5_len := l\<rparr>) = md5_words m" "md5_words (m\<lparr>md5_buf := b\<rparr>) = md5_words m"
  by (simp_all add: md5_words_def)

lemma Md5_padded: "Md5 s = md5_words (foldl md5_Block md5_Init (blocks64 (s @ pad_zeros s @ PutU64 (of_nat (length s) * 8))))"
proof -
  let ?m0 = "md5_feed s md5_Init"
  let ?z = "(119 - length s mod 64) mod 64"
  have e: "length (md5_buf md5_Init) < 64" by (simp add: md5_Init_def)
  have u: "md5_Update md5_Init s = ?m0\<lparr>md5_len := of_nat (length s)\<rparr>"
    using md5_feed_len [OF e, of s "of_nat (length s)"] by (simp add: md5_Update_def md5_Init_def)
  have b0: "length (md5_buf ?m0) = length s mod 64" using md5_feed_small [OF e, of s] by (simp add: md5_Init_def)
  let ?m1 = "md5_Update (?m0\<lparr>md5_len := of_nat (length s)\<rparr>) [0x80]"
  have m1: "\<exists>l. ?m1 = (md5_feed (s @ [0x80]) md5_Init)\<lparr>md5_len := l\<rparr>"
    unfolding md5_Update_def using b0 by (auto simp: md5_feed_len md5_feed_append [OF e])
  then have b1: "length (md5_buf ?m1) = Suc (length s) mod 64" using md5_feed_small [OF e, of "s @ [0x80]"] by (auto simp: md5_Init_def)
  have z: "(120 - Suc (length s) mod 64) mod 64 = ?z"
    by (cases "length s mod 64 = 63") (auto simp: mod_Suc)
  obtain l1 where l1: "?m1 = (md5_feed (s @ [0x80]) md5_Init)\<lparr>md5_len := l1\<rparr>" using m1 by blast
  from md5_pad_feed [of ?m1] b1 obtain l where "md5_pad ?m1 = (md5_feed (replicate ?z 0) ?m1)\<lparr>md5_len := l\<rparr>" unfolding z b1 by auto
  moreover have f1: "length (md5_buf (md5_feed (s @ [0x80]) md5_Init)) < 64" by (simp add: md5_feed_small [OF e])
  ultimately have p: "md5_pad ?m1 = (md5_feed (s @ pad_zeros s) md5_Init)\<lparr>md5_len := l\<rparr>"
    unfolding l1 using md5_feed_append [OF e, of "s @ [0x80]" "replicate ?z 0"] by (simp add: md5_feed_len pad_zeros_def)
  have f2: "length (md5_buf (md5_feed (s @ pad_zeros s) md5_Init)) < 64" by (simp add: md5_feed_small [OF e])
  have "Md5 s = md5_words (md5_Update (md5_pad ?m1) (PutU64 (of_nat (length s) * 8)))"
    by (simp add: Md5_def md5_Final_def Let_def u md5_words_def)
  also have "\<dots> = md5_words (md5_feed (PutU64 (of_nat (length s) * 8)) (md5_feed (s @ pad_zeros s) md5_Init))"
    by (subst p) (simp add: md5_Update_def md5_feed_len [OF f2])
  also have "\<dots> = md5_words (md5_feed ((s @ pad_zeros s) @ PutU64 (of_nat (length s) * 8)) md5_Init)"
    by (simp only: md5_feed_append [OF e])
  finally show ?thesis by (simp add: md5_feed_blocks [OF e]) (simp add: md5_Init_def)
qed

lemma length_Md5: "length (Md5 s) = 16"
  by (simp add: Md5_padded md5_words_def)

lemma sha_blocks_fold: "sha_blocks st data = (foldl Compress st (blocks64 data), rest64 data)"
proof (induction st data rule: sha_blocks.induct)
  case (1 st data)
  show ?case
  proof (cases "64 \<le> length data")
    case True
    then have "length (take 64 data) = 64" by simp
    from blocks64_Cons [OF this, of "drop 64 data"] show ?thesis using 1 [OF True] True by (subst sha_blocks.simps) simp
  qed (simp add: sha_blocks.simps)
qed

definition sha_words :: "sha_state \<Rightarrow> bytes" where
  "sha_words st = (case st of (a, b, c, d, e, f, g, h) \<Rightarrow> concat (map StoreBe32 [a, b, c, d, e, f, g, h]))"

lemma Sha256_padded: "Sha256 s = sha_words (foldl Compress sha_init (blocks64 (s @ pad_zeros s @ rev (PutU64 (of_nat (length s) * 8)))))"
proof -
  let ?f = "sha_final_blocks (length s) (rest64 s)"
  let ?st = "foldl Compress sha_init (blocks64 s)"
  have t: "length (rest64 s) = length s mod 64" "length s mod 64 < 64" by (simp_all add: length_rest64)
  have f: "?f = rest64 s @ pad_zeros s @ rev (PutU64 (of_nat (length s) * 8))"
  proof (cases "length s mod 64 < 56")
    case True
    then have "(119 - length s mod 64) mod 64 = 55 - length s mod 64" using le_mod_geq [of 64 "119 - length s mod 64"] by simp
    then show ?thesis using True t by (simp add: sha_final_blocks_def pad_zeros_def)
  next
    case False
    then show ?thesis using t by (simp add: sha_final_blocks_def pad_zeros_def)
  qed
  have n: "length ?f = (if length s mod 64 < 56 then 64 else 128)" using t by (auto simp: sha_final_blocks_def Let_def)
  have b: "foldl Compress ?st (blocks64 ?f) =
      (let st1 = Compress ?st (take 64 ?f) in if length ?f = 128 then Compress st1 (drop 64 ?f) else st1)"
  proof (cases "length ?f = 64")
    case True
    then show ?thesis by (simp add: blocks64_one)
  next
    case False
    then have l: "length ?f = 128" using n by (auto split: if_splits)
    have "blocks64 ?f = blocks64 (take 64 ?f @ drop 64 ?f)" by simp
    also have "\<dots> = [take 64 ?f, drop 64 ?f]" using l by (subst blocks64_Cons(1)) (simp_all add: blocks64_one)
    finally show ?thesis using l by (simp add: Let_def)
  qed
  have "Sha256 s = sha_words (foldl Compress ?st (blocks64 ?f))"
    unfolding b by (simp add: Sha256_def sha_blocks_fold sha_words_def Let_def)
  then show ?thesis unfolding f using blocks64_append [of s "pad_zeros s @ rev (PutU64 (of_nat (length s) * 8))"] by simp
qed

lemma length_Sha256: "length (Sha256 s) = 32"
  by (simp add: Sha256_padded sha_words_def StoreBe32_def split: prod.split)

definition md5_block_abc :: bytes where
  "md5_block_abc = [0x61, 0x62, 0x63, 0x80] @ replicate 52 0 @ [24, 0, 0, 0, 0, 0, 0, 0]"

lemma md5_abc_blocks:
  "blocks64 (ascii ''abc'' @ pad_zeros (ascii ''abc'') @ PutU64 (of_nat (length (ascii ''abc'')) * 8)) = [md5_block_abc]"
  by code_simp

lemma md5_abc_words:
  "md5_words (md5_Block md5_Init md5_block_abc) =
     [0x90, 0x01, 0x50, 0x98, 0x3c, 0xd2, 0x4f, 0xb0, 0xd6, 0x96, 0x3f, 0x7d, 0x28, 0xe1, 0x7f, 0x72]"
  by code_simp

lemma Md5_abc: "Md5 (ascii ''abc'') = [0x90, 0x01, 0x50, 0x98, 0x3c, 0xd2, 0x4f, 0xb0, 0xd6, 0x96, 0x3f, 0x7d, 0x28, 0xe1, 0x7f, 0x72]"
  unfolding Md5_padded md5_abc_blocks foldl.simps by (rule md5_abc_words)

end
