(* ===== verification/Con_Hash.thy ===== *)
theory Con_Hash
  imports Digests Mds_Client
begin

text \<open>
  Placement: the Ketama ring \<^verbatim>\<open>utils/con_hash.cc\<close> and the part of \<^verbatim>\<open>client/kv_client.cc\<close> that builds it from
  a membership and routes keys over it. The ring is the ordered map of the source, a strictly sorted
  association list from 32-bit points to node names; distances on it are word subtractions, so the
  wrap at the end of the ring is the wrap of the arithmetic.
\<close>

subsection \<open>The ring\<close>

record ConHash =
  ch_nodes :: "(bytes \<times> int) list"
  ch_ring :: "(u32 \<times> bytes) list"

definition empty_ring :: ConHash where
  "empty_ring = \<lparr>ch_nodes = [], ch_ring = []\<rparr>"

definition AddNode :: "bytes \<Rightarrow> int \<Rightarrow> ConHash \<Rightarrow> ConHash" where
  "AddNode name weight c = c\<lparr>ch_nodes := ch_nodes c @ [(name, if weight < 1 then 1 else weight)]\<rparr>"

text \<open>Assigning a point in the ordered map; a point that is already taken changes its owner.\<close>

fun ring_put :: "u32 \<Rightarrow> bytes \<Rightarrow> (u32 \<times> bytes) list \<Rightarrow> (u32 \<times> bytes) list" where
  "ring_put p name [] = [(p, name)]"
| "ring_put p name ((q, m) # r) =
     (if p < q then (p, name) # (q, m) # r else if p = q then (p, name) # r else (q, m) # ring_put p name r)"

definition clamp_weight :: "int \<Rightarrow> int" where
  "clamp_weight weight = (if weight < 1 then 1 else if weight > 1024 then 1024 else weight)"

definition key_points :: "bytes \<Rightarrow> nat \<Rightarrow> u32 list" where
  "key_points name k =
     (let d = Md5 (name @ ascii ''-'' @ dec_digits k) in map (\<lambda>h. le_word (take 4 (drop (4 * h) d))) [0..<4])"

definition node_points :: "bytes \<Rightarrow> int \<Rightarrow> u32 list" where
  "node_points name weight = concat (map (key_points name) [0..<nat (40 * clamp_weight weight)])"

definition build_node :: "(u32 \<times> bytes) list \<Rightarrow> bytes \<times> int \<Rightarrow> (u32 \<times> bytes) list" where
  "build_node r node = foldl (\<lambda>r p. ring_put p (fst node) r) r (node_points (fst node) (snd node))"

definition Build :: "ConHash \<Rightarrow> ConHash" where
  "Build c = c\<lparr>ch_ring := foldl build_node [] (ch_nodes c)\<rparr>"

definition ring_NodeCount :: "ConHash \<Rightarrow> nat" where
  "ring_NodeCount c = length (ch_nodes c)"

definition RingSize :: "ConHash \<Rightarrow> nat" where
  "RingSize c = length (ch_ring c)"

definition count_point :: "(bytes \<rightharpoonup> nat) \<Rightarrow> u32 \<times> bytes \<Rightarrow> (bytes \<rightharpoonup> nat)" where
  "count_point counts e = counts(snd e \<mapsto> (case counts (snd e) of None \<Rightarrow> 0 | Some n \<Rightarrow> n) + 1)"

definition NodePointCounts :: "ConHash \<Rightarrow> (bytes \<rightharpoonup> nat)" where
  "NodePointCounts c = foldl count_point Map.empty (ch_ring c)"

definition ring_lower_bound :: "u32 \<Rightarrow> (u32 \<times> bytes) list \<Rightarrow> (u32 \<times> bytes) list" where
  "ring_lower_bound h r = dropWhile (\<lambda>e. fst e < h) r"

definition ring_Lookup :: "bytes \<Rightarrow> ConHash \<Rightarrow> bytes option" where
  "ring_Lookup key c =
     (if ch_ring c = [] then None
      else (case ring_lower_bound (Md5_32 key) (ch_ring c) of
              [] \<Rightarrow> Some (snd (hd (ch_ring c)))
            | e # r \<Rightarrow> Some (snd e)))"

subsection \<open>Routing\<close>

text \<open>The ring and the address table of \<^verbatim>\<open>KVClient\<close>, swapped together by \<^verbatim>\<open>AdoptRing\<close>.\<close>

record client_ring =
  kc_ring :: ConHash
  kc_addr :: "bytes \<rightharpoonup> bytes"

definition AdoptRing :: "ConHash \<Rightarrow> (bytes \<rightharpoonup> bytes) \<Rightarrow> client_ring \<Rightarrow> client_ring" where
  "AdoptRing r addr kc = kc\<lparr>kc_ring := r, kc_addr := addr\<rparr>"

definition add_named :: "ConHash \<times> (bytes \<rightharpoonup> bytes) \<Rightarrow> bytes \<times> bytes \<Rightarrow> ConHash \<times> (bytes \<rightharpoonup> bytes)" where
  "add_named acc m = (AddNode (fst m) 1 (fst acc), (snd acc)(fst m \<mapsto> snd m))"

definition SetNamedMembers :: "(bytes \<times> bytes) list \<Rightarrow> client_ring \<Rightarrow> client_ring" where
  "SetNamedMembers members kc =
     (case foldl add_named (empty_ring, Map.empty) members of (r, addr) \<Rightarrow> AdoptRing (Build r) addr kc)"

definition member_address :: "MemberInfo \<Rightarrow> bytes" where
  "member_address m = mi_ip m @ ascii '':'' @ dec_digits (unat (mi_port m))"

text \<open>The weight of a member is cast to a signed 32-bit integer.\<close>

definition member_weight :: "MemberInfo \<Rightarrow> int" where
  "member_weight m = (if mi_weight m < 1 then 1 else sint (mi_weight m))"

definition add_member :: "ConHash \<times> (bytes \<rightharpoonup> bytes) \<Rightarrow> MemberInfo \<Rightarrow> ConHash \<times> (bytes \<rightharpoonup> bytes)" where
  "add_member acc m =
     (if \<not> RingEligible m then acc
      else (AddNode (mi_id m) (member_weight m) (fst acc), (snd acc)(mi_id m \<mapsto> member_address m)))"

definition SetMembers :: "MemberInfo list \<Rightarrow> client_ring \<Rightarrow> client_ring" where
  "SetMembers members kc =
     (case foldl add_member (empty_ring, Map.empty) members of (r, addr) \<Rightarrow> AdoptRing (Build r) addr kc)"

definition Route :: "bytes \<Rightarrow> client_ring \<Rightarrow> bytes" where
  "Route key kc =
     (case ring_Lookup key (kc_ring kc) of
        None \<Rightarrow> []
      | Some name \<Rightarrow> (case kc_addr kc name of None \<Rightarrow> [] | Some a \<Rightarrow> a))"

text \<open>The callback of \<^verbatim>\<open>StartMdsDiscovery\<close>: an admitted view whose placement epoch changed rebuilds the ring.\<close>

definition adopt_placement :: "MemberInfo list \<Rightarrow> bool \<Rightarrow> u64 option \<Rightarrow> client_ring \<Rightarrow> u64 option \<times> client_ring" where
  "adopt_placement topology placement_admitted epoch kc =
     (if \<not> placement_admitted then (epoch, kc)
      else let placement = filter RingEligible topology; placement_epoch = MembersEpoch placement
           in if epoch = Some placement_epoch then (epoch, kc) else (Some placement_epoch, SetMembers placement kc))"

text \<open>The seed answer \<^verbatim>\<open>name=ip:port,name=ip:port\<close>, cut at commas and then at the first equals sign.\<close>

function split_commas :: "bytes \<Rightarrow> bytes list" where
  "split_commas text = (case dropWhile (\<lambda>c. c \<noteq> byte CHR '','') text of
     [] \<Rightarrow> [text] | c # r \<Rightarrow> takeWhile (\<lambda>c. c \<noteq> byte CHR '','') text # split_commas r)"
  by pat_completeness auto
termination
proof (relation "measure length", goal_cases)
  case (2 s c r)
  then show ?case using length_dropWhile_le [of "\<lambda>c. c \<noteq> byte CHR '',''" s] by simp
qed simp

declare split_commas.simps [simp del]

definition parse_named :: "bytes \<Rightarrow> (bytes \<times> bytes) option" where
  "parse_named tok =
     (case dropWhile (\<lambda>c. c \<noteq> byte CHR ''='') tok of
        [] \<Rightarrow> None
      | e # r \<Rightarrow> if r = [] then None else Some (takeWhile (\<lambda>c. c \<noteq> byte CHR ''='') tok, r))"

definition RefreshMembers :: "Status \<times> bytes \<Rightarrow> client_ring \<Rightarrow> bool \<times> client_ring" where
  "RefreshMembers answer kc =
     (if fst answer \<noteq> kOk then (False, kc)
      else let members = List.map_filter parse_named (split_commas (snd answer))
           in if members = [] then (False, kc) else (True, SetNamedMembers members kc))"

subsection \<open>The ring as a map from points to owners\<close>

fun owner :: "(bytes \<times> int) list \<Rightarrow> u32 \<Rightarrow> bytes option" where
  "owner [] p = None"
| "owner (node # nodes) p =
     (case owner nodes p of
        Some name \<Rightarrow> Some name
      | None \<Rightarrow> if p \<in> set (node_points (fst node) (snd node)) then Some (fst node) else None)"

abbreviation sorted_ring :: "(u32 \<times> bytes) list \<Rightarrow> bool" where
  "sorted_ring r \<equiv> sorted_wrt (<) (map fst r)"

lemma set_ring_put: "fst ` set (ring_put p name r) = insert p (fst ` set r)"
  by (induction p name r rule: ring_put.induct) auto

lemma sorted_ring_put: "sorted_ring r \<Longrightarrow> sorted_ring (ring_put p name r)"
proof (induction p name r rule: ring_put.induct)
  case (2 p name q m r)
  have "\<forall>x\<in>fst ` set (ring_put p name r). q < x" if "\<not> p < q" "p \<noteq> q" using that 2 by (auto simp: set_ring_put)
  then show ?case using 2 by (force simp: image_iff)
qed simp

lemma map_of_ring_put: "map_of (ring_put p name r) = (map_of r)(p \<mapsto> name)"
  by (induction p name r rule: ring_put.induct) auto

lemma build_points:
  "sorted_ring r \<Longrightarrow> sorted_ring (foldl (\<lambda>r p. ring_put p name r) r ps)"
  "map_of (foldl (\<lambda>r p. ring_put p name r) r ps) q = (if q \<in> set ps then Some name else map_of r q)"
  by (induction ps arbitrary: r) (auto simp: sorted_ring_put map_of_ring_put)

lemma build_nodes:
  "sorted_ring r \<Longrightarrow> sorted_ring (foldl build_node r nodes)"
  "map_of (foldl build_node r nodes) q = (case owner nodes q of Some name \<Rightarrow> Some name | None \<Rightarrow> map_of r q)"
  by (induction nodes arbitrary: r) (auto simp: build_node_def build_points split: option.split)

lemma Build_ring: "sorted_ring (ch_ring (Build c))" "map_of (ch_ring (Build c)) = owner (ch_nodes c)"
  by (auto simp: Build_def build_nodes fun_eq_iff split: option.split)

lemma length_key_points [simp]: "length (key_points name k) = 4"
  by (simp only: key_points_def Let_def length_map length_upt diff_zero)

lemma length_node_points: "length (node_points name weight) = 160 * nat (clamp_weight weight)"
proof -
  have "length (concat (map (key_points name) [0..<n])) = 4 * n" for n by (induction n) simp_all
  then show ?thesis by (simp add: node_points_def nat_mult_distrib)
qed

lemma node_points_not_Nil: "node_points name weight \<noteq> []"
  using length_node_points [of name weight] by (auto simp: clamp_weight_def split: if_splits)

lemma owner_Some: "owner nodes p = Some name \<Longrightarrow> name \<in> fst ` set nodes"
  by (induction nodes) (auto split: option.splits if_splits)

lemma owner_exists: "nodes \<noteq> [] \<Longrightarrow> \<exists>p. owner nodes p \<noteq> None"
proof (induction nodes)
  case (Cons node nodes)
  obtain p where "p \<in> set (node_points (fst node) (snd node))" using node_points_not_Nil [of "fst node" "snd node"] by (cases "node_points (fst node) (snd node)") auto
  then show ?case by (intro exI [of _ p]) (auto split: option.split)
qed simp

lemma owner_append: "owner (xs @ ys) p = (case owner ys p of Some name \<Rightarrow> Some name | None \<Rightarrow> owner xs p)"
  by (induction xs) (auto split: option.split)

subsection \<open>The closest point clockwise\<close>

text \<open>The distance from \<open>h\<close> clockwise to \<open>p\<close> is \<open>p - h\<close> in 32-bit arithmetic.\<close>

definition closest :: "(u32 \<rightharpoonup> bytes) \<Rightarrow> u32 \<Rightarrow> u32 \<Rightarrow> bool" where
  "closest m h p \<longleftrightarrow> m p \<noteq> None \<and> (\<forall>q. m q \<noteq> None \<longrightarrow> p - h \<le> q - h)"

lemma closest_unique: "closest m h p \<Longrightarrow> closest m h q \<Longrightarrow> p = q"
  unfolding closest_def using order_antisym [of "p - h" "q - h"] by simp

lemma clockwise_after: "h \<le> p \<Longrightarrow> p \<le> q \<Longrightarrow> p - h \<le> q - h" for h p q :: u32
  by (simp add: word_le_nat_alt unat_sub_if')

lemma clockwise_wrap: "h \<le> p \<Longrightarrow> q < h \<Longrightarrow> p - h \<le> q - h" for h p q :: u32
proof -
  assume "h \<le> p" "q < h"
  moreover have "unat p < 2 ^ LENGTH(32)" by (rule unsigned_less)
  ultimately show ?thesis by (simp add: word_le_nat_alt word_less_nat_alt unat_sub_if')
qed

lemma clockwise_before: "p \<le> q \<Longrightarrow> q < h \<Longrightarrow> p - h \<le> q - h" for h p q :: u32
  by (simp add: word_le_nat_alt word_less_nat_alt unat_sub_if')

lemma dropWhile_sorted:
  assumes "sorted_ring r"
  shows "case ring_lower_bound h r of [] \<Rightarrow> \<forall>q\<in>fst ` set r. q < h
    | e # r' \<Rightarrow> e \<in> set r \<and> h \<le> fst e \<and> (\<forall>q\<in>fst ` set r. h \<le> q \<longrightarrow> fst e \<le> q)"
  using assms unfolding ring_lower_bound_def
proof (induction r)
  case (Cons e r)
  show ?case
  proof (cases "fst e < h")
    case True
    then show ?thesis using Cons by (cases "dropWhile (\<lambda>e. fst e < h) r") (auto simp del: dropWhile_eq_Nil_conv)
  next
    case False
    then show ?thesis using Cons.prems by (auto simp: less_imp_le)
  qed
qed simp

lemma dom_map_of: "map_of r q \<noteq> None \<longleftrightarrow> q \<in> fst ` set r"
  by (simp add: map_of_eq_None_iff)

lemma lookup_closest:
  assumes "sorted_ring r" "r \<noteq> []"
  shows "\<exists>e\<in>set r. closest (map_of r) h (fst e) \<and> (case ring_lower_bound h r of [] \<Rightarrow> hd r | e # r' \<Rightarrow> e) = e"
proof (cases "ring_lower_bound h r")
  case Nil
  with dropWhile_sorted [OF assms(1), of h] have "\<forall>q\<in>fst ` set r. q < h" by simp
  moreover have "\<forall>q\<in>fst ` set r. fst (hd r) \<le> q" using assms by (cases r) (auto simp: less_imp_le)
  ultimately show ?thesis using assms(2) Nil unfolding closest_def dom_map_of
    by (intro bexI [of _ "hd r"]) (auto intro: clockwise_before)
next
  case (Cons e r')
  with dropWhile_sorted [OF assms(1), of h] have e: "e \<in> set r" "h \<le> fst e" "\<forall>q\<in>fst ` set r. h \<le> q \<longrightarrow> fst e \<le> q" by simp_all
  have "fst e - h \<le> q - h" if "q \<in> fst ` set r" for q
    using that e(2,3) clockwise_after [OF e(2)] clockwise_wrap [OF e(2)] by (cases "h \<le> q") (auto simp: not_le)
  then show ?thesis using e(1) Cons unfolding closest_def dom_map_of by auto
qed

lemma Lookup_Build:
  "ring_Lookup key (Build c) = Some name \<longleftrightarrow> (\<exists>p. closest (owner (ch_nodes c)) (Md5_32 key) p \<and> owner (ch_nodes c) p = Some name)"
proof (cases "ch_ring (Build c) = []")
  case True
  then have "owner (ch_nodes c) p = None" for p using Build_ring(2) [of c] by (metis map_of.simps(1))
  then show ?thesis using True by (simp add: ring_Lookup_def closest_def)
next
  case False
  let ?r = "ch_ring (Build c)"
  from lookup_closest [OF Build_ring(1) False, of "Md5_32 key"] obtain e where
    e: "e \<in> set ?r" "closest (owner (ch_nodes c)) (Md5_32 key) (fst e)"
      "(case ring_lower_bound (Md5_32 key) ?r of [] \<Rightarrow> hd ?r | e # r' \<Rightarrow> e) = e" unfolding Build_ring(2) by blast
  have l: "ring_Lookup key (Build c) = Some (snd e)" using False e(3) by (auto simp: ring_Lookup_def split: list.splits)
  have "distinct (map fst ?r)" using Build_ring(1) [of c] by (simp add: strict_sorted_iff)
  then have o: "owner (ch_nodes c) (fst e) = Some (snd e)" using map_of_is_SomeI [of ?r "fst e" "snd e"] e(1) by (simp add: Build_ring(2))
  show ?thesis
  proof
    assume "ring_Lookup key (Build c) = Some name"
    then show "\<exists>p. closest (owner (ch_nodes c)) (Md5_32 key) p \<and> owner (ch_nodes c) p = Some name" using e(2) o l by auto
  next
    assume "\<exists>p. closest (owner (ch_nodes c)) (Md5_32 key) p \<and> owner (ch_nodes c) p = Some name"
    then obtain p where p: "closest (owner (ch_nodes c)) (Md5_32 key) p" "owner (ch_nodes c) p = Some name" by blast
    have "p = fst e" by (rule closest_unique [OF p(1) e(2)])
    then show "ring_Lookup key (Build c) = Some name" using p(2) o l by simp
  qed
qed

lemma Lookup_exists: "ch_nodes c \<noteq> [] \<Longrightarrow> \<exists>name. ring_Lookup key (Build c) = Some name"
proof -
  assume "ch_nodes c \<noteq> []"
  then obtain p where "owner (ch_nodes c) p \<noteq> None" using owner_exists by blast
  then have "ch_ring (Build c) \<noteq> []" using Build_ring(2) [of c] by (metis map_of.simps(1))
  then show ?thesis by (auto simp: ring_Lookup_def split: list.split)
qed

lemma closest_restrict:
  assumes c: "closest m h p" and keep: "m p = Some name" "name \<noteq> n"
    and full: "\<And>q a. m q = Some a \<Longrightarrow> a \<noteq> n \<Longrightarrow> m' q = Some a" and sub: "\<And>q. m' q \<noteq> None \<Longrightarrow> m q \<noteq> None"
  shows "closest m' h p \<and> m' p = Some name"
  using assms unfolding closest_def by auto

lemma owner_without:
  shows "owner (xs @ (n, w) # ys) q = Some a \<Longrightarrow> a \<noteq> n \<Longrightarrow> owner (xs @ ys) q = Some a"
    and "owner (xs @ ys) q \<noteq> None \<Longrightarrow> owner (xs @ (n, w) # ys) q \<noteq> None"
  by (auto simp: owner_append split: option.splits if_splits)

subsection \<open>Properties\<close>

text \<open>
  C37: Placement on the ring. A key is placed on a node exactly when that node owns the ring point
  closest clockwise from the key's hash, the last listed node that hashes to a point being its
  owner; with at least one node every key is placed, and always on a listed node.
\<close>

theorem ring_places_closest:
  "(ring_Lookup key (Build c) = Some name \<longleftrightarrow>
     (\<exists>p. closest (owner (ch_nodes c)) (Md5_32 key) p \<and> owner (ch_nodes c) p = Some name)) \<and>
   (ring_Lookup key (Build c) = None \<longleftrightarrow> ch_nodes c = []) \<and> set_option (ring_Lookup key (Build c)) \<subseteq> fst ` set (ch_nodes c)"
proof (intro conjI Lookup_Build)
  show "ring_Lookup key (Build c) = None \<longleftrightarrow> ch_nodes c = []"
  proof (cases "ch_nodes c = []")
    case True
    then show ?thesis by (simp add: ring_Lookup_def Build_def)
  next
    case False
    then show ?thesis using Lookup_exists [OF False, of key] by auto
  qed
  show "set_option (ring_Lookup key (Build c)) \<subseteq> fst ` set (ch_nodes c)"
    using owner_Some by (auto simp: Lookup_Build)
qed

text \<open>
  C38: Minimal disruption. Adding a node anywhere in the list, or removing it, moves only the keys
  that are placed on that node: every other key keeps its place, hash collisions included.
\<close>

theorem ring_minimal_disruption:
  "ring_Lookup key (Build (c\<lparr>ch_nodes := xs @ (n, w) # ys\<rparr>)) \<in>
     {Some n, ring_Lookup key (Build (c\<lparr>ch_nodes := xs @ ys\<rparr>))}"
proof -
  let ?m = "owner (xs @ (n, w) # ys)" and ?m' = "owner (xs @ ys)"
  obtain a where a: "ring_Lookup key (Build (c\<lparr>ch_nodes := xs @ (n, w) # ys\<rparr>)) = Some a"
    using Lookup_exists [of "c\<lparr>ch_nodes := xs @ (n, w) # ys\<rparr>" key] by auto
  then obtain p where p: "closest ?m (Md5_32 key) p" "?m p = Some a" by (auto simp: Lookup_Build)
  have "closest ?m' (Md5_32 key) p \<and> ?m' p = Some a" if "a \<noteq> n"
    by (rule closest_restrict [OF p that]) (use owner_without in blast)+
  then have "ring_Lookup key (Build (c\<lparr>ch_nodes := xs @ ys\<rparr>)) = Some a" if "a \<noteq> n" using that by (auto simp: Lookup_Build)
  then show ?thesis using a by (cases "a = n") simp_all
qed

lemma add_members_fold:
  "ch_nodes (fst (foldl add_member (r, addr) ms)) =
     ch_nodes r @ map (\<lambda>m. (mi_id m, if member_weight m < 1 then 1 else member_weight m)) (filter RingEligible ms)"
  "snd (foldl add_member (r, addr) ms) = addr ++ map_of (rev (map (\<lambda>m. (mi_id m, member_address m)) (filter RingEligible ms)))"
  by (induction ms arbitrary: r addr) (simp_all add: add_member_def AddNode_def)

text \<open>
  C39: Routing. After adopting a membership, a key is routed to the address of an eligible member
  whenever there is one, and to no address otherwise; degraded members receive no key.
\<close>

theorem Route_reaches_member:
  "if filter RingEligible ms = [] then Route key (SetMembers ms kc) = []
   else \<exists>m. m \<in> set ms \<and> RingEligible m \<and> ring_Lookup key (kc_ring (SetMembers ms kc)) = Some (mi_id m) \<and>
     Route key (SetMembers ms kc) = member_address m"
proof -
  let ?f = "foldl add_member (empty_ring, Map.empty) ms"
  have k: "kc_ring (SetMembers ms kc) = Build (fst ?f)" "kc_addr (SetMembers ms kc) = snd ?f"
    by (simp_all add: SetMembers_def AdoptRing_def split: prod.split)
  have n: "ch_nodes (fst ?f) = map (\<lambda>m. (mi_id m, if member_weight m < 1 then 1 else member_weight m)) (filter RingEligible ms)"
    by (simp add: add_members_fold empty_ring_def)
  have a: "snd ?f = map_of (rev (map (\<lambda>m. (mi_id m, member_address m)) (filter RingEligible ms)))" by (simp add: add_members_fold)
  show ?thesis
  proof (cases "filter RingEligible ms = []")
    case True
    then have "ring_Lookup key (Build (fst ?f)) = None" using n by (simp add: ring_Lookup_def Build_def)
    then show ?thesis using True by (simp add: Route_def k)
  next
    case False
    then obtain name where l: "ring_Lookup key (Build (fst ?f)) = Some name" using Lookup_exists [of "fst ?f" key] n by auto
    then have "name \<in> fst ` set (ch_nodes (fst ?f))" using owner_Some by (auto simp: Lookup_Build)
    then have "name \<in> mi_id ` {m \<in> set ms. RingEligible m}" by (auto simp: n)
    then have "map_of (rev (map (\<lambda>m. (mi_id m, member_address m)) (filter RingEligible ms))) name \<noteq> None"
      by (auto simp: map_of_eq_None_iff image_image)
    then obtain ad where ad: "snd ?f name = Some ad" using a by auto
    have "map_of (rev (map (\<lambda>m. (mi_id m, member_address m)) (filter RingEligible ms))) name = Some ad" using ad a by simp
    from map_of_SomeD [OF this] obtain m where "m \<in> set ms" "RingEligible m" "name = mi_id m" "ad = member_address m" by auto
    then show ?thesis using False l ad by (auto simp: Route_def k)
  qed
qed

end
