(* ===== verification/Key_Map.thy ===== *)
theory Key_Map
  imports Digests Kv_Types "HOL-Library.Monad_Syntax"
begin

text \<open>
  The identity of a block: the canonical namespace and object descriptors of \<^verbatim>\<open>common/namespace.cc\<close> and
  the derivation of block keys in \<^verbatim>\<open>client/key_map.h\<close>. A validation returns the message of its first
  failing check, or \<open>None\<close> where the code returns \<^verbatim>\<open>kOk\<close>.
\<close>

subsection \<open>Descriptors\<close>

datatype PoolKind = kAttention | kMla | kMamba | kSwa | kIndexer | kDraftAttention | kDraftMla | kDraftIndexer | kCustom

fun pool_kind_value :: "PoolKind \<Rightarrow> u16" where
  "pool_kind_value kAttention = 1"
| "pool_kind_value kMla = 2"
| "pool_kind_value kMamba = 3"
| "pool_kind_value kSwa = 4"
| "pool_kind_value kIndexer = 5"
| "pool_kind_value kDraftAttention = 6"
| "pool_kind_value kDraftMla = 7"
| "pool_kind_value kDraftIndexer = 8"
| "pool_kind_value kCustom = 65535"

text \<open>The rank is a signed 32-bit integer, read by \<^const>\<open>sint\<close>.\<close>

record RankCoordinate =
  rc_world_size :: u32
  rc_rank :: u32

record NamespaceDescriptor =
  ns_tenant_id :: bytes
  ns_model_id :: bytes
  ns_model_revision :: bytes
  ns_pool_kind :: PoolKind
  ns_pool_name :: bytes
  ns_dtype :: bytes
  ns_layout_fingerprint :: u64
  ns_block_tokens :: u32
  ns_group_id :: u32
  ns_layer_begin :: u32
  ns_layer_count :: u32
  ns_tp :: RankCoordinate
  ns_dp :: RankCoordinate
  ns_pp :: RankCoordinate

record ObjectDescriptor =
  od_logical_key :: bytes
  od_component :: bytes
  od_chunk_index :: u32
  od_chunk_count :: u32

definition kMaxFieldBytes :: nat where
  "kMaxFieldBytes = 2 ^ 20"

definition kMaxComponentBytes :: nat where
  "kMaxComponentBytes = 256"

definition ValidRequiredField :: "bytes \<Rightarrow> string \<Rightarrow> string option" where
  "ValidRequiredField v name =
     (if v = [] then Some (name @ '' must not be empty'')
      else if length v > kMaxFieldBytes then Some (name @ '' exceeds 1 MiB'')
      else None)"

fun first_error :: "string option list \<Rightarrow> string option" where
  "first_error [] = None"
| "first_error (Some e # es) = Some e"
| "first_error (None # es) = first_error es"

definition rank_Validate :: "string \<Rightarrow> RankCoordinate \<Rightarrow> string option" where
  "rank_Validate axis c =
     (if rc_world_size c = 0 then Some (axis @ '' world_size must be positive'')
      else if sint (rc_rank c) < - 1 \<or> (sint (rc_rank c) \<ge> 0 \<and> rc_rank c \<ge> rc_world_size c)
      then Some (axis @ '' rank must be -1 or within world_size'')
      else None)"

definition namespace_Validate :: "NamespaceDescriptor \<Rightarrow> string option" where
  "namespace_Validate ns = first_error
     [ValidRequiredField (ns_tenant_id ns) ''tenant_id'',
      ValidRequiredField (ns_model_id ns) ''model_id'',
      ValidRequiredField (ns_model_revision ns) ''model_revision'',
      ValidRequiredField (ns_pool_name ns) ''pool_name'',
      ValidRequiredField (ns_dtype ns) ''dtype'',
      if ns_layout_fingerprint ns = 0 then Some ''layout_fingerprint must be nonzero'' else None,
      if ns_block_tokens ns = 0 then Some ''block_tokens must be positive'' else None,
      if ns_layer_count ns = 0 \<or> ns_layer_begin ns > - 1 - ns_layer_count ns
      then Some ''layer range must be nonempty and must not overflow'' else None,
      rank_Validate ''tp'' (ns_tp ns), rank_Validate ''dp'' (ns_dp ns), rank_Validate ''pp'' (ns_pp ns)]"

definition AppendU16 :: "u16 \<Rightarrow> bytes" where
  "AppendU16 v = le_bytes 2 v"

definition AppendU32 :: "u32 \<Rightarrow> bytes" where
  "AppendU32 v = le_bytes 4 v"

definition AppendU64 :: "u64 \<Rightarrow> bytes" where
  "AppendU64 v = le_bytes 8 v"

definition AppendString :: "bytes \<Rightarrow> bytes" where
  "AppendString v = AppendU32 (of_nat (length v)) @ v"

definition AppendRank :: "RankCoordinate \<Rightarrow> bytes" where
  "AppendRank c = AppendU32 (rc_world_size c) @ AppendU32 (rc_rank c)"

definition namespace_magic :: bytes where
  "namespace_magic = ascii ''DFKVNS'' @ [0, 2]"

definition namespace_Serialize :: "NamespaceDescriptor \<Rightarrow> bytes" where
  "namespace_Serialize ns =
     namespace_magic @ AppendString (ns_tenant_id ns) @ AppendString (ns_model_id ns) @ AppendString (ns_model_revision ns) @
     AppendU16 (pool_kind_value (ns_pool_kind ns)) @ AppendString (ns_pool_name ns) @ AppendString (ns_dtype ns) @
     AppendU64 (ns_layout_fingerprint ns) @ AppendU32 (ns_block_tokens ns) @ AppendU32 (ns_group_id ns) @
     AppendU32 (ns_layer_begin ns) @ AppendU32 (ns_layer_count ns) @
     AppendRank (ns_tp ns) @ AppendRank (ns_dp ns) @ AppendRank (ns_pp ns)"

definition object_Validate :: "ObjectDescriptor \<Rightarrow> string option" where
  "object_Validate od = first_error
     [ValidRequiredField (od_logical_key od) ''logical_key'', ValidRequiredField (od_component od) ''component'',
      if length (od_component od) > kMaxComponentBytes then Some ''component exceeds 256 bytes'' else None,
      if od_chunk_count od = 0 \<or> od_chunk_index od \<ge> od_chunk_count od
      then Some ''chunk_index must be within nonzero chunk_count'' else None]"

definition object_Serialize :: "NamespaceDescriptor \<Rightarrow> ObjectDescriptor \<Rightarrow> bytes" where
  "object_Serialize ns od =
     ascii ''DFKVOBJ2'' @ AppendString (namespace_Serialize ns) @ AppendString (od_logical_key od) @
     AppendString (od_component od) @ AppendU32 (od_chunk_index od) @ AppendU32 (od_chunk_count od)"

subsection \<open>The tenant of a namespace\<close>

text \<open>The cursor readers of \<^verbatim>\<open>CanonicalTenantIdentity\<close>: the bytes from the position on, and the position.\<close>

definition ns_read :: "nat \<Rightarrow> bytes \<Rightarrow> nat \<Rightarrow> ('a::len word \<times> nat) option" where
  "ns_read n s pos = (if pos > length s \<or> length s - pos < n then None else Some (le_word (take n (drop pos s)), pos + n))"

definition ns_field :: "bytes \<Rightarrow> nat \<Rightarrow> (nat \<times> nat \<times> nat) option" where
  "ns_field s pos = do {
     (n :: u32, pos) \<leftarrow> ns_read 4 s pos;
     if n = 0 \<or> unat n > 2 ^ 20 \<or> unat n > length s - pos then None
     else Some (pos, unat n, pos + unat n) }"

definition ns_axis :: "bytes \<Rightarrow> nat \<Rightarrow> nat option" where
  "ns_axis s pos = do {
     (world_size :: u32, pos) \<leftarrow> ns_read 4 s pos;
     (rank :: u32, pos) \<leftarrow> ns_read 4 s pos;
     if world_size = 0 \<or> (rank \<noteq> - 1 \<and> rank \<ge> world_size) then None else Some pos }"

definition ns_layers :: "bytes \<Rightarrow> nat \<Rightarrow> nat option" where
  "ns_layers s pos = do {
     (layout_fingerprint :: u64, pos) \<leftarrow> ns_read 8 s pos;
     (block_tokens :: u32, pos) \<leftarrow> ns_read 4 s pos;
     (group_id :: u32, pos) \<leftarrow> ns_read 4 s pos;
     (layer_begin :: u32, pos) \<leftarrow> ns_read 4 s pos;
     (layer_count :: u32, pos) \<leftarrow> ns_read 4 s pos;
     if layout_fingerprint = 0 \<or> block_tokens = 0 \<or> layer_count = 0 \<or> unat layer_begin + unat layer_count > UINT32_MAX
     then None else Some pos }"

definition ns_pool :: "bytes \<Rightarrow> nat \<Rightarrow> nat option" where
  "ns_pool s pos = do {
     (pool_kind :: u16, pos) \<leftarrow> ns_read 2 s pos;
     if (1 \<le> pool_kind \<and> pool_kind \<le> 8) \<or> pool_kind = 65535 then Some pos else None }"

definition CanonicalTenantIdentity :: "bytes \<Rightarrow> (nat \<times> nat) option" where
  "CanonicalTenantIdentity s =
     (if length s < 8 + 4 \<or> take 8 s \<noteq> namespace_magic then None
      else do {
        (first_offset, first_length, pos) \<leftarrow> ns_field s 8;
        (_, _, pos) \<leftarrow> ns_field s pos;
        (_, _, pos) \<leftarrow> ns_field s pos;
        pos \<leftarrow> ns_pool s pos;
        (_, _, pos) \<leftarrow> ns_field s pos;
        (_, _, pos) \<leftarrow> ns_field s pos;
        pos \<leftarrow> ns_layers s pos;
        pos \<leftarrow> ns_axis s pos;
        pos \<leftarrow> ns_axis s pos;
        pos \<leftarrow> ns_axis s pos;
        if pos \<noteq> length s then None else Some (first_offset, first_length) })"

subsection \<open>Block keys\<close>

text \<open>\<^verbatim>\<open>KeyDigestWord\<close>: eight bytes, most significant first.\<close>

definition KeyDigestWord :: "bytes \<Rightarrow> u64" where
  "KeyDigestWord bs = foldl (\<lambda>v b. push_bit 8 v OR ucast b) 0 (take 8 bs)"

definition tenant_input :: "bytes \<Rightarrow> bytes" where
  "tenant_input identity = ascii ''DFKVTENANT1'' @ AppendU64 (of_nat (length identity)) @ identity"

definition TenantHash :: "bytes \<Rightarrow> u64" where
  "TenantHash key_namespace =
     (let identity = (case CanonicalTenantIdentity key_namespace of
                        Some (off, len) \<Rightarrow> take len (drop off key_namespace)
                      | None \<Rightarrow> key_namespace)
      in KeyDigestWord (Sha256 (tenant_input identity)))"

definition key_input :: "bytes \<Rightarrow> bytes \<Rightarrow> bytes" where
  "key_input key_namespace object_key =
     ascii ''DFKVKEY2'' @ AppendU64 (of_nat (length key_namespace)) @ key_namespace @
     AppendU64 (of_nat (length object_key)) @ object_key"

definition ToBlockKey :: "bytes \<Rightarrow> bytes \<Rightarrow> BlockKey" where
  "ToBlockKey key_namespace object_key =
     (let digest = Sha256 (key_input key_namespace object_key)
      in \<lparr>digest_hi = KeyDigestWord digest, digest_lo = KeyDigestWord (drop 8 digest), tenant_hash = TenantHash key_namespace\<rparr>)"

subsection \<open>Reading what was serialised\<close>

text \<open>The cursor stands before the bytes \<open>r\<close>.\<close>

definition reads :: "bytes \<Rightarrow> nat \<Rightarrow> bytes \<Rightarrow> bool" where
  "reads s pos r \<longleftrightarrow> pos \<le> length s \<and> drop pos s = r"

lemma reads_length: "reads s pos r \<Longrightarrow> length s = pos + length r"
  by (auto simp: reads_def)

lemma reads_append: "reads s pos (a @ r) \<Longrightarrow> n = length a \<Longrightarrow> take n (drop pos s) = a \<and> reads s (pos + n) r"
proof -
  assume a: "reads s pos (a @ r)" "n = length a"
  have "drop (pos + n) s = drop n (drop pos s)" by (simp add: add.commute)
  also have "\<dots> = r" using a by (simp add: reads_def)
  finally show ?thesis using a reads_length [OF a(1)] by (simp add: reads_def)
qed

lemma ns_read_at:
  assumes "reads s pos (le_bytes n v @ r)" "LENGTH('a) \<le> 8 * n"
  shows "ns_read n s pos = Some (v :: 'a::len word, pos + n) \<and> reads s (pos + n) r"
  using reads_append [OF assms(1)] reads_length [OF assms(1)] assms(2) by (simp add: ns_read_def le_word_le_bytes)

lemma ns_field_at:
  assumes r: "reads s pos (AppendString f @ r)" and f: "f \<noteq> []" "length f \<le> 2 ^ 20"
  shows "ns_field s pos = Some (pos + 4, length f, pos + 4 + length f) \<and> reads s (pos + 4 + length f) r"
proof -
  have n: "unat (of_nat (length f) :: u32) = length f" using f(2) by (simp add: unat_of_nat)
  then have z: "(of_nat (length f) :: u32) \<noteq> 0" using f(1) by (metis length_0_conv unsigned_0)
  from r have "reads s pos (le_bytes 4 (of_nat (length f) :: u32) @ f @ r)" by (simp add: AppendString_def AppendU32_def)
  from ns_read_at [OF this] have k: "ns_read 4 s pos = Some (of_nat (length f) :: u32, pos + 4)" "reads s (pos + 4) (f @ r)" by simp_all
  show ?thesis using reads_append [OF k(2) refl] reads_length [OF k(2)] f z n by (simp add: ns_field_def k(1))
qed

lemma ns_axis_at:
  assumes r: "reads s pos (AppendRank c @ r)" and c: "rank_Validate axis c = None"
  shows "ns_axis s pos = Some (pos + 8) \<and> reads s (pos + 8) r"
proof -
  from r have "reads s pos (le_bytes 4 (rc_world_size c) @ le_bytes 4 (rc_rank c) @ r)" by (simp add: AppendRank_def AppendU32_def)
  from ns_read_at [OF this] have w: "ns_read 4 s pos = Some (rc_world_size c, pos + 4)" "reads s (pos + 4) (le_bytes 4 (rc_rank c) @ r)" by simp_all
  from ns_read_at [OF w(2)] have k: "ns_read 4 s (pos + 4) = Some (rc_rank c, pos + 8)" "reads s (pos + 8) r" by (simp_all add: add.assoc)
  have "rc_rank c = - 1 \<or> rc_rank c < rc_world_size c"
  proof (cases "sint (rc_rank c) < 0")
    case True
    then have "sint (rc_rank c) = sint (- 1 :: u32)" using c by (auto simp: rank_Validate_def split: if_splits)
    then show ?thesis using signed_word_eqI [of "rc_rank c" "- 1"] by blast
  qed (use c in \<open>auto simp: rank_Validate_def split: if_splits\<close>)
  moreover have "rc_world_size c \<noteq> 0" using c by (auto simp: rank_Validate_def split: if_splits)
  ultimately show ?thesis using k by (auto simp: ns_axis_def w(1))
qed

lemma ns_pool_at:
  assumes "reads s pos (AppendU16 (pool_kind_value k) @ r)"
  shows "ns_pool s pos = Some (pos + 2) \<and> reads s (pos + 2) r"
proof -
  from ns_read_at [OF assms [unfolded AppendU16_def]] have "ns_read 2 s pos = Some (pool_kind_value k, pos + 2)" "reads s (pos + 2) r" by simp_all
  then show ?thesis by (cases k) (simp_all add: ns_pool_def)
qed

lemma layer_range:
  fixes b c :: u32
  assumes "b \<le> - 1 - c"
  shows "unat b + unat c \<le> UINT32_MAX"
proof -
  have m: "(- 1 :: u32) = 4294967295" by simp
  have c: "unat c < 2 ^ LENGTH(32)" by (rule unsigned_less)
  then have "unat (- 1 - c) = 2 ^ 32 - 1 - unat c" unfolding m by (simp add: unat_sub_if')
  with c show ?thesis using assms by (simp add: word_le_nat_alt UINT32_MAX_def)
qed

lemma ns_layers_at:
  assumes r: "reads s pos (AppendU64 l @ AppendU32 t @ AppendU32 g @ AppendU32 b @ AppendU32 c @ r)"
    and v: "l \<noteq> 0" "t \<noteq> 0" "c \<noteq> 0" "b \<le> - 1 - c"
  shows "ns_layers s pos = Some (pos + 24) \<and> reads s (pos + 24) r"
proof -
  note A = AppendU64_def AppendU32_def
  from ns_read_at [OF r [unfolded A]] have 1: "ns_read 8 s pos = Some (l, pos + 8)"
    "reads s (pos + 8) (le_bytes 4 t @ le_bytes 4 g @ le_bytes 4 b @ le_bytes 4 c @ r)" by simp_all
  from ns_read_at [OF 1(2)] have 2: "ns_read 4 s (pos + 8) = Some (t, pos + 12)"
    "reads s (pos + 12) (le_bytes 4 g @ le_bytes 4 b @ le_bytes 4 c @ r)" by (simp_all add: add.assoc)
  from ns_read_at [OF 2(2)] have 3: "ns_read 4 s (pos + 12) = Some (g, pos + 16)" "reads s (pos + 16) (le_bytes 4 b @ le_bytes 4 c @ r)"
    by (simp_all add: add.assoc)
  from ns_read_at [OF 3(2)] have 4: "ns_read 4 s (pos + 16) = Some (b, pos + 20)" "reads s (pos + 20) (le_bytes 4 c @ r)" by (simp_all add: add.assoc)
  from ns_read_at [OF 4(2)] have 5: "ns_read 4 s (pos + 20) = Some (c, pos + 24)" "reads s (pos + 24) r" by (simp_all add: add.assoc)
  show ?thesis using v layer_range [OF v(4)] 5(2) by (simp add: ns_layers_def 1(1) 2(1) 3(1) 4(1) 5(1) not_less)
qed

lemma first_error_None: "first_error es = None \<longleftrightarrow> set es \<subseteq> {None}"
  by (induction es rule: first_error.induct) auto

lemma field_valid: "ValidRequiredField v name = None \<Longrightarrow> v \<noteq> [] \<and> length v \<le> 2 ^ 20"
  by (auto simp: ValidRequiredField_def kMaxFieldBytes_def split: if_splits)

lemma namespace_valid:
  assumes "namespace_Validate ns = None"
  shows "ns_tenant_id ns \<noteq> []" "length (ns_tenant_id ns) \<le> 2 ^ 20" "ns_model_id ns \<noteq> []" "length (ns_model_id ns) \<le> 2 ^ 20"
    "ns_model_revision ns \<noteq> []" "length (ns_model_revision ns) \<le> 2 ^ 20" "ns_pool_name ns \<noteq> []" "length (ns_pool_name ns) \<le> 2 ^ 20"
    "ns_dtype ns \<noteq> []" "length (ns_dtype ns) \<le> 2 ^ 20"
    "ns_layout_fingerprint ns \<noteq> 0" "ns_block_tokens ns \<noteq> 0" "ns_layer_count ns \<noteq> 0" "ns_layer_begin ns \<le> - 1 - ns_layer_count ns"
    "rank_Validate ''tp'' (ns_tp ns) = None" "rank_Validate ''dp'' (ns_dp ns) = None" "rank_Validate ''pp'' (ns_pp ns) = None"
  using assms field_valid unfolding namespace_Validate_def first_error_None
  by (auto simp: not_less split: if_splits)

lemma Canonical_Serialize:
  assumes v: "namespace_Validate ns = None"
  shows "CanonicalTenantIdentity (namespace_Serialize ns) = Some (12, length (ns_tenant_id ns))"
    "take (length (ns_tenant_id ns)) (drop 12 (namespace_Serialize ns)) = ns_tenant_id ns"
proof -
  let ?s = "namespace_Serialize ns"
  note V = namespace_valid [OF v]
  have m: "length namespace_magic = 8" by (simp add: namespace_magic_def)
  have "reads ?s 0 ?s" by (simp add: reads_def)
  then have "reads ?s 0 (namespace_magic @ drop 8 ?s)" using m by (simp add: namespace_Serialize_def)
  from reads_append [OF this m [symmetric]] have s0: "take 8 ?s = namespace_magic" "reads ?s 8 (drop 8 ?s)" by simp_all
  have s1: "reads ?s 8 (AppendString (ns_tenant_id ns) @ AppendString (ns_model_id ns) @ AppendString (ns_model_revision ns) @
     AppendU16 (pool_kind_value (ns_pool_kind ns)) @ AppendString (ns_pool_name ns) @ AppendString (ns_dtype ns) @
     AppendU64 (ns_layout_fingerprint ns) @ AppendU32 (ns_block_tokens ns) @ AppendU32 (ns_group_id ns) @
     AppendU32 (ns_layer_begin ns) @ AppendU32 (ns_layer_count ns) @
     AppendRank (ns_tp ns) @ AppendRank (ns_dp ns) @ AppendRank (ns_pp ns) @ [])"
    unfolding reads_def using m by (simp add: namespace_Serialize_def)
  note s2 = ns_field_at [OF s1 V(1,2)] note s3 = ns_field_at [OF s2 [THEN conjunct2] V(3,4)]
  note s4 = ns_field_at [OF s3 [THEN conjunct2] V(5,6)] note s5 = ns_pool_at [OF s4 [THEN conjunct2]]
  note s6 = ns_field_at [OF s5 [THEN conjunct2] V(7,8)] note s7 = ns_field_at [OF s6 [THEN conjunct2] V(9,10)]
  note s8 = ns_layers_at [OF s7 [THEN conjunct2] V(11-14)] note s9 = ns_axis_at [OF s8 [THEN conjunct2] V(15)]
  note s10 = ns_axis_at [OF s9 [THEN conjunct2] V(16)] note s11 = ns_axis_at [OF s10 [THEN conjunct2] V(17)]
  have len: "\<not> (length ?s < 8 + 4)" using reads_length [OF s1] by (simp add: AppendString_def AppendU32_def)
  show "CanonicalTenantIdentity ?s = Some (12, length (ns_tenant_id ns))"
    using s2 s3 s4 s5 s6 s7 s8 s9 s10 s11 reads_length [OF s11 [THEN conjunct2]] s0(1) len
    by (simp add: CanonicalTenantIdentity_def)
  from s1 have "reads ?s 8 (AppendU32 (of_nat (length (ns_tenant_id ns))) @ ns_tenant_id ns @ drop (12 + length (ns_tenant_id ns)) ?s)"
    using s2 unfolding reads_def AppendString_def by (simp add: AppendU32_def)
  from reads_append [OF this, of 4] have "reads ?s 12 (ns_tenant_id ns @ drop (12 + length (ns_tenant_id ns)) ?s)" by (simp add: AppendU32_def)
  from reads_append [OF this refl] show "take (length (ns_tenant_id ns)) (drop 12 ?s) = ns_tenant_id ns" by simp
qed

lemma le_bytes_inject: "LENGTH('a) \<le> 8 * n \<Longrightarrow> le_bytes n a = le_bytes n b \<longleftrightarrow> a = b" for a b :: "'a::len word"
  by (metis le_word_le_bytes)

lemma Append_inject [simp]:
  "AppendU16 a @ r = AppendU16 b @ r' \<longleftrightarrow> a = b \<and> r = r'" "AppendU32 c @ r = AppendU32 d @ r' \<longleftrightarrow> c = d \<and> r = r'"
  "AppendU64 e @ r = AppendU64 f @ r' \<longleftrightarrow> e = f \<and> r = r'"
  by (simp_all add: AppendU16_def AppendU32_def AppendU64_def le_bytes_inject)

lemma AppendRank_inject [simp]: "AppendRank c @ r = AppendRank d @ r' \<longleftrightarrow> c = d \<and> r = r'"
  by (auto simp: AppendRank_def)

lemma AppendString_inject:
  assumes "length a \<le> 2 ^ 20" "length b \<le> 2 ^ 20"
  shows "AppendString a @ r = AppendString b @ r' \<longleftrightarrow> a = b \<and> r = r'"
proof -
  have "unat (of_nat (length a) :: u32) = length a" "unat (of_nat (length b) :: u32) = length b" using assms by (simp_all add: unat_of_nat)
  then have "(of_nat (length a) :: u32) = of_nat (length b) \<longleftrightarrow> length a = length b" by metis
  then show ?thesis by (auto simp: AppendString_def)
qed

lemma pool_kind_inject: "pool_kind_value a = pool_kind_value b \<longleftrightarrow> a = b"
  by (cases a; cases b; simp)

lemma Serialize_inject:
  assumes "namespace_Validate a = None" "namespace_Validate b = None"
  shows "namespace_Serialize a @ r = namespace_Serialize b @ r' \<longleftrightarrow> a = b \<and> r = r'"
  unfolding namespace_Serialize_def append_assoc
  using namespace_valid [OF assms(1)] namespace_valid [OF assms(2)]
  by (auto simp: AppendString_inject pool_kind_inject)

lemma length_Serialize:
  assumes "namespace_Validate ns = None"
  shows "length (namespace_Serialize ns) < 2 ^ 64"
  using namespace_valid(2,4,6,8,10) [OF assms]
  by (simp add: namespace_Serialize_def namespace_magic_def AppendString_def AppendRank_def AppendU16_def AppendU32_def AppendU64_def)

lemma length_prefix_inject:
  assumes "length a < 2 ^ 64" "length b < 2 ^ 64"
  shows "AppendU64 (of_nat (length a)) @ a @ r = AppendU64 (of_nat (length b)) @ b @ r' \<longleftrightarrow> a = b \<and> r = r'"
proof -
  have "unat (of_nat (length a) :: u64) = length a" "unat (of_nat (length b) :: u64) = length b" using assms by (simp_all add: unat_of_nat)
  then have "(of_nat (length a) :: u64) = of_nat (length b) \<longleftrightarrow> length a = length b" by metis
  then show ?thesis by auto
qed

subsection \<open>Properties\<close>

definition sample_namespace :: NamespaceDescriptor where
  "sample_namespace = \<lparr>ns_tenant_id = [116], ns_model_id = [109], ns_model_revision = [49], ns_pool_kind = kMla, ns_pool_name = [112],
     ns_dtype = [98], ns_layout_fingerprint = 7, ns_block_tokens = 64, ns_group_id = 0, ns_layer_begin = 0, ns_layer_count = 61,
     ns_tp = \<lparr>rc_world_size = 8, rc_rank = 3\<rparr>, ns_dp = \<lparr>rc_world_size = 1, rc_rank = - 1\<rparr>, ns_pp = \<lparr>rc_world_size = 1, rc_rank = 0\<rparr>\<rparr>"

text \<open>
  C40: Block identity. For valid namespaces, the hashed input of a key determines the namespace
  descriptor and the object key, so two different blocks can only share a block key through a
  collision of the truncated SHA-256 digest; the serialised namespace is recognised as canonical, so that the tenant part
  of every key of the namespace is the digest of the tenant name alone, and inputs of different
  tenants differ.
\<close>

theorem block_identity:
  assumes a: "namespace_Validate ns = None" and b: "namespace_Validate ns' = None"
  shows "(key_input (namespace_Serialize ns) obj = key_input (namespace_Serialize ns') obj' \<longleftrightarrow> ns = ns' \<and> obj = obj') \<and>
    CanonicalTenantIdentity (namespace_Serialize ns) = Some (12, length (ns_tenant_id ns)) \<and>
    tenant_hash (ToBlockKey (namespace_Serialize ns) obj) = KeyDigestWord (Sha256 (tenant_input (ns_tenant_id ns))) \<and>
    (tenant_input (ns_tenant_id ns) = tenant_input (ns_tenant_id ns') \<longleftrightarrow> ns_tenant_id ns = ns_tenant_id ns')"
proof (intro conjI)
  show "key_input (namespace_Serialize ns) obj = key_input (namespace_Serialize ns') obj' \<longleftrightarrow> ns = ns' \<and> obj = obj'"
    unfolding key_input_def append_assoc same_append_eq length_prefix_inject [OF length_Serialize [OF a] length_Serialize [OF b]]
    using Serialize_inject [OF a b, of "[]" "[]"] by auto
  show "CanonicalTenantIdentity (namespace_Serialize ns) = Some (12, length (ns_tenant_id ns))" by (rule Canonical_Serialize(1) [OF a])
  show "tenant_hash (ToBlockKey (namespace_Serialize ns) obj) = KeyDigestWord (Sha256 (tenant_input (ns_tenant_id ns)))"
    by (simp add: ToBlockKey_def TenantHash_def Let_def Canonical_Serialize [OF a])
  have "length (ns_tenant_id ns) < 2 ^ 64" "length (ns_tenant_id ns') < 2 ^ 64"
    using namespace_valid(2) [OF a] namespace_valid(2) [OF b] by simp_all
  from length_prefix_inject [OF this, of "[]" "[]"]
  show "tenant_input (ns_tenant_id ns) = tenant_input (ns_tenant_id ns') \<longleftrightarrow> ns_tenant_id ns = ns_tenant_id ns'" by (simp add: tenant_input_def)
qed

theorem block_identity_witness:
  "namespace_Validate sample_namespace = None \<and>
   key_input (namespace_Serialize sample_namespace) [1] \<noteq> key_input (namespace_Serialize sample_namespace) [1, 2] \<and>
   CanonicalTenantIdentity (namespace_Serialize sample_namespace) = Some (12, 1)"
proof -
  have v: "namespace_Validate sample_namespace = None"
    by (simp add: sample_namespace_def namespace_Validate_def ValidRequiredField_def kMaxFieldBytes_def rank_Validate_def)
  from block_identity [OF v v, of "[1]" "[1, 2]"] v show ?thesis by (simp add: sample_namespace_def)
qed

end
