(* ===== verification/Spec2Isabelle.thy ===== *)
theory Spec2Isabelle
  imports Prelude Kv_Types Flat_Key_Index Slab_Properties Wire Rdma_Protocol Rail_Select Membership Mds_Client Resource_Budget Peer_Health Con_Hash Key_Map
begin

text \<open>
  A verification development for DingoCache (dfkv), a distributed key-value cache for inference
  caches, whose implementation is under \<^verbatim>\<open>src/src\<close>. Paths below are relative to that directory.

  \<^bold>\<open>The program.\<close> Cache nodes (\<^verbatim>\<open>cache/\<close>) keep blocks, addressed by a 24-byte \<^verbatim>\<open>BlockKey\<close>, in fixed slots of
  a RAM arena and of disk extents; both levels place blocks with \<^verbatim>\<open>SlabAllocator\<close>. Clients (\<^verbatim>\<open>client/\<close>)
  pick a node per key and talk to it over TCP or RDMA (\<^verbatim>\<open>transport/\<close>) with one request and one response
  prefix per operation. Nodes and clients learn about each other through the metadata service
  (\<^verbatim>\<open>mds/\<close>), a stateless front of etcd: nodes register and heartbeat under a lease, clients poll the
  member list and rebuild their ring when its epoch changes.

  \<^bold>\<open>Conventions.\<close> Byte strings are lists of 8-bit words. Integers whose wrap-around matters are words of
  the source's width; sizes and table indices of the allocator are naturals, with the 32-bit sentinel
  \<^verbatim>\<open>kNoSlot\<close> kept as a number. A method that changes an object takes the object as its last argument and
  returns it updated; errors are values of \<^verbatim>\<open>option\<close> or of the source's own enumerations. A mutex-protected
  method is one atomic step; a method that releases its lock (waiting for a probe, for resources) is
  one step per critical section. Code outside the repository is a parameter: the HTTP transport of the etcd
  client, the cost that the allocator's options leave to floating point, the clocks. Loops are total
  functions with a measure, so no fuel is used; where the source bounds a loop (the CLOCK scan, the
  two rounds of \<^verbatim>\<open>Put\<close>, the 64 levels of the JSON reader) the model has the same bound.

  \<^bold>\<open>Theories and sources.\<close>

  \<^item> \<open>Prelude\<close>: word types, little-endian codecs (\<^verbatim>\<open>utils/net_util.h\<close>), list update lemmas.
  \<^item> \<open>Kv_Types\<close>: \<^verbatim>\<open>common/kv_types.h\<close>, \<^verbatim>\<open>common/status.h\<close>. Block keys and their file names.
  \<^item> \<open>Flat_Key_Index\<close>: the open-addressing table of \<^verbatim>\<open>cache/slab_allocator.cc\<close>. It implements a map
    (locale \<open>key_index\<close>) and keeps its load bound.
  \<^item> \<open>Intrusive_List\<close>, \<open>Slab_State\<close>, \<open>Slab_Free_Lists\<close>, \<open>Slab_Ops\<close>: the rest of \<^verbatim>\<open>SlabAllocator\<close>, every
    method. \<open>Slab_Inv\<close> states the invariant (rings, extent lists, free lists, index, accounts);
    \<open>Slab_Free\<close> to \<open>Slab_Restore\<close> show, operation by operation, that it is kept and what happens to
    the abstract content \<open>residents\<close>, the map from keys to placement, length, pins and protection.
    \<open>Slab_Machine\<close> collects this into a step relation and a refinement of an abstract cache, and
    \<open>Slab_Properties\<close> has the guarantees: no operation moves a pinned or protected block, placements
    never overlap, accounts are exact, \<^verbatim>\<open>Put\<close> fails only when nothing can be evicted, a removal of a
    pinned block is carried out by its last unpin, a protection ends when due, a restore is all or nothing.
  \<^item> \<open>Wire\<close>: \<^verbatim>\<open>transport/wire.h\<close>, \<^verbatim>\<open>transport/wire_legacy.h\<close>, \<^verbatim>\<open>utils/wire_limits.h\<close>: request and response
    prefixes of both protocol generations, decoded exactly when well-formed and within limits.
  \<^item> \<open>Rdma_Protocol\<close>: \<^verbatim>\<open>transport/dev_frame.h\<close>, \<^verbatim>\<open>transport/rdma_protocol.h\<close>: bootstrap frames, receive
    segment descriptors, slot geometry.
  \<^item> \<open>Rail_Select\<close>: \<^verbatim>\<open>transport/rail_select.h\<close>: tier masks, topology snapshots with publication tokens,
    credits, quarantine and recovery probes of rails. The quarantine holds against every admission and
    completion that follows a failure, and a refusal is characterised exactly, the wrap of the load
    score included.
  \<^item> \<open>Resource_Budget\<close>: \<^verbatim>\<open>transport/rdma_resource_budget.h\<close>: admission against a four-dimensional limit.
  \<^item> \<open>Membership\<close>: \<^verbatim>\<open>common/membership.h\<close>: member lists with tagged extensions and their epochs.
  \<^item> \<open>Json_Min\<close>, \<open>Etcd_Client\<close>: \<^verbatim>\<open>utils/json_min.h\<close>, \<^verbatim>\<open>utils/base64.h\<close>, \<^verbatim>\<open>mds/etcd_client.cc\<close>: the reader
    ends and reads back what was printed; a prefix range over a store that answers with a document of
    its pairs returns exactly the pairs under the prefix.
  \<^item> \<open>Mds_Server\<close>: \<^verbatim>\<open>mds/mds_server.cc\<close>, \<^verbatim>\<open>mds/mds_proto.h\<close>: registration, lists, aggregates, the reachability
    cache and the framing loop.
  \<^item> \<open>Mds_Client\<close>: \<^verbatim>\<open>mds/mds_endpoints.h\<close>, \<^verbatim>\<open>mds/mds_member_poller.cc\<close>, \<^verbatim>\<open>mds/mds_registrar.cc\<close>: endpoint
    choice, the guard against implausible views, polling and heartbeats.
  \<^item> \<open>Digests\<close>: \<^verbatim>\<open>utils/md5.h\<close>, \<^verbatim>\<open>utils/sha256.h\<close>: both digests fold their compression over the padded message.
  \<^item> \<open>Con_Hash\<close>: \<^verbatim>\<open>utils/con_hash.cc\<close> and the ring of \<^verbatim>\<open>client/kv_client.cc\<close>: a key goes to the owner of the closest
    point clockwise, a membership change moves only the keys of the node that came or went, and a
    key reaches an eligible member whenever there is one.
  \<^item> \<open>Key_Map\<close>: \<^verbatim>\<open>common/namespace.cc\<close>, \<^verbatim>\<open>client/key_map.h\<close>: namespace descriptors and block keys; the hashed input
    determines the block, and the tenant part depends on the tenant alone.
  \<^item> \<open>Peer_Health\<close>: \<^verbatim>\<open>client/peer_health.h\<close>, \<^verbatim>\<open>client/group_shard.h\<close>: cooldown of failing peers in
    terms of clocks and streaks, and the split of every group of a batch into shards.

  \<^bold>\<open>Not modelled.\<close> Threads, sockets, verbs, io_uring, CUDA and file I/O (\<^verbatim>\<open>cache/rdma_server.cc\<close>,
  \<^verbatim>\<open>cache/uring_reader.h\<close>, \<^verbatim>\<open>transport/rdma_transport.cc\<close>, \<^verbatim>\<open>transport/rdma_verbs.cc\<close>, \<^verbatim>\<open>transport/tcp_transport.cc\<close>,
  \<^verbatim>\<open>client/cuda_ipc.cc\<close> and their like): their behaviour is that of the kernel and of vendor libraries.
  The RAM tier (\<^verbatim>\<open>cache/ram_tier.cc\<close>) and the disk store (\<^verbatim>\<open>cache/disk_slab_store.cc\<close>, \<^verbatim>\<open>cache/kv_store.cc\<close>) run
  protocols between worker threads on top of the allocator; only the allocator is modelled. Of
  \<^verbatim>\<open>cache/kv_node_server.cc\<close> only the parsing of the retention payload is modelled, of
  \<^verbatim>\<open>client/kv_client.cc\<close> only the ring.
  Metrics rendering, logging, command-line mains, the tools, the Python integration and the
  deployment scripts are left out.
\<close>

text \<open>
  C3: The block file name is a faithful printed form of a block key: a string parses to a key
  exactly when it is that key's file name, so distinct keys never share a file and every file
  name written by the cache is read back as the key that wrote it.
\<close>

theorem ParseFilename_iff_Filename: "ParseFilename f = Some k \<longleftrightarrow> f = Filename k"
  using ParseFilename_Filename Filename_ParseFilename by blast

end
